(* ===== verification/Mykv_Prelude.thy ===== *)
theory Mykv_Prelude
  imports Main "HOL-Library.Word" "HOL-Library.List_Lexorder" "HOL-Library.Monad_Syntax"
begin

text \<open>
  Shared vocabulary of the development: the machine types of the Go source
  (\<open>byte\<close>, \<open>[]byte\<close>, \<open>pgnum\<close>), the error values of \<^verbatim>\<open>const.go\<close> and the run-time
  panics of Go as one datatype, results as sums, the state-and-error composition in which
  the transaction code is written, and the generic facts on lists and buffers that every
  codec proof uses (collected in \<open>buf_simps\<close>).
\<close>

named_theorems buf_simps "reads and writes of byte buffers"
named_theorems mem_simps "reads and writes of slice memory"

section \<open>Types\<close>

type_synonym byte = "8 word"
type_synonym bytes = "byte list"
type_synonym pgnum = "64 word"

text \<open>
  The error values of the program. \<open>Panic\<close> is a Go run-time panic (an index or a slice
  bound out of range, a nil dereference); the others are returned \<open>error\<close> values.
\<close>

datatype error =
    ErrWriteInsideReadTx
  | ErrInvalidOptions
  | ErrInvalidDBFile
  | ErrItemTooLarge
  | ErrIO
  | ErrInvalidWALPageSize
  | ErrInvalidWALMagic
  | ErrUnsupportedWALVersion
  | ErrWALPageSizeMismatch
  | ErrWALChecksumMismatch
  | ErrCollectionNotFound
  | ErrUnknownOperation
  | Panic

type_synonym 'a res = "error + 'a"

text \<open>
  A stateful operation that may return an error (the state it leaves behind is kept, as in
  Go) or may not return at all (\<open>None\<close>: a search over a cyclic page graph).
\<close>

type_synonym ('s, 'a) m = "'s \<Rightarrow> ('a res \<times> 's) option"

section \<open>Sequencing\<close>

definition bindR :: "'a res \<Rightarrow> ('a \<Rightarrow> 'b res) \<Rightarrow> 'b res" where
  "bindR r f = (case r of Inl e \<Rightarrow> Inl e | Inr x \<Rightarrow> f x)"

lemma bindR_simps [simp]:
  "bindR (Inl e) f = Inl e"
  "bindR (Inr x) f = f x"
  by (simp_all add: bindR_def)

lemma bindR_Inr_iff: "bindR r f = Inr y \<longleftrightarrow> (\<exists>x. r = Inr x \<and> f x = Inr y)"
  by (cases r) auto

definition or_panic :: "'a option \<Rightarrow> 'a res" where
  "or_panic x = (case x of None \<Rightarrow> Inl Panic | Some y \<Rightarrow> Inr y)"

lemma or_panic_simps [simp]:
  "or_panic None = Inl Panic"
  "or_panic (Some y) = Inr y"
  by (simp_all add: or_panic_def)

lemma or_panic_Inr_iff [simp]: "or_panic x = Inr y \<longleftrightarrow> x = Some y"
  by (cases x) auto

definition returnM :: "'a \<Rightarrow> ('s, 'a) m" where
  "returnM x s = Some (Inr x, s)"

definition failM :: "error \<Rightarrow> ('s, 'a) m" where
  "failM e s = Some (Inl e, s)"

definition liftM :: "'a res \<Rightarrow> ('s, 'a) m" where
  "liftM r s = Some (r, s)"

definition bindM :: "('s, 'a) m \<Rightarrow> ('a \<Rightarrow> ('s, 'b) m) \<Rightarrow> ('s, 'b) m" where
  "bindM f g s =
     (case f s of None \<Rightarrow> None
      | Some (Inl e, s') \<Rightarrow> Some (Inl e, s')
      | Some (Inr x, s') \<Rightarrow> g x s')"

lemma returnM_apply [simp]: "returnM x s = Some (Inr x, s)"
  by (simp add: returnM_def)

lemma failM_apply [simp]: "failM e s = Some (Inl e, s)"
  by (simp add: failM_def)

lemma liftM_apply [simp]: "liftM r s = Some (r, s)"
  by (simp add: liftM_def)

lemma bindM_Inr: "f s = Some (Inr x, s') \<Longrightarrow> bindM f g s = g x s'"
  by (simp add: bindM_def)

lemma bindM_Inl: "f s = Some (Inl e, s') \<Longrightarrow> bindM f g s = Some (Inl e, s')"
  by (simp add: bindM_def)

lemma bindM_basic [simp]:
  "bindM (returnM x) g s = g x s"
  "bindM (failM e) g s = Some (Inl e, s)"
  "bindM (liftM (Inr x)) g s = g x s"
  "bindM (liftM (Inl e)) g s = Some (Inl e, s)"
  by (simp_all add: bindM_def)

lemma bindM_SomeE:
  assumes "bindM f g s = Some (Inr y, s'')"
  obtains x s' where "f s = Some (Inr x, s')" and "g x s' = Some (Inr y, s'')"
  using assms by (auto simp: bindM_def split: option.splits prod.splits sum.splits)

section \<open>Lists\<close>

definition insert_at :: "nat \<Rightarrow> 'a \<Rightarrow> 'a list \<Rightarrow> 'a list" where
  "insert_at i x xs = take i xs @ x # drop i xs"

definition delete_at :: "nat \<Rightarrow> 'a list \<Rightarrow> 'a list" where
  "delete_at i xs = take i xs @ drop (Suc i) xs"

lemma length_insert_at [simp]: "length (insert_at i x xs) = Suc (length xs)"
  by (simp add: insert_at_def)

lemma set_insert_at [simp]: "set (insert_at i x xs) = insert x (set xs)"
  unfolding insert_at_def by (metis Un_insert_right append_take_drop_id list.simps(15) set_append)

lemma insert_at_length [simp]: "insert_at (length xs) x xs = xs @ [x]"
  by (simp add: insert_at_def)

lemma length_delete_at [simp]: "i < length xs \<Longrightarrow> length (delete_at i xs) = length xs - 1"
  by (simp add: delete_at_def)

lemma take_list_update_drop:
  "i < length xs \<Longrightarrow> xs[i := x] = take i xs @ x # drop (Suc i) xs"
  by (rule upd_conv_take_nth_drop)

lemma nth_split: "i < length xs \<Longrightarrow> xs = take i xs @ xs ! i # drop (Suc i) xs"
  by (rule id_take_nth_drop)

section \<open>Byte buffers\<close>

text \<open>
  \<open>copy(buf[pos:], xs)\<close> and the fixed-size \<open>Put\<close> functions of \<open>encoding/binary\<close>, for
  writes that must fit: \<open>None\<close> is the panic of the bounds check, which precedes the write.
\<close>

definition put_at :: "bytes \<Rightarrow> nat \<Rightarrow> bytes \<Rightarrow> bytes option" where
  "put_at buf pos xs =
     (if pos + length xs \<le> length buf
      then Some (take pos buf @ xs @ drop (pos + length xs) buf) else None)"

text \<open>The slice expression \<open>buf[a:b]\<close>.\<close>

definition slice_ab :: "bytes \<Rightarrow> nat \<Rightarrow> nat \<Rightarrow> bytes option" where
  "slice_ab buf a b = (if a \<le> b \<and> b \<le> length buf then Some (take (b - a) (drop a buf)) else None)"

definition get_at :: "bytes \<Rightarrow> nat \<Rightarrow> nat \<Rightarrow> bytes option" where
  "get_at buf pos n = slice_ab buf pos (pos + n)"

lemma put_at_length: "put_at buf pos xs = Some buf' \<Longrightarrow> length buf' = length buf"
  by (auto simp: put_at_def split: if_splits)

lemma put_at_fits [buf_simps]:
  "pos + length xs \<le> length buf \<Longrightarrow>
   put_at buf pos xs = Some (take pos buf @ xs @ drop (pos + length xs) buf)"
  by (simp add: put_at_def)

lemma put_at_nth:
  assumes "put_at buf pos xs = Some buf'" and "j < length buf"
  shows "buf' ! j = (if pos \<le> j \<and> j < pos + length xs then xs ! (j - pos) else buf ! j)"
  using assms by (auto simp: put_at_def nth_append split: if_splits)

lemma get_at_Some:
  "get_at buf pos n = Some xs \<longleftrightarrow> pos + n \<le> length buf \<and> xs = take n (drop pos buf)"
  by (auto simp: get_at_def slice_ab_def)

lemma get_at_nth:
  "get_at buf pos n = Some xs \<longleftrightarrow>
     pos + n \<le> length buf \<and> length xs = n \<and> (\<forall>j < n. xs ! j = buf ! (pos + j))"
proof
  assume "get_at buf pos n = Some xs"
  then show "pos + n \<le> length buf \<and> length xs = n \<and> (\<forall>j < n. xs ! j = buf ! (pos + j))"
    by (auto simp: get_at_Some)
next
  assume "pos + n \<le> length buf \<and> length xs = n \<and> (\<forall>j < n. xs ! j = buf ! (pos + j))"
  then show "get_at buf pos n = Some xs"
    by (auto simp: get_at_Some intro!: nth_equalityI)
qed

text \<open>What was written is read back, and a write elsewhere is not seen.\<close>

lemma get_put_same [buf_simps]:
  assumes "put_at buf pos xs = Some buf'" and "n = length xs"
  shows "get_at buf' pos n = Some xs"
  using assms by (auto simp: put_at_def get_at_Some split: if_splits)

lemma get_at_cong:
  assumes "length buf' = length buf" and "\<And>j. pos \<le> j \<Longrightarrow> j < pos + n \<Longrightarrow> buf' ! j = buf ! j"
  shows "get_at buf' pos n = get_at buf pos n"
proof (cases "pos + n \<le> length buf")
  case True
  then have "take n (drop pos buf') = take n (drop pos buf)"
    using assms by (intro nth_equalityI) auto
  then show ?thesis using True assms(1) by (simp add: get_at_def slice_ab_def)
qed (use assms(1) in \<open>simp add: get_at_def slice_ab_def\<close>)

lemma get_put_other [buf_simps]:
  assumes "put_at buf pos xs = Some buf'" and "pos' + n \<le> pos \<or> pos + length xs \<le> pos'"
  shows "get_at buf' pos' n = get_at buf pos' n"
proof (cases "pos' + n \<le> length buf")
  case True
  show ?thesis
  proof (rule get_at_cong)
    show "length buf' = length buf" using assms(1) by (rule put_at_length)
    show "buf' ! j = buf ! j" if "pos' \<le> j" "j < pos' + n" for j
      using assms True that by (subst put_at_nth [OF assms(1)]) auto
  qed
qed (use put_at_length [OF assms(1)] in \<open>simp add: get_at_def slice_ab_def\<close>)

lemma put_at_append:
  "do { b \<leftarrow> put_at buf pos xs; put_at b (pos + length xs) ys } = put_at buf pos (xs @ ys)"
  by (auto simp: put_at_def add.commute add.left_commute split: bind_splits)

lemma put_at_prepend:
  "do { b \<leftarrow> put_at buf (pos + length xs) ys; put_at b pos xs } = put_at buf pos (xs @ ys)"
  by (auto simp: put_at_def add.commute add.left_commute split: bind_splits)

lemma get_at_append:
  assumes "get_at buf pos (length xs + n) = Some (xs @ ys)" and "length ys = n"
  shows "get_at buf pos (length xs) = Some xs" and "get_at buf (pos + length xs) n = Some ys"
proof -
  have *: "pos + (length xs + n) \<le> length buf" "take (length xs + n) (drop pos buf) = xs @ ys"
    using assms(1) by (auto simp: get_at_Some)
  have "take (length xs) (take (length xs + n) (drop pos buf)) = xs" unfolding *(2) by simp
  then show "get_at buf pos (length xs) = Some xs" using *(1) by (simp add: get_at_Some)
  have "drop (length xs) (take (length xs + n) (drop pos buf)) = ys" unfolding *(2) by simp
  then show "get_at buf (pos + length xs) n = Some ys"
    using *(1) by (simp add: get_at_Some drop_take add.commute)
qed

lemma get_at_take:
  "get_at buf pos n = Some xs \<Longrightarrow> m \<le> n \<Longrightarrow> get_at buf pos m = Some (take m xs)"
  by (auto simp: get_at_Some min_def)

section \<open>Little-endian integers\<close>

text \<open>\<open>binary.LittleEndian\<close>: \<open>PutUint16/32/64\<close> and \<open>Uint16/32/64\<close> over naturals.\<close>

fun le_encode :: "nat \<Rightarrow> nat \<Rightarrow> bytes" where
  "le_encode 0 x = []"
| "le_encode (Suc k) x = of_nat (x mod 256) # le_encode k (x div 256)"

fun le_decode :: "bytes \<Rightarrow> nat" where
  "le_decode [] = 0"
| "le_decode (b # bs) = unat b + 256 * le_decode bs"

lemma length_le_encode [simp]: "length (le_encode k x) = k"
  by (induction k arbitrary: x) auto

lemma unat_of_nat_byte: "unat (of_nat (x mod 256) :: byte) = x mod 256"
  by (simp add: unat_of_nat)

lemma le_decode_encode: "le_decode (le_encode k x) = x mod 256 ^ k"
proof (induction k arbitrary: x)
  case (Suc k)
  have "x mod 256 + 256 * (x div 256 mod 256 ^ k) = x mod (256 * 256 ^ k)"
    using mod_mult2_eq [of x 256 "256 ^ k"] by simp
  with Suc show ?case by (simp add: unat_of_nat_byte)
qed simp

lemma le_decode_less: "le_decode bs < 256 ^ length bs"
proof (induction bs)
  case (Cons b bs)
  have "unat b < 256" using unsigned_less [of b] by simp
  with Cons show ?case by simp
qed simp

lemma le_decode_encode_pgnum [buf_simps]: "word_of_nat (le_decode (le_encode 8 (unat (p :: 64 word)))) = p"
proof -
  have "unat p < 256 ^ 8" using unsigned_less [of p] by simp
  then show ?thesis by (simp add: le_decode_encode)
qed

lemma le_decode_encode_small [buf_simps]: "x < 256 ^ k \<Longrightarrow> le_decode (le_encode k x) = x"
  by (simp add: le_decode_encode)

section \<open>Byte strings in key order\<close>

text \<open>\<open>bytes.Compare\<close>, and that its order is the lexicographic order of the library.\<close>

fun bytes_compare :: "bytes \<Rightarrow> bytes \<Rightarrow> int" where
  "bytes_compare [] [] = 0"
| "bytes_compare [] (y # ys) = - 1"
| "bytes_compare (x # xs) [] = 1"
| "bytes_compare (x # xs) (y # ys) =
     (if x < y then - 1 else if y < x then 1 else bytes_compare xs ys)"

lemma bytes_compare_ge: "0 \<le> bytes_compare a b \<longleftrightarrow> b \<le> a"
  by (induction a b rule: bytes_compare.induct) auto

text \<open>\<open>sort.Search\<close>: binary search for the least index at which \<open>f\<close> holds.\<close>

function sort_Search_loop :: "(nat \<Rightarrow> bool) \<Rightarrow> nat \<Rightarrow> nat \<Rightarrow> nat" where
  "sort_Search_loop f i j =
     (if i < j then
        let h = (i + j) div 2 in
        if \<not> f h then sort_Search_loop f (h + 1) j else sort_Search_loop f i h
      else i)"
  by pat_completeness auto
termination
  by (relation "measure (\<lambda>(f, i, j). j - i)") auto

declare sort_Search_loop.simps [simp del]

definition sort_Search :: "nat \<Rightarrow> (nat \<Rightarrow> bool) \<Rightarrow> nat" where
  "sort_Search n f = sort_Search_loop f 0 n"

lemma sort_Search_loop_spec:
  fixes f :: "nat \<Rightarrow> bool"
  assumes "i \<le> j" and "\<And>a b. a \<le> b \<Longrightarrow> b < j \<Longrightarrow> f a \<Longrightarrow> f b"
  shows "i \<le> sort_Search_loop f i j \<and> sort_Search_loop f i j \<le> j
    \<and> (\<forall>k. i \<le> k \<and> k < sort_Search_loop f i j \<longrightarrow> \<not> f k)
    \<and> (\<forall>k. sort_Search_loop f i j \<le> k \<and> k < j \<longrightarrow> f k)"
  using assms
proof (induction f i j rule: sort_Search_loop.induct)
  case (1 f i j)
  show ?case
  proof (cases "i < j")
    case False
    then have "sort_Search_loop f i j = i" by (subst sort_Search_loop.simps) simp
    with False "1.prems" show ?thesis by auto
  next
    case True
    define h where "h = (i + j) div 2"
    have h: "i \<le> h" "h < j" using True by (auto simp: h_def)
    show ?thesis
    proof (cases "f h")
      case fh: True
      have eq: "sort_Search_loop f i j = sort_Search_loop f i h"
        using True fh by (simp add: sort_Search_loop.simps [of f i j] Let_def h_def)
      let ?r = "sort_Search_loop f i h"
      have up: "f k" if "h \<le> k" "k < j" for k using "1.prems"(2) [of h k] fh that by blast
      have mono: "\<And>a b. a \<le> b \<Longrightarrow> b < h \<Longrightarrow> f a \<Longrightarrow> f b"
        using "1.prems"(2) h by (meson less_trans)
      have IH: "i \<le> ?r \<and> ?r \<le> h \<and> (\<forall>k. i \<le> k \<and> k < ?r \<longrightarrow> \<not> f k)
          \<and> (\<forall>k. ?r \<le> k \<and> k < h \<longrightarrow> f k)"
        using "1.IH"(2) [OF True h_def] fh h mono by blast
      then have "\<forall>k. ?r \<le> k \<and> k < j \<longrightarrow> f k" using up by (metis not_le)
      then show ?thesis using IH h unfolding eq by simp
    next
      case fh: False
      let ?r = "sort_Search_loop f (h + 1) j"
      have eq: "sort_Search_loop f i j = ?r"
        using True fh by (simp add: sort_Search_loop.simps [of f i j] Let_def h_def)
      have "\<not> f k" if "k < h + 1" for k using "1.prems"(2) [of k h] fh h that by fastforce
      moreover have IH: "h + 1 \<le> ?r \<and> ?r \<le> j \<and> (\<forall>k. h + 1 \<le> k \<and> k < ?r \<longrightarrow> \<not> f k)
          \<and> (\<forall>k. ?r \<le> k \<and> k < j \<longrightarrow> f k)"
        using "1.IH"(1) [OF True h_def fh _ "1.prems"(2)] h by simp
      ultimately have "\<forall>k. i \<le> k \<and> k < ?r \<longrightarrow> \<not> f k" by (metis not_less)
      then show ?thesis using IH h unfolding eq by simp
    qed
  qed
qed

lemma sort_Search_spec:
  assumes "\<And>a b. a \<le> b \<Longrightarrow> b < n \<Longrightarrow> f a \<Longrightarrow> f b"
  shows "sort_Search n f \<le> n" and "k < sort_Search n f \<Longrightarrow> \<not> f k"
    and "sort_Search n f \<le> k \<Longrightarrow> k < n \<Longrightarrow> f k"
  using sort_Search_loop_spec [of 0 n f] assms by (auto simp: sort_Search_def)

text \<open>Evaluation of concrete byte buffers by the simplifier.\<close>

named_theorems eval_simps

lemma le_encode_numeral [eval_simps]:
  "le_encode (numeral k) x = of_nat (x mod 256) # le_encode (pred_numeral k) (x div 256)"
  by (simp only: numeral_eq_Suc [of k] le_encode.simps)

lemma replicate_numeral [eval_simps]: "replicate (numeral k) x = x # replicate (pred_numeral k) x"
  by (simp add: numeral_eq_Suc)

lemma le_encode_decode: "le_encode (length bs) (le_decode bs) = bs"
proof (induction bs)
  case (Cons b bs)
  have "unat b < 256" using unsigned_less [of b] by simp
  with Cons show ?case by simp
qed simp

lemma le_decode_eq_iff:
  assumes "length bs = k" and "x < 256 ^ k"
  shows "le_decode bs = x \<longleftrightarrow> bs = le_encode k x"
  using assms le_encode_decode [of bs] le_decode_encode_small [OF assms(2)] by auto

end
