(* ===== verification/Go_Float.thy ===== *)
theory Go_Float
  imports Mykv_Prelude "HOL-Library.Log_Nat"
begin

text \<open>
  Go's \<open>float32\<close>, as far as \<^verbatim>\<open>dal.go\<close> and \<^verbatim>\<open>db.go\<close> use it: conversion from \<open>int\<close>,
  multiplication, and the comparisons. A finite value is the rational number it stands for;
  results are rounded to 24 significant bits, ties to even, with the subnormal spacing
  \<open>2 ^ -149\<close> at the bottom and overflow to infinity at \<open>2 ^ 128\<close>. The sign of zero is not
  kept: no comparison sees it.
\<close>

datatype float32 = Fin rat | Inf bool | NaN

definition round_even :: "rat \<Rightarrow> int" where
  "round_even q =
     (let f = \<lfloor>q\<rfloor>; r = q - of_int f in
      if r < 1 / 2 then f else if 1 / 2 < r then f + 1 else if even f then f else f + 1)"

text \<open>Rounding of a magnitude: \<open>k\<close> is the exponent of the last kept bit, in units of \<open>2 ^ -149\<close>.\<close>

definition f32_round_abs :: "rat \<Rightarrow> rat" where
  "f32_round_abs x =
     (let y = x * 2 ^ 149; k = floorlog 2 (nat \<lfloor>y\<rfloor>) - 24 in
      of_int (round_even (y / 2 ^ k)) * 2 ^ k / 2 ^ 149)"

definition f32_of_rat :: "rat \<Rightarrow> float32" where
  "f32_of_rat x =
     (let r = f32_round_abs \<bar>x\<bar> in
      if 2 ^ 128 \<le> r then Inf (x < 0) else if x < 0 then Fin (- r) else Fin r)"

definition f32_of_int :: "int \<Rightarrow> float32" where
  "f32_of_int n = f32_of_rat (of_int n)"

fun f32_mul :: "float32 \<Rightarrow> float32 \<Rightarrow> float32" where
  "f32_mul (Fin a) (Fin b) = f32_of_rat (a * b)"
| "f32_mul (Inf s) (Fin b) = (if b = 0 then NaN else Inf (s \<noteq> (b < 0)))"
| "f32_mul (Fin a) (Inf s) = (if a = 0 then NaN else Inf (s \<noteq> (a < 0)))"
| "f32_mul (Inf s) (Inf t) = Inf (s \<noteq> t)"
| "f32_mul _ _ = NaN"

text \<open>\<open>Inf True\<close> is minus infinity. Every comparison with NaN is false.\<close>

fun f32_less :: "float32 \<Rightarrow> float32 \<Rightarrow> bool" where
  "f32_less (Fin a) (Fin b) = (a < b)"
| "f32_less (Inf s) (Fin b) = s"
| "f32_less (Fin a) (Inf s) = (\<not> s)"
| "f32_less (Inf s) (Inf t) = (s \<and> \<not> t)"
| "f32_less _ _ = False"

fun f32_le :: "float32 \<Rightarrow> float32 \<Rightarrow> bool" where
  "f32_le (Fin a) (Fin b) = (a \<le> b)"
| "f32_le (Inf s) (Fin b) = s"
| "f32_le (Fin a) (Inf s) = (\<not> s)"
| "f32_le (Inf s) (Inf t) = (s \<or> \<not> t)"
| "f32_le _ _ = False"

section \<open>Exact values\<close>

lemma round_even_of_int [simp]: "round_even (of_int n) = n"
  by (simp add: round_even_def)

lemma round_even_exact: "y = of_int n \<Longrightarrow> of_int (round_even y) = y"
  by simp

lemma floorlog_mult_pow2: "0 < n \<Longrightarrow> floorlog 2 (n * 2 ^ j) = floorlog 2 n + j"
  by (simp add: floorlog_power)

text \<open>A multiple of a power of two with at most 24 bits is represented exactly.\<close>

lemma f32_round_abs_dyadic:
  assumes "n < 2 ^ 24" and "j \<le> 149"
  shows "f32_round_abs (of_nat n / 2 ^ j) = of_nat n / 2 ^ j"
proof (cases "n = 0")
  case True
  then show ?thesis by (simp add: f32_round_abs_def round_even_def Let_def)
next
  case False
  define y :: rat where "y = of_nat n / 2 ^ j * 2 ^ 149"
  have y: "y = of_nat (n * 2 ^ (149 - j))"
  proof -
    have "(2 :: rat) ^ 149 = 2 ^ j * 2 ^ (149 - j)"
      using assms(2) by (simp only: le_add_diff_inverse flip: power_add)
    then show ?thesis by (simp add: y_def divide_eq_eq mult.assoc mult.commute)
  qed
  have fl: "floorlog 2 (nat \<lfloor>y\<rfloor>) = floorlog 2 n + (149 - j)"
    using False by (simp only: y floor_of_nat nat_int floorlog_mult_pow2)
  have "floorlog 2 n \<le> 24"
    using assms(1) False by (simp add: floorlog_leI)
  then have k: "floorlog 2 n + (149 - j) - 24 \<le> 149 - j" by simp
  define k where "k = floorlog 2 n + (149 - j) - 24"
  have "y / 2 ^ k = of_nat (n * 2 ^ (149 - j - k))"
  proof -
    have "(2 :: rat) ^ (149 - j) = 2 ^ k * 2 ^ (149 - j - k)"
      using k unfolding k_def [symmetric] by (simp only: le_add_diff_inverse flip: power_add)
    then show ?thesis by (simp add: y divide_eq_eq)
  qed
  then have "of_int (round_even (y / 2 ^ k)) = y / 2 ^ k"
    by (metis of_int_of_nat_eq round_even_exact)
  then have "f32_round_abs (of_nat n / 2 ^ j) = y / 2 ^ 149"
    unfolding f32_round_abs_def Let_def y_def [symmetric] fl k_def [symmetric] by simp
  also have "\<dots> = of_nat n / 2 ^ j" by (simp add: y_def)
  finally show ?thesis .
qed

lemma f32_of_int_exact:
  assumes "n < 2 ^ 24"
  shows "f32_of_int (int n) = Fin (of_nat n)"
proof -
  have "f32_round_abs (of_nat n) = (of_nat n :: rat)"
    using f32_round_abs_dyadic [of n 0] assms by simp
  moreover have "(of_nat n :: rat) < 2 ^ 128"
  proof -
    have "n < 2 ^ 128" using assms by (rule less_trans) simp
    then show ?thesis by (metis of_nat_less_numeral_power_cancel_iff)
  qed
  ultimately show ?thesis
    by (simp add: f32_of_int_def f32_of_rat_def Let_def)
qed

text \<open>Code equations: small integers need no rounding.\<close>

lemma f32_of_int_code [code]:
  "f32_of_int n = (if 0 \<le> n \<and> n < 2 ^ 24 then Fin (of_int n) else f32_of_rat (of_int n))"
  using f32_of_int_exact [of "nat n"] by (auto simp: f32_of_int_def)

lemma f32_of_rat_code [code]:
  "f32_of_rat x = (let (a, b) = quotient_of x in if b = 1 \<and> 0 \<le> a \<and> a < 2 ^ 24 then Fin x else
     let r = f32_round_abs \<bar>x\<bar> in if 2 ^ 128 \<le> r then Inf (x < 0) else if x < 0 then Fin (- r) else Fin r)"
proof -
  obtain a b where q: "quotient_of x = (a, b)" by fastforce
  show ?thesis
  proof (cases "b = 1 \<and> 0 \<le> a \<and> a < 2 ^ 24")
    case True
    then have x: "x = of_int a" using quotient_of_div [OF q] by simp
    have "nat a < 2 ^ 24" using True by (simp add: nat_less_iff)
    from f32_of_int_exact [OF this] show ?thesis using q x True by (simp add: f32_of_int_def)
  next
    case False
    then show ?thesis using q by (auto simp: f32_of_rat_def Let_def)
  qed
qed

lemma round_even_down:
  assumes "of_int m \<le> q" and "q < of_int m + 1 / 2"
  shows "round_even q = m"
proof -
  have "\<lfloor>q\<rfloor> = m" by (rule floor_unique) (use assms in simp_all)
  then show ?thesis using assms by (simp add: round_even_def)
qed

text \<open>A value of 24 significant bits, the last of which has weight \<open>2 ^ k\<close> in units of \<open>2 ^ -149\<close>.\<close>

lemma f32_round_abs_bits:
  assumes "2 ^ (k + 23) \<le> x * 2 ^ 149" and "x * 2 ^ 149 < 2 ^ (k + 24)"
  shows "f32_round_abs x = of_int (round_even (x * 2 ^ 149 / 2 ^ k)) * 2 ^ k / 2 ^ 149"
proof -
  let ?n = "nat \<lfloor>x * 2 ^ 149\<rfloor>"
  have "int (2 ^ (k + 23)) \<le> \<lfloor>x * 2 ^ 149\<rfloor>" using assms(1) by (simp add: le_floor_iff)
  then have "2 ^ (k + 23) \<le> ?n" by (simp add: nat_le_iff le_nat_iff)
  then have "Suc (k + 23) \<le> floorlog 2 ?n" by (intro floorlog_ge_SucI) simp_all
  moreover have "\<lfloor>x * 2 ^ 149\<rfloor> < int (2 ^ (k + 24))" using assms(2) by (simp add: floor_less_iff)
  then have "?n < 2 ^ (k + 24)" by (simp add: nat_less_iff)
  then have "floorlog 2 ?n \<le> k + 24" by (intro floorlog_leI) simp_all
  ultimately have "floorlog 2 ?n - 24 = k" by simp
  then show ?thesis by (simp add: f32_round_abs_def Let_def)
qed

lemma default_fill_percents:
  "f32_of_rat (95 / 100) = Fin (15938355 / 16777216)" "f32_of_rat (1 / 2) = Fin (1 / 2)"
proof -
  have "f32_round_abs (95 / 100) = of_int (round_even (95 / 100 * 2 ^ 149 / 2 ^ 125)) * 2 ^ 125 / 2 ^ 149"
    by (rule f32_round_abs_bits) simp_all
  moreover have "round_even (95 / 100 * 2 ^ 149 / 2 ^ 125) = 15938355" by (rule round_even_down) simp_all
  ultimately have "f32_round_abs (95 / 100) = 15938355 / 16777216" by simp
  then show "f32_of_rat (95 / 100) = Fin (15938355 / 16777216)" by (simp add: f32_of_rat_def Let_def)
  have "f32_round_abs (1 / 2) = 1 / 2" using f32_round_abs_dyadic [of 1 1] by simp
  then show "f32_of_rat (1 / 2) = Fin (1 / 2)" by (simp add: f32_of_rat_def Let_def)
qed

end
