(* ===== verification/Go_File.thy ===== *)
theory Go_File
  imports Mykv_Prelude
begin

text \<open>
  The operating-system files that \<^verbatim>\<open>dal.go\<close> and \<^verbatim>\<open>wal.go\<close> use: byte sequences with
  \<open>ReadAt\<close> and \<open>WriteAt\<close>. A write beyond the end fills the gap with zeros. Failures of the
  operating system are an argument of the model: \<open>faults op = Some k\<close> says that the call
  \<open>op\<close> fails, a write after \<open>k\<close> bytes have gone through.
\<close>

datatype ioop =
    OpenDB | StatDB | ReadWALFile | OpenWAL | WriteWALHeader | WriteWALRecords | SyncWAL | CloseWAL
  | WritePageAt nat | SyncDB | RemoveWAL | CloseDB

type_synonym faults = "ioop \<Rightarrow> nat option"

definition no_faults :: faults where
  "no_faults = (\<lambda>_. None)"

text \<open>The two files of a database: the data file and its write-ahead log.\<close>

record disk =
  dbfile :: "bytes option"
  walfile :: "bytes option"

definition read_at :: "bytes \<Rightarrow> nat \<Rightarrow> int \<Rightarrow> bytes res" where
  "read_at f n off =
     (if off < 0 then Inl ErrIO
      else case get_at f (nat off) n of None \<Rightarrow> Inl ErrIO | Some xs \<Rightarrow> Inr xs)"

definition overwrite :: "bytes \<Rightarrow> nat \<Rightarrow> bytes \<Rightarrow> bytes" where
  "overwrite f off xs =
     (let g = f @ replicate (off + length xs - length f) 0 in
      take off g @ xs @ drop (off + length xs) g)"

definition write_at :: "bytes \<Rightarrow> bytes \<Rightarrow> int \<Rightarrow> bytes res" where
  "write_at f xs off = (if off < 0 then Inl ErrIO else Inr (overwrite f (nat off) xs))"

section \<open>Bytes of a file\<close>

text \<open>The byte at a position, zero beyond the end: what a longer file would show there.\<close>

definition byte_at :: "bytes \<Rightarrow> nat \<Rightarrow> byte" where
  "byte_at f j = (if j < length f then f ! j else 0)"

lemma length_overwrite [simp]: "length (overwrite f off xs) = max (length f) (off + length xs)"
  by (simp add: overwrite_def Let_def)

lemma byte_at_overwrite:
  "byte_at (overwrite f off xs) j = (if off \<le> j \<and> j < off + length xs then xs ! (j - off) else byte_at f j)"
  by (auto simp: byte_at_def overwrite_def Let_def nth_append min_def)

lemma bytes_eqI: "length f = length g \<Longrightarrow> (\<And>j. byte_at f j = byte_at g j) \<Longrightarrow> f = g"
  by (rule nth_equalityI) (auto simp: byte_at_def dest: spec split: if_splits, metis)

lemma read_at_Inr:
  "read_at f n off = Inr xs \<longleftrightarrow>
     0 \<le> off \<and> nat off + n \<le> length f \<and> length xs = n \<and> (\<forall>j < n. xs ! j = byte_at f (nat off + j))"
proof -
  have "read_at f n off = Inr xs \<longleftrightarrow> 0 \<le> off \<and> get_at f (nat off) n = Some xs"
    by (auto simp: read_at_def split: option.splits)
  then show ?thesis by (auto simp: get_at_nth byte_at_def)
qed

lemma read_overwrite_same:
  "read_at (overwrite f off xs) (length xs) (int off) = Inr xs"
  by (simp add: read_at_Inr byte_at_overwrite)

lemma read_overwrite_other:
  assumes "read_at f n (int pos) = Inr ys" and "pos + n \<le> off \<or> off + length xs \<le> pos"
  shows "read_at (overwrite f off xs) n (int pos) = Inr ys"
  using assms by (auto simp: read_at_Inr byte_at_overwrite)

end
