(* ===== verification/Meta.thy ===== *)
theory Meta
  imports Mykv_Prelude
begin

text \<open>
  \<^verbatim>\<open>meta.go\<close>: the header page, with its magic number and version check, and the round
  trip through a page. Constants are those of \<^verbatim>\<open>const.go\<close> and \<^verbatim>\<open>meta.go\<close>.
\<close>

section \<open>Operations\<close>

definition magicNumber :: "32 word" where
  "magicNumber = 0xD00DB00D"

definition fileVersion :: "32 word" where
  "fileVersion = 1"

definition metaPageNum :: pgnum where
  "metaPageNum = 0"

record meta =
  m_root :: pgnum
  m_freelistPage :: pgnum

definition newEmptyMeta :: meta where
  "newEmptyMeta = \<lparr>m_root = 0, m_freelistPage = 0\<rparr>"

definition metaHeaderSize :: nat where
  "metaHeaderSize = 4 + 4 + 8 + 8"

definition meta_serialize :: "meta \<Rightarrow> bytes \<Rightarrow> bytes option" where
  "meta_serialize m buf =
     do { buf \<leftarrow> put_at buf 0 (le_encode 4 (unat magicNumber));
          buf \<leftarrow> put_at buf 4 (le_encode 4 (unat fileVersion));
          buf \<leftarrow> put_at buf 8 (le_encode 8 (unat (m_root m)));
          put_at buf 16 (le_encode 8 (unat (m_freelistPage m))) }"

definition meta_deserialize :: "bytes \<Rightarrow> meta res" where
  "meta_deserialize buf =
     bindR (or_panic (get_at buf 0 4)) (\<lambda>magicNumberRes.
     if le_decode magicNumberRes \<noteq> unat magicNumber then Inl ErrInvalidDBFile else
     bindR (or_panic (get_at buf 4 4)) (\<lambda>version.
     if le_decode version \<noteq> unat fileVersion then Inl ErrInvalidDBFile else
     bindR (or_panic (get_at buf 8 8)) (\<lambda>r.
     bindR (or_panic (get_at buf 16 8)) (\<lambda>f.
     Inr \<lparr>m_root = of_nat (le_decode r), m_freelistPage = of_nat (le_decode f)\<rparr>))))"

section \<open>The page format\<close>

text \<open>The four fields are one block of 24 bytes at the start of the page.\<close>

definition meta_block :: "meta \<Rightarrow> bytes" where
  "meta_block m = le_encode 4 (unat magicNumber) @ le_encode 4 (unat fileVersion)
     @ le_encode 8 (unat (m_root m)) @ le_encode 8 (unat (m_freelistPage m))"

lemma length_meta_block [simp]: "length (meta_block m) = 24"
  by (simp add: meta_block_def)

lemma meta_serialize_eq: "meta_serialize m buf = put_at buf 0 (meta_block m)"
proof (cases "24 \<le> length buf")
  case True
  then show ?thesis
    by (simp add: meta_serialize_def meta_block_def put_at_def min_def)
next
  case False
  then show ?thesis
    by (auto simp: meta_serialize_def put_at_def split: bind_splits if_splits)
qed

lemma meta_serialize_Some: "metaHeaderSize \<le> length buf \<Longrightarrow> \<exists>buf'. meta_serialize m buf = Some buf'"
  by (simp add: meta_serialize_eq put_at_def metaHeaderSize_def)

lemma meta_fields:
  assumes "meta_serialize m buf = Some buf'"
  shows "get_at buf' 0 4 = Some (le_encode 4 (unat magicNumber))"
    and "get_at buf' 4 4 = Some (le_encode 4 (unat fileVersion))"
    and "get_at buf' 8 8 = Some (le_encode 8 (unat (m_root m)))"
    and "get_at buf' 16 8 = Some (le_encode 8 (unat (m_freelistPage m)))"
proof -
  have b: "buf' = meta_block m @ drop 24 buf" "24 \<le> length buf"
    using assms by (auto simp: meta_serialize_eq put_at_def split: if_splits)
  show "get_at buf' 0 4 = Some (le_encode 4 (unat magicNumber))"
    "get_at buf' 4 4 = Some (le_encode 4 (unat fileVersion))"
    "get_at buf' 8 8 = Some (le_encode 8 (unat (m_root m)))"
    "get_at buf' 16 8 = Some (le_encode 8 (unat (m_freelistPage m)))"
    using b(2) by (simp_all add: b(1) meta_block_def get_at_Some)
qed

lemma meta_roundtrip_gen:
  assumes "meta_serialize m buf = Some buf'"
  shows "meta_deserialize buf' = Inr m"
proof -
  have "unat magicNumber < 256 ^ 4" "unat fileVersion < 256 ^ 4"
    using unsigned_less [of magicNumber] unsigned_less [of fileVersion] by simp_all
  then show ?thesis
    using meta_fields [OF assms]
    by (simp add: meta_deserialize_def le_decode_encode_pgnum le_decode_encode_small)
qed

section \<open>Properties\<close>

text \<open>
  Every header is read back as it was written, on any page that holds it.
\<close>

lemma meta_page_roundtrip:
  assumes "metaHeaderSize \<le> length buf"
  shows "\<exists>buf'. meta_serialize m buf = Some buf' \<and> length buf' = length buf \<and> meta_deserialize buf' = Inr m"
proof -
  obtain buf' where s: "meta_serialize m buf = Some buf'" using meta_serialize_Some [OF assms] by blast
  moreover have "length buf' = length buf" using s by (auto simp: meta_serialize_eq put_at_length)
  ultimately show ?thesis using meta_roundtrip_gen by blast
qed

lemma meta_page_roundtrip_witness:
  "\<exists>buf'. meta_serialize \<lparr>m_root = 2, m_freelistPage = 1\<rparr> (replicate 24 0) = Some buf' \<and> length buf' = 24
    \<and> meta_deserialize buf' = Inr \<lparr>m_root = 2, m_freelistPage = 1\<rparr>"
  using meta_page_roundtrip [of "replicate 24 0"] by (simp add: metaHeaderSize_def)

text \<open>
  A header is accepted exactly when the page starts with the magic number and the file
  version, and any other page is refused as an invalid database file.
\<close>

lemma meta_rejects_foreign_files:
  assumes "metaHeaderSize \<le> length buf"
  shows "meta_deserialize buf =
    (if take 8 buf = le_encode 4 (unat magicNumber) @ le_encode 4 (unat fileVersion)
     then Inr \<lparr>m_root = of_nat (le_decode (take 8 (drop 8 buf))),
               m_freelistPage = of_nat (le_decode (take 8 (drop 16 buf)))\<rparr>
     else Inl ErrInvalidDBFile)"
proof -
  have len: "24 \<le> length buf" using assms by (simp add: metaHeaderSize_def)
  then have l4: "length (take 4 buf) = 4" "length (take 4 (drop 4 buf)) = 4" by simp_all
  have small: "unat magicNumber < 256 ^ 4" "unat fileVersion < 256 ^ 4"
    using unsigned_less [of magicNumber] unsigned_less [of fileVersion] by simp_all
  have t8: "take 8 buf = take 4 buf @ take 4 (drop 4 buf)" using take_add [of 4 4 buf] by simp
  have g: "get_at buf 0 4 = Some (take 4 buf)" "get_at buf 4 4 = Some (take 4 (drop 4 buf))"
    "get_at buf 8 8 = Some (take 8 (drop 8 buf))" "get_at buf 16 8 = Some (take 8 (drop 16 buf))"
    using len by (simp_all add: get_at_def slice_ab_def drop_take)
  note eqs = le_decode_eq_iff [OF l4(1) small(1)] le_decode_eq_iff [OF l4(2) small(2)]
  have "take 8 buf = le_encode 4 (unat magicNumber) @ le_encode 4 (unat fileVersion) \<longleftrightarrow>
      le_decode (take 4 buf) = unat magicNumber \<and> le_decode (take 4 (drop 4 buf)) = unat fileVersion"
    unfolding eqs unfolding t8 using l4(1) by (simp add: append_eq_append_conv)
  then show ?thesis unfolding meta_deserialize_def g by simp
qed

lemma meta_rejects_foreign_files_witness:
  "meta_deserialize (replicate 24 0) = Inl ErrInvalidDBFile"
proof -
  have "take 8 (replicate 24 0) \<noteq> le_encode 4 (unat magicNumber) @ le_encode 4 (unat fileVersion)"
    by (simp add: eval_simps magicNumber_def)
  then show ?thesis using meta_rejects_foreign_files [of "replicate 24 0"] by (simp add: metaHeaderSize_def)
qed

end
