(* ===== verification/Freelist.thy ===== *)
theory Freelist
  imports Mykv_Prelude
begin

text \<open>
  \<^verbatim>\<open>freelist.go\<close>: the page allocator and its page format. The first part translates the
  operations; the second states what an allocator promises as a locale and shows that the
  free list keeps the promise; the third is the round trip through a page.
\<close>

section \<open>Operations\<close>

definition metaPage :: pgnum where
  "metaPage = 0"

record freelist =
  maxPage :: pgnum
  releasedPages :: "pgnum list"

definition newFreelist :: freelist where
  "newFreelist = \<lparr>maxPage = metaPage, releasedPages = []\<rparr>"

definition freelist_clone :: "freelist \<Rightarrow> freelist" where
  "freelist_clone fr = \<lparr>maxPage = maxPage fr, releasedPages = releasedPages fr\<rparr>"

definition getNextPage :: "freelist \<Rightarrow> pgnum \<times> freelist" where
  "getNextPage fr =
     (if length (releasedPages fr) \<noteq> 0
      then let pageID = releasedPages fr ! (length (releasedPages fr) - 1) in
        (pageID, fr\<lparr>releasedPages := take (length (releasedPages fr) - 1) (releasedPages fr)\<rparr>)
      else (maxPage fr + 1, fr\<lparr>maxPage := maxPage fr + 1\<rparr>))"

definition releasePage :: "pgnum \<Rightarrow> freelist \<Rightarrow> freelist" where
  "releasePage page fr = fr\<lparr>releasedPages := releasedPages fr @ [page]\<rparr>"

fun put_pages :: "bytes \<Rightarrow> nat \<Rightarrow> pgnum list \<Rightarrow> bytes option" where
  "put_pages buf pos [] = Some buf"
| "put_pages buf pos (page # pages) =
     do { buf \<leftarrow> put_at buf pos (le_encode 8 (unat page)); put_pages buf (pos + 8) pages }"

definition freelist_serialize :: "freelist \<Rightarrow> bytes \<Rightarrow> bytes option" where
  "freelist_serialize fr buf =
     do { buf \<leftarrow> put_at buf 0 (le_encode 8 (unat (maxPage fr)));
          buf \<leftarrow> put_at buf 8 (le_encode 2 (length (releasedPages fr) mod 2 ^ 16));
          put_pages buf 10 (releasedPages fr) }"

fun get_pages :: "bytes \<Rightarrow> nat \<Rightarrow> nat \<Rightarrow> pgnum list option" where
  "get_pages buf pos 0 = Some []"
| "get_pages buf pos (Suc n) =
     do { b \<leftarrow> get_at buf pos 8; ps \<leftarrow> get_pages buf (pos + 8) n; Some (of_nat (le_decode b) # ps) }"

definition freelist_deserialize :: "freelist \<Rightarrow> bytes \<Rightarrow> freelist option" where
  "freelist_deserialize fr buf =
     do { m \<leftarrow> get_at buf 0 8;
          c \<leftarrow> get_at buf 8 2;
          ps \<leftarrow> get_pages buf 10 (le_decode c);
          Some \<lparr>maxPage = of_nat (le_decode m), releasedPages = releasedPages fr @ ps\<rparr> }"

section \<open>The allocator contract\<close>

text \<open>
  What the transactions rely on: an allocator with a set of pages in use hands out pages
  that are not in use, and taking a page back removes exactly that page from the set.
  \<open>room\<close> says that the page numbers are not exhausted.
\<close>

locale page_allocator =
  fixes alloc :: "'a \<Rightarrow> 'p \<times> 'a"
    and free :: "'p \<Rightarrow> 'a \<Rightarrow> 'a"
    and used :: "'a \<Rightarrow> 'p set"
    and inv :: "'a \<Rightarrow> bool"
    and room :: "'a \<Rightarrow> nat \<Rightarrow> bool"
  assumes alloc_fresh: "inv a \<Longrightarrow> room a (Suc n) \<Longrightarrow> alloc a = (p, a') \<Longrightarrow> p \<notin> used a"
    and alloc_used: "inv a \<Longrightarrow> room a (Suc n) \<Longrightarrow> alloc a = (p, a') \<Longrightarrow> used a' = insert p (used a)"
    and alloc_inv: "inv a \<Longrightarrow> room a (Suc n) \<Longrightarrow> alloc a = (p, a') \<Longrightarrow> inv a'"
    and alloc_room: "inv a \<Longrightarrow> room a (Suc n) \<Longrightarrow> alloc a = (p, a') \<Longrightarrow> room a' n"
    and free_used: "inv a \<Longrightarrow> p \<in> used a \<Longrightarrow> used (free p a) = used a - {p}"
    and free_inv: "inv a \<Longrightarrow> p \<in> used a \<Longrightarrow> inv (free p a)"
begin

primrec alloc_many :: "nat \<Rightarrow> 'a \<Rightarrow> 'p list \<times> 'a" where
  "alloc_many 0 a = ([], a)"
| "alloc_many (Suc n) a = (let (p, a') = alloc a; (ps, a'') = alloc_many n a' in (p # ps, a''))"

lemma alloc_many_fresh:
  assumes "inv a" and "room a n" and "alloc_many n a = (ps, a')"
  shows "distinct ps \<and> set ps \<inter> used a = {} \<and> used a' = set ps \<union> used a \<and> inv a'"
  using assms
proof (induction n arbitrary: a ps)
  case (Suc n)
  obtain p b where p: "alloc a = (p, b)" by fastforce
  obtain qs where qs: "alloc_many n b = (qs, a')" "ps = p # qs"
    using Suc.prems(3) p by (auto split: prod.splits)
  note one = alloc_fresh [OF Suc.prems(1,2) p] alloc_used [OF Suc.prems(1,2) p]
    alloc_inv [OF Suc.prems(1,2) p] alloc_room [OF Suc.prems(1,2) p]
  from Suc.IH [OF one(3,4) qs(1)] one(1,2) qs(2) show ?case by auto
qed simp

lemma alloc_free_used:
  assumes "inv a" and "room a (Suc n)" and "alloc a = (p, a')"
  shows "used (free p a') = used a"
  using alloc_fresh [OF assms] alloc_used [OF assms] free_used [OF alloc_inv [OF assms], of p] by auto

lemma free_many:
  assumes "inv a" and "distinct ps" and "set ps \<subseteq> used a"
  shows "inv (fold free ps a) \<and> used (fold free ps a) = used a - set ps"
  using assms
proof (induction ps arbitrary: a)
  case (Cons p ps)
  have "inv (free p a)" "used (free p a) = used a - {p}" using free_inv free_used Cons.prems by simp_all
  then show ?case using Cons.IH [of "free p a"] Cons.prems(2,3) by auto
qed simp

end

definition freelist_inv :: "freelist \<Rightarrow> bool" where
  "freelist_inv fr \<longleftrightarrow> distinct (releasedPages fr)
     \<and> list_all (\<lambda>p. 0 < unat p \<and> unat p \<le> unat (maxPage fr)) (releasedPages fr)"

definition freelist_used :: "freelist \<Rightarrow> pgnum set" where
  "freelist_used fr = {p. 0 < unat p \<and> unat p \<le> unat (maxPage fr)} - set (releasedPages fr)"

definition freelist_room :: "freelist \<Rightarrow> nat \<Rightarrow> bool" where
  "freelist_room fr n \<longleftrightarrow> unat (maxPage fr) + n < 2 ^ 64"

lemma getNextPage_released:
  assumes "releasedPages fr = ps @ [p]"
  shows "getNextPage fr = (p, fr\<lparr>releasedPages := ps\<rparr>)"
  using assms by (simp add: getNextPage_def)

lemma getNextPage_grow:
  assumes "releasedPages fr = []"
  shows "getNextPage fr = (maxPage fr + 1, fr\<lparr>maxPage := maxPage fr + 1\<rparr>)"
  using assms by (simp add: getNextPage_def)

lemma unat_succ: "unat (w :: 64 word) + Suc n < 2 ^ 64 \<Longrightarrow> unat (w + 1) = Suc (unat w)"
  by (simp add: unat_word_ariths)

lemma getNextPage_spec:
  assumes "freelist_inv fr" and "freelist_room fr (Suc n)" and "getNextPage fr = (p, fr')"
  shows "p \<notin> freelist_used fr \<and> freelist_used fr' = insert p (freelist_used fr)
    \<and> freelist_inv fr' \<and> freelist_room fr' n \<and> p \<noteq> 0"
proof (cases "releasedPages fr" rule: rev_cases)
  case Nil
  have u: "unat (maxPage fr + 1) = Suc (unat (maxPage fr))"
    using assms(2) unat_succ by (simp add: freelist_room_def)
  have eq: "unat q = Suc (unat (maxPage fr)) \<longleftrightarrow> q = maxPage fr + 1" for q
    using u by (metis word_unat_eq_iff)
  have p: "p = maxPage fr + 1" "fr' = fr\<lparr>maxPage := maxPage fr + 1\<rparr>"
    using assms(3) getNextPage_grow [OF Nil] by auto
  have used: "freelist_used fr = {q. 0 < unat q \<and> unat q \<le> unat (maxPage fr)}"
    "freelist_used fr' = {q. 0 < unat q \<and> unat q \<le> Suc (unat (maxPage fr))}"
    using p u Nil by (simp_all add: freelist_used_def)
  have "p \<noteq> 0" using p u by (metis Zero_not_Suc unsigned_0)
  moreover have "p \<notin> freelist_used fr" unfolding used using p u by simp
  moreover have "freelist_used fr' = insert p (freelist_used fr)"
    unfolding used using eq p(1) \<open>p \<noteq> 0\<close> by (auto simp: le_Suc_eq unat_gt_0)
  moreover have "freelist_inv fr'" using p Nil by (simp add: freelist_inv_def)
  moreover have "freelist_room fr' n" using assms(2) p u by (simp add: freelist_room_def)
  ultimately show ?thesis by simp
next
  case (snoc ps q)
  then show ?thesis
    using assms getNextPage_released [OF snoc]
    by (auto simp: freelist_inv_def freelist_used_def freelist_room_def list_all_iff)
qed

lemma getNextPage_sizes:
  assumes "freelist_room fr (Suc n)" and "getNextPage fr = (p, fr')"
  shows "unat (maxPage fr') \<le> Suc (unat (maxPage fr)) \<and> length (releasedPages fr') \<le> length (releasedPages fr)"
proof (cases "releasedPages fr" rule: rev_cases)
  case Nil
  have "unat (maxPage fr + 1) = Suc (unat (maxPage fr))"
    using assms(1) unat_succ by (simp add: freelist_room_def)
  then show ?thesis using assms(2) getNextPage_grow [OF Nil] Nil by auto
next
  case (snoc ps q)
  then show ?thesis using assms(2) getNextPage_released [OF snoc] by auto
qed

interpretation fl: page_allocator getNextPage releasePage freelist_used freelist_inv freelist_room
proof
  show "freelist_used (releasePage p a) = freelist_used a - {p}"
    if "freelist_inv a" "p \<in> freelist_used a" for a p
    by (auto simp: freelist_used_def releasePage_def)
  show "freelist_inv (releasePage p a)" if "freelist_inv a" "p \<in> freelist_used a" for a p
    using that by (auto simp: freelist_inv_def freelist_used_def releasePage_def list_all_iff)
qed (use getNextPage_spec in blast)+

section \<open>The page format\<close>

definition enc_pages :: "pgnum list \<Rightarrow> bytes" where
  "enc_pages ps = concat (map (\<lambda>p. le_encode 8 (unat p)) ps)"

lemma length_enc_pages [simp]: "length (enc_pages ps) = 8 * length ps"
  by (induction ps) (auto simp: enc_pages_def)

lemma put_pages_eq:
  "pos \<le> length buf \<Longrightarrow> put_pages buf pos ps = put_at buf pos (enc_pages ps)"
proof (induction ps arbitrary: buf pos)
  case Nil
  then show ?case by (simp add: put_at_def enc_pages_def)
next
  case (Cons p ps)
  let ?e = "le_encode 8 (unat p)"
  show ?case
  proof (cases "put_at buf pos ?e")
    case None
    then show ?thesis by (simp add: put_at_def enc_pages_def split: if_splits)
  next
    case (Some b)
    then have "pos + 8 \<le> length b"
      using put_at_length [OF Some] by (simp add: put_at_def split: if_splits)
    then have "put_pages b (pos + 8) ps = put_at b (pos + 8) (enc_pages ps)" by (rule Cons.IH)
    then show ?thesis
      using put_at_append [of buf pos ?e "enc_pages ps"] Some by (simp add: enc_pages_def)
  qed
qed

lemma get_pages_eq:
  assumes "get_at buf pos (8 * length ps) = Some (enc_pages ps)"
  shows "get_pages buf pos (length ps) = Some ps"
  using assms
proof (induction ps arbitrary: pos)
  case (Cons p ps)
  let ?e = "le_encode 8 (unat p)"
  have "get_at buf pos (length ?e + 8 * length ps) = Some (?e @ enc_pages ps)"
    using Cons.prems by (simp add: enc_pages_def)
  from get_at_append [OF this] have "get_at buf pos 8 = Some ?e"
    "get_at buf (pos + 8) (8 * length ps) = Some (enc_pages ps)" by simp_all
  with Cons.IH show ?case by (simp add: le_decode_encode_pgnum)
qed simp

lemma enc_pages_take: "take (8 * n) (enc_pages ps) = enc_pages (take n ps)"
proof (induction ps arbitrary: n)
  case (Cons p ps)
  then show ?case by (cases n) (auto simp: enc_pages_def)
qed (simp add: enc_pages_def)

lemma freelist_serialize_Some:
  assumes "10 + 8 * length (releasedPages fr) \<le> length buf"
  obtains buf' where "freelist_serialize fr buf = Some buf'" and "length buf' = length buf"
    and "get_at buf' 0 8 = Some (le_encode 8 (unat (maxPage fr)))"
    and "get_at buf' 8 2 = Some (le_encode 2 (length (releasedPages fr) mod 2 ^ 16))"
    and "get_at buf' 10 (8 * length (releasedPages fr)) = Some (enc_pages (releasedPages fr))"
proof -
  let ?m = "le_encode 8 (unat (maxPage fr))"
  let ?c = "le_encode 2 (length (releasedPages fr) mod 2 ^ 16)"
  obtain b1 where b1: "put_at buf 0 ?m = Some b1" using assms by (auto simp: put_at_def)
  note l1 = put_at_length [OF b1]
  obtain b2 where b2: "put_at b1 8 ?c = Some b2" using assms l1 by (auto simp: put_at_def)
  note l2 = put_at_length [OF b2]
  obtain b3 where b3: "put_at b2 10 (enc_pages (releasedPages fr)) = Some b3"
    using assms l1 l2 by (auto simp: put_at_def)
  note l3 = put_at_length [OF b3]
  have "freelist_serialize fr buf = Some b3"
    using assms b1 b2 b3 l1 l2 by (simp add: freelist_serialize_def put_pages_eq)
  moreover have "get_at b3 0 8 = Some ?m"
    using get_put_other [OF b3, of 0 8] get_put_other [OF b2, of 0 8] get_put_same [OF b1, of 8] by simp
  moreover have "get_at b3 8 2 = Some ?c"
    using get_put_other [OF b3, of 8 2] get_put_same [OF b2, of 2] by simp
  ultimately show thesis
    using that l1 l2 l3 get_put_same [OF b3] by simp
qed

lemma freelist_serialize_None:
  assumes "length buf < 10 + 8 * length (releasedPages fr)"
  shows "freelist_serialize fr buf = None"
proof (cases "10 \<le> length buf")
  case True
  then obtain b1 b2 where b: "put_at buf 0 (le_encode 8 (unat (maxPage fr))) = Some b1"
    "put_at b1 8 (le_encode 2 (length (releasedPages fr) mod 2 ^ 16)) = Some b2"
    by (auto simp: put_at_def)
  then show ?thesis
    using assms True put_at_length [OF b(1)] put_at_length [OF b(2)]
    by (simp add: freelist_serialize_def put_pages_eq put_at_def)
next
  case False
  then show ?thesis
    by (auto simp: freelist_serialize_def put_at_def split: bind_splits if_splits)
qed

lemma freelist_roundtrip_gen:
  assumes "freelist_serialize fr buf = Some buf'"
  shows "freelist_deserialize newFreelist buf' =
    Some (fr\<lparr>releasedPages := take (length (releasedPages fr) mod 2 ^ 16) (releasedPages fr)\<rparr>)"
proof -
  let ?n = "length (releasedPages fr) mod 2 ^ 16"
  have "10 + 8 * length (releasedPages fr) \<le> length buf"
    using assms freelist_serialize_None by (metis not_le option.distinct(1))
  from freelist_serialize_Some [OF this] assms
  have g: "get_at buf' 0 8 = Some (le_encode 8 (unat (maxPage fr)))"
    "get_at buf' 8 2 = Some (le_encode 2 ?n)"
    "get_at buf' 10 (8 * length (releasedPages fr)) = Some (enc_pages (releasedPages fr))"
    by auto
  have n: "?n \<le> length (releasedPages fr)" by (rule mod_less_eq_dividend)
  have "get_at buf' 10 (8 * ?n) = Some (enc_pages (take ?n (releasedPages fr)))"
    using get_at_take [OF g(3), of "8 * ?n"] n by (simp add: enc_pages_take)
  then have "get_pages buf' 10 ?n = Some (take ?n (releasedPages fr))"
    using get_pages_eq [of buf' 10 "take ?n (releasedPages fr)"] n by (simp add: min_absorb2)
  moreover have "le_decode (le_encode 2 ?n) = ?n"
    by (rule le_decode_encode_small) simp
  ultimately show ?thesis
    using g(1,2) by (simp add: freelist_deserialize_def newFreelist_def le_decode_encode_pgnum)
qed

section \<open>Properties\<close>

text \<open>
  Successive allocations hand out pages that are pairwise distinct and not in use, and the
  pages in use afterwards are exactly the old ones and the new ones.
\<close>

lemma getNextPage_fresh:
  assumes "freelist_inv fr" and "freelist_room fr n" and "fl.alloc_many n fr = (ps, fr')"
  shows "distinct ps \<and> set ps \<inter> freelist_used fr = {} \<and> freelist_used fr' = set ps \<union> freelist_used fr
    \<and> freelist_inv fr'"
  using assms by (rule fl.alloc_many_fresh)

lemma getNextPage_fresh_witness:
  "distinct [7, 4, 10 :: pgnum] \<and> set [7, 4, 10] \<inter> freelist_used \<lparr>maxPage = 9, releasedPages = [4, 7]\<rparr> = {}
    \<and> freelist_used \<lparr>maxPage = 10, releasedPages = []\<rparr>
        = set [7, 4, 10] \<union> freelist_used \<lparr>maxPage = 9, releasedPages = [4, 7]\<rparr>
    \<and> freelist_inv \<lparr>maxPage = 10, releasedPages = []\<rparr>"
  by (rule getNextPage_fresh [of _ 3])
    (simp_all add: freelist_inv_def freelist_room_def fl.alloc_many_def numeral_3_eq_3 getNextPage_def)

text \<open>
  A page that is given back is the next page handed out, and no other page changes its
  state.
\<close>

lemma releasePage_reuses:
  assumes "freelist_inv fr" and "p \<in> freelist_used fr"
  shows "freelist_inv (releasePage p fr) \<and> freelist_used (releasePage p fr) = freelist_used fr - {p}
    \<and> getNextPage (releasePage p fr) = (p, fr)"
  using fl.free_inv [OF assms] fl.free_used [OF assms] getNextPage_released [of "releasePage p fr" "releasedPages fr" p]
  by (simp add: releasePage_def)

lemma releasePage_reuses_witness:
  "freelist_inv (releasePage 2 \<lparr>maxPage = 3, releasedPages = [1]\<rparr>)
    \<and> freelist_used (releasePage 2 \<lparr>maxPage = 3, releasedPages = [1]\<rparr>)
        = freelist_used \<lparr>maxPage = 3, releasedPages = [1]\<rparr> - {2}
    \<and> getNextPage (releasePage 2 \<lparr>maxPage = 3, releasedPages = [1]\<rparr>) = (2, \<lparr>maxPage = 3, releasedPages = [1]\<rparr>)"
  by (rule releasePage_reuses) (simp_all add: freelist_inv_def freelist_used_def)

text \<open>
  A free list that fits in its page and in the 16-bit count is read back as it was
  written.
\<close>

lemma freelist_roundtrip:
  assumes "10 + 8 * length (releasedPages fr) \<le> length buf" and "length (releasedPages fr) < 2 ^ 16"
  shows "\<exists>buf'. freelist_serialize fr buf = Some buf' \<and> length buf' = length buf
    \<and> freelist_deserialize newFreelist buf' = Some fr"
proof -
  from assms(1) obtain buf' where s: "freelist_serialize fr buf = Some buf'" "length buf' = length buf"
    by (rule freelist_serialize_Some)
  then show ?thesis using freelist_roundtrip_gen [OF s(1)] assms(2) by simp
qed

lemma freelist_roundtrip_witness:
  "\<exists>buf'. freelist_serialize \<lparr>maxPage = 9, releasedPages = [4, 7]\<rparr> (replicate 32 0) = Some buf' \<and> length buf' = 32
    \<and> freelist_deserialize newFreelist buf' = Some \<lparr>maxPage = 9, releasedPages = [4, 7]\<rparr>"
  using freelist_roundtrip [of "\<lparr>maxPage = 9, releasedPages = [4, 7]\<rparr>" "replicate 32 0"] by simp

text \<open>
  C26: writing a free list panics exactly when the released pages do not fit in one page; the
  format has no continuation page.
\<close>

lemma freelist_serialize_panics_iff:
  "freelist_serialize fr buf = None \<longleftrightarrow> length buf < 10 + 8 * length (releasedPages fr)"
proof
  assume "freelist_serialize fr buf = None"
  then show "length buf < 10 + 8 * length (releasedPages fr)"
    using freelist_serialize_Some [of fr buf] by (metis not_le option.distinct(1))
qed (rule freelist_serialize_None)

end
