(* ===== verification/Node.thy ===== *)
theory Node
  imports Freelist
begin

text \<open>
  \<^verbatim>\<open>node.go\<close>, the part that reads a node: items, sizes, validation, the search inside one
  node and the slotted page format. These functions see the contents of a node (its items
  and child pages as lists); the operations that change nodes work on slices and are in
  \<^verbatim>\<open>Node_Ops\<close>.
\<close>

section \<open>Items and node contents\<close>

record item =
  item_key :: bytes
  item_value :: bytes

definition newItem :: "bytes \<Rightarrow> bytes \<Rightarrow> item" where
  "newItem k v = \<lparr>item_key = k, item_value = v\<rparr>"

text \<open>The contents of a \<^verbatim>\<open>Node\<close>: the fields that are saved to disk.\<close>

record content =
  n_items :: "item list"
  n_children :: "pgnum list"

definition NewNodeForSerialization :: "item list \<Rightarrow> pgnum list \<Rightarrow> content" where
  "NewNodeForSerialization its cs = \<lparr>n_items = its, n_children = cs\<rparr>"

definition isLeaf :: "content \<Rightarrow> bool" where
  "isLeaf n \<longleftrightarrow> length (n_children n) = 0"

section \<open>Sizes and validation\<close>

definition elementSize :: "content \<Rightarrow> nat \<Rightarrow> nat" where
  "elementSize n i = length (item_key (n_items n ! i)) + length (item_value (n_items n ! i)) + 8"

definition nodeSize :: "content \<Rightarrow> nat" where
  "nodeSize n = 3 + (\<Sum>i \<leftarrow> [0..<length (n_items n)]. elementSize n i) + 8"

definition node_validate :: "nat \<Rightarrow> content \<Rightarrow> unit res" where
  "node_validate pageSize n =
     (if length (n_children n) \<noteq> 0 \<and> length (n_children n) \<noteq> length (n_items n) + 1
      then Inl ErrInvalidDBFile
      else if nodeSize n > pageSize then Inl ErrItemTooLarge
      else if list_ex (\<lambda>it. length (item_key it) > 255 \<or> length (item_value it) > 255) (n_items n)
      then Inl ErrItemTooLarge
      else Inr ())"

definition item_validate :: "nat \<Rightarrow> item \<Rightarrow> unit res" where
  "item_validate pageSize i = node_validate pageSize (NewNodeForSerialization [i] [])"

section \<open>Search inside a node\<close>

definition findKeyInNode :: "content \<Rightarrow> bytes \<Rightarrow> bool \<times> nat" where
  "findKeyInNode n k =
     (let index = sort_Search (length (n_items n)) (\<lambda>i. bytes_compare (item_key (n_items n ! i)) k \<ge> 0) in
      if index < length (n_items n) \<and> item_key (n_items n ! index) = k then (True, index) else (False, index))"

section \<open>The slotted page\<close>

text \<open>
  One turn of the loop of \<open>serialize\<close>. \<open>leftPos\<close> is where the next slot goes, \<open>rightPos\<close>
  where the last cell starts; it is an \<open>int\<close> in the code and may fall below zero, where the
  writes panic. \<open>uint16(offset)\<close> and \<open>byte(len)\<close> truncate.
\<close>

definition put_int :: "bytes \<Rightarrow> int \<Rightarrow> bytes \<Rightarrow> bytes option" where
  "put_int buf pos xs = (if pos < 0 then None else put_at buf (nat pos) xs)"

definition serialize_item :: "bytes \<Rightarrow> nat \<Rightarrow> int \<Rightarrow> item \<Rightarrow> (bytes \<times> nat \<times> int) option" where
  "serialize_item buf leftPos rightPos it =
     (let klen = length (item_key it); vlen = length (item_value it);
          offset = rightPos - int klen - int vlen - 2 in
      do { buf \<leftarrow> put_at buf leftPos (le_encode 2 (nat (offset mod 2 ^ 16)));
           buf \<leftarrow> put_int buf (rightPos - int vlen) (item_value it);
           buf \<leftarrow> put_int buf (rightPos - int vlen - 1) [of_nat vlen];
           buf \<leftarrow> put_int buf (rightPos - int vlen - 1 - int klen) (item_key it);
           buf \<leftarrow> put_int buf offset [of_nat klen];
           Some (buf, leftPos + 2, offset) })"

fun serialize_loop ::
  "bool \<Rightarrow> bytes \<Rightarrow> nat \<Rightarrow> int \<Rightarrow> item list \<Rightarrow> pgnum list \<Rightarrow> (bytes \<times> nat) option" where
  "serialize_loop leaf buf leftPos rightPos [] cs = Some (buf, leftPos)"
| "serialize_loop leaf buf leftPos rightPos (it # its) cs =
     (if leaf then
        do { (buf, leftPos, rightPos) \<leftarrow> serialize_item buf leftPos rightPos it;
             serialize_loop leaf buf leftPos rightPos its cs }
      else
        (case cs of [] \<Rightarrow> None
         | c # cs \<Rightarrow>
           do { buf \<leftarrow> put_at buf leftPos (le_encode 8 (unat c));
                (buf, leftPos, rightPos) \<leftarrow> serialize_item buf (leftPos + 8) rightPos it;
                serialize_loop leaf buf leftPos rightPos its cs }))"

definition node_serialize :: "content \<Rightarrow> bytes \<Rightarrow> bytes option" where
  "node_serialize n buf =
     (let leaf = isLeaf n in
      do { buf \<leftarrow> put_at buf 0 [if leaf then 1 else 0];
           buf \<leftarrow> put_at buf 1 (le_encode 2 (length (n_items n) mod 2 ^ 16));
           (buf, leftPos) \<leftarrow> serialize_loop leaf buf 3 (int (length buf) - 1) (n_items n) (n_children n);
           if leaf then Some buf
           else put_at buf leftPos (le_encode 8 (unat (n_children n ! (length (n_children n) - 1)))) })"

text \<open>
  The loop of \<open>deserialize\<close>. Offsets are \<open>uint16\<close> and wrap around; a slice expression whose
  bounds wrap or leave the page panics.
\<close>

definition deserialize_item :: "bytes \<Rightarrow> nat \<Rightarrow> item option" where
  "deserialize_item buf offset =
     do { kb \<leftarrow> get_at buf offset 1;
          offset \<leftarrow> Some ((offset + 1) mod 2 ^ 16);
          k \<leftarrow> slice_ab buf offset ((offset + le_decode kb) mod 2 ^ 16);
          offset \<leftarrow> Some ((offset + le_decode kb) mod 2 ^ 16);
          vb \<leftarrow> get_at buf offset 1;
          offset \<leftarrow> Some ((offset + 1) mod 2 ^ 16);
          v \<leftarrow> slice_ab buf offset ((offset + le_decode vb) mod 2 ^ 16);
          Some (newItem k v) }"

fun deserialize_loop ::
  "bool \<Rightarrow> bytes \<Rightarrow> nat \<Rightarrow> nat \<Rightarrow> (item list \<times> pgnum list \<times> nat) option" where
  "deserialize_loop leaf buf leftPos 0 = Some ([], [], leftPos)"
| "deserialize_loop leaf buf leftPos (Suc n) =
     do { (cs0, leftPos) \<leftarrow>
            (if leaf then Some ([], leftPos)
             else do { b \<leftarrow> get_at buf leftPos 8; Some ([of_nat (le_decode b)], leftPos + 8) });
          ob \<leftarrow> get_at buf leftPos 2;
          it \<leftarrow> deserialize_item buf (le_decode ob);
          (its, cs, leftPos) \<leftarrow> deserialize_loop leaf buf (leftPos + 2) n;
          Some (it # its, cs0 @ cs, leftPos) }"

definition node_deserialize :: "bytes \<Rightarrow> content option" where
  "node_deserialize buf =
     do { lb \<leftarrow> get_at buf 0 1;
          cb \<leftarrow> get_at buf 1 2;
          (its, cs, leftPos) \<leftarrow> deserialize_loop (le_decode lb \<noteq> 0) buf 3 (le_decode cb);
          if le_decode lb \<noteq> 0 then Some (NewNodeForSerialization its cs)
          else do { b \<leftarrow> get_at buf leftPos 8;
                    Some (NewNodeForSerialization its (cs @ [of_nat (le_decode b)])) } }"

section \<open>The search finds the first key that is not smaller\<close>

abbreviation keys :: "item list \<Rightarrow> bytes list" where
  "keys its \<equiv> map item_key its"

lemma findKeyInNode_spec:
  assumes "sorted_wrt (<) (keys (n_items n))" and "findKeyInNode n k = (found, i)"
  shows "i \<le> length (n_items n)"
    and "found \<longleftrightarrow> i < length (n_items n) \<and> item_key (n_items n ! i) = k"
    and "\<And>j. j < i \<Longrightarrow> item_key (n_items n ! j) < k"
    and "\<And>j. i \<le> j \<Longrightarrow> j < length (n_items n) \<Longrightarrow> k \<le> item_key (n_items n ! j)"
proof -
  let ?f = "\<lambda>i. 0 \<le> bytes_compare (item_key (n_items n ! i)) k"
  let ?r = "sort_Search (length (n_items n)) ?f"
  have mono: "?f b" if "a \<le> b" "b < length (n_items n)" "?f a" for a b
  proof (cases "a = b")
    case False
    with that assms(1) have "item_key (n_items n ! a) < item_key (n_items n ! b)"
      by (simp add: sorted_wrt_iff_nth_less)
    with that(3) show ?thesis by (simp add: bytes_compare_ge)
  qed (use that in simp)
  have i: "i = ?r" and found: "found \<longleftrightarrow> ?r < length (n_items n) \<and> item_key (n_items n ! ?r) = k"
    using assms(2) by (auto simp: findKeyInNode_def Let_def split: if_splits)
  note spec = sort_Search_spec [of "length (n_items n)" ?f, OF mono]
  show "i \<le> length (n_items n)" using i spec(1) by simp
  show "found \<longleftrightarrow> i < length (n_items n) \<and> item_key (n_items n ! i) = k" using i found by simp
  show "item_key (n_items n ! j) < k" if "j < i" for j
    using spec(2) [where k = j] that i by (simp add: bytes_compare_ge not_le)
  show "k \<le> item_key (n_items n ! j)" if "i \<le> j" "j < length (n_items n)" for j
    using spec(3) [where k = j] that i by (simp add: bytes_compare_ge)
qed

lemma findKeyInNode_complete:
  assumes "sorted_wrt (<) (keys (n_items n))"
  shows "\<exists>found i. findKeyInNode n k = (found, i) \<and> i \<le> length (n_items n)
    \<and> (found \<longleftrightarrow> k \<in> set (keys (n_items n))) \<and> (found \<longrightarrow> i < length (n_items n) \<and> item_key (n_items n ! i) = k)
    \<and> (\<forall>j < i. item_key (n_items n ! j) < k)
    \<and> (\<forall>j. i \<le> j \<and> j < length (n_items n) \<longrightarrow> k \<le> item_key (n_items n ! j))"
proof -
  obtain found i where f: "findKeyInNode n k = (found, i)" by fastforce
  note s = findKeyInNode_spec [OF assms f]
  have "found" if mem: "k \<in> set (keys (n_items n))"
  proof -
    obtain j where j: "j < length (n_items n)" "item_key (n_items n ! j) = k"
      using mem by (auto simp: in_set_conv_nth)
    have "i \<le> j" using s(3) [of j] j by (meson not_le order_less_irrefl)
    have "i = j"
    proof (rule ccontr)
      assume "i \<noteq> j"
      with \<open>i \<le> j\<close> have "i < j" by simp
      then have "item_key (n_items n ! i) < k" using assms j by (auto simp: sorted_wrt_iff_nth_less)
      moreover have "k \<le> item_key (n_items n ! i)" using s(4) [of i] \<open>i < j\<close> j by simp
      ultimately show False by simp
    qed
    then show ?thesis using s(2) j by simp
  qed
  moreover have "k \<in> set (keys (n_items n))" if found using that s(2) nth_mem by fastforce
  ultimately show ?thesis using f s by blast
qed

section \<open>What fits in a page\<close>

definition cell_of :: "item \<Rightarrow> bytes" where
  "cell_of it = [of_nat (length (item_key it))] @ item_key it
     @ [of_nat (length (item_value it))] @ item_value it"

definition cells_size :: "item list \<Rightarrow> nat" where
  "cells_size its = (\<Sum>it \<leftarrow> its. length (item_key it) + length (item_value it) + 2)"

definition slot_size :: "bool \<Rightarrow> nat" where
  "slot_size leaf = (if leaf then 2 else 10)"

definition small_items :: "item list \<Rightarrow> bool" where
  "small_items its \<longleftrightarrow> list_all (\<lambda>it. length (item_key it) \<le> 255 \<and> length (item_value it) \<le> 255) its"

text \<open>
  The bytes a node really needs: the header, a slot per item (with a child pointer in an
  internal node), the last child pointer, the cells, and the last byte of the page, which
  is never used. \<open>nodeSize\<close> charges 8 bytes per item instead of the 4 of a leaf and the 12
  of an internal node.
\<close>

definition encodedSize :: "content \<Rightarrow> nat" where
  "encodedSize n = 3 + slot_size (isLeaf n) * length (n_items n) + (if isLeaf n then 0 else 8)
     + cells_size (n_items n) + 1"

lemma length_cell_of [simp]: "length (cell_of it) = length (item_key it) + length (item_value it) + 2"
  by (simp add: cell_of_def)

lemma cells_size_simps [simp]:
  "cells_size [] = 0"
  "cells_size (it # its) = length (item_key it) + length (item_value it) + 2 + cells_size its"
  by (simp_all add: cells_size_def)

lemma sum_elementSize:
  "(\<Sum>i \<leftarrow> [0..<length (n_items n)]. elementSize n i) = cells_size (n_items n) + 6 * length (n_items n)"
proof -
  have "map (elementSize n) [0..<length (n_items n)]
      = map (\<lambda>it. length (item_key it) + length (item_value it) + 8) (n_items n)"
    by (rule nth_equalityI) (simp_all add: elementSize_def)
  moreover have "(\<Sum>it \<leftarrow> its. length (item_key it) + length (item_value it) + 8)
      = cells_size its + 6 * length its" for its
    by (induction its) auto
  ultimately show ?thesis by simp
qed

lemma nodeSize_eq: "nodeSize n = 11 + cells_size (n_items n) + 6 * length (n_items n)"
  by (simp add: nodeSize_def sum_elementSize)

lemma encodedSize_leaf: "isLeaf n \<Longrightarrow> encodedSize n \<le> nodeSize n"
  by (simp add: encodedSize_def slot_size_def nodeSize_eq)

lemma encodedSize_internal: "\<not> isLeaf n \<Longrightarrow> encodedSize n = nodeSize n + 4 * length (n_items n) + 1"
  by (simp add: encodedSize_def slot_size_def nodeSize_eq)

lemma small_items_iff:
  "list_ex (\<lambda>it. length (item_key it) > 255 \<or> length (item_value it) > 255) its \<longleftrightarrow> \<not> small_items its"
  by (induction its) (auto simp: small_items_def)

lemma node_validate_Inr:
  "node_validate ps n = Inr u \<longleftrightarrow>
     (isLeaf n \<or> length (n_children n) = length (n_items n) + 1) \<and> nodeSize n \<le> ps \<and> small_items (n_items n)"
  by (auto simp: node_validate_def isLeaf_def small_items_iff)

section \<open>Round trip of the slotted page\<close>

lemma serialize_item_eq:
  assumes "o' < 2 ^ 16"
    and "rightPos = int (o' + length (item_key it) + length (item_value it) + 2)"
  shows "serialize_item buf leftPos rightPos it =
    do { b \<leftarrow> put_at buf leftPos (le_encode 2 o');
         b \<leftarrow> put_at b o' (cell_of it); Some (b, leftPos + 2, int o') }"
proof -
  let ?k = "item_key it" and ?v = "item_value it"
  have p: "put_at b o' (cell_of it) =
      do { b \<leftarrow> put_at b (o' + 2 + length ?k) ?v;
           b \<leftarrow> put_at b (o' + 1 + length ?k) [of_nat (length ?v)];
           b \<leftarrow> put_at b (o' + 1) ?k;
           put_at b o' [of_nat (length ?k)] }" for b
    using put_at_prepend [of b "o' + 1 + length ?k" "[of_nat (length ?v)]" ?v]
      put_at_prepend [of _ "o' + 1" ?k "[of_nat (length ?v)] @ ?v"]
      put_at_prepend [of _ o' "[of_nat (length ?k)]" "?k @ [of_nat (length ?v)] @ ?v"]
    by (simp add: cell_of_def flip: bind_assoc)
  have n: "nat (rightPos - int (length ?v)) = o' + 2 + length ?k"
    "nat (rightPos - int (length ?v) - 1) = o' + 1 + length ?k"
    "nat (rightPos - int (length ?v) - 1 - int (length ?k)) = o' + 1"
    "rightPos - int (length ?k) - int (length ?v) - 2 = int o'"
    "nat (int o' mod 2 ^ 16) = o'"
    using assms by (simp_all add: nat_mod_as_int)
  show ?thesis
    unfolding serialize_item_def Let_def n(4) n(5)
    using assms n(1-3) by (simp add: put_int_def p)
qed

text \<open>A byte of the length, then that many bytes: the reader inverts \<open>cell_of\<close>.\<close>

lemma deserialize_cell:
  assumes "get_at buf o' (length (cell_of it)) = Some (cell_of it)"
    and "length (item_key it) \<le> 255" and "length (item_value it) \<le> 255"
    and "o' + length (cell_of it) < 2 ^ 16"
  shows "deserialize_item buf o' = Some it"
proof -
  let ?k = "item_key it" and ?v = "item_value it"
  let ?kb = "[of_nat (length ?k)] :: bytes" and ?vb = "[of_nat (length ?v)] :: bytes"
  have d: "le_decode ?kb = length ?k" "le_decode ?vb = length ?v"
    using assms(2,3) by (simp_all add: unat_of_nat)
  have "get_at buf o' (length ?kb + length (?k @ ?vb @ ?v)) = Some (?kb @ ?k @ ?vb @ ?v)"
    using assms(1) by (simp add: cell_of_def)
  from get_at_append [OF this refl]
  have g1: "get_at buf o' 1 = Some ?kb"
    and r1: "get_at buf (o' + 1) (length ?k + length (?vb @ ?v)) = Some (?k @ ?vb @ ?v)"
    by simp_all
  from get_at_append [OF r1 refl]
  have g2: "get_at buf (o' + 1) (length ?k) = Some ?k"
    and r2: "get_at buf (o' + 1 + length ?k) (length ?vb + length ?v) = Some (?vb @ ?v)"
    by simp_all
  from get_at_append [OF r2 refl]
  have g3: "get_at buf (o' + 1 + length ?k) 1 = Some ?vb"
    and g4: "get_at buf (o' + 1 + length ?k + 1) (length ?v) = Some ?v"
    by simp_all
  have m: "(o' + 1) mod 2 ^ 16 = o' + 1" "(o' + 1 + length ?k) mod 2 ^ 16 = o' + 1 + length ?k"
    "(o' + 1 + length ?k + 1) mod 2 ^ 16 = o' + 1 + length ?k + 1"
    "(o' + 1 + length ?k + 1 + length ?v) mod 2 ^ 16 = o' + 1 + length ?k + 1 + length ?v"
    using assms(4) by simp_all
  show ?thesis
    unfolding deserialize_item_def g1 bind.bind_lunit d m
    using g2 g3 g4 d m by (simp add: get_at_def newItem_def)
qed

text \<open>
  What the loop writes, as long as slots and cells do not meet: bytes outside the two
  regions keep their value, and every buffer that agrees with the result on what has been
  written is read back to the same items and children.
\<close>

definition agrees :: "bytes \<Rightarrow> bytes \<Rightarrow> nat \<Rightarrow> nat \<Rightarrow> bool" where
  "agrees b buf l r \<longleftrightarrow> length b = length buf \<and> (\<forall>j < length buf. j < l \<or> r \<le> j \<longrightarrow> b ! j = buf ! j)"

lemma agrees_get_at:
  "agrees b buf l r \<Longrightarrow> pos + n \<le> l \<or> r \<le> pos \<Longrightarrow> get_at b pos n = get_at buf pos n"
proof -
  assume a: "agrees b buf l r" "pos + n \<le> l \<or> r \<le> pos"
  show "get_at b pos n = get_at buf pos n"
  proof (cases "pos + n \<le> length buf")
    case True
    show ?thesis using a True by (intro get_at_cong) (auto simp: agrees_def)
  qed (use a in \<open>simp add: get_at_def slice_ab_def agrees_def\<close>)
qed

lemma agrees_trans: "agrees a b l r \<Longrightarrow> agrees b c l' r' \<Longrightarrow> l' \<le> l \<Longrightarrow> r \<le> r' \<Longrightarrow> agrees a c l' r'"
  by (auto simp: agrees_def)

lemma agrees_mono: "agrees a b l r \<Longrightarrow> l' \<le> l \<Longrightarrow> r \<le> r' \<Longrightarrow> agrees a b l' r'"
  by (auto simp: agrees_def)

lemma agrees_put_at: "put_at buf pos xs = Some b \<Longrightarrow> agrees b buf pos (pos + length xs)"
  using put_at_length [of buf pos xs b] put_at_nth [of buf pos xs b] by (auto simp: agrees_def)

lemma put_at_ok: "pos + length xs \<le> length buf \<Longrightarrow> \<exists>b. put_at buf pos xs = Some b"
  by (simp add: put_at_def)

lemma serialize_item_ok:
  assumes "lp + 2 \<le> o'" and "o' + length (cell_of it) \<le> length buf" and "o' < 2 ^ 16"
    and "rp = o' + length (cell_of it)"
  obtains b where "serialize_item buf lp (int rp) it = Some (b, lp + 2, int o')"
    and "agrees b buf lp rp" and "get_at b lp 2 = Some (le_encode 2 o')"
    and "get_at b o' (length (cell_of it)) = Some (cell_of it)"
proof -
  obtain b1 where b1: "put_at buf lp (le_encode 2 o') = Some b1"
    using put_at_ok [of lp "le_encode 2 o'" buf] assms by auto
  note l1 = put_at_length [OF b1]
  obtain b2 where b2: "put_at b1 o' (cell_of it) = Some b2"
    using put_at_ok [of o' "cell_of it" b1] assms l1 by auto
  have "serialize_item buf lp (int rp) it = Some (b2, lp + 2, int o')"
    using assms serialize_item_eq [of o' "int rp" it buf lp] b1 b2 by simp
  moreover have "agrees b2 buf lp rp"
  proof (rule agrees_trans)
    show "agrees b2 b1 o' rp" using agrees_put_at [OF b2] assms(4) by simp
    show "agrees b1 buf lp rp"
      using agrees_put_at [OF b1] assms by (auto intro: agrees_mono)
  qed (use assms in auto)
  moreover have "get_at b2 lp 2 = Some (le_encode 2 o')"
    using get_put_other [OF b2, of lp 2] get_put_same [OF b1, of 2] assms(1) by simp
  ultimately show thesis using that get_put_same [OF b2] by blast
qed

lemma slot_size_simps [simp]: "slot_size True = 2" "slot_size False = 10"
  by (simp_all add: slot_size_def)

lemma serialize_loop_leaf:
  assumes "lp + 2 * length its + cells_size its \<le> rp" and "rp < length buf" and "rp < 2 ^ 16"
    and "small_items its"
  shows "\<exists>b. serialize_loop True buf lp (int rp) its cs = Some (b, lp + 2 * length its)
    \<and> agrees b buf lp rp
    \<and> (\<forall>b'. agrees b' b (lp + 2 * length its) (rp - cells_size its) \<longrightarrow>
         deserialize_loop True b' lp (length its) = Some (its, [], lp + 2 * length its))"
  using assms
proof (induction its arbitrary: buf lp rp)
  case Nil
  then show ?case by (auto simp: agrees_def)
next
  case (Cons it its)
  define o' where "o' = rp - length (cell_of it)"
  have sizes: "lp + 2 \<le> o'" "rp = o' + length (cell_of it)" "o' < 2 ^ 16"
    using Cons.prems by (auto simp: o'_def)
  have small: "length (item_key it) \<le> 255" "length (item_value it) \<le> 255" "small_items its"
    using Cons.prems(4) by (auto simp: small_items_def)
  obtain b1 where b1: "serialize_item buf lp (int rp) it = Some (b1, lp + 2, int o')"
    "agrees b1 buf lp rp" "get_at b1 lp 2 = Some (le_encode 2 o')"
    "get_at b1 o' (length (cell_of it)) = Some (cell_of it)"
    using serialize_item_ok [of lp o' it buf rp] sizes Cons.prems(2) by (metis less_imp_le)
  have "length b1 = length buf" using b1(2) by (simp add: agrees_def)
  then obtain b where b: "serialize_loop True b1 (lp + 2) (int o') its cs = Some (b, lp + 2 + 2 * length its)"
    "agrees b b1 (lp + 2) o'"
    "\<And>b'. agrees b' b (lp + 2 + 2 * length its) (o' - cells_size its) \<Longrightarrow>
       deserialize_loop True b' (lp + 2) (length its) = Some (its, [], lp + 2 + 2 * length its)"
    using Cons.IH [of "lp + 2" o' b1] Cons.prems sizes small by auto
  have "deserialize_loop True b' lp (length (it # its)) = Some (it # its, [], lp + 2 * length (it # its))"
    if a: "agrees b' b (lp + 2 * length (it # its)) (rp - cells_size (it # its))" for b'
  proof -
    have a': "agrees b' b (lp + 2 + 2 * length its) (o' - cells_size its)"
      using a by (simp add: o'_def)
    have ab: "agrees b' b1 (lp + 2) o'"
      by (rule agrees_trans [OF a' b(2)]) auto
    have "get_at b' lp 2 = Some (le_encode 2 o')"
      using agrees_get_at [OF ab, of lp 2] b1(3) by simp
    moreover have "deserialize_item b' o' = Some it"
      using agrees_get_at [OF ab, of o' "length (cell_of it)"] b1(4) small sizes Cons.prems(3)
      by (intro deserialize_cell) auto
    ultimately show ?thesis
      using b(3) [OF a'] sizes(3) by (simp add: le_decode_encode_small)
  qed
  moreover have "agrees b buf lp rp"
    by (rule agrees_trans [OF b(2) b1(2)]) (use sizes in auto)
  ultimately show ?case using b1(1) b(1) by auto
qed

lemma serialize_loop_internal:
  assumes "lp + 10 * length its + cells_size its \<le> rp" and "rp < length buf" and "rp < 2 ^ 16"
    and "small_items its" and "length its \<le> length cs"
  shows "\<exists>b. serialize_loop False buf lp (int rp) its cs = Some (b, lp + 10 * length its)
    \<and> agrees b buf lp rp
    \<and> (\<forall>b'. agrees b' b (lp + 10 * length its) (rp - cells_size its) \<longrightarrow>
         deserialize_loop False b' lp (length its) = Some (its, take (length its) cs, lp + 10 * length its))"
  using assms
proof (induction its arbitrary: buf lp rp cs)
  case Nil
  then show ?case by (auto simp: agrees_def)
next
  case (Cons it its)
  obtain c cs' where cs: "cs = c # cs'" using Cons.prems(5) by (cases cs) auto
  define o' where "o' = rp - length (cell_of it)"
  have sizes: "lp + 8 + 2 \<le> o'" "rp = o' + length (cell_of it)" "o' < 2 ^ 16"
    using Cons.prems by (auto simp: o'_def)
  have small: "length (item_key it) \<le> 255" "length (item_value it) \<le> 255" "small_items its"
    using Cons.prems(4) by (auto simp: small_items_def)
  obtain b0 where b0: "put_at buf lp (le_encode 8 (unat c)) = Some b0"
    using put_at_ok [of lp "le_encode 8 (unat c)" buf] Cons.prems by auto
  note l0 = put_at_length [OF b0]
  obtain b1 where b1: "serialize_item b0 (lp + 8) (int rp) it = Some (b1, lp + 8 + 2, int o')"
    "agrees b1 b0 (lp + 8) rp" "get_at b1 (lp + 8) 2 = Some (le_encode 2 o')"
    "get_at b1 o' (length (cell_of it)) = Some (cell_of it)"
    using serialize_item_ok [of "lp + 8" o' it b0 rp] sizes Cons.prems(2) l0 by (metis less_imp_le)
  have "length b1 = length buf" using b1(2) l0 by (simp add: agrees_def)
  then obtain b where b: "serialize_loop False b1 (lp + 10) (int o') its cs' = Some (b, lp + 10 + 10 * length its)"
    "agrees b b1 (lp + 10) o'"
    "\<And>b'. agrees b' b (lp + 10 + 10 * length its) (o' - cells_size its) \<Longrightarrow>
       deserialize_loop False b' (lp + 10) (length its)
         = Some (its, take (length its) cs', lp + 10 + 10 * length its)"
    using Cons.IH [of "lp + 10" o' b1 cs'] Cons.prems sizes small cs by auto
  have "deserialize_loop False b' lp (length (it # its))
      = Some (it # its, take (length (it # its)) cs, lp + 10 * length (it # its))"
    if a: "agrees b' b (lp + 10 * length (it # its)) (rp - cells_size (it # its))" for b'
  proof -
    have a': "agrees b' b (lp + 10 + 10 * length its) (o' - cells_size its)"
      using a by (simp add: o'_def add.assoc)
    have ab: "agrees b' b1 (lp + 10) o'"
      by (rule agrees_trans [OF a' b(2)]) auto
    have ab0: "agrees b' b0 (lp + 8) rp"
      by (rule agrees_trans [OF ab b1(2)]) (use sizes in auto)
    have "get_at b' lp 8 = Some (le_encode 8 (unat c))"
      using agrees_get_at [OF ab0, of lp 8] get_put_same [OF b0, of 8] by simp
    moreover have "get_at b' (lp + 8) 2 = Some (le_encode 2 o')"
      using agrees_get_at [OF ab, of "lp + 8" 2] b1(3) by simp
    moreover have "deserialize_item b' o' = Some it"
      using agrees_get_at [OF ab, of o' "length (cell_of it)"] b1(4) small sizes Cons.prems(3)
      by (intro deserialize_cell) auto
    ultimately show ?thesis
      using b(3) [OF a'] sizes(3) cs by (simp add: le_decode_encode_small le_decode_encode_pgnum add_ac)
  qed
  moreover have "agrees b buf lp rp"
  proof (rule agrees_trans [OF b(2)])
    show "agrees b1 buf lp rp"
      by (rule agrees_trans [OF b1(2) agrees_mono [OF agrees_put_at [OF b0]]]) (use sizes in auto)
  qed (use sizes in auto)
  moreover have "serialize_loop False buf lp (int rp) (it # its) cs = Some (b, lp + 10 * length (it # its))"
    using b0 b1(1) b(1) cs by (simp add: add_ac)
  ultimately show ?case by blast
qed

text \<open>
  A node whose encoding fits is written without a panic and read back unchanged; the pages
  are at most \<open>2 ^ 16\<close> bytes, the range of the \<open>uint16\<close> offsets.
\<close>

lemma node_roundtrip_gen:
  assumes "isLeaf n \<or> length (n_children n) = length (n_items n) + 1"
    and "encodedSize n \<le> length buf" and "length buf \<le> 2 ^ 16" and "small_items (n_items n)"
  obtains buf' where "node_serialize n buf = Some buf'" and "length buf' = length buf"
    and "node_deserialize buf' = Some \<lparr>n_items = n_items n, n_children = n_children n\<rparr>"
proof -
  let ?its = "n_items n" and ?leaf = "isLeaf n"
  let ?h = "[if ?leaf then 1 else 0] :: bytes" and ?c = "le_encode 2 (length ?its mod 2 ^ 16)"
  define rp where "rp = length buf - 1"
  have len: "3 + slot_size ?leaf * length ?its + (if ?leaf then 0 else 8) + cells_size ?its \<le> rp"
    "rp < length buf" "rp < 2 ^ 16" "int (length buf) - 1 = int rp"
    using assms(2,3) by (auto simp: encodedSize_def rp_def)
  have cnt: "length ?its mod 2 ^ 16 = length ?its"
    using len(1,3) by (auto simp: slot_size_def split: if_splits)
  obtain b1 where b1: "put_at buf 0 ?h = Some b1" using put_at_ok [of 0 ?h buf] len by auto
  note l1 = put_at_length [OF b1]
  obtain b2 where b2: "put_at b1 1 ?c = Some b2" using put_at_ok [of 1 ?c b1] len l1 by auto
  note l2 = put_at_length [OF b2]
  have h2: "get_at b2 0 1 = Some ?h" "get_at b2 1 2 = Some ?c"
    using get_put_other [OF b2, of 0 1] get_put_same [OF b1, of 1] get_put_same [OF b2, of 2] by simp_all
  have hd: "get_at b 0 1 = Some ?h \<and> get_at b 1 2 = Some ?c" if "agrees b b2 3 rp" for b
    using agrees_get_at [OF that, of 0 1] agrees_get_at [OF that, of 1 2] h2 by simp
  have dc: "le_decode ?c = length ?its"
    using cnt le_decode_encode_small [of "length ?its mod 2 ^ 16" 2] by simp
  show thesis
  proof (cases ?leaf)
    case True
    obtain b where b: "serialize_loop True b2 3 (int rp) ?its (n_children n) = Some (b, 3 + 2 * length ?its)"
      "agrees b b2 3 rp"
      "\<And>b'. agrees b' b (3 + 2 * length ?its) (rp - cells_size ?its) \<Longrightarrow>
         deserialize_loop True b' 3 (length ?its) = Some (?its, [], 3 + 2 * length ?its)"
      using serialize_loop_leaf [of 3 ?its rp b2 "n_children n"] len l1 l2 True assms(4) by auto
    have "node_serialize n buf = Some b"
      using b1 b2 b(1) True len(4) l1 l2 by (simp add: node_serialize_def Let_def)
    moreover have "node_deserialize b = Some \<lparr>n_items = ?its, n_children = n_children n\<rparr>"
      using hd [OF b(2)] b(3) [of b] dc True
      by (simp add: node_deserialize_def NewNodeForSerialization_def agrees_def isLeaf_def)
    ultimately show thesis using that b(2) l1 l2 by (simp add: agrees_def)
  next
    case False
    let ?last = "n_children n ! (length (n_children n) - 1)"
    have cs: "length (n_children n) = length ?its + 1" using assms(1) False by simp
    obtain b where b: "serialize_loop False b2 3 (int rp) ?its (n_children n) = Some (b, 3 + 10 * length ?its)"
      "agrees b b2 3 rp"
      "\<And>b'. agrees b' b (3 + 10 * length ?its) (rp - cells_size ?its) \<Longrightarrow>
         deserialize_loop False b' 3 (length ?its)
           = Some (?its, take (length ?its) (n_children n), 3 + 10 * length ?its)"
      using serialize_loop_internal [of 3 ?its rp b2 "n_children n"] len l1 l2 False assms(4) cs by auto
    have lb: "length b = length buf" using b(2) l1 l2 by (simp add: agrees_def)
    obtain b3 where b3: "put_at b (3 + 10 * length ?its) (le_encode 8 (unat ?last)) = Some b3"
      using put_at_ok [of "3 + 10 * length ?its" "le_encode 8 (unat ?last)" b] len lb False by auto
    have ag: "agrees b3 b (3 + 10 * length ?its) (rp - cells_size ?its)"
      using agrees_put_at [OF b3] len(1) False by (auto intro: agrees_mono)
    have ag2: "agrees b3 b2 3 rp" by (rule agrees_trans [OF ag b(2)]) auto
    have "node_serialize n buf = Some b3"
      using b1 b2 b(1) b3 False len(4) l1 l2 by (simp add: node_serialize_def Let_def)
    moreover have "take (length ?its) (n_children n) @ [?last] = n_children n"
      using cs take_Suc_conv_app_nth [of "length ?its" "n_children n"] by simp
    then have "node_deserialize b3 = Some \<lparr>n_items = ?its, n_children = n_children n\<rparr>"
      using hd [OF ag2] b(3) [OF ag] dc False get_put_same [OF b3, of 8]
      by (simp add: node_deserialize_def NewNodeForSerialization_def le_decode_encode_pgnum)
    ultimately show thesis using that put_at_length [OF b3] lb by simp
  qed
qed

section \<open>Properties\<close>

text \<open>
  On a node whose keys are strictly increasing the search inside the node finds a key exactly
  when the node has it, at its position, and otherwise returns the position where it belongs.
\<close>

lemma findKeyInNode_correct:
  assumes "sorted_wrt (<) (keys (n_items n))"
  shows "\<exists>found i. findKeyInNode n k = (found, i) \<and> i \<le> length (n_items n)
    \<and> (found \<longleftrightarrow> k \<in> set (keys (n_items n))) \<and> (found \<longrightarrow> i < length (n_items n) \<and> item_key (n_items n ! i) = k)
    \<and> (\<forall>j < i. item_key (n_items n ! j) < k)
    \<and> (\<forall>j. i \<le> j \<and> j < length (n_items n) \<longrightarrow> k \<le> item_key (n_items n ! j))"
  by (rule findKeyInNode_complete [OF assms])

lemma findKeyInNode_correct_witness:
  "sorted_wrt (<) (keys [newItem [1] [], newItem [3] [], newItem [5] []])
    \<and> (\<exists>found i. findKeyInNode (NewNodeForSerialization [newItem [1] [], newItem [3] [], newItem [5] []] []) [4] = (found, i))"
  using findKeyInNode_correct [of "NewNodeForSerialization [newItem [1] [], newItem [3] [], newItem [5] []] []" "[4]"]
  by (auto simp: NewNodeForSerialization_def newItem_def)

text \<open>
  C20: every leaf that passes validation is read back from its page as it was written.
\<close>

lemma leaf_page_roundtrip:
  assumes "isLeaf n" and "node_validate ps n = Inr ()" and "ps \<le> 2 ^ 16"
  shows "\<exists>buf. node_serialize n (replicate ps 0) = Some buf \<and> length buf = ps \<and> node_deserialize buf = Some n"
proof -
  have v: "nodeSize n \<le> ps" "small_items (n_items n)" using assms(2) by (simp_all add: node_validate_Inr)
  have "encodedSize n \<le> length (replicate ps 0 :: bytes)" using v encodedSize_leaf [OF assms(1)] by simp
  with assms v obtain buf where "node_serialize n (replicate ps 0) = Some buf" "length buf = ps"
    "node_deserialize buf = Some \<lparr>n_items = n_items n, n_children = n_children n\<rparr>"
    using node_roundtrip_gen [of n "replicate ps 0"] by auto
  then show ?thesis by simp
qed

lemma leaf_page_roundtrip_witness:
  "\<exists>buf. node_serialize (NewNodeForSerialization [newItem [1] [7], newItem [2] []] []) (replicate 64 0) = Some buf
    \<and> length buf = 64 \<and> node_deserialize buf = Some (NewNodeForSerialization [newItem [1] [7], newItem [2] []] [])"
  by (rule leaf_page_roundtrip) (simp_all add: isLeaf_def NewNodeForSerialization_def newItem_def node_validate_Inr
      nodeSize_eq small_items_def)

text \<open>
  An internal node that passes validation is read back from its page when the 4 extra bytes per
  item that the size check leaves out also fit.
\<close>

lemma internal_page_roundtrip:
  assumes "length (n_children n) = length (n_items n) + 1" and "node_validate ps n = Inr ()"
    and "nodeSize n + 4 * length (n_items n) + 1 \<le> ps" and "ps \<le> 2 ^ 16"
  shows "\<exists>buf. node_serialize n (replicate ps 0) = Some buf \<and> length buf = ps \<and> node_deserialize buf = Some n"
proof -
  have v: "\<not> isLeaf n" "small_items (n_items n)"
    using assms(1,2) by (auto simp: node_validate_Inr isLeaf_def)
  have "encodedSize n \<le> length (replicate ps 0 :: bytes)" using assms(3) encodedSize_internal [OF v(1)] by simp
  with assms v obtain buf where "node_serialize n (replicate ps 0) = Some buf" "length buf = ps"
    "node_deserialize buf = Some \<lparr>n_items = n_items n, n_children = n_children n\<rparr>"
    using node_roundtrip_gen [of n "replicate ps 0"] by auto
  then show ?thesis by simp
qed

lemma internal_page_roundtrip_witness:
  "\<exists>buf. node_serialize (NewNodeForSerialization [newItem [9] []] [3, 4]) (replicate 32 0) = Some buf
    \<and> length buf = 32 \<and> node_deserialize buf = Some (NewNodeForSerialization [newItem [9] []] [3, 4])"
  by (rule internal_page_roundtrip) (simp_all add: isLeaf_def NewNodeForSerialization_def newItem_def node_validate_Inr
      nodeSize_eq small_items_def)

text \<open>An internal node of 24 bytes by \<open>nodeSize\<close>; its page needs 29.\<close>

definition overflowing :: content where
  "overflowing = NewNodeForSerialization [newItem [1, 2, 3, 4, 5] []] [3, 4]"


lemma one_byte: "get_at buf q 1 = Some xs \<Longrightarrow> le_decode xs \<le> 255"
proof -
  assume "get_at buf q 1 = Some xs"
  then have "length xs = 1" by (auto simp: get_at_Some)
  then show ?thesis using le_decode_less [of xs] by simp
qed

lemma short_slice:
  "get_at buf q (Suc 0) = Some y \<Longrightarrow> slice_ab buf a ((a + le_decode y) mod 65536) = Some xs \<Longrightarrow> length xs \<le> 255"
  using one_byte [of buf q y] mod_less_eq_dividend [of "a + le_decode y" 65536] by (auto simp: slice_ab_def split: if_splits)

lemma deserialize_item_small: "deserialize_item buf o' = Some it \<Longrightarrow> small_items [it]"
  unfolding deserialize_item_def by (auto simp: bind_eq_Some_conv newItem_def small_items_def dest: short_slice)

lemma deserialize_loop_wellformed:
  "deserialize_loop leaf buf pos n = Some (its, cs, p) \<Longrightarrow>
    length its = n \<and> length cs = (if leaf then 0 else n) \<and> small_items its"
proof (induction n arbitrary: pos its cs)
  case (Suc n)
  then obtain cs0 q ob it its' cs' where s: "deserialize_item buf (le_decode ob) = Some it"
    "deserialize_loop leaf buf q n = Some (its', cs', p)" "its = it # its'" "cs = cs0 @ cs'"
    "length cs0 = (if leaf then 0 else 1)"
    by (cases leaf) (fastforce simp: bind_eq_Some_conv)+
  show ?case using Suc.IH [OF s(2)] deserialize_item_small [OF s(1)] s(3-5) by (auto simp: small_items_def)
qed (simp add: small_items_def)

text \<open>
  C22: whatever bytes a page holds, a node that can be decoded from it has no children or one more than
  items, fewer than 65536 items, and keys and values of at most 255 bytes.
\<close>

lemma node_deserialize_wellformed:
  assumes "node_deserialize buf = Some n"
  shows "length (n_children n) \<in> {0, length (n_items n) + 1} \<and> length (n_items n) < 2 ^ 16
    \<and> (\<forall>it \<in> set (n_items n). length (item_key it) \<le> 255 \<and> length (item_value it) \<le> 255)"
proof -
  obtain lb cb its cs p where h: "get_at buf 0 1 = Some lb" "get_at buf 1 2 = Some cb"
    "deserialize_loop (le_decode lb \<noteq> 0) buf 3 (le_decode cb) = Some (its, cs, p)"
    "n_items n = its" "n_children n = cs \<or> (\<exists>c. n_children n = cs @ [c]) \<and> le_decode lb = 0"
    "le_decode lb \<noteq> 0 \<longrightarrow> n_children n = cs"  "le_decode lb = 0 \<longrightarrow> (\<exists>c. n_children n = cs @ [c])"
    using assms by (auto simp: node_deserialize_def bind_eq_Some_conv NewNodeForSerialization_def split: if_splits)
  have "length cb = 2" using h(2) by (auto simp: get_at_Some)
  then have "le_decode cb < 2 ^ 16" using le_decode_less [of cb] by simp
  then show ?thesis using deserialize_loop_wellformed [OF h(3)] h(4,6,7) by (auto simp: small_items_def list_all_iff split: if_splits)
qed

lemma node_deserialize_wellformed_witness:
  "\<exists>n. node_deserialize (replicate 64 0) = Some n \<and> length (n_children n) \<in> {0, length (n_items n) + 1}"
proof -
  have "node_deserialize (replicate 64 0) = Some (NewNodeForSerialization [] [0])"
    by (simp add: node_deserialize_def get_at_def slice_ab_def bind_eq_Some_conv eval_simps)
  from node_deserialize_wellformed [OF this] this show ?thesis by blast
qed

text \<open>
  C23: on a node with increasing keys the binary search agrees with a scan from the left: it finds the key when
  the node has it, and its position is the number of smaller keys.
\<close>

lemma findKeyInNode_linear:
  assumes "sorted_wrt (<) (keys (n_items n))"
  shows "findKeyInNode n k = (k \<in> set (keys (n_items n)), length (takeWhile (\<lambda>x. x < k) (keys (n_items n))))"
proof -
  obtain found i where f: "findKeyInNode n k = (found, i)" "i \<le> length (n_items n)" "found \<longleftrightarrow> k \<in> set (keys (n_items n))"
    "\<forall>j < i. item_key (n_items n ! j) < k" "\<forall>j. i \<le> j \<and> j < length (n_items n) \<longrightarrow> k \<le> item_key (n_items n ! j)"
    using findKeyInNode_complete [OF assms, of k] by blast
  have "takeWhile (\<lambda>x. x < k) (keys (n_items n)) = take i (keys (n_items n))"
    by (rule takeWhile_eq_take_P_nth) (use f(2,4,5) in \<open>auto simp: not_less\<close>)
  then show ?thesis using f(1-3) by simp
qed

lemma findKeyInNode_linear_witness:
  "findKeyInNode (NewNodeForSerialization [newItem [1] [], newItem [3] [], newItem [5] []] []) [4]
    = (False, length (takeWhile (\<lambda>x. x < [4]) [[1], [3], [5 :: byte]]))"
  using findKeyInNode_linear [of "NewNodeForSerialization [newItem [1] [], newItem [3] [], newItem [5] []] []" "[4]"]
  by (simp add: NewNodeForSerialization_def newItem_def)

end
