(* ===== verification/Dal.thy ===== *)
theory Dal
  imports Go_Float Go_File Meta Node
begin

text \<open>
  \<^verbatim>\<open>dal.go\<close>: the data access layer. Pages are read and written at \<open>pageNum * pageSize\<close>;
  the product is a 64-bit multiplication and wraps. Opening a database (\<open>newDal\<close>) needs the
  write-ahead log and is in \<^verbatim>\<open>Wal\<close>.
\<close>

section \<open>State\<close>

record Options =
  o_pageSize :: int
  MinFillPercent :: float32
  MaxFillPercent :: float32

definition DefaultOptions :: Options where
  "DefaultOptions =
     \<lparr>o_pageSize = 0, MinFillPercent = f32_of_rat (1 / 2), MaxFillPercent = f32_of_rat (95 / 100)\<rparr>"

record page =
  p_num :: pgnum
  p_data :: bytes

record dal =
  pageSize :: nat
  minFillPercent :: float32
  maxFillPercent :: float32
  fileOpen :: bool
  d_disk :: disk
  d_meta :: meta
  d_freelist :: freelist

section \<open>Thresholds\<close>

definition maxThreshold :: "dal \<Rightarrow> float32" where
  "maxThreshold d = f32_mul (maxFillPercent d) (f32_of_int (int (pageSize d)))"

definition isOverPopulated :: "dal \<Rightarrow> content \<Rightarrow> bool" where
  "isOverPopulated d n \<longleftrightarrow> f32_less (maxThreshold d) (f32_of_int (int (nodeSize n)))"

definition minThreshold :: "dal \<Rightarrow> float32" where
  "minThreshold d = f32_mul (minFillPercent d) (f32_of_int (int (pageSize d)))"

definition isUnderPopulated :: "dal \<Rightarrow> content \<Rightarrow> bool" where
  "isUnderPopulated d n \<longleftrightarrow> f32_less (f32_of_int (int (nodeSize n))) (minThreshold d)"

fun getSplitIndex_loop :: "dal \<Rightarrow> content \<Rightarrow> nat \<Rightarrow> nat list \<Rightarrow> int" where
  "getSplitIndex_loop d n sz [] = - 1"
| "getSplitIndex_loop d n sz (i # is) =
     (let sz = sz + elementSize n i in
      if f32_less (minThreshold d) (f32_of_int (int sz)) \<and> int i < int (length (n_items n)) - 1
      then int i + 1 else getSplitIndex_loop d n sz is)"

definition getSplitIndex :: "dal \<Rightarrow> content \<Rightarrow> int" where
  "getSplitIndex d n = getSplitIndex_loop d n 3 [0..<length (n_items n)]"

section \<open>Pages\<close>

definition allocateEmptyPage :: "dal \<Rightarrow> page" where
  "allocateEmptyPage d = \<lparr>p_num = 0, p_data = replicate (pageSize d) 0\<rparr>"

definition page_offset :: "pgnum \<Rightarrow> nat \<Rightarrow> int" where
  "page_offset num ps = sint (num * of_nat ps :: 64 word)"

definition db_bytes :: "dal \<Rightarrow> bytes res" where
  "db_bytes d = (if fileOpen d then (case dbfile (d_disk d) of None \<Rightarrow> Inl ErrIO | Some f \<Rightarrow> Inr f) else Inl ErrIO)"

definition set_db_bytes :: "bytes \<Rightarrow> dal \<Rightarrow> dal" where
  "set_db_bytes f d = d\<lparr>d_disk := (d_disk d)\<lparr>dbfile := Some f\<rparr>\<rparr>"

definition readPage :: "dal \<Rightarrow> pgnum \<Rightarrow> page res" where
  "readPage d pageNum =
     bindR (db_bytes d) (\<lambda>f.
     bindR (read_at f (pageSize d) (page_offset pageNum (pageSize d))) (\<lambda>data.
     Inr ((allocateEmptyPage d)\<lparr>p_data := data\<rparr>)))"

text \<open>The \<open>i\<close>-th page write of an operation; a failing write leaves the bytes that went through.\<close>

definition writePage :: "faults \<Rightarrow> nat \<Rightarrow> page \<Rightarrow> dal \<Rightarrow> unit res \<times> dal" where
  "writePage io i p d =
     (let offset = page_offset (p_num p) (pageSize d) in
      case db_bytes d of Inl e \<Rightarrow> (Inl e, d)
      | Inr f \<Rightarrow>
        (case io (WritePageAt i) of
           Some k \<Rightarrow>
             (case write_at f (take k (p_data p)) offset of Inl e \<Rightarrow> (Inl e, d)
              | Inr f' \<Rightarrow> (Inl ErrIO, set_db_bytes f' d))
         | None \<Rightarrow>
             (case write_at f (p_data p) offset of Inl e \<Rightarrow> (Inl e, d)
              | Inr f' \<Rightarrow> (Inr (), set_db_bytes f' d))))"

fun writePages :: "faults \<Rightarrow> nat \<Rightarrow> page list \<Rightarrow> dal \<Rightarrow> unit res \<times> dal" where
  "writePages io i [] d = (Inr (), d)"
| "writePages io i (p # ps) d =
     (case writePage io i p d of
        (Inl e, d) \<Rightarrow> (Inl e, d)
      | (Inr _, d) \<Rightarrow> writePages io (Suc i) ps d)"

section \<open>Nodes, free list and header on pages\<close>

definition dal_getNode :: "dal \<Rightarrow> pgnum \<Rightarrow> content res" where
  "dal_getNode d pageNum =
     bindR (readPage d pageNum) (\<lambda>p.
     bindR (or_panic (node_deserialize (p_data p))) (\<lambda>node.
     bindR (node_validate (pageSize d) node) (\<lambda>_. Inr node)))"

definition nodePage :: "dal \<Rightarrow> pgnum \<Rightarrow> content \<Rightarrow> page res" where
  "nodePage d pageNum n =
     bindR (node_validate (pageSize d) n) (\<lambda>_.
     bindR (or_panic (node_serialize n (p_data (allocateEmptyPage d)))) (\<lambda>data.
     Inr \<lparr>p_num = pageNum, p_data = data\<rparr>))"

text \<open>Returns the page number of the node, which \<open>writeNode\<close> assigns when it is still 0.\<close>

definition dal_writeNode :: "faults \<Rightarrow> nat \<Rightarrow> pgnum \<Rightarrow> content \<Rightarrow> dal \<Rightarrow> pgnum res \<times> dal" where
  "dal_writeNode io i pageNum n d =
     (case nodePage d pageNum n of Inl e \<Rightarrow> (Inl e, d)
      | Inr p \<Rightarrow>
        let (p, d) = (if pageNum = 0
                      then let (num, fr) = getNextPage (d_freelist d) in (p\<lparr>p_num := num\<rparr>, d\<lparr>d_freelist := fr\<rparr>)
                      else (p, d)) in
        (case writePage io i p d of
           (Inl e, d) \<Rightarrow> (Inl e, d)
         | (Inr _, d) \<Rightarrow> (Inr (p_num p), d)))"

definition dal_deleteNode :: "pgnum \<Rightarrow> dal \<Rightarrow> dal" where
  "dal_deleteNode pageNum d = d\<lparr>d_freelist := releasePage pageNum (d_freelist d)\<rparr>"

definition readFreelist :: "dal \<Rightarrow> freelist res" where
  "readFreelist d =
     bindR (readPage d (m_freelistPage (d_meta d))) (\<lambda>p.
     or_panic (freelist_deserialize newFreelist (p_data p)))"

definition writeFreelist :: "faults \<Rightarrow> nat \<Rightarrow> dal \<Rightarrow> page res \<times> dal" where
  "writeFreelist io i d =
     (let p = (allocateEmptyPage d)\<lparr>p_num := m_freelistPage (d_meta d)\<rparr> in
      case freelist_serialize (d_freelist d) (p_data p) of None \<Rightarrow> (Inl Panic, d)
      | Some data \<Rightarrow>
        let p = p\<lparr>p_data := data\<rparr> in
        (case writePage io i p d of
           (Inl e, d) \<Rightarrow> (Inl e, d)
         | (Inr _, d) \<Rightarrow> (Inr p, d\<lparr>d_meta := (d_meta d)\<lparr>m_freelistPage := p_num p\<rparr>\<rparr>)))"

definition writeMeta :: "faults \<Rightarrow> nat \<Rightarrow> meta \<Rightarrow> dal \<Rightarrow> page res \<times> dal" where
  "writeMeta io i m d =
     (let p = (allocateEmptyPage d)\<lparr>p_num := metaPageNum\<rparr> in
      case meta_serialize m (p_data p) of None \<Rightarrow> (Inl Panic, d)
      | Some data \<Rightarrow>
        let p = p\<lparr>p_data := data\<rparr> in
        (case writePage io i p d of
           (Inl e, d) \<Rightarrow> (Inl e, d)
         | (Inr _, d) \<Rightarrow> (Inr p, d)))"

definition readMeta :: "dal \<Rightarrow> meta res" where
  "readMeta d =
     bindR (readPage d metaPageNum) (\<lambda>p. meta_deserialize (p_data p))"

definition dal_close :: "faults \<Rightarrow> dal \<Rightarrow> unit res \<times> dal" where
  "dal_close io d =
     (if fileOpen d then (case io CloseDB of Some _ \<Rightarrow> (Inl ErrIO, d) | None \<Rightarrow> (Inr (), d\<lparr>fileOpen := False\<rparr>))
      else (Inr (), d))"

section \<open>Split positions\<close>

text \<open>The size of a node that holds the first \<open>i\<close> items, as the loop accumulates it.\<close>

definition prefixSize :: "content \<Rightarrow> nat \<Rightarrow> nat" where
  "prefixSize n i = 3 + (\<Sum>j \<leftarrow> [0..<i]. elementSize n j)"

lemma prefixSize_Suc: "prefixSize n (Suc i) = prefixSize n i + elementSize n i"
  by (simp add: prefixSize_def)

lemma getSplitIndex_loop_spec:
  assumes "j \<le> length (n_items n)"
  shows "let r = getSplitIndex_loop d n (prefixSize n j) [j..<length (n_items n)] in
    (r = - 1 \<and> (\<forall>i. j < i \<and> i < length (n_items n) \<longrightarrow>
       \<not> f32_less (minThreshold d) (f32_of_int (int (prefixSize n i)))))
    \<or> (\<exists>i. r = int i \<and> j < i \<and> i < length (n_items n)
       \<and> f32_less (minThreshold d) (f32_of_int (int (prefixSize n i)))
       \<and> (\<forall>l. j < l \<and> l < i \<longrightarrow> \<not> f32_less (minThreshold d) (f32_of_int (int (prefixSize n l)))))"
  using assms
proof (induction "length (n_items n) - j" arbitrary: j)
  case 0
  then show ?case by auto
next
  case (Suc k)
  let ?len = "length (n_items n)" and ?less = "\<lambda>i. f32_less (minThreshold d) (f32_of_int (int (prefixSize n i)))"
  have up: "[j..<?len] = j # [Suc j..<?len]" using Suc.hyps(2) by (simp add: upt_conv_Cons)
  show ?case
  proof (cases "?less (Suc j) \<and> Suc j < ?len")
    case True
    then show ?thesis by (auto simp: up prefixSize_Suc [symmetric] intro!: exI [of _ "Suc j"])
  next
    case False
    have k: "k = ?len - Suc j" and sj: "Suc j \<le> ?len" using Suc.hyps(2) by simp_all
    let ?r = "getSplitIndex_loop d n (prefixSize n (Suc j)) [Suc j..<?len]"
    have eq: "getSplitIndex_loop d n (prefixSize n j) [j..<?len] = ?r"
      using False by (auto simp: up prefixSize_Suc [symmetric] Let_def)
    from Suc.hyps(1) [OF k sj]
    consider (none) "?r = - 1" "\<forall>i. Suc j < i \<and> i < ?len \<longrightarrow> \<not> ?less i"
      | (some) i where "?r = int i" "Suc j < i" "i < ?len" "?less i" "\<forall>l. Suc j < l \<and> l < i \<longrightarrow> \<not> ?less l"
      by (auto simp: Let_def)
    then show ?thesis
    proof cases
      case none
      then show ?thesis using False unfolding eq Let_def by (metis Suc_lessI)
    next
      case some
      have "\<not> ?less (Suc j)" using False some(2,3) by simp
      then have "\<forall>l. j < l \<and> l < i \<longrightarrow> \<not> ?less l" using some(5) by (metis Suc_lessI)
      then show ?thesis using some unfolding eq Let_def by (metis Suc_lessD)
    qed
  qed
qed

lemma getSplitIndex_cases:
  obtains (none) "getSplitIndex d n = - 1"
      "\<And>i. 0 < i \<Longrightarrow> i < length (n_items n) \<Longrightarrow>
         \<not> f32_less (minThreshold d) (f32_of_int (int (prefixSize n i)))"
  | (some) i where "getSplitIndex d n = int i" "0 < i" "i < length (n_items n)"
      "f32_less (minThreshold d) (f32_of_int (int (prefixSize n i)))"
      "\<And>l. 0 < l \<Longrightarrow> l < i \<Longrightarrow> \<not> f32_less (minThreshold d) (f32_of_int (int (prefixSize n l)))"
  using getSplitIndex_loop_spec [of 0 n d] by (auto simp: getSplitIndex_def prefixSize_def Let_def)

section \<open>Pages are independent\<close>

text \<open>Page numbers whose byte range does not overflow a signed 64-bit offset.\<close>

definition page_ok :: "nat \<Rightarrow> pgnum \<Rightarrow> bool" where
  "page_ok ps p \<longleftrightarrow> (unat p + 1) * ps < 2 ^ 63"

definition page_start :: "nat \<Rightarrow> pgnum \<Rightarrow> nat" where
  "page_start ps p = unat p * ps"

lemma sint_of_nat_small: "n < 2 ^ 63 \<Longrightarrow> sint (of_nat n :: 64 word) = int n"
  by (simp add: signed_of_nat signed_take_bit_int_eq_self)

lemma page_offset_ok:
  assumes "page_ok ps p"
  shows "page_offset p ps = int (page_start ps p)"
proof -
  have lt: "page_start ps p < 2 ^ 63" using assms by (auto simp: page_ok_def page_start_def)
  have "(p * of_nat ps :: 64 word) = of_nat (page_start ps p)" by (simp add: page_start_def)
  then show ?thesis unfolding page_offset_def using lt by (simp only: sint_of_nat_small)
qed

lemma page_ranges_disjoint:
  assumes "p \<noteq> q"
  shows "page_start ps p + ps \<le> page_start ps q \<or> page_start ps q + ps \<le> page_start ps p"
proof -
  have "Suc (unat p) \<le> unat q \<or> Suc (unat q) \<le> unat p"
    using assms by (metis Suc_leI nat_neq_iff word_unat_eq_iff)
  then have "Suc (unat p) * ps \<le> unat q * ps \<or> Suc (unat q) * ps \<le> unat p * ps"
    using mult_le_mono1 by blast
  then show ?thesis by (simp add: page_start_def add.commute)
qed

text \<open>
  What the node and transaction layers need of the page store, as a contract: a page that
  was written is read back, and writing one page leaves every other readable page alone.
\<close>

locale page_store =
  fixes rd :: "'s \<Rightarrow> 'p \<Rightarrow> 'v option"
    and wr :: "'p \<Rightarrow> 'v \<Rightarrow> 's \<Rightarrow> 's"
    and ok :: "'p \<Rightarrow> 'v \<Rightarrow> bool"
  assumes rd_wr_same: "ok p v \<Longrightarrow> rd (wr p v s) p = Some v"
    and rd_wr_other: "ok p v \<Longrightarrow> ok q w \<Longrightarrow> p \<noteq> q \<Longrightarrow> rd s q = Some w \<Longrightarrow> rd (wr p v s) q = Some w"
begin

primrec wr_all :: "('p \<times> 'v) list \<Rightarrow> 's \<Rightarrow> 's" where
  "wr_all [] s = s"
| "wr_all (x # xs) s = wr_all xs (wr (fst x) (snd x) s)"

lemma rd_wr_all_other:
  assumes "list_all (\<lambda>(p, v). ok p v) xs" and "ok q w" and "q \<notin> fst ` set xs" and "rd s q = Some w"
  shows "rd (wr_all xs s) q = Some w"
  using assms by (induction xs arbitrary: s) (auto simp: rd_wr_other)

lemma rd_wr_all_same:
  assumes "list_all (\<lambda>(p, v). ok p v) xs" and "distinct (map fst xs)" and "(p, v) \<in> set xs"
  shows "rd (wr_all xs s) p = Some v"
  using assms
proof (induction xs arbitrary: s)
  case (Cons x xs)
  then show ?case
    by (cases "x = (p, v)") (auto simp: rd_wr_same intro!: rd_wr_all_other)
qed simp

lemma rd_wr_all_map:
  assumes "list_all (\<lambda>(p, v). ok p v) xs" and "distinct (map fst xs)" and "ok q w" and "rd s q = Some w"
  shows "rd (wr_all xs s) q = (case map_of xs q of Some v \<Rightarrow> Some v | None \<Rightarrow> Some w)"
proof (cases "map_of xs q")
  case None
  then have "q \<notin> fst ` set xs" by (simp add: map_of_eq_None_iff)
  then show ?thesis using rd_wr_all_other [OF assms(1,3) _ assms(4)] None by simp
next
  case (Some v)
  then show ?thesis using rd_wr_all_same [OF assms(1,2)] by (simp add: map_of_SomeD)
qed

end

definition file_page :: "nat \<Rightarrow> bytes \<Rightarrow> pgnum \<Rightarrow> bytes option" where
  "file_page ps f p = (case read_at f ps (page_offset p ps) of Inl _ \<Rightarrow> None | Inr xs \<Rightarrow> Some xs)"

definition set_file_page :: "nat \<Rightarrow> pgnum \<Rightarrow> bytes \<Rightarrow> bytes \<Rightarrow> bytes" where
  "set_file_page ps p xs f = (case write_at f xs (page_offset p ps) of Inl _ \<Rightarrow> f | Inr f' \<Rightarrow> f')"

definition page_data_ok :: "nat \<Rightarrow> pgnum \<Rightarrow> bytes \<Rightarrow> bool" where
  "page_data_ok ps p xs \<longleftrightarrow> page_ok ps p \<and> length xs = ps"

lemma set_file_page_eq: "page_ok ps p \<Longrightarrow> set_file_page ps p xs f = overwrite f (page_start ps p) xs"
  by (simp add: set_file_page_def page_offset_ok write_at_def)

lemma file_page_eq:
  "page_ok ps p \<Longrightarrow> file_page ps f p = Some xs \<longleftrightarrow> read_at f ps (int (page_start ps p)) = Inr xs"
  by (auto simp: file_page_def page_offset_ok split: sum.splits)

interpretation fp: page_store "file_page ps" "set_file_page ps" "page_data_ok ps"
proof
  fix p q :: pgnum and v w s :: bytes
  assume ok: "page_data_ok ps p v"
  then show "file_page ps (set_file_page ps p v s) p = Some v"
    using read_overwrite_same [of s "page_start ps p" v]
    by (simp add: page_data_ok_def file_page_eq set_file_page_eq)
  assume "page_data_ok ps q w" "p \<noteq> q" "file_page ps s q = Some w"
  then show "file_page ps (set_file_page ps p v s) q = Some w"
    using ok page_ranges_disjoint [of p q ps]
    by (auto simp: page_data_ok_def file_page_eq set_file_page_eq intro!: read_overwrite_other)
qed

end
