(* ===== verification/Wal.thy ===== *)
theory Wal
  imports Dal
begin

text \<open>
  \<^verbatim>\<open>wal.go\<close>: the redo log of a commit, and \<open>newDal\<close> of \<^verbatim>\<open>dal.go\<close>, which replays it. The
  second half is the crash-safety argument of \<^verbatim>\<open>doc/crash-safe-commits.md\<close>: what the two
  files may hold when a commit stops at any point, and what recovery makes of them.
\<close>

unbundle bit_operations_syntax

section \<open>Checksum and format\<close>

text \<open>\<open>crc32.ChecksumIEEE\<close>: reflected polynomial \<open>0xEDB88320\<close>, bit by bit.\<close>

primrec crc32_bits :: "nat \<Rightarrow> 32 word \<Rightarrow> 32 word" where
  "crc32_bits 0 c = c"
| "crc32_bits (Suc n) c =
     crc32_bits n (if bit c 0 then drop_bit 1 c XOR 0xEDB88320 else drop_bit 1 c)"

definition crc32_ChecksumIEEE :: "bytes \<Rightarrow> 32 word" where
  "crc32_ChecksumIEEE bs = NOT (foldl (\<lambda>c b. crc32_bits 8 (c XOR ucast b)) 0xFFFFFFFF bs)"

definition walMagic :: bytes where
  "walMagic = [77, 89, 75, 86, 87, 65, 76, 49]"

definition walVersion :: "32 word" where
  "walVersion = 1"

definition walHeaderSize :: nat where
  "walHeaderSize = 8 + 4 + 4 + 8 + 4"

definition wal_records :: "page list \<Rightarrow> bytes" where
  "wal_records pages = concat (map (\<lambda>p. le_encode 8 (unat (p_num p)) @ p_data p) pages)"

definition wal_header :: "nat \<Rightarrow> page list \<Rightarrow> bytes" where
  "wal_header ps pages =
     walMagic @ le_encode 4 (unat walVersion) @ le_encode 4 (ps mod 2 ^ 32)
     @ le_encode 8 (length pages) @ le_encode 4 (unat (crc32_ChecksumIEEE (wal_records pages)))"

section \<open>Operations\<close>

definition set_wal :: "bytes option \<Rightarrow> dal \<Rightarrow> dal" where
  "set_wal w d = d\<lparr>d_disk := (d_disk d)\<lparr>walfile := w\<rparr>\<rparr>"

definition removeIfExists :: "faults \<Rightarrow> dal \<Rightarrow> unit res \<times> dal" where
  "removeIfExists io d =
     (case io RemoveWAL of Some _ \<Rightarrow> (Inl ErrIO, d) | None \<Rightarrow> (Inr (), set_wal None d))"

definition writeWAL :: "faults \<Rightarrow> page list \<Rightarrow> dal \<Rightarrow> unit res \<times> dal" where
  "writeWAL io pages d =
     (if list_ex (\<lambda>p. length (p_data p) \<noteq> pageSize d) pages then (Inl ErrInvalidWALPageSize, d) else
      let header = wal_header (pageSize d) pages; records = wal_records pages in
      case io OpenWAL of Some _ \<Rightarrow> (Inl ErrIO, d) | None \<Rightarrow>
      (case io WriteWALHeader of Some k \<Rightarrow> (Inl ErrIO, set_wal (Some (take k header)) d) | None \<Rightarrow>
      (case io WriteWALRecords of Some k \<Rightarrow> (Inl ErrIO, set_wal (Some (header @ take k records)) d) | None \<Rightarrow>
      (case io SyncWAL of Some _ \<Rightarrow> (Inl ErrIO, set_wal (Some (header @ records)) d) | None \<Rightarrow>
      (case io CloseWAL of Some _ \<Rightarrow> (Inl ErrIO, set_wal (Some (header @ records)) d) | None \<Rightarrow>
       (Inr (), set_wal (Some (header @ records)) d))))))"

fun read_records :: "nat \<Rightarrow> nat \<Rightarrow> bytes \<Rightarrow> page list option" where
  "read_records ps 0 data = Some []"
| "read_records ps (Suc n) data =
     do { num \<leftarrow> get_at data 0 8;
          body \<leftarrow> get_at data 8 ps;
          rest \<leftarrow> read_records ps n (drop (8 + ps) data);
          Some (\<lparr>p_num = of_nat (le_decode num), p_data = body\<rparr> # rest) }"

definition readWAL :: "faults \<Rightarrow> dal \<Rightarrow> (page list \<times> bool) res \<times> dal" where
  "readWAL io d =
     (case io ReadWALFile of Some _ \<Rightarrow> (Inl ErrIO, d) | None \<Rightarrow>
     (case walfile (d_disk d) of None \<Rightarrow> (Inr ([], False), d) | Some data \<Rightarrow>
      let discard = (case removeIfExists io d of (Inl e, d) \<Rightarrow> (Inl e, d) | (Inr _, d) \<Rightarrow> (Inr ([], False), d)) in
      if length data = 0 then discard
      else if length data < walHeaderSize then discard
      else if take 8 data \<noteq> walMagic then (Inl ErrInvalidWALMagic, d)
      else if le_decode (take 4 (drop 8 data)) \<noteq> unat walVersion then (Inl ErrUnsupportedWALVersion, d)
      else if le_decode (take 4 (drop 12 data)) \<noteq> pageSize d then (Inl ErrWALPageSizeMismatch, d)
      else
        let count = of_nat (le_decode (take 8 (drop 16 data))) :: 64 word;
            checksum = le_decode (take 4 (drop 24 data));
            recordSize = 8 + pageSize d;
            expectedSize = of_nat walHeaderSize + count * of_nat recordSize :: 64 word in
        if sint expectedSize \<noteq> int (length data) then discard
        else if unat (crc32_ChecksumIEEE (drop 28 data)) \<noteq> checksum then (Inl ErrWALChecksumMismatch, d)
        else if sint count < 0 then (Inl Panic, d)
        else (case read_records (pageSize d) (nat (sint count)) (drop 28 data) of
                None \<Rightarrow> (Inl ErrIO, d)
              | Some pages \<Rightarrow> (Inr (pages, True), d))))"

definition syncDB :: "faults \<Rightarrow> dal \<Rightarrow> unit res \<times> dal" where
  "syncDB io d = (case io SyncDB of Some _ \<Rightarrow> (Inl ErrIO, d) | None \<Rightarrow> (Inr (), d))"

definition applyPagesWithWAL :: "faults \<Rightarrow> page list \<Rightarrow> dal \<Rightarrow> unit res \<times> dal" where
  "applyPagesWithWAL io pages d =
     (case writeWAL io pages d of (Inl e, d) \<Rightarrow> (Inl e, d) | (Inr _, d) \<Rightarrow>
     (case writePages io 0 pages d of (Inl e, d) \<Rightarrow> (Inl e, d) | (Inr _, d) \<Rightarrow>
     (case syncDB io d of (Inl e, d) \<Rightarrow> (Inl e, d) | (Inr _, d) \<Rightarrow>
      removeIfExists io d)))"

definition recoverWAL :: "faults \<Rightarrow> dal \<Rightarrow> unit res \<times> dal" where
  "recoverWAL io d =
     (case readWAL io d of (Inl e, d) \<Rightarrow> (Inl e, d) | (Inr (pages, ok), d) \<Rightarrow>
      if \<not> ok then (Inr (), d) else
     (case writePages io 0 pages d of (Inl e, d) \<Rightarrow> (Inl e, d) | (Inr _, d) \<Rightarrow>
     (case syncDB io d of (Inl e, d) \<Rightarrow> (Inl e, d) | (Inr _, d) \<Rightarrow>
      removeIfExists io d)))"

text \<open>
  \<open>newDal\<close> of \<^verbatim>\<open>dal.go\<close>: the branch for an existing file, the branch that creates one, and
  the choice between them. The result carries the disk as it is left behind.
\<close>

definition openExisting :: "faults \<Rightarrow> dal \<Rightarrow> dal res \<times> disk" where
  "openExisting io d =
     (case io OpenDB of Some _ \<Rightarrow> (Inl ErrIO, d_disk d) | None \<Rightarrow>
      (case recoverWAL io (d\<lparr>fileOpen := True\<rparr>) of
         (Inl e, d) \<Rightarrow> (Inl e, d_disk d)
       | (Inr _, d) \<Rightarrow>
         (case readMeta d of Inl e \<Rightarrow> (Inl e, d_disk d) | Inr m \<Rightarrow>
          let d = d\<lparr>d_meta := m\<rparr> in
          (case readFreelist d of Inl e \<Rightarrow> (Inl e, d_disk d) | Inr fr \<Rightarrow>
           let d = d\<lparr>d_freelist := fr\<rparr> in (Inr d, d_disk d)))))"

definition createNew :: "faults \<Rightarrow> dal \<Rightarrow> dal res \<times> disk" where
  "createNew io d =
     (case io OpenDB of Some _ \<Rightarrow> (Inl ErrIO, d_disk d) | None \<Rightarrow>
      let d = d\<lparr>fileOpen := True, d_disk := (d_disk d)\<lparr>dbfile := Some []\<rparr>, d_freelist := newFreelist\<rparr>;
          (num, fr) = getNextPage (d_freelist d);
          d = d\<lparr>d_freelist := fr, d_meta := (d_meta d)\<lparr>m_freelistPage := num\<rparr>\<rparr> in
      (case writeFreelist io 0 d of (Inl e, d) \<Rightarrow> (Inl e, d_disk d) | (Inr _, d) \<Rightarrow>
      (case dal_writeNode io 1 0 (NewNodeForSerialization [] []) d of (Inl e, d) \<Rightarrow> (Inl e, d_disk d) | (Inr num, d) \<Rightarrow>
       let d = d\<lparr>d_meta := (d_meta d)\<lparr>m_root := num\<rparr>\<rparr> in
      (case writeMeta io 2 (d_meta d) d of (Inl e, d) \<Rightarrow> (Inl e, d_disk d) | (Inr _, d) \<Rightarrow>
      (case syncDB io d of (Inl e, d) \<Rightarrow> (Inl e, d_disk d) | (Inr _, d) \<Rightarrow> (Inr d, d_disk d))))))"

definition newDal :: "faults \<Rightarrow> Options \<Rightarrow> disk \<Rightarrow> dal res \<times> disk" where
  "newDal io options dk =
     (let d = \<lparr>pageSize = nat (o_pageSize options), minFillPercent = MinFillPercent options,
              maxFillPercent = MaxFillPercent options, fileOpen = False, d_disk = dk,
              d_meta = newEmptyMeta, d_freelist = newFreelist\<rparr> in
      case io StatDB of Some _ \<Rightarrow> (Inl ErrIO, dk) | None \<Rightarrow>
      (case dbfile dk of Some _ \<Rightarrow> openExisting io d | None \<Rightarrow> createNew io d))"

section \<open>The log is read back\<close>

definition wal_image :: "nat \<Rightarrow> page list \<Rightarrow> bytes" where
  "wal_image ps pages = wal_header ps pages @ wal_records pages"

text \<open>
  The pages a commit may log: whole pages with an offset in range, few enough that the size
  of the log does not overflow a 64-bit \<open>int\<close>, and a page size that fits the header field.
\<close>

definition loggable :: "nat \<Rightarrow> page list \<Rightarrow> bool" where
  "loggable ps pages \<longleftrightarrow> ps < 2 ^ 32 \<and> walHeaderSize + length pages * (8 + ps) < 2 ^ 63
     \<and> list_all (\<lambda>p. page_data_ok ps (p_num p) (p_data p)) pages"

lemma loggable_data: "loggable ps pages \<Longrightarrow> p \<in> set pages \<Longrightarrow> length (p_data p) = ps"
  and loggable_ok: "loggable ps pages \<Longrightarrow> p \<in> set pages \<Longrightarrow> page_ok ps (p_num p)"
  by (auto simp: loggable_def list_all_iff page_data_ok_def)

lemma length_walMagic [simp]: "length walMagic = 8"
  by (simp add: walMagic_def)

lemma length_wal_header [simp]: "length (wal_header ps pages) = 28"
  by (simp add: wal_header_def)

lemma length_wal_records:
  "list_all (\<lambda>p. length (p_data p) = ps) pages \<Longrightarrow> length (wal_records pages) = length pages * (8 + ps)"
  by (induction pages) (auto simp: wal_records_def)

lemma read_records_eq:
  assumes "list_all (\<lambda>p. length (p_data p) = ps) pages"
  shows "read_records ps (length pages) (wal_records pages) = Some pages"
  using assms
proof (induction pages)
  case (Cons p pages)
  have g: "get_at (wal_records (p # pages)) 0 8 = Some (le_encode 8 (unat (p_num p)))"
    "get_at (wal_records (p # pages)) 8 ps = Some (p_data p)"
    "drop (8 + ps) (wal_records (p # pages)) = wal_records pages"
    using Cons.prems by (simp_all add: wal_records_def get_at_Some)
  have "read_records ps (length pages) (wal_records pages) = Some pages" using Cons by simp
  then show ?case using g by (simp add: le_decode_encode_pgnum)
qed simp

lemma header_fields:
  assumes "28 \<le> k"
  shows "take 8 (take k (wal_image ps pages)) = walMagic"
    and "take 4 (drop 8 (take k (wal_image ps pages))) = le_encode 4 (unat walVersion)"
    and "take 4 (drop 12 (take k (wal_image ps pages))) = le_encode 4 (ps mod 2 ^ 32)"
    and "take 8 (drop 16 (take k (wal_image ps pages))) = le_encode 8 (length pages)"
    and "take 4 (drop 24 (take k (wal_image ps pages)))
      = le_encode 4 (unat (crc32_ChecksumIEEE (wal_records pages)))"
    and "drop 28 (take k (wal_image ps pages)) = take (k - 28) (wal_records pages)"
  using assms by (simp_all add: wal_image_def wal_header_def take_Cons' drop_Cons')

lemma no_faults_apply [simp]: "no_faults op = None"
  by (simp add: no_faults_def)

text \<open>A log with a complete, sane header: the size, then the checksum, decide.\<close>

lemma readWAL_header:
  assumes w: "walfile (d_disk d) = Some data" and l: "28 \<le> length data"
    and m: "take 8 data = walMagic" and v: "le_decode (take 4 (drop 8 data)) = unat walVersion"
    and p: "le_decode (take 4 (drop 12 data)) = pageSize d"
    and c: "le_decode (take 8 (drop 16 data)) = n" and n: "28 + n * (8 + pageSize d) < 2 ^ 63"
  shows "readWAL no_faults d =
    (if length data \<noteq> 28 + n * (8 + pageSize d) then (Inr ([], False), set_wal None d)
     else if unat (crc32_ChecksumIEEE (drop 28 data)) \<noteq> le_decode (take 4 (drop 24 data))
     then (Inl ErrWALChecksumMismatch, d)
     else (case read_records (pageSize d) n (drop 28 data) of
             None \<Rightarrow> (Inl ErrIO, d) | Some pages \<Rightarrow> (Inr (pages, True), d)))"
proof -
  have "n < 2 ^ 63" using n by (simp add: algebra_simps)
  then have sc: "sint (of_nat n :: 64 word) = int n" by (rule sint_of_nat_small)
  have "(of_nat walHeaderSize + of_nat n * of_nat (8 + pageSize d) :: 64 word) = of_nat (28 + n * (8 + pageSize d))"
    by (simp add: walHeaderSize_def)
  then have es: "sint (of_nat walHeaderSize + of_nat n * of_nat (8 + pageSize d) :: 64 word)
      = int (28 + n * (8 + pageSize d))"
    by (simp only: sint_of_nat_small [OF n])
  have z: "length data \<noteq> 0" "\<not> length data < walHeaderSize" using l by (auto simp: walHeaderSize_def)
  have le: "int (28 + n * (8 + pageSize d)) \<noteq> int (length data) \<longleftrightarrow> length data \<noteq> 28 + n * (8 + pageSize d)"
    by (simp only: of_nat_eq_iff) auto
  have neg: "\<not> int n < 0" by simp
  show ?thesis
    unfolding readWAL_def no_faults_apply option.case w Let_def m v p c es sc removeIfExists_def le
    by (simp only: z neg nat_int not_True_eq_False not_False_eq_True if_False if_True prod.case
        sum.case refl simp_thms)
qed

lemma readWAL_prefix:
  assumes log: "loggable ps pages" and d: "pageSize d = ps"
    and w: "walfile (d_disk d) = Some (take k (wal_image ps pages))" and k: "k \<le> length (wal_image ps pages)"
  shows "readWAL no_faults d =
    (if k = length (wal_image ps pages) then (Inr (pages, True), d) else (Inr ([], False), set_wal None d))"
proof (cases "k < 28")
  case True
  have "length (take k (wal_image ps pages)) = k" using k by simp
  then show ?thesis
    using True w k by (auto simp: readWAL_def walHeaderSize_def removeIfExists_def wal_image_def Let_def)
next
  case False
  then have k28: "28 \<le> k" by simp
  let ?n = "length pages * (8 + ps)"
  have ps: "ps < 2 ^ 32" and n: "28 + ?n < 2 ^ 63" and all: "list_all (\<lambda>p. length (p_data p) = ps) pages"
    using log by (auto simp: loggable_def walHeaderSize_def list_all_iff page_data_ok_def)
  note f = header_fields [OF k28, of ps pages]
  have len: "length (wal_image ps pages) = 28 + ?n"
    using length_wal_records [OF all] by (simp add: wal_image_def)
  have lk: "length (take k (wal_image ps pages)) = k" using k by simp
  have "length pages < 2 ^ 63" using n by (simp add: algebra_simps)
  then have dc: "le_decode (le_encode 8 (length pages)) = length pages"
    by (intro le_decode_encode_small) simp
  have dw: "le_decode (le_encode 4 (unat c)) = unat c" for c :: "32 word"
    using unsigned_less [of c] by (intro le_decode_encode_small) simp
  have dp: "le_decode (le_encode 4 (ps mod 2 ^ 32)) = pageSize d"
    using ps d le_decode_encode_small [of ps 4] by simp
  have rr: "read_records ps (length pages) (take (k - 28) (wal_records pages)) = Some pages"
    "take (k - 28) (wal_records pages) = wal_records pages" if "k = 28 + ?n"
    using that read_records_eq [OF all] length_wal_records [OF all] by simp_all
  have "readWAL no_faults d =
    (if k \<noteq> 28 + ?n then (Inr ([], False), set_wal None d)
     else if unat (crc32_ChecksumIEEE (take (k - 28) (wal_records pages)))
        \<noteq> unat (crc32_ChecksumIEEE (wal_records pages))
     then (Inl ErrWALChecksumMismatch, d)
     else (case read_records ps (length pages) (take (k - 28) (wal_records pages)) of
             None \<Rightarrow> (Inl ErrIO, d) | Some pages \<Rightarrow> (Inr (pages, True), d)))"
    using readWAL_header [OF w, of "length pages"] k28 n unfolding lk f dw dp dc d by blast
  then show ?thesis using rr unfolding len by (cases "k = 28 + ?n") simp_all
qed

section \<open>Replaying pages\<close>

primrec apply_pages :: "nat \<Rightarrow> page list \<Rightarrow> bytes \<Rightarrow> bytes" where
  "apply_pages ps [] f = f"
| "apply_pages ps (p # pages) f = apply_pages ps pages (set_file_page ps (p_num p) (p_data p) f)"

definition in_page :: "nat \<Rightarrow> page \<Rightarrow> nat \<Rightarrow> bool" where
  "in_page ps p j \<longleftrightarrow> page_start ps (p_num p) \<le> j \<and> j < page_start ps (p_num p) + ps"

definition covered :: "nat \<Rightarrow> page list \<Rightarrow> nat \<Rightarrow> bool" where
  "covered ps pages j \<longleftrightarrow> list_ex (\<lambda>p. in_page ps p j) pages"

definition pages_end :: "nat \<Rightarrow> page list \<Rightarrow> nat" where
  "pages_end ps pages = foldr (\<lambda>p. max (page_start ps (p_num p) + ps)) pages 0"

abbreviation pages_ok :: "nat \<Rightarrow> page list \<Rightarrow> bool" where
  "pages_ok ps pages \<equiv> list_all (\<lambda>p. page_data_ok ps (p_num p) (p_data p)) pages"

lemma loggable_pages_ok: "loggable ps pages \<Longrightarrow> pages_ok ps pages"
  by (simp add: loggable_def)

lemma set_file_page_bytes:
  assumes "page_data_ok ps (p_num p) (p_data p)"
  shows "length (set_file_page ps (p_num p) (p_data p) f) = max (length f) (page_start ps (p_num p) + ps)"
    and "byte_at (set_file_page ps (p_num p) (p_data p) f) j =
      (if in_page ps p j then p_data p ! (j - page_start ps (p_num p)) else byte_at f j)"
  using assms by (auto simp: page_data_ok_def set_file_page_eq byte_at_overwrite in_page_def)

lemma length_apply_pages:
  "pages_ok ps pages \<Longrightarrow> length (apply_pages ps pages f) = max (length f) (pages_end ps pages)"
  by (induction pages arbitrary: f) (auto simp: pages_end_def set_file_page_bytes)

lemma byte_at_apply_uncovered:
  "pages_ok ps pages \<Longrightarrow> \<not> covered ps pages j \<Longrightarrow> byte_at (apply_pages ps pages f) j = byte_at f j"
  by (induction pages arbitrary: f) (auto simp: covered_def set_file_page_bytes)

lemma byte_at_apply_covered:
  assumes "pages_ok ps pages" and "covered ps pages j"
  shows "byte_at (apply_pages ps pages f) j = byte_at (apply_pages ps pages g) j"
  using assms
proof (induction pages arbitrary: f g)
  case (Cons p pages)
  show ?case
  proof (cases "covered ps pages j")
    case True
    with Cons show ?thesis by simp
  next
    case False
    with Cons.prems have "in_page ps p j" by (simp add: covered_def)
    with Cons.prems False show ?thesis
      by (simp add: byte_at_apply_uncovered set_file_page_bytes)
  qed
qed (simp add: covered_def)

text \<open>
  A data file that may be found after a crash while the pages were being written: between
  the old and the new length, and equal to the old file outside the pages. Inside them it
  may hold anything, in any order of the writes and with torn pages.
\<close>

definition torn :: "nat \<Rightarrow> page list \<Rightarrow> bytes \<Rightarrow> bytes \<Rightarrow> bool" where
  "torn ps pages old f \<longleftrightarrow> length old \<le> length f \<and> length f \<le> max (length old) (pages_end ps pages)
     \<and> (\<forall>j. \<not> covered ps pages j \<longrightarrow> byte_at f j = byte_at old j)"

lemma apply_pages_torn:
  assumes "pages_ok ps pages" and "torn ps pages old f"
  shows "apply_pages ps pages f = apply_pages ps pages old"
proof (rule bytes_eqI)
  show "length (apply_pages ps pages f) = length (apply_pages ps pages old)"
    using assms by (auto simp: length_apply_pages torn_def)
  show "byte_at (apply_pages ps pages f) j = byte_at (apply_pages ps pages old) j" for j
  proof (cases "covered ps pages j")
    case True
    then show ?thesis using assms(1) by (rule byte_at_apply_covered [rotated])
  next
    case False
    then show ?thesis using assms by (simp add: byte_at_apply_uncovered torn_def)
  qed
qed

lemma torn_refl: "torn ps pages old old"
  by (simp add: torn_def)

lemma torn_prefix:
  assumes "torn ps pages f g" and "torn ps pages old f"
  shows "torn ps pages old g"
  using assms by (auto simp: torn_def)

lemma torn_page:
  assumes "page_ok ps (p_num p)" and "length (p_data p) = ps" and "p \<in> set pages"
  shows "torn ps pages f (overwrite f (page_start ps (p_num p)) (take k (p_data p)))"
proof -
  have "page_start ps (p_num p) + ps \<le> pages_end ps pages"
    using assms(3) by (induction pages) (auto simp: pages_end_def)
  moreover have "covered ps pages j" if "in_page ps p j" for j
    using that assms(3) by (auto simp: covered_def list_ex_iff)
  ultimately show ?thesis
    using assms(2) by (auto simp: torn_def byte_at_overwrite in_page_def min_def split: if_splits)
qed

section \<open>Crash states and recovery\<close>

text \<open>
  What the two files may hold when a commit of \<open>pages\<close> over the data file \<open>old\<close> stops:
  before the log exists, inside the log, while the pages are applied, after the log is gone.
  The flag says whether the log is complete, that is, whether the commit is durable.
\<close>

inductive commit_crash :: "nat \<Rightarrow> page list \<Rightarrow> bytes \<Rightarrow> bool \<Rightarrow> disk \<Rightarrow> bool"
  for ps :: nat and pages :: "page list" and old :: bytes where
  before_wal: "commit_crash ps pages old False \<lparr>dbfile = Some old, walfile = None\<rparr>"
| in_wal: "k < length (wal_image ps pages) \<Longrightarrow>
    commit_crash ps pages old False \<lparr>dbfile = Some old, walfile = Some (take k (wal_image ps pages))\<rparr>"
| in_pages: "torn ps pages old f \<Longrightarrow>
    commit_crash ps pages old True \<lparr>dbfile = Some f, walfile = Some (wal_image ps pages)\<rparr>"
| after_wal: "commit_crash ps pages old True \<lparr>dbfile = Some (apply_pages ps pages old), walfile = None\<rparr>"

inductive_cases commit_crash_durable: "commit_crash ps pages old True dk"
inductive_cases commit_crash_not_durable: "commit_crash ps pages old False dk"

lemma db_bytes_set [simp]: "fileOpen d \<Longrightarrow> db_bytes (set_db_bytes f d) = Inr f"
  and fileOpen_set [simp]: "fileOpen (set_db_bytes f d) = fileOpen d"
  and pageSize_set [simp]: "pageSize (set_db_bytes f d) = pageSize d"
  and set_set_db_bytes [simp]: "set_db_bytes g (set_db_bytes f d) = set_db_bytes g d"
  by (simp_all add: db_bytes_def set_db_bytes_def)

lemma set_db_bytes_same: "db_bytes d = Inr f \<Longrightarrow> set_db_bytes f d = d"
  by (auto simp: db_bytes_def set_db_bytes_def split: if_splits option.splits)

lemma db_bytes_open: "db_bytes d = Inr f \<Longrightarrow> fileOpen d \<and> dbfile (d_disk d) = Some f"
  by (auto simp: db_bytes_def split: if_splits option.splits)

lemma writePage_ok:
  assumes "db_bytes d = Inr f" and "page_ok (pageSize d) (p_num p)" and "io (WritePageAt i) = None"
  shows "writePage io i p d = (Inr (), set_db_bytes (set_file_page (pageSize d) (p_num p) (p_data p) f) d)"
  using assms by (simp add: writePage_def page_offset_ok write_at_def set_file_page_eq)

lemma writePages_ok:
  assumes "db_bytes d = Inr f" and "pages_ok (pageSize d) pages" and "\<And>j. io (WritePageAt j) = None"
  shows "writePages io i pages d = (Inr (), set_db_bytes (apply_pages (pageSize d) pages f) d)"
  using assms
proof (induction pages arbitrary: i d f)
  case Nil
  then show ?case by (simp add: set_db_bytes_same)
next
  case (Cons p pages)
  have "page_ok (pageSize d) (p_num p)" using Cons.prems(2) by (simp add: page_data_ok_def)
  note one = writePage_ok [of d f p io i, OF Cons.prems(1) this Cons.prems(3)]
  have "fileOpen d" using db_bytes_open [OF Cons.prems(1)] by simp
  then show ?case
    using Cons.IH [of "set_db_bytes (set_file_page (pageSize d) (p_num p) (p_data p) f) d"] Cons.prems one
    by simp
qed

lemma recoverWAL_crash:
  assumes "commit_crash ps pages old durable (d_disk d)" and "loggable ps pages"
    and "pageSize d = ps" and "fileOpen d"
  shows "recoverWAL no_faults d =
    (Inr (), d\<lparr>d_disk := \<lparr>dbfile = Some (if durable then apply_pages ps pages old else old), walfile = None\<rparr>\<rparr>)"
  using assms(1)
proof (cases rule: commit_crash.cases)
  case before_wal
  then show ?thesis by (cases d) (simp add: recoverWAL_def readWAL_def)
next
  case (in_wal k)
  then have "readWAL no_faults d = (Inr ([], False), set_wal None d)"
    using readWAL_prefix [OF assms(2,3), of k] by simp
  with in_wal show ?thesis by (cases d) (simp add: recoverWAL_def set_wal_def)
next
  case (in_pages f)
  have r: "readWAL no_faults d = (Inr (pages, True), d)"
    using readWAL_prefix [OF assms(2,3), of "length (wal_image ps pages)"] in_pages by simp
  have f: "db_bytes d = Inr f" using in_pages assms(4) by (simp add: db_bytes_def)
  have a: "apply_pages ps pages f = apply_pages ps pages old"
    using apply_pages_torn [OF loggable_pages_ok [OF assms(2)]] in_pages by simp
  have "writePages no_faults 0 pages d = (Inr (), set_db_bytes (apply_pages ps pages old) d)"
    using writePages_ok [OF f] loggable_pages_ok [OF assms(2)] assms(3) a by simp
  with r in_pages show ?thesis
    by (cases d) (simp add: recoverWAL_def syncDB_def removeIfExists_def set_wal_def set_db_bytes_def)
next
  case after_wal
  then show ?thesis by (cases d) (simp add: recoverWAL_def readWAL_def)
qed

text \<open>Whatever fails while the pages are applied, the data file is a torn one.\<close>

lemma writePage_torn:
  assumes "db_bytes d = Inr f" and "page_data_ok (pageSize d) (p_num p) (p_data p)" and "p \<in> set all"
    and "writePage io i p d = (r, d')"
  shows "\<exists>f'. d' = set_db_bytes f' d \<and> torn (pageSize d) all f f'
    \<and> (r = Inr () \<longrightarrow> f' = set_file_page (pageSize d) (p_num p) (p_data p) f)"
proof -
  have ok: "page_ok (pageSize d) (p_num p)" "length (p_data p) = pageSize d"
    using assms(2) by (simp_all add: page_data_ok_def)
  note t = torn_page [OF ok assms(3), of f]
  show ?thesis
  proof (cases "io (WritePageAt i)")
    case None
    then show ?thesis
      using assms(4) writePage_ok [of d f p io i, OF assms(1) ok(1) None] t [of "pageSize d"] ok
      by (auto simp: set_file_page_eq)
  next
    case (Some k)
    then show ?thesis
      using assms(1,4) t [of k] ok by (auto simp: writePage_def page_offset_ok write_at_def)
  qed
qed

lemma writePages_torn:
  assumes "db_bytes d = Inr f" and "pages_ok (pageSize d) pages" and "set pages \<subseteq> set all"
    and "writePages io i pages d = (r, d')"
  shows "\<exists>f'. d' = set_db_bytes f' d \<and> torn (pageSize d) all f f'
    \<and> (r = Inr () \<longrightarrow> f' = apply_pages (pageSize d) pages f)"
  using assms
proof (induction pages arbitrary: i d f)
  case Nil
  then show ?case using torn_refl set_db_bytes_same by fastforce
next
  case (Cons p pages)
  obtain r1 d1 where one: "writePage io i p d = (r1, d1)" by fastforce
  obtain f1 where f1: "d1 = set_db_bytes f1 d" "torn (pageSize d) all f f1"
    "r1 = Inr () \<longrightarrow> f1 = set_file_page (pageSize d) (p_num p) (p_data p) f"
    using writePage_torn [OF Cons.prems(1) _ _ one, of all] Cons.prems(2,3) by auto
  show ?case
  proof (cases r1)
    case (Inl e)
    then show ?thesis using Cons.prems(4) one f1 by auto
  next
    case (Inr u)
    have "fileOpen d" using db_bytes_open [OF Cons.prems(1)] by simp
    then have "db_bytes d1 = Inr f1" using f1(1) by simp
    moreover have "writePages io (Suc i) pages d1 = (r, d')" using Cons.prems(4) one Inr by simp
    ultimately obtain f' where f': "d' = set_db_bytes f' d1" "torn (pageSize d1) all f1 f'"
      "r = Inr () \<longrightarrow> f' = apply_pages (pageSize d1) pages f1"
      using Cons.IH [of d1 f1 "Suc i"] Cons.prems(2,3) f1(1) by auto
    then show ?thesis using f1 Inr torn_prefix [OF _ f1(2)] by auto
  qed
qed

text \<open>
  Every way in which \<open>applyPagesWithWAL\<close> can stop leaves one of the crash states, and when
  it returns without an error the new pages are in place and the log is gone.
\<close>

lemma take_image_header: "k \<le> 28 \<Longrightarrow> take k (wal_header ps pages) = take k (wal_image ps pages)"
  by (simp add: wal_image_def)

lemma take_image_records:
  "wal_header ps pages @ take k (wal_records pages) = take (28 + k) (wal_image ps pages)"
  by (simp add: wal_image_def)

lemma commit_crash_prefix:
  "\<exists>durable. commit_crash ps pages old durable \<lparr>dbfile = Some old, walfile = Some (take k (wal_image ps pages))\<rparr>"
proof (cases "k < length (wal_image ps pages)")
  case True
  then show ?thesis by (auto intro: commit_crash.in_wal)
next
  case False
  then show ?thesis using commit_crash.in_pages [OF torn_refl] by auto
qed

lemma writeWAL_crash:
  assumes "writeWAL io pages d = (r, d')" and "d_disk d = \<lparr>dbfile = Some old, walfile = None\<rparr>"
  shows "\<exists>durable. commit_crash (pageSize d) pages old durable (d_disk d')"
    and "r = Inr u \<Longrightarrow> d' = set_wal (Some (wal_image (pageSize d) pages)) d"
proof -
  let ?i = "wal_image (pageSize d) pages"
  have h: "take k (wal_header (pageSize d) pages) = take (min k 28) ?i" for k
    by (cases "k \<le> 28") (simp_all add: wal_image_def)
  show "\<exists>durable. commit_crash (pageSize d) pages old durable (d_disk d')"
    using assms commit_crash_prefix [of "pageSize d" pages old]
      commit_crash_prefix [of "pageSize d" pages old "length ?i"]
      exI [of "\<lambda>b. commit_crash _ _ _ b _", OF commit_crash.before_wal [of "pageSize d" pages old]]
    by (auto simp: writeWAL_def set_wal_def Let_def take_image_records h wal_image_def [symmetric]
        split: if_splits option.splits)
  show "d' = set_wal (Some ?i) d" if "r = Inr u"
    using assms that by (auto simp: writeWAL_def Let_def wal_image_def split: if_splits option.splits)
qed

lemma applyPagesWithWAL_crash:
  assumes "applyPagesWithWAL io pages d = (r, d')" and "d_disk d = \<lparr>dbfile = Some old, walfile = None\<rparr>"
    and "fileOpen d" and "loggable (pageSize d) pages"
  shows "(\<exists>durable. commit_crash (pageSize d) pages old durable (d_disk d'))
    \<and> (r = Inr () \<longrightarrow> d_disk d' = \<lparr>dbfile = Some (apply_pages (pageSize d) pages old), walfile = None\<rparr>)"
proof -
  obtain r1 d1 where w: "writeWAL io pages d = (r1, d1)" by fastforce
  note cr = writeWAL_crash [OF w assms(2)]
  show ?thesis
  proof (cases r1)
    case (Inl e)
    then show ?thesis using assms(1) w cr(1) by (auto simp: applyPagesWithWAL_def)
  next
    case (Inr u)
    have d1: "d1 = set_wal (Some (wal_image (pageSize d) pages)) d" using cr(2) Inr by simp
    have b1: "db_bytes d1 = Inr old" "pageSize d1 = pageSize d"
      using d1 assms(2,3) by (simp_all add: db_bytes_def set_wal_def)
    obtain r2 d2 where p: "writePages io 0 pages d1 = (r2, d2)" by fastforce
    obtain f' where f': "d2 = set_db_bytes f' d1" "torn (pageSize d) pages old f'"
      "r2 = Inr () \<longrightarrow> f' = apply_pages (pageSize d) pages old"
      using writePages_torn [OF b1(1) _ _ p, of pages] b1(2) loggable_pages_ok [OF assms(4)] by auto
    have dk: "d_disk d2 = \<lparr>dbfile = Some f', walfile = Some (wal_image (pageSize d) pages)\<rparr>"
      using f'(1) d1 assms(2) by (simp add: set_db_bytes_def set_wal_def)
    have torn: "\<exists>durable. commit_crash (pageSize d) pages old durable (d_disk d2)"
      unfolding dk using commit_crash.in_pages [OF f'(2)] by blast
    show ?thesis
    proof (cases r2)
      case (Inl e)
      then show ?thesis using assms(1) w Inr p torn by (auto simp: applyPagesWithWAL_def)
    next
      case r2: (Inr v)
      then show ?thesis
        using assms(1) w Inr p torn dk f'(3) commit_crash.after_wal [of "pageSize d" pages old]
        by (auto simp: applyPagesWithWAL_def syncDB_def removeIfExists_def set_wal_def
            split: option.splits)
    qed
  qed
qed

text \<open>Recovery may itself stop at any point and be started again.\<close>

lemma readWAL_faults:
  "readWAL io d = readWAL no_faults d \<or> readWAL io d = (Inl ErrIO, d)"
  by (simp add: readWAL_def removeIfExists_def Let_def split: option.splits)

lemma recoverWAL_crash_again:
  assumes "commit_crash ps pages old durable (d_disk d)" and "loggable ps pages"
    and "pageSize d = ps" and "fileOpen d" and "recoverWAL io d = (r, d')"
  shows "commit_crash ps pages old durable (d_disk d')"
proof (cases "readWAL io d = (Inl ErrIO, d)")
  case True
  then show ?thesis using assms(1,5) by (simp add: recoverWAL_def)
next
  case False
  then have rd: "readWAL io d = readWAL no_faults d" using readWAL_faults by blast
  show ?thesis
    using assms(1)
  proof (cases rule: commit_crash.cases)
    case before_wal
    then show ?thesis using assms(1,5) rd by (simp add: recoverWAL_def readWAL_def)
  next
    case (in_wal k)
    then have "readWAL no_faults d = (Inr ([], False), set_wal None d)"
      using readWAL_prefix [OF assms(2,3), of k] by simp
    with in_wal assms(5) rd show ?thesis
      by (auto simp: recoverWAL_def set_wal_def intro: commit_crash.before_wal)
  next
    case (in_pages f)
    have r: "readWAL no_faults d = (Inr (pages, True), d)"
      using readWAL_prefix [OF assms(2,3), of "length (wal_image ps pages)"] in_pages by simp
    have f: "db_bytes d = Inr f" using in_pages assms(4) by (simp add: db_bytes_def)
    obtain r1 d1 where w: "writePages io 0 pages d = (r1, d1)" by fastforce
    obtain f' where f': "d1 = set_db_bytes f' d" "torn ps pages f f'"
      "r1 = Inr () \<longrightarrow> f' = apply_pages ps pages f"
      using writePages_torn [OF f _ _ w, of pages] assms(3) loggable_pages_ok [OF assms(2)] by auto
    have t: "torn ps pages old f'" using torn_prefix [OF f'(2)] in_pages by simp
    have d1: "d_disk d1 = \<lparr>dbfile = Some f', walfile = Some (wal_image ps pages)\<rparr>"
      using f'(1) in_pages by (simp add: set_db_bytes_def)
    have a: "r1 = Inr () \<longrightarrow> f' = apply_pages ps pages old"
      using f'(3) apply_pages_torn [OF loggable_pages_ok [OF assms(2)], of old f] in_pages by simp
    show ?thesis
      using assms(5) rd r w d1 a in_pages commit_crash.in_pages [OF t] commit_crash.after_wal [of ps pages old]
      by (auto simp: recoverWAL_def syncDB_def removeIfExists_def set_wal_def split: option.splits sum.splits)
  next
    case after_wal
    then show ?thesis using assms(1,5) rd by (simp add: recoverWAL_def readWAL_def)
  qed
qed


text \<open>The operations change nothing but the disk.\<close>

definition disk_only :: "dal \<Rightarrow> dal \<Rightarrow> bool" where
  "disk_only d d' \<longleftrightarrow> d' = d\<lparr>d_disk := d_disk d'\<rparr>"

lemma disk_only_refl [simp]: "disk_only d d"
  by (simp add: disk_only_def)

lemma disk_only_trans: "disk_only d d' \<Longrightarrow> disk_only d' d'' \<Longrightarrow> disk_only d d''"
  by (cases d; cases d'; cases d'') (simp add: disk_only_def)

lemma disk_only_set [simp]: "disk_only d (set_db_bytes f d)" "disk_only d (set_wal w d)"
  by (simp_all add: disk_only_def set_db_bytes_def set_wal_def)

lemma disk_only_fields:
  assumes "disk_only d d'"
  shows "pageSize d' = pageSize d" and "fileOpen d' = fileOpen d" and "d_meta d' = d_meta d"
    and "d_freelist d' = d_freelist d" and "d'\<lparr>d_disk := k\<rparr> = d\<lparr>d_disk := k\<rparr>"
    and "minFillPercent d' = minFillPercent d" and "maxFillPercent d' = maxFillPercent d"
  using assms by (cases d; cases d'; simp add: disk_only_def)+

lemma writePages_disk_only: "disk_only d (snd (writePages io i pages d))"
proof (induction pages arbitrary: i d)
  case (Cons p pages)
  have "disk_only d (snd (writePage io i p d))"
    by (simp add: writePage_def Let_def split: sum.splits option.splits)
  then show ?case using Cons by (auto split: prod.splits sum.splits intro: disk_only_trans)
qed simp

lemma removeIfExists_disk_only: "disk_only d (snd (removeIfExists io d))"
  by (simp add: removeIfExists_def split: option.splits)

lemma syncDB_disk_only: "disk_only d (snd (syncDB io d))"
  by (simp add: syncDB_def split: option.splits)

lemma disk_only_seq:
  assumes "disk_only d (snd x)" and "\<And>r d1. disk_only d1 (snd (f r d1))"
  shows "disk_only d (snd (case x of (Inl e, d) \<Rightarrow> (Inl e, d) | (Inr r, d) \<Rightarrow> f r d))"
proof -
  obtain a d1 where x: "x = (a, d1)" by fastforce
  show ?thesis
    using assms(1) disk_only_trans [OF _ assms(2)] by (cases a) (simp_all add: x)
qed

lemmas disk_only_intros =
  disk_only_seq writePages_disk_only syncDB_disk_only removeIfExists_disk_only

lemma readWAL_disk_only: "disk_only d (snd (readWAL io d))"
  by (simp add: readWAL_def removeIfExists_def Let_def split: option.splits)

lemma writeWAL_disk_only: "disk_only d (snd (writeWAL io pages d))"
  by (simp add: writeWAL_def Let_def split: option.splits)

lemma recoverWAL_disk_only: "disk_only d (snd (recoverWAL io d))"
  unfolding recoverWAL_def
  by (rule disk_only_seq [OF readWAL_disk_only], rename_tac r d1, case_tac r) (auto intro!: disk_only_intros)

lemma applyPagesWithWAL_disk_only: "disk_only d (snd (applyPagesWithWAL io pages d))"
  unfolding applyPagesWithWAL_def by (intro disk_only_intros writeWAL_disk_only)

text \<open>Failed attempts to recover, one after the other.\<close>

primrec recoveries :: "faults list \<Rightarrow> dal \<Rightarrow> dal" where
  "recoveries [] d = d"
| "recoveries (io # ios) d = recoveries ios (snd (recoverWAL io d))"

lemma recoveries_crash:
  assumes "commit_crash ps pages old durable (d_disk d)" and "loggable ps pages"
    and "pageSize d = ps" and "fileOpen d"
  shows "commit_crash ps pages old durable (d_disk (recoveries ios d)) \<and> disk_only d (recoveries ios d)"
  using assms
proof (induction ios arbitrary: d)
  case (Cons io ios)
  obtain r d1 where r: "recoverWAL io d = (r, d1)" by fastforce
  have o: "disk_only d d1" using recoverWAL_disk_only [of d io] r by simp
  have "commit_crash ps pages old durable (d_disk (recoveries ios d1)) \<and> disk_only d1 (recoveries ios d1)"
    using Cons.IH recoverWAL_crash_again [OF Cons.prems r] disk_only_fields [OF o] Cons.prems by simp
  then show ?case using r disk_only_trans [OF o] by simp
qed simp

lemma recoveries_recover:
  assumes "commit_crash ps pages old durable (d_disk d)" and "loggable ps pages"
    and "pageSize d = ps" and "fileOpen d"
  shows "recoverWAL no_faults (recoveries ios d) =
    (Inr (), d\<lparr>d_disk := \<lparr>dbfile = Some (if durable then apply_pages ps pages old else old), walfile = None\<rparr>\<rparr>)"
proof -
  have c: "commit_crash ps pages old durable (d_disk (recoveries ios d))" and o: "disk_only d (recoveries ios d)"
    using recoveries_crash [OF assms, of ios] by simp_all
  show ?thesis
    using recoverWAL_crash [OF c assms(2)] disk_only_fields [OF o] assms(3,4) by simp
qed

text \<open>
  C2: a commit is atomic. Whatever operating-system call fails while the pages are logged
  and applied, and however often recovery fails after that, the recovery that succeeds finds the
  old data file or the one with all the pages, always the same one; after a commit that returned
  without an error it is the new one.
\<close>

lemma commit_atomic_under_crashes:
  assumes "applyPagesWithWAL io pages d = (r, d1)" and "d_disk d = \<lparr>dbfile = Some old, walfile = None\<rparr>"
    and "fileOpen d" and "loggable (pageSize d) pages"
  shows "\<exists>durable. (r = Inr () \<longrightarrow> durable)
    \<and> (\<forall>ios. recoverWAL no_faults (recoveries ios d1) = (Inr (), d\<lparr>d_disk :=
         \<lparr>dbfile = Some (if durable then apply_pages (pageSize d) pages old else old), walfile = None\<rparr>\<rparr>))"
proof -
  note cr = applyPagesWithWAL_crash [OF assms]
  have o: "disk_only d d1" using applyPagesWithWAL_disk_only [of d io pages] assms(1) by simp
  obtain durable where "commit_crash (pageSize d) pages old durable (d_disk d1)" "r = Inr () \<longrightarrow> durable"
    using cr commit_crash.after_wal [of "pageSize d" pages old] by metis
  then show ?thesis
    using recoveries_recover [of "pageSize d" pages old durable d1] assms(3,4) disk_only_fields [OF o] by auto
qed

definition ex_dal :: dal where
  "ex_dal = \<lparr>pageSize = 4, minFillPercent = Fin (1 / 2), maxFillPercent = Fin 1, fileOpen = True,
     d_disk = \<lparr>dbfile = Some [1, 2, 3, 4, 5, 6, 7, 8], walfile = None\<rparr>,
     d_meta = newEmptyMeta, d_freelist = newFreelist\<rparr>"

lemma commit_atomic_under_crashes_witness:
  "\<exists>durable. \<forall>ios. recoverWAL no_faults
      (recoveries ios (snd (applyPagesWithWAL (no_faults(WritePageAt 0 := Some 2))
         [\<lparr>p_num = 1, p_data = [9, 9, 9, 9]\<rparr>] ex_dal)))
    = (Inr (), ex_dal\<lparr>d_disk := \<lparr>dbfile = Some (if durable
         then apply_pages 4 [\<lparr>p_num = 1, p_data = [9, 9, 9, 9]\<rparr>] [1, 2, 3, 4, 5, 6, 7, 8]
         else [1, 2, 3, 4, 5, 6, 7, 8]), walfile = None\<rparr>\<rparr>)"
proof -
  let ?ps = "[\<lparr>p_num = 1, p_data = [9, 9, 9, 9]\<rparr>] :: page list" and ?io = "no_faults(WritePageAt 0 := Some 2)"
  have ex: "pageSize ex_dal = 4" "fileOpen ex_dal"
    "d_disk ex_dal = \<lparr>dbfile = Some [1, 2, 3, 4, 5, 6, 7, 8], walfile = None\<rparr>"
    by (simp_all add: ex_dal_def)
  have l: "loggable (pageSize ex_dal) ?ps"
    unfolding ex by (simp add: loggable_def walHeaderSize_def page_data_ok_def page_ok_def)
  obtain r d1 where a: "applyPagesWithWAL ?io ?ps ex_dal = (r, d1)" by fastforce
  show ?thesis
    using commit_atomic_under_crashes [OF a ex(3,2) l] unfolding a snd_conv ex(1) by blast
qed

text \<open>
  C15: from every pair of files that a crash can leave (torn page writes included) recovery,
  restarted any number of times, restores the old data file if the log was incomplete and the new
  one if it was complete, and removes the log.
\<close>

lemma recovery_of_a_crashed_commit:
  assumes "commit_crash (pageSize d) pages old durable (d_disk d)" and "loggable (pageSize d) pages" and "fileOpen d"
  shows "recoverWAL no_faults (recoveries ios d) = (Inr (), d\<lparr>d_disk :=
    \<lparr>dbfile = Some (if durable then apply_pages (pageSize d) pages old else old), walfile = None\<rparr>\<rparr>)"
  using recoveries_recover [OF assms(1,2) refl assms(3)] .

lemma recovery_of_a_crashed_commit_witness:
  "recoverWAL no_faults (recoveries [no_faults(RemoveWAL := Some 0)]
      (ex_dal\<lparr>d_disk := \<lparr>dbfile = Some [1, 2, 3, 4, 9, 0, 7, 8],
        walfile = Some (wal_image 4 [\<lparr>p_num = 1, p_data = [9, 9, 9, 9]\<rparr>])\<rparr>\<rparr>))
    = (Inr (), ex_dal\<lparr>d_disk := \<lparr>dbfile = Some (apply_pages 4 [\<lparr>p_num = 1, p_data = [9, 9, 9, 9]\<rparr>] [1, 2, 3, 4, 5, 6, 7, 8]),
        walfile = None\<rparr>\<rparr>)"
proof -
  let ?d = "ex_dal\<lparr>d_disk := \<lparr>dbfile = Some [1, 2, 3, 4, 9, 0, 7, 8],
        walfile = Some (wal_image 4 [\<lparr>p_num = 1, p_data = [9, 9, 9, 9]\<rparr>])\<rparr>\<rparr>"
  have "torn 4 [\<lparr>p_num = 1, p_data = [9, 9, 9, 9]\<rparr>] [1, 2, 3, 4, 5, 6, 7, 8] [1, 2, 3, 4, 9, 0, 7, 8]"
    by (auto simp: torn_def covered_def in_page_def byte_at_def page_start_def nth_Cons' not_less)
  from commit_crash.in_pages [OF this]
  have "commit_crash (pageSize ?d) [\<lparr>p_num = 1, p_data = [9, 9, 9, 9]\<rparr>] [1, 2, 3, 4, 5, 6, 7, 8] True (d_disk ?d)"
    by (simp add: ex_dal_def)
  from recovery_of_a_crashed_commit [OF this, where ios = "[no_faults(RemoveWAL := Some 0)]"]
  show ?thesis by (simp add: ex_dal_def loggable_def walHeaderSize_def page_data_ok_def page_ok_def)
qed

text \<open>
  C25: a complete log with a wrong magic number, version, page size or checksum is refused
  with the error for it, and neither file is touched.
\<close>

lemma recoverWAL_refuses_corruption:
  assumes "walfile (d_disk d) = Some data" and "28 \<le> length data"
  shows "(take 8 data \<noteq> walMagic \<longrightarrow> recoverWAL no_faults d = (Inl ErrInvalidWALMagic, d))
    \<and> (take 8 data = walMagic \<and> le_decode (take 4 (drop 8 data)) \<noteq> unat walVersion
        \<longrightarrow> recoverWAL no_faults d = (Inl ErrUnsupportedWALVersion, d))
    \<and> (take 8 data = walMagic \<and> le_decode (take 4 (drop 8 data)) = unat walVersion
        \<and> le_decode (take 4 (drop 12 data)) \<noteq> pageSize d
        \<longrightarrow> recoverWAL no_faults d = (Inl ErrWALPageSizeMismatch, d))
    \<and> (take 8 data = walMagic \<and> le_decode (take 4 (drop 8 data)) = unat walVersion
        \<and> le_decode (take 4 (drop 12 data)) = pageSize d
        \<and> length data = 28 + le_decode (take 8 (drop 16 data)) * (8 + pageSize d) \<and> length data < 2 ^ 63
        \<and> unat (crc32_ChecksumIEEE (drop 28 data)) \<noteq> le_decode (take 4 (drop 24 data))
        \<longrightarrow> recoverWAL no_faults d = (Inl ErrWALChecksumMismatch, d))"
proof (intro conjI impI)
  have l: "length data \<noteq> 0" "\<not> length data < walHeaderSize" using assms(2) by (auto simp: walHeaderSize_def)
  note rd = recoverWAL_def readWAL_def no_faults_apply option.case assms(1) Let_def l if_False
  show "recoverWAL no_faults d = (Inl ErrInvalidWALMagic, d)" if "take 8 data \<noteq> walMagic"
    unfolding rd by (simp only: that l simp_thms if_True if_False prod.case sum.case)
  show "recoverWAL no_faults d = (Inl ErrUnsupportedWALVersion, d)"
    if "take 8 data = walMagic \<and> le_decode (take 4 (drop 8 data)) \<noteq> unat walVersion"
    unfolding rd by (simp only: that l simp_thms if_True if_False prod.case sum.case)
  show "recoverWAL no_faults d = (Inl ErrWALPageSizeMismatch, d)"
    if "take 8 data = walMagic \<and> le_decode (take 4 (drop 8 data)) = unat walVersion
        \<and> le_decode (take 4 (drop 12 data)) \<noteq> pageSize d"
    unfolding rd by (simp only: that l simp_thms if_True if_False prod.case sum.case)
  assume a: "take 8 data = walMagic \<and> le_decode (take 4 (drop 8 data)) = unat walVersion
        \<and> le_decode (take 4 (drop 12 data)) = pageSize d
        \<and> length data = 28 + le_decode (take 8 (drop 16 data)) * (8 + pageSize d) \<and> length data < 2 ^ 63
        \<and> unat (crc32_ChecksumIEEE (drop 28 data)) \<noteq> le_decode (take 4 (drop 24 data))"
  let ?n = "le_decode (take 8 (drop 16 data))"
  have len: "length data = 28 + ?n * (8 + pageSize d)" and lt: "28 + ?n * (8 + pageSize d) < 2 ^ 63"
    and c: "unat (crc32_ChecksumIEEE (drop 28 data)) \<noteq> le_decode (take 4 (drop 24 data))"
    using a by metis+
  have "readWAL no_faults d = (Inl ErrWALChecksumMismatch, d)"
    unfolding readWAL_header [OF assms conjunct1 [OF a] conjunct1 [OF conjunct2 [OF a]]
        conjunct1 [OF conjunct2 [OF conjunct2 [OF a]]] refl lt] using len c by (simp only: simp_thms if_True if_False)
  then show "recoverWAL no_faults d = (Inl ErrWALChecksumMismatch, d)" by (simp add: recoverWAL_def)
qed

lemma recoverWAL_refuses_corruption_witness:
  "recoverWAL no_faults (ex_dal\<lparr>d_disk := \<lparr>dbfile = Some [1], walfile = Some (replicate 30 0)\<rparr>\<rparr>)
    = (Inl ErrInvalidWALMagic, ex_dal\<lparr>d_disk := \<lparr>dbfile = Some [1], walfile = Some (replicate 30 0)\<rparr>\<rparr>)"
proof -
  let ?data = "replicate 30 0 :: bytes"
  have m: "take 8 ?data \<noteq> walMagic" by (simp add: walMagic_def eval_simps)
  have w: "walfile (d_disk (ex_dal\<lparr>d_disk := \<lparr>dbfile = Some [1], walfile = Some ?data\<rparr>\<rparr>)) = Some ?data" by simp
  have l: "28 \<le> length ?data" by simp
  show ?thesis using recoverWAL_refuses_corruption [OF w l] m by blast
qed

section \<open>Pages read after they were written\<close>

lemma readPage_eq:
  assumes "db_bytes d = Inr f"
  shows "readPage d q = (case file_page (pageSize d) f q of None \<Rightarrow> Inl ErrIO | Some xs \<Rightarrow> Inr \<lparr>p_num = 0, p_data = xs\<rparr>)"
  using assms
  by (auto simp: readPage_def file_page_def allocateEmptyPage_def read_at_def split: option.splits)

abbreviation page_pairs :: "page list \<Rightarrow> (pgnum \<times> bytes) list" where
  "page_pairs pages \<equiv> map (\<lambda>p. (p_num p, p_data p)) pages"

lemma apply_pages_wr_all: "apply_pages ps pages f = fp.wr_all ps (page_pairs pages) f"
  by (induction pages arbitrary: f) simp_all

lemma apply_pages_file_page:
  assumes "pages_ok ps pages" and "distinct (map p_num pages)" and "p \<in> set pages"
  shows "file_page ps (apply_pages ps pages f) (p_num p) = Some (p_data p)"
  unfolding apply_pages_wr_all
  by (rule fp.rd_wr_all_same) (use assms in \<open>auto simp: list_all_iff comp_def\<close>)

lemma apply_pages_other_page:
  assumes "pages_ok ps pages" and "q \<notin> p_num ` set pages" and "page_data_ok ps q w" and "file_page ps f q = Some w"
  shows "file_page ps (apply_pages ps pages f) q = Some w"
  unfolding apply_pages_wr_all
  by (rule fp.rd_wr_all_other) (use assms in \<open>auto simp: list_all_iff\<close>)

text \<open>
  A batch of page writes is read back page by page, and every other page that could be
  read still reads the same.
\<close>

lemma writePages_readPage:
  assumes "db_bytes d = Inr f" and "pages_ok (pageSize d) pages" and "distinct (map p_num pages)"
  shows "\<exists>d'. writePages no_faults 0 pages d = (Inr (), d')
    \<and> (\<forall>p \<in> set pages. readPage d' (p_num p) = Inr \<lparr>p_num = 0, p_data = p_data p\<rparr>)
    \<and> (\<forall>q x. q \<notin> p_num ` set pages \<and> page_ok (pageSize d) q \<and> readPage d q = Inr x \<longrightarrow> readPage d' q = Inr x)"
proof -
  let ?f = "apply_pages (pageSize d) pages f" let ?d = "set_db_bytes ?f d"
  have w: "writePages no_faults 0 pages d = (Inr (), ?d)" using writePages_ok [OF assms(1,2)] by simp
  have b: "db_bytes ?d = Inr ?f" using db_bytes_open [OF assms(1)] by simp
  have "readPage ?d (p_num p) = Inr \<lparr>p_num = 0, p_data = p_data p\<rparr>" if "p \<in> set pages" for p
    using apply_pages_file_page [OF assms(2,3) that] by (simp add: readPage_eq [OF b])
  moreover have "readPage ?d q = Inr x"
    if q: "q \<notin> p_num ` set pages" "page_ok (pageSize d) q" "readPage d q = Inr x" for q x
  proof -
    obtain w where w: "file_page (pageSize d) f q = Some w" "x = \<lparr>p_num = 0, p_data = w\<rparr>"
      using q(3) by (auto simp: readPage_eq [OF assms(1)] split: option.splits)
    have "length w = pageSize d" using w(1) by (auto simp: file_page_eq [OF q(2)] read_at_Inr)
    then have "file_page (pageSize d) ?f q = Some w"
      using apply_pages_other_page [OF assms(2) q(1) _ w(1)] q(2) by (simp add: page_data_ok_def)
    then show ?thesis using w(2) by (simp add: readPage_eq [OF b])
  qed
  ultimately show ?thesis using w by blast
qed

lemma writePages_readPage_witness:
  "\<exists>d'. writePages no_faults 0 [\<lparr>p_num = 1, p_data = [9, 9, 9, 9]\<rparr>] ex_dal = (Inr (), d')
    \<and> readPage d' 1 = Inr \<lparr>p_num = 0, p_data = [9, 9, 9, 9]\<rparr>"
  using writePages_readPage [of ex_dal "[1, 2, 3, 4, 5, 6, 7, 8]" "[\<lparr>p_num = 1, p_data = [9, 9, 9, 9]\<rparr>]"]
  by (auto simp: ex_dal_def db_bytes_def page_data_ok_def page_ok_def)

section \<open>A created database\<close>

lemma readPage_file:
  assumes "db_bytes d = Inr f" and "file_page (pageSize d) f q = Some xs"
  shows "readPage d q = Inr \<lparr>p_num = 0, p_data = xs\<rparr>"
  using assms by (simp add: readPage_eq)

lemma page_ok_small:
  assumes "ps \<le> 2 ^ 16" and "unat p \<le> 2 ^ 32"
  shows "page_ok ps p"
proof -
  have "(unat p + 1) * ps \<le> (2 ^ 32 + 1) * 2 ^ 16" using assms by (intro mult_le_mono) simp_all
  then show ?thesis by (simp add: page_ok_def)
qed

text \<open>The pages that \<open>createNew\<close> writes: the free list with one page in use, the empty root and the header.\<close>

lemma createNew_pages:
  assumes ps: "24 \<le> ps" "ps \<le> 2 ^ 16" and d: "pageSize d = ps"
  obtains f nb mb rb where
    "createNew no_faults d = (Inr (d\<lparr>fileOpen := True, d_disk := (d_disk d)\<lparr>dbfile := Some f\<rparr>,
       d_freelist := \<lparr>maxPage = 2, releasedPages = []\<rparr>, d_meta := \<lparr>m_root = 2, m_freelistPage = 1\<rparr>\<rparr>),
       (d_disk d)\<lparr>dbfile := Some f\<rparr>)"
    and "file_page ps f 0 = Some mb" and "meta_deserialize mb = Inr \<lparr>m_root = 2, m_freelistPage = 1\<rparr>"
    and "file_page ps f 1 = Some nb" and "freelist_deserialize newFreelist nb = Some \<lparr>maxPage = 1, releasedPages = []\<rparr>"
    and "file_page ps f 2 = Some rb" and "node_deserialize rb = Some (NewNodeForSerialization [] [])"
proof -
  let ?fr = "\<lparr>maxPage = 1, releasedPages = []\<rparr> :: freelist" and ?m = "\<lparr>m_root = 2, m_freelistPage = 1\<rparr>"
  let ?n = "NewNodeForSerialization [] []" and ?z = "replicate ps 0 :: bytes"
  obtain fb where fb: "freelist_serialize ?fr ?z = Some fb" "length fb = ps" "freelist_deserialize newFreelist fb = Some ?fr"
    using freelist_roundtrip_gen [of ?fr ?z] freelist_serialize_Some [of ?fr ?z] ps by auto
  obtain mb where mb: "meta_serialize ?m ?z = Some mb" "length mb = ps" "meta_deserialize mb = Inr ?m"
    using meta_serialize_Some [of ?z ?m] meta_roundtrip_gen [of ?m ?z] ps
    by (auto simp: metaHeaderSize_def meta_serialize_eq put_at_length)
  have n: "node_validate ps ?n = Inr ()" "isLeaf ?n" "small_items (n_items ?n)" "encodedSize ?n \<le> length ?z"
    using ps by (simp_all add: node_validate_Inr isLeaf_def NewNodeForSerialization_def nodeSize_eq small_items_def
        encodedSize_def slot_size_def)
  obtain nb where nb: "node_serialize ?n ?z = Some nb" "length nb = ps" "node_deserialize nb = Some ?n"
    by (rule node_roundtrip_gen [of ?n ?z]) (use n ps in simp_all)
  let ?f1 = "set_file_page ps 1 fb []"
  let ?f2 = "set_file_page ps 2 nb ?f1"
  let ?f = "set_file_page ps 0 mb ?f2"
  have ok: "page_ok ps 0" "page_ok ps 1" "page_ok ps 2" using ps by (simp_all add: page_ok_small)
  have pd: "page_data_ok ps 0 mb" "page_data_ok ps 1 fb" "page_data_ok ps 2 nb"
    using ok fb mb nb by (simp_all add: page_data_ok_def)
  have r: "file_page ps ?f 0 = Some mb" by (rule fp.rd_wr_same [OF pd(1)])
  have "file_page ps ?f2 1 = Some fb"
    by (rule fp.rd_wr_other [OF pd(3,2)]) (simp_all add: fp.rd_wr_same [OF pd(2)])
  then have "file_page ps ?f 1 = Some fb"
    using fp.rd_wr_other [OF pd(1,2), of ?f2] by simp
  moreover have "file_page ps ?f 2 = Some nb"
    using fp.rd_wr_other [OF pd(1,3), of ?f2] fp.rd_wr_same [OF pd(3)] by simp
  moreover have "createNew no_faults d = (Inr (d\<lparr>fileOpen := True, d_disk := (d_disk d)\<lparr>dbfile := Some ?f\<rparr>,
       d_freelist := \<lparr>maxPage = 2, releasedPages = []\<rparr>, d_meta := ?m\<rparr>), (d_disk d)\<lparr>dbfile := Some ?f\<rparr>)"
  proof -
    define d0 where "d0 = d\<lparr>fileOpen := True, d_disk := (d_disk d)\<lparr>dbfile := Some []\<rparr>, d_freelist := ?fr,
        d_meta := (d_meta d)\<lparr>m_freelistPage := 1\<rparr>\<rparr>"
    have d0: "db_bytes d0 = Inr []" "pageSize d0 = ps" using d by (simp_all add: d0_def db_bytes_def)
    have w1: "writePage no_faults 0 \<lparr>p_num = 1, p_data = fb\<rparr> d0 = (Inr (), set_db_bytes ?f1 d0)"
      using writePage_ok [of d0 "[]" "\<lparr>p_num = 1, p_data = fb\<rparr>" no_faults 0, OF d0(1)] d0(2) ok by simp
    have wf: "writeFreelist no_faults 0 d0 = (Inr \<lparr>p_num = 1, p_data = fb\<rparr>, set_db_bytes ?f1 d0)"
      using w1 fb(1) d0(2)
      by (simp add: writeFreelist_def allocateEmptyPage_def d0_def set_db_bytes_def)
    define d1 where "d1 = set_db_bytes ?f1 d0\<lparr>d_freelist := \<lparr>maxPage = 2, releasedPages = []\<rparr>\<rparr>"
    have d1: "db_bytes d1 = Inr ?f1" "pageSize d1 = ps"
      using d by (simp_all add: d1_def d0_def db_bytes_def set_db_bytes_def)
    have w2: "writePage no_faults 1 \<lparr>p_num = 2, p_data = nb\<rparr> d1 = (Inr (), set_db_bytes ?f2 d1)"
      using writePage_ok [of d1 ?f1 "\<lparr>p_num = 2, p_data = nb\<rparr>" no_faults 1, OF d1(1)] d1(2) ok by simp
    have wn: "dal_writeNode no_faults 1 0 ?n (set_db_bytes ?f1 d0) = (Inr 2, set_db_bytes ?f2 d1)"
      using w2 nb(1) n(1) d
      by (simp add: dal_writeNode_def nodePage_def allocateEmptyPage_def d1_def d0_def set_db_bytes_def
          getNextPage_def or_panic_def)
    define d2 where "d2 = (set_db_bytes ?f2 d1)\<lparr>d_meta := ?m\<rparr>"
    have d2: "db_bytes d2 = Inr ?f2" "pageSize d2 = ps"
      using d by (simp_all add: d2_def d1_def d0_def db_bytes_def set_db_bytes_def)
    have w3: "writePage no_faults 2 \<lparr>p_num = 0, p_data = mb\<rparr> d2 = (Inr (), set_db_bytes ?f d2)"
      using writePage_ok [of d2 ?f2 "\<lparr>p_num = 0, p_data = mb\<rparr>" no_faults 2, OF d2(1)] d2(2) ok by simp
    have wm: "writeMeta no_faults 2 ?m d2 = (Inr \<lparr>p_num = 0, p_data = mb\<rparr>, set_db_bytes ?f d2)"
      using w3 mb(1) d2(2) by (simp add: writeMeta_def allocateEmptyPage_def metaPageNum_def)
    have g: "getNextPage newFreelist = (1, ?fr)" by (simp add: getNextPage_def newFreelist_def metaPage_def)
    have mm: "x\<lparr>m_freelistPage := 1, m_root := 2\<rparr> = ?m" for x :: meta
      by (rule meta.equality) simp_all
    show ?thesis
      using wf wn wm
      by (simp add: createNew_def mm g Let_def syncDB_def d2_def d1_def d0_def set_db_bytes_def)
  qed
  ultimately show thesis using that r mb(3) fb(3) nb(3) by blast
qed

text \<open>
  C24: a freshly created database file loses a page. \<open>newDal\<close> writes the free list before it
  allocates the root page, so after closing and reopening the next page handed out is page 2, the
  root collection itself; in the process that created the file it would be page 3.
\<close>

lemma created_database_forgets_its_root:
  assumes "24 \<le> o_pageSize opt" and "o_pageSize opt \<le> 2 ^ 16"
  shows "\<exists>d dk d'. newDal no_faults opt \<lparr>dbfile = None, walfile = None\<rparr> = (Inr d, dk)
    \<and> newDal no_faults opt dk = (Inr d', dk) \<and> d_meta d' = d_meta d
    \<and> fst (getNextPage (d_freelist d)) = 3 \<and> m_root (d_meta d') = 2 \<and> fst (getNextPage (d_freelist d')) = 2"
proof -
  let ?ps = "nat (o_pageSize opt)"
  define d0 where "d0 = \<lparr>pageSize = ?ps, minFillPercent = MinFillPercent opt, maxFillPercent = MaxFillPercent opt,
     fileOpen = False, d_disk = \<lparr>dbfile = None, walfile = None\<rparr>, d_meta = newEmptyMeta, d_freelist = newFreelist\<rparr>"
  have ps: "24 \<le> ?ps" "?ps \<le> 2 ^ 16" "pageSize d0 = ?ps" using assms by (simp_all add: d0_def)
  obtain f nb mb where c: "createNew no_faults d0 = (Inr (d0\<lparr>fileOpen := True, d_disk := (d_disk d0)\<lparr>dbfile := Some f\<rparr>,
       d_freelist := \<lparr>maxPage = 2, releasedPages = []\<rparr>, d_meta := \<lparr>m_root = 2, m_freelistPage = 1\<rparr>\<rparr>),
       (d_disk d0)\<lparr>dbfile := Some f\<rparr>)"
    and m: "file_page ?ps f 0 = Some mb" "meta_deserialize mb = Inr \<lparr>m_root = 2, m_freelistPage = 1\<rparr>"
    and n: "file_page ?ps f 1 = Some nb" "freelist_deserialize newFreelist nb = Some \<lparr>maxPage = 1, releasedPages = []\<rparr>"
    by (rule createNew_pages [OF ps])
  let ?d1 = "d0\<lparr>fileOpen := True, d_disk := \<lparr>dbfile = Some f, walfile = None\<rparr>\<rparr>"
  let ?m = "\<lparr>m_root = 2, m_freelistPage = 1\<rparr>"
  have b: "db_bytes ?d1 = Inr f" "db_bytes (?d1\<lparr>d_meta := ?m\<rparr>) = Inr f" by (simp_all add: db_bytes_def)
  have rm: "readMeta ?d1 = Inr ?m"
    using readPage_file [OF b(1), of 0 mb] m ps(3) by (simp add: readMeta_def metaPageNum_def)
  have rf: "readFreelist (?d1\<lparr>d_meta := ?m\<rparr>) = Inr \<lparr>maxPage = 1, releasedPages = []\<rparr>"
    using readPage_file [OF b(2), of 1 nb] n ps(3) by (simp add: readFreelist_def or_panic_def)
  have rw: "recoverWAL no_faults ?d1 = (Inr (), ?d1)" by (simp add: recoverWAL_def readWAL_def)
  have o: "newDal no_faults opt \<lparr>dbfile = Some f, walfile = None\<rparr> = (Inr (?d1\<lparr>d_meta := ?m,
      d_freelist := \<lparr>maxPage = 1, releasedPages = []\<rparr>\<rparr>), \<lparr>dbfile = Some f, walfile = None\<rparr>)"
    using rm rf rw by (simp add: newDal_def openExisting_def Let_def d0_def)
  moreover have "newDal no_faults opt \<lparr>dbfile = None, walfile = None\<rparr> = (Inr (d0\<lparr>fileOpen := True,
      d_disk := \<lparr>dbfile = Some f, walfile = None\<rparr>, d_freelist := \<lparr>maxPage = 2, releasedPages = []\<rparr>,
      d_meta := ?m\<rparr>), \<lparr>dbfile = Some f, walfile = None\<rparr>)"
    using c by (simp add: newDal_def Let_def d0_def)
  ultimately show ?thesis by (simp add: getNextPage_def)
qed

lemma created_database_forgets_its_root_witness:
  "\<exists>d dk d'. newDal no_faults \<lparr>o_pageSize = 4096, MinFillPercent = Fin (1 / 2), MaxFillPercent = Fin (3 / 4)\<rparr>
      \<lparr>dbfile = None, walfile = None\<rparr> = (Inr d, dk)
    \<and> newDal no_faults \<lparr>o_pageSize = 4096, MinFillPercent = Fin (1 / 2), MaxFillPercent = Fin (3 / 4)\<rparr> dk = (Inr d', dk)
    \<and> d_meta d' = d_meta d \<and> fst (getNextPage (d_freelist d)) = 3
    \<and> m_root (d_meta d') = 2 \<and> fst (getNextPage (d_freelist d')) = 2"
  by (rule created_database_forgets_its_root) simp_all

end
