(* ===== verification/Go_Slice.thy ===== *)
theory Go_Slice
  imports Mykv_Prelude
begin

text \<open>
  Go slices over explicit backing arrays. The nodes of \<^verbatim>\<open>node.go\<close> keep their items and
  children in slices, and \<^verbatim>\<open>split\<close> leaves two nodes with slices of the same array, so a
  later \<open>append\<close> to one of them may write into the other. A model with plain lists would hide
  this: the memory is a list of arrays, a slice is an array number, an offset and a length,
  and \<open>append\<close> writes in place while the capacity lasts, as the Go specification says.
  The growth policy of the run time is left open: it is the argument \<open>g\<close>, and the new
  capacity is any number of cells that is large enough.
  Of an array only the written prefix is kept (\<open>cells\<close>); the source never reads beyond the
  length of a slice, and a reslice beyond it is a panic here.
\<close>

section \<open>Memory and slices\<close>

datatype 'a garray = GArray (cells: "'a list") (acap: nat)

type_synonym 'a arrays = "'a garray list"

datatype slice = Slice (sarr: nat) (soff: nat) (slen: nat)

definition scontent :: "'a arrays \<Rightarrow> slice \<Rightarrow> 'a list" where
  "scontent h s = take (slen s) (drop (soff s) (cells (h ! sarr s)))"

definition scap :: "'a arrays \<Rightarrow> slice \<Rightarrow> nat" where
  "scap h s = acap (h ! sarr s) - soff s"

definition svalid :: "'a arrays \<Rightarrow> slice \<Rightarrow> bool" where
  "svalid h s \<longleftrightarrow> sarr s < length h \<and> soff s + slen s \<le> length (cells (h ! sarr s))
     \<and> length (cells (h ! sarr s)) \<le> acap (h ! sarr s)"

text \<open>A new array: a composite literal has exactly the capacity of its elements.\<close>

definition salloc :: "'a arrays \<Rightarrow> 'a list \<Rightarrow> nat \<Rightarrow> 'a arrays \<times> slice" where
  "salloc h xs c = (h @ [GArray xs c], Slice (length h) 0 (length xs))"

definition sliteral :: "'a arrays \<Rightarrow> 'a list \<Rightarrow> 'a arrays \<times> slice" where
  "sliteral h xs = salloc h xs (length xs)"

definition swrite :: "'a garray \<Rightarrow> nat \<Rightarrow> 'a list \<Rightarrow> 'a garray" where
  "swrite a p xs = GArray (take p (cells a) @ xs @ drop (p + length xs) (cells a)) (acap a)"

text \<open>\<open>append(s, xs...)\<close>; the elements of \<open>xs\<close> are read before the write (memmove).\<close>

definition sappend ::
  "(nat \<Rightarrow> nat \<Rightarrow> nat) \<Rightarrow> 'a arrays \<Rightarrow> slice \<Rightarrow> 'a list \<Rightarrow> 'a arrays \<times> slice" where
  "sappend g h s xs =
     (let n = slen s + length xs in
      if n \<le> scap h s
      then (h[sarr s := swrite (h ! sarr s) (soff s + slen s) xs], Slice (sarr s) (soff s) n)
      else salloc h (scontent h s @ xs) (max n (g (scap h s) n)))"

text \<open>\<open>s[i] = x\<close>, \<open>s[:n]\<close> and \<open>s[n:]\<close>, with the panic of the bounds check as \<open>None\<close>.\<close>

definition sset :: "'a arrays \<Rightarrow> slice \<Rightarrow> nat \<Rightarrow> 'a \<Rightarrow> 'a arrays option" where
  "sset h s i x =
     (if i < slen s then Some (h[sarr s := swrite (h ! sarr s) (soff s + i) [x]]) else None)"

definition sget :: "'a arrays \<Rightarrow> slice \<Rightarrow> nat \<Rightarrow> 'a option" where
  "sget h s i = (if i < slen s then Some (scontent h s ! i) else None)"

definition slice_to :: "slice \<Rightarrow> nat \<Rightarrow> slice option" where
  "slice_to s n = (if n \<le> slen s then Some (Slice (sarr s) (soff s) n) else None)"

definition slice_from :: "slice \<Rightarrow> nat \<Rightarrow> slice option" where
  "slice_from s n = (if n \<le> slen s then Some (Slice (sarr s) (soff s + n) (slen s - n)) else None)"

section \<open>Ownership\<close>

text \<open>
  \<open>before m s\<close>: no write through \<open>s\<close> within its capacity can reach \<open>m\<close>: the two slices
  have different arrays, or \<open>m\<close> starts and ends before \<open>s\<close> starts. The right half of a split owns
  the tail of its array in this sense; the left half does not.
\<close>

definition before :: "slice \<Rightarrow> slice \<Rightarrow> bool" where
  "before m s \<longleftrightarrow> sarr m \<noteq> sarr s \<or> soff m < soff s \<and> soff m + slen m \<le> soff s"

lemma length_scontent [simp]: "svalid h s \<Longrightarrow> length (scontent h s) = slen s"
  by (auto simp: svalid_def scontent_def)

lemma svalid_alloc:
  assumes "salloc h xs c = (h', s')" and "length xs \<le> c"
  shows "svalid h' s'" and "scontent h' s' = xs" and "slen s' = length xs" and "sarr s' = length h"
  using assms by (auto simp: salloc_def svalid_def scontent_def)

lemma svalid_alloc_other:
  assumes "salloc h xs c = (h', s')" and "svalid h m"
  shows "svalid h' m" and "scontent h' m = scontent h m" and "before m s'" and "before s' m"
  using assms by (auto simp: salloc_def svalid_def scontent_def before_def nth_append)

lemma cells_swrite [simp]: "cells (swrite a p xs) = take p (cells a) @ xs @ drop (p + length xs) (cells a)"
  and acap_swrite [simp]: "acap (swrite a p xs) = acap a"
  by (simp_all add: swrite_def)

lemma take_drop_before:
  "q \<le> p \<Longrightarrow> p \<le> length xs \<Longrightarrow> take q (take p xs @ ys) = take q xs"
  by (simp add: min_def)

lemma swrite_other:
  assumes "svalid h m" and "sarr m = sarr s \<longrightarrow> soff m + slen m \<le> p" and "p \<le> length (cells (h ! sarr s))"
    and "p + length xs \<le> acap (h ! sarr s)" and "h' = h[sarr s := swrite (h ! sarr s) p xs]"
  shows "svalid h' m" and "scontent h' m = scontent h m"
proof -
  let ?c = "cells (h ! sarr s)"
  have *: "take (slen m) (drop (soff m) (take p ?c @ ys)) = take (slen m) (drop (soff m) ?c)"
    if "soff m + slen m \<le> p" for ys
    using that assms(3) by (simp flip: drop_take add: take_drop_before add.commute take_drop)
  show "svalid h' m"
    using assms by (cases "sarr m = sarr s") (auto simp: svalid_def)
  show "scontent h' m = scontent h m"
    using assms * by (cases "sarr m = sarr s") (auto simp: svalid_def scontent_def)
qed

lemma sappend_in_place:
  assumes "svalid h s" and "slen s + length xs \<le> scap h s"
  shows "sappend g h s xs =
      (h[sarr s := swrite (h ! sarr s) (soff s + slen s) xs], Slice (sarr s) (soff s) (slen s + length xs))"
    and "soff s + slen s + length xs \<le> acap (h ! sarr s)"
  using assms by (auto simp: sappend_def svalid_def scap_def)

lemma sappend_content:
  assumes "svalid h s" and "sappend g h s xs = (h', s')"
  shows "svalid h' s'" and "scontent h' s' = scontent h s @ xs" and "slen s' = slen s + length xs"
proof -
  show "svalid h' s'" "scontent h' s' = scontent h s @ xs"
    using assms
    by (auto simp: sappend_def salloc_def svalid_def scontent_def scap_def Let_def drop_take
        split: if_splits)
  show "slen s' = slen s + length xs"
    using assms by (auto simp: sappend_def salloc_def Let_def split: if_splits)
qed

lemma sappend_other:
  assumes "svalid h s" and "svalid h m" and "before m s" and "sappend g h s xs = (h', s')"
  shows "svalid h' m" and "scontent h' m = scontent h m" and "before m s'"
proof -
  have "svalid h' m \<and> scontent h' m = scontent h m \<and> before m s'"
  proof (cases "slen s + length xs \<le> scap h s")
    case True
    note s' = sappend_in_place [OF assms(1) True]
    have h': "h' = h[sarr s := swrite (h ! sarr s) (soff s + slen s) xs]"
      and s'': "s' = Slice (sarr s) (soff s) (slen s + length xs)"
      using assms(4) s'(1) [of g] by auto
    have p: "sarr m = sarr s \<longrightarrow> soff m + slen m \<le> soff s + slen s"
      "soff s + slen s \<le> length (cells (h ! sarr s))"
      using assms(1,3) by (auto simp: before_def svalid_def)
    show ?thesis
      using swrite_other [OF assms(2) p s'(2) h'] assms(3) s'' by (simp add: before_def)
  next
    case False
    then have "salloc h (scontent h s @ xs) (max (slen s + length xs) (g (scap h s) (slen s + length xs))) = (h', s')"
      using assms(4) by (simp add: sappend_def Let_def)
    from svalid_alloc_other [OF this assms(2)] show ?thesis by simp
  qed
  then show "svalid h' m" "scontent h' m = scontent h m" "before m s'" by auto
qed

lemma sset_content:
  assumes "svalid h s" and "sset h s i x = Some h'"
  shows "svalid h' s" and "scontent h' s = (scontent h s)[i := x]" and "i < slen s"
proof -
  show i: "i < slen s" using assms(2) by (simp add: sset_def split: if_splits)
  then have h': "h' = h[sarr s := swrite (h ! sarr s) (soff s + i) [x]]"
    using assms(2) by (simp add: sset_def)
  have eq: "cells (swrite (h ! sarr s) (soff s + i) [x]) = (cells (h ! sarr s))[soff s + i := x]"
    using assms(1) i by (simp add: svalid_def upd_conv_take_nth_drop)
  show "svalid h' s"
    using assms(1) unfolding h' by (simp add: svalid_def eq del: cells_swrite)
  show "scontent h' s = (scontent h s)[i := x]"
    using assms(1) i unfolding h'
    by (simp add: svalid_def scontent_def eq drop_update_swap take_update_swap del: cells_swrite)
qed

lemma sset_other:
  assumes "svalid h s" and "svalid h m" and "before m s" and "sset h s i x = Some h'"
  shows "svalid h' m" and "scontent h' m = scontent h m"
proof -
  have i: "i < slen s" and h': "h' = h[sarr s := swrite (h ! sarr s) (soff s + i) [x]]"
    using assms(4) by (auto simp: sset_def split: if_splits)
  have p: "sarr m = sarr s \<longrightarrow> soff m + slen m \<le> soff s + i"
    "soff s + i \<le> length (cells (h ! sarr s))"
    "soff s + i + length [x] \<le> acap (h ! sarr s)"
    using assms(1,3) i by (auto simp: before_def svalid_def)
  from swrite_other [OF assms(2) p h'] show "svalid h' m" "scontent h' m = scontent h m" by auto
qed

lemma slice_to_content:
  assumes "svalid h s" and "slice_to s n = Some s'"
  shows "svalid h s'" and "scontent h s' = take n (scontent h s)" and "n \<le> slen s" and "slen s' = n"
  using assms by (auto simp: slice_to_def svalid_def scontent_def min_def split: if_splits)

lemma slice_from_content:
  assumes "svalid h s" and "slice_from s n = Some s'"
  shows "svalid h s'" and "scontent h s' = drop n (scontent h s)" and "n \<le> slen s"
    and "slen s' = slen s - n"
  using assms by (auto simp: slice_from_def svalid_def scontent_def drop_take add.commute split: if_splits)

text \<open>
  Truncation keeps what a slice lies before, and taking the tail keeps what lies before it.
  The left half of a split lies before the right half.
\<close>

lemma before_slice_to: "slice_to s n = Some s' \<Longrightarrow> before s m \<Longrightarrow> before s' m"
  and before_slice_to_arr: "slice_to s n = Some s' \<Longrightarrow> sarr s' = sarr s"
  and before_slice_from: "slice_from s n = Some s' \<Longrightarrow> before m s \<Longrightarrow> before m s'"
  and before_slice_from_arr: "slice_from s n = Some s' \<Longrightarrow> sarr s' = sarr s"
  by (auto simp: slice_to_def slice_from_def before_def split: if_splits)

lemma before_split:
  "slice_to s i = Some l \<Longrightarrow> slice_from s j = Some r \<Longrightarrow> i < j \<Longrightarrow> before l r"
  by (auto simp: slice_to_def slice_from_def before_def split: if_splits)

lemma before_both: "before a b \<Longrightarrow> before b a \<Longrightarrow> sarr a \<noteq> sarr b"
  by (auto simp: before_def)

section \<open>Updates through one slice\<close>

text \<open>
  \<open>supd h s h' s'\<close>: memory \<open>h'\<close> and slice \<open>s'\<close> come from \<open>h\<close> and \<open>s\<close> by operations that write
  only where \<open>s\<close> may write: everything that lies before \<open>s\<close> is untouched and lies before \<open>s'\<close>.
\<close>

definition supd :: "'a arrays \<Rightarrow> slice \<Rightarrow> 'a arrays \<Rightarrow> slice \<Rightarrow> bool" where
  "supd h s h' s' \<longleftrightarrow> svalid h' s'
     \<and> (\<forall>m. svalid h m \<and> before m s \<longrightarrow> svalid h' m \<and> scontent h' m = scontent h m \<and> before m s')
     \<and> (\<forall>m. svalid h m \<and> sarr m \<noteq> sarr s \<longrightarrow> sarr m \<noteq> sarr s')"

lemma supd_refl: "svalid h s \<Longrightarrow> supd h s h s"
  by (simp add: supd_def)

lemma supd_trans:
  assumes "supd h s h' s'" and "supd h' s' h'' s''"
  shows "supd h s h'' s''"
proof -
  have "svalid h'' m \<and> scontent h'' m = scontent h m \<and> before m s''" if "svalid h m" "before m s" for m
    using assms that unfolding supd_def by metis
  moreover have "sarr m \<noteq> sarr s''" if m: "svalid h m" "sarr m \<noteq> sarr s" for m
  proof -
    have "before m s" using m by (simp add: before_def)
    with assms(1) m have "svalid h' m" "sarr m \<noteq> sarr s'" unfolding supd_def by blast+
    with assms(2) show ?thesis unfolding supd_def by blast
  qed
  ultimately show ?thesis using assms(2) unfolding supd_def by blast
qed

lemma supd_valid: "supd h s h' s' \<Longrightarrow> svalid h' s'"
  and supd_other: "supd h s h' s' \<Longrightarrow> svalid h m \<Longrightarrow> before m s \<Longrightarrow>
    svalid h' m \<and> scontent h' m = scontent h m \<and> before m s'"
  and supd_arr: "supd h s h' s' \<Longrightarrow> svalid h m \<Longrightarrow> sarr m \<noteq> sarr s \<Longrightarrow> sarr m \<noteq> sarr s'"
  by (simp_all add: supd_def)

lemma sappend_supd:
  assumes "svalid h s" and "sappend g h s xs = (h', s')"
  shows "supd h s h' s'"
proof -
  have "sarr m \<noteq> sarr s'" if "svalid h m" "sarr m \<noteq> sarr s" for m
    using that assms by (auto simp: sappend_def salloc_def svalid_def Let_def split: if_splits)
  then show ?thesis
    unfolding supd_def using sappend_content [OF assms] sappend_other [OF assms(1) _ _ assms(2)] by blast
qed

lemma sset_supd:
  assumes "svalid h s" and "sset h s i x = Some h'"
  shows "supd h s h' s"
  unfolding supd_def using sset_content(1) [OF assms] sset_other [OF assms(1) _ _ assms(2)] by simp

lemma slice_to_supd:
  assumes "svalid h s" and "slice_to s n = Some s'"
  shows "supd h s h s'"
proof -
  have "sarr s' = sarr s" "soff s' = soff s" using assms(2) by (auto simp: slice_to_def split: if_splits)
  then show ?thesis unfolding supd_def using slice_to_content(1) [OF assms] by (simp add: before_def)
qed

text \<open>
  The insertion idiom of the source, \<open>append(s[:i+1], s[i:]...)\<close> followed by an assignment at
  \<open>k = i\<close> (items) or \<open>k = i + 1\<close> (children).
\<close>

lemma insert_idiom:
  assumes "svalid h s" and "slice_to s (i + 1) = Some l" and "slice_from s i = Some r"
    and "sappend g h l (scontent h r) = (h1, s1)" and "k = i \<or> k = i + 1"
  obtains h2 where "sset h1 s1 k x = Some h2" and "supd h s h2 s1"
    and "scontent h2 s1 = insert_at k x (scontent h s)"
proof -
  note l = slice_to_content [OF assms(1,2)] and r = slice_from_content [OF assms(1,3)]
  note a = sappend_content [OF l(1) assms(4)]
  let ?xs = "scontent h s"
  have len: "slen s1 = slen s + 1" "i < length ?xs"
    using a(3) r l assms(1) by simp_all
  then have "k < slen s1" using assms(1,5) by auto
  then obtain h2 where h2: "sset h1 s1 k x = Some h2" by (simp add: sset_def)
  have "supd h s h2 s1"
    using slice_to_supd [OF assms(1,2)] sappend_supd [OF l(1) assms(4)] sset_supd [OF a(1) h2]
    by (blast intro: supd_trans)
  moreover have "scontent h2 s1 = (take (i + 1) ?xs @ drop i ?xs)[k := x]"
    using sset_content [OF a(1) h2] a(2) l(2) r(2) by simp
  moreover have "(take (i + 1) ?xs @ drop i ?xs)[k := x] = insert_at k x ?xs"
    using assms(5) len(2)
    by (auto simp: insert_at_def take_Suc_conv_app_nth list_update_append Cons_nth_drop_Suc [symmetric])
  ultimately show thesis using that h2 by simp
qed

lemma delete_idiom:
  assumes "svalid h s" and "slice_to s i = Some l" and "slice_from s (i + 1) = Some r"
    and "sappend g h l (scontent h r) = (h1, s1)"
  shows "supd h s h1 s1" and "scontent h1 s1 = delete_at i (scontent h s)"
proof -
  note l = slice_to_content [OF assms(1,2)] and r = slice_from_content [OF assms(1,3)]
  show "supd h s h1 s1"
    using slice_to_supd [OF assms(1,2)] sappend_supd [OF l(1) assms(4)] by (rule supd_trans)
  show "scontent h1 s1 = delete_at i (scontent h s)"
    using sappend_content(2) [OF l(1) assms(4)] l(2) r(2) by (simp add: delete_at_def)
qed

text \<open>Memory that only grew: the old arrays are still there, unchanged.\<close>

definition mem_ext :: "'a arrays \<Rightarrow> 'a arrays \<Rightarrow> bool" where
  "mem_ext h h' \<longleftrightarrow> length h \<le> length h' \<and> (\<forall>i < length h. h' ! i = h ! i)"

lemma mem_ext_refl [simp]: "mem_ext h h"
  by (simp add: mem_ext_def)

lemma mem_ext_trans: "mem_ext h h' \<Longrightarrow> mem_ext h' h'' \<Longrightarrow> mem_ext h h''"
  by (auto simp: mem_ext_def)

lemma mem_ext_valid: "mem_ext h h' \<Longrightarrow> svalid h m \<Longrightarrow> svalid h' m"
  and mem_ext_content: "mem_ext h h' \<Longrightarrow> svalid h m \<Longrightarrow> scontent h' m = scontent h m"
  by (auto simp: mem_ext_def svalid_def scontent_def)

lemma mem_ext_alloc: "salloc h xs c = (h', s) \<Longrightarrow> mem_ext h h'"
  by (auto simp: salloc_def mem_ext_def nth_append)

lemma mem_ext_append:
  "mem_ext h0 h \<Longrightarrow> length h0 \<le> sarr s \<Longrightarrow> sappend g h s xs = (h', s') \<Longrightarrow>
   mem_ext h0 h' \<and> length h0 \<le> sarr s'"
  by (auto simp: sappend_def salloc_def mem_ext_def nth_append Let_def nth_list_update split: if_splits)

end
