(* ===== verification/Tx_Base.thy ===== *)
theory Tx_Base
  imports Wal Go_Slice
begin

text \<open>
  The transaction object of \<^verbatim>\<open>tx.go\<close> and the operations on it that \<^verbatim>\<open>node.go\<close> and
  \<^verbatim>\<open>collection.go\<close> call. A node at run time holds slices; the memory they point into is
  part of the transaction, which no other transaction can reach. Node objects are values
  here: the source stores every node it changes back with \<open>writeNode\<close> before anything else
  can look at it, and reads nodes through \<open>getNode\<close>, so the object in \<open>dirtyNodes\<close> is always
  the latest one. The database is read-only while a transaction builds its changes and is an
  argument (\<open>d\<close>) of the operations that read pages.
\<close>

section \<open>State\<close>

record gomem =
  grow :: "nat \<Rightarrow> nat \<Rightarrow> nat"
  itemArrays :: "item arrays"
  pgArrays :: "pgnum arrays"

record gonode =
  pageNum :: pgnum
  items :: slice
  childNodes :: slice

record collection =
  c_name :: bytes
  c_root :: pgnum
  c_counter :: "64 word"
  c_rootCollection :: bool
  c_dirtyMeta :: bool

record tx =
  mem :: gomem
  dirtyNodes :: "pgnum \<rightharpoonup> gonode"
  pagesToDelete :: "pgnum list"
  tx_write :: bool
  tx_root :: pgnum
  tx_freelist :: "freelist option"
  collections :: "bytes \<rightharpoonup> collection"
  deletedCollections :: "bytes set"

definition contents :: "gomem \<Rightarrow> gonode \<Rightarrow> content" where
  "contents h n = \<lparr>n_items = scontent (itemArrays h) (items n), n_children = scontent (pgArrays h) (childNodes n)\<rparr>"

definition newTx :: "(nat \<Rightarrow> nat \<Rightarrow> nat) \<Rightarrow> dal \<Rightarrow> bool \<Rightarrow> tx" where
  "newTx g d write =
     \<lparr>mem = \<lparr>grow = g, itemArrays = [], pgArrays = []\<rparr>,
      dirtyNodes = Map.empty, pagesToDelete = [], tx_write = write, tx_root = m_root (d_meta d),
      tx_freelist = (if write then Some (freelist_clone (d_freelist d)) else None),
      collections = Map.empty, deletedCollections = {}\<rparr>"

section \<open>Slices of a transaction\<close>

definition append_items :: "slice \<Rightarrow> item list \<Rightarrow> (tx, slice) m" where
  "append_items s xs t =
     (let (h, s') = sappend (grow (mem t)) (itemArrays (mem t)) s xs in
      Some (Inr s', t\<lparr>mem := (mem t)\<lparr>itemArrays := h\<rparr>\<rparr>))"

definition append_pgs :: "slice \<Rightarrow> pgnum list \<Rightarrow> (tx, slice) m" where
  "append_pgs s xs t =
     (let (h, s') = sappend (grow (mem t)) (pgArrays (mem t)) s xs in
      Some (Inr s', t\<lparr>mem := (mem t)\<lparr>pgArrays := h\<rparr>\<rparr>))"

definition literal_items :: "item list \<Rightarrow> (tx, slice) m" where
  "literal_items xs t =
     (let (h, s) = sliteral (itemArrays (mem t)) xs in
      Some (Inr s, t\<lparr>mem := (mem t)\<lparr>itemArrays := h\<rparr>\<rparr>))"

definition literal_pgs :: "pgnum list \<Rightarrow> (tx, slice) m" where
  "literal_pgs xs t =
     (let (h, s) = sliteral (pgArrays (mem t)) xs in
      Some (Inr s, t\<lparr>mem := (mem t)\<lparr>pgArrays := h\<rparr>\<rparr>))"

definition set_item :: "slice \<Rightarrow> nat \<Rightarrow> item \<Rightarrow> (tx, unit) m" where
  "set_item s i x t =
     (case sset (itemArrays (mem t)) s i x of None \<Rightarrow> Some (Inl Panic, t)
      | Some h \<Rightarrow> Some (Inr (), t\<lparr>mem := (mem t)\<lparr>itemArrays := h\<rparr>\<rparr>))"

definition set_pg :: "slice \<Rightarrow> nat \<Rightarrow> pgnum \<Rightarrow> (tx, unit) m" where
  "set_pg s i x t =
     (case sset (pgArrays (mem t)) s i x of None \<Rightarrow> Some (Inl Panic, t)
      | Some h \<Rightarrow> Some (Inr (), t\<lparr>mem := (mem t)\<lparr>pgArrays := h\<rparr>\<rparr>))"

definition get_item :: "slice \<Rightarrow> nat \<Rightarrow> (tx, item) m" where
  "get_item s i t = Some (or_panic (sget (itemArrays (mem t)) s i), t)"

definition get_pg :: "slice \<Rightarrow> nat \<Rightarrow> (tx, pgnum) m" where
  "get_pg s i t = Some (or_panic (sget (pgArrays (mem t)) s i), t)"

definition items_of :: "slice \<Rightarrow> (tx, item list) m" where
  "items_of s t = Some (Inr (scontent (itemArrays (mem t)) s), t)"

definition pgs_of :: "slice \<Rightarrow> (tx, pgnum list) m" where
  "pgs_of s t = Some (Inr (scontent (pgArrays (mem t)) s), t)"

definition content_of :: "gonode \<Rightarrow> (tx, content) m" where
  "content_of n t = Some (Inr (contents (mem t) n), t)"

section \<open>Nodes of a transaction\<close>

definition tx_newNode :: "slice \<Rightarrow> slice \<Rightarrow> (tx, gonode) m" where
  "tx_newNode its cs t =
     (case tx_freelist t of None \<Rightarrow> Some (Inl Panic, t)
      | Some fr \<Rightarrow>
        let (num, fr) = getNextPage fr in
        Some (Inr \<lparr>pageNum = num, items = its, childNodes = cs\<rparr>, t\<lparr>tx_freelist := Some fr\<rparr>))"

text \<open>The slices that \<open>deserialize\<close> builds: one \<open>append\<close> per element, from nil.\<close>

primrec append_each_item :: "slice \<Rightarrow> item list \<Rightarrow> (tx, slice) m" where
  "append_each_item s [] = returnM s"
| "append_each_item s (x # xs) = bindM (append_items s [x]) (\<lambda>s. append_each_item s xs)"

primrec append_each_pg :: "slice \<Rightarrow> pgnum list \<Rightarrow> (tx, slice) m" where
  "append_each_pg s [] = returnM s"
| "append_each_pg s (x # xs) = bindM (append_pgs s [x]) (\<lambda>s. append_each_pg s xs)"

definition tx_getNode :: "dal \<Rightarrow> pgnum \<Rightarrow> (tx, gonode) m" where
  "tx_getNode d num t =
     (case dirtyNodes t num of Some node \<Rightarrow> Some (Inr node, t)
      | None \<Rightarrow>
        bindM (liftM (dal_getNode d num)) (\<lambda>c.
        bindM (literal_items []) (\<lambda>s0.
        bindM (append_each_item s0 (n_items c)) (\<lambda>its.
        bindM (literal_pgs []) (\<lambda>c0.
        bindM (append_each_pg c0 (n_children c)) (\<lambda>cs.
        returnM \<lparr>pageNum = num, items = its, childNodes = cs\<rparr>))))) t)"

definition tx_writeNode :: "gonode \<Rightarrow> (tx, gonode) m" where
  "tx_writeNode node t = Some (Inr node, t\<lparr>dirtyNodes := (dirtyNodes t)(pageNum node \<mapsto> node)\<rparr>)"

definition tx_deleteNode :: "gonode \<Rightarrow> (tx, unit) m" where
  "tx_deleteNode node t = Some (Inr (), t\<lparr>pagesToDelete := pagesToDelete t @ [pageNum node]\<rparr>)"

definition trackCollection :: "collection \<Rightarrow> (tx, unit) m" where
  "trackCollection c t =
     (if \<not> tx_write t \<or> c_rootCollection c then Some (Inr (), t)
      else Some (Inr (), t\<lparr>collections := (collections t)(c_name c \<mapsto> c)\<rparr>))"

end
