(* ===== verification/Node_Ops.thy ===== *)
theory Node_Ops
  imports Tx_Base
begin

text \<open>
  \<^verbatim>\<open>node.go\<close>, the part that changes nodes: insertion into a node, splitting, rotations,
  merging, and the search down the tree. Each operation is written over the slices of the
  transaction, statement by statement; it returns the nodes it changed. A search over pages
  that form a cycle would not return: \<open>findKeyHelper\<close> and the descent of
  \<open>removeItemFromInternal\<close> are partial functions.
\<close>

section \<open>Search\<close>

text \<open>
  The result is the index, the node and the indexes from the root; \<open>None\<close> for the node
  stands for the \<open>-1, nil\<close> of a missed exact search.
\<close>

partial_function (option) findKeyHelper ::
  "dal \<Rightarrow> gonode \<Rightarrow> bytes \<Rightarrow> bool \<Rightarrow> nat list \<Rightarrow> tx \<Rightarrow> ((nat \<times> gonode option \<times> nat list) res \<times> tx) option"
where
  "findKeyHelper d node key exact ancestorsIndexes t =
     (let c = contents (mem t) node; (wasFound, index) = findKeyInNode c key in
      if wasFound then Some (Inr (index, Some node, ancestorsIndexes), t)
      else if isLeaf c then
        (if exact then Some (Inr (0, None, ancestorsIndexes), t)
         else Some (Inr (index, Some node, ancestorsIndexes), t))
      else
        (case bindM (get_pg (childNodes node) index) (\<lambda>p. tx_getNode d p) t of
           None \<Rightarrow> None
         | Some (Inl e, t) \<Rightarrow> Some (Inl e, t)
         | Some (Inr nextChild, t) \<Rightarrow>
             findKeyHelper d nextChild key exact (ancestorsIndexes @ [index]) t))"

declare findKeyHelper.simps [code]

definition findKey :: "dal \<Rightarrow> gonode \<Rightarrow> bytes \<Rightarrow> bool \<Rightarrow> (tx, nat \<times> gonode option \<times> nat list) m" where
  "findKey d n key exact = findKeyHelper d n key exact [0]"

section \<open>Insertion and splitting\<close>

definition addItem :: "gonode \<Rightarrow> item \<Rightarrow> nat \<Rightarrow> (tx, gonode) m" where
  "addItem n it insertionIndex =
     (if slen (items n) = insertionIndex then
        bindM (append_items (items n) [it]) (\<lambda>s. returnM (n\<lparr>items := s\<rparr>))
      else
        bindM (liftM (or_panic (slice_to (items n) (insertionIndex + 1)))) (\<lambda>l.
        bindM (liftM (or_panic (slice_from (items n) insertionIndex))) (\<lambda>r.
        bindM (items_of r) (\<lambda>xs.
        bindM (append_items l xs) (\<lambda>s.
        bindM (set_item s insertionIndex it) (\<lambda>_.
        returnM (n\<lparr>items := s\<rparr>)))))))"

definition insertChild :: "gonode \<Rightarrow> nat \<Rightarrow> pgnum \<Rightarrow> (tx, gonode) m" where
  "insertChild n nodeToSplitIndex p =
     (if slen (childNodes n) = nodeToSplitIndex + 1 then
        bindM (append_pgs (childNodes n) [p]) (\<lambda>s. returnM (n\<lparr>childNodes := s\<rparr>))
      else
        bindM (liftM (or_panic (slice_to (childNodes n) (nodeToSplitIndex + 1)))) (\<lambda>l.
        bindM (liftM (or_panic (slice_from (childNodes n) nodeToSplitIndex))) (\<lambda>r.
        bindM (pgs_of r) (\<lambda>xs.
        bindM (append_pgs l xs) (\<lambda>s.
        bindM (set_pg s (nodeToSplitIndex + 1) p) (\<lambda>_.
        returnM (n\<lparr>childNodes := s\<rparr>)))))))"

text \<open>Returns the parent and the node that was split; both are stored, and so is the new node.\<close>

definition split_node :: "dal \<Rightarrow> gonode \<Rightarrow> gonode \<Rightarrow> nat \<Rightarrow> (tx, gonode \<times> gonode) m" where
  "split_node d n nodeToSplit nodeToSplitIndex =
     bindM (content_of nodeToSplit) (\<lambda>c.
     let splitIndex = getSplitIndex d c; i = nat splitIndex in
     if splitIndex < 0 then failM Panic else
     bindM (get_item (items nodeToSplit) i) (\<lambda>middleItem.
     bindM (liftM (or_panic (slice_from (items nodeToSplit) (i + 1)))) (\<lambda>rightItems.
     bindM (if isLeaf c then literal_pgs []
            else liftM (or_panic (slice_from (childNodes nodeToSplit) (i + 1)))) (\<lambda>rightChildren.
     bindM (tx_newNode rightItems rightChildren) (\<lambda>newNode.
     bindM (tx_writeNode newNode) (\<lambda>newNode.
     bindM (liftM (or_panic (slice_to (items nodeToSplit) i))) (\<lambda>leftItems.
     bindM (if isLeaf c then returnM (childNodes nodeToSplit)
            else liftM (or_panic (slice_to (childNodes nodeToSplit) (i + 1)))) (\<lambda>leftChildren.
     let nodeToSplit = nodeToSplit\<lparr>items := leftItems, childNodes := leftChildren\<rparr> in
     bindM (addItem n middleItem nodeToSplitIndex) (\<lambda>n.
     bindM (insertChild n nodeToSplitIndex (pageNum newNode)) (\<lambda>n.
     bindM (tx_writeNode n) (\<lambda>_.
     bindM (tx_writeNode nodeToSplit) (\<lambda>_.
     returnM (n, nodeToSplit)))))))))))))"

section \<open>Removal inside nodes\<close>

definition delete_item :: "gonode \<Rightarrow> nat \<Rightarrow> (tx, gonode) m" where
  "delete_item n index =
     bindM (liftM (or_panic (slice_to (items n) index))) (\<lambda>l.
     bindM (liftM (or_panic (slice_from (items n) (index + 1)))) (\<lambda>r.
     bindM (items_of r) (\<lambda>xs.
     bindM (append_items l xs) (\<lambda>s. returnM (n\<lparr>items := s\<rparr>)))))"

definition delete_child :: "gonode \<Rightarrow> nat \<Rightarrow> (tx, gonode) m" where
  "delete_child n index =
     bindM (liftM (or_panic (slice_to (childNodes n) index))) (\<lambda>l.
     bindM (liftM (or_panic (slice_from (childNodes n) (index + 1)))) (\<lambda>r.
     bindM (pgs_of r) (\<lambda>xs.
     bindM (append_pgs l xs) (\<lambda>s. returnM (n\<lparr>childNodes := s\<rparr>)))))"

definition removeItemFromLeaf :: "gonode \<Rightarrow> nat \<Rightarrow> (tx, gonode) m" where
  "removeItemFromLeaf n index = bindM (delete_item n index) tx_writeNode"

text \<open>
  The descent to the leaf whose last item replaces the removed one. The index it follows at
  every level is computed from the node the item is removed from (\<open>traversingIndex\<close>), as in
  the source.
\<close>

partial_function (option) removal_descent ::
  "dal \<Rightarrow> nat \<Rightarrow> gonode \<Rightarrow> nat list \<Rightarrow> tx \<Rightarrow> ((gonode \<times> nat list) res \<times> tx) option" where
  "removal_descent d traversingIndex aNode affectedNodes t =
     (if isLeaf (contents (mem t) aNode) then Some (Inr (aNode, affectedNodes), t)
      else
        (case bindM (get_pg (childNodes aNode) traversingIndex) (\<lambda>p. tx_getNode d p) t of
           None \<Rightarrow> None
         | Some (Inl e, t) \<Rightarrow> Some (Inl e, t)
         | Some (Inr aNode, t) \<Rightarrow>
             removal_descent d traversingIndex aNode (affectedNodes @ [traversingIndex]) t))"

declare removal_descent.simps [code]

text \<open>\<open>items[len(items)-1]\<close>; on an empty slice the index is \<open>-1\<close> and Go panics.\<close>

definition last_item :: "gonode \<Rightarrow> (tx, item) m" where
  "last_item n = (if slen (items n) = 0 then failM Panic else get_item (items n) (slen (items n) - 1))"

definition removeItemFromInternal :: "dal \<Rightarrow> gonode \<Rightarrow> nat \<Rightarrow> (tx, nat list) m" where
  "removeItemFromInternal d n index =
     bindM (get_pg (childNodes n) index) (\<lambda>p.
     bindM (tx_getNode d p) (\<lambda>aNode.
     bindM (removal_descent d (slen (childNodes n) - 1) aNode [index]) (\<lambda>(aNode, affectedNodes).
     bindM (last_item aNode) (\<lambda>it.
     bindM (set_item (items n) index it) (\<lambda>_.
     bindM (liftM (or_panic (slice_to (items aNode) (slen (items aNode) - 1)))) (\<lambda>s.
     bindM (tx_writeNode n) (\<lambda>_.
     bindM (tx_writeNode (aNode\<lparr>items := s\<rparr>)) (\<lambda>_.
     returnM affectedNodes))))))))"

section \<open>Rotations and merging\<close>

definition isLast :: "nat \<Rightarrow> gonode \<Rightarrow> bool" where
  "isLast index parentNode \<longleftrightarrow> index = slen (items parentNode)"

definition isFirst :: "nat \<Rightarrow> bool" where
  "isFirst index \<longleftrightarrow> index = 0"

definition rotateRight :: "gonode \<Rightarrow> gonode \<Rightarrow> gonode \<Rightarrow> nat \<Rightarrow> (tx, gonode \<times> gonode \<times> gonode) m" where
  "rotateRight aNode pNode bNode bNodeIndex =
     bindM (last_item aNode) (\<lambda>aNodeItem.
     bindM (liftM (or_panic (slice_to (items aNode) (slen (items aNode) - 1)))) (\<lambda>aItems.
     let pNodeItemIndex = (if isFirst bNodeIndex then 0 else bNodeIndex - 1) in
     bindM (get_item (items pNode) pNodeItemIndex) (\<lambda>pNodeItem.
     bindM (set_item (items pNode) pNodeItemIndex aNodeItem) (\<lambda>_.
     bindM (literal_items [pNodeItem]) (\<lambda>s.
     bindM (items_of (items bNode)) (\<lambda>xs.
     bindM (append_items s xs) (\<lambda>bItems.
     let aNode = aNode\<lparr>items := aItems\<rparr>; bNode = bNode\<lparr>items := bItems\<rparr> in
     if slen (childNodes aNode) = 0 then returnM (aNode, pNode, bNode) else
     bindM (get_pg (childNodes aNode) (slen (childNodes aNode) - 1)) (\<lambda>childNodeToShift.
     bindM (liftM (or_panic (slice_to (childNodes aNode) (slen (childNodes aNode) - 1)))) (\<lambda>aChildren.
     bindM (literal_pgs [childNodeToShift]) (\<lambda>s.
     bindM (pgs_of (childNodes bNode)) (\<lambda>cs.
     bindM (append_pgs s cs) (\<lambda>bChildren.
     returnM (aNode\<lparr>childNodes := aChildren\<rparr>, pNode, bNode\<lparr>childNodes := bChildren\<rparr>)))))))))))))"

definition rotateLeft :: "gonode \<Rightarrow> gonode \<Rightarrow> gonode \<Rightarrow> nat \<Rightarrow> (tx, gonode \<times> gonode \<times> gonode) m" where
  "rotateLeft aNode pNode bNode bNodeIndex =
     bindM (get_item (items bNode) 0) (\<lambda>bNodeItem.
     bindM (liftM (or_panic (slice_from (items bNode) 1))) (\<lambda>bItems.
     let pNodeItemIndex = (if isLast bNodeIndex pNode then slen (items pNode) - 1 else bNodeIndex) in
     bindM (get_item (items pNode) pNodeItemIndex) (\<lambda>pNodeItem.
     bindM (set_item (items pNode) pNodeItemIndex bNodeItem) (\<lambda>_.
     bindM (append_items (items aNode) [pNodeItem]) (\<lambda>aItems.
     let aNode = aNode\<lparr>items := aItems\<rparr>; bNode = bNode\<lparr>items := bItems\<rparr> in
     if slen (childNodes bNode) = 0 then returnM (aNode, pNode, bNode) else
     bindM (get_pg (childNodes bNode) 0) (\<lambda>childNodeToShift.
     bindM (liftM (or_panic (slice_from (childNodes bNode) 1))) (\<lambda>bChildren.
     bindM (append_pgs (childNodes aNode) [childNodeToShift]) (\<lambda>aChildren.
     returnM (aNode\<lparr>childNodes := aChildren\<rparr>, pNode, bNode\<lparr>childNodes := bChildren\<rparr>)))))))))"

text \<open>Returns the parent, from which the item and the child of \<open>bNode\<close> are gone.\<close>

definition merge_node :: "dal \<Rightarrow> gonode \<Rightarrow> gonode \<Rightarrow> nat \<Rightarrow> (tx, gonode) m" where
  "merge_node d n bNode bNodeIndex =
     bindM (get_pg (childNodes n) (bNodeIndex - 1)) (\<lambda>p.
     bindM (tx_getNode d p) (\<lambda>aNode.
     bindM (get_item (items n) (bNodeIndex - 1)) (\<lambda>pNodeItem.
     bindM (delete_item n (bNodeIndex - 1)) (\<lambda>n.
     bindM (append_items (items aNode) [pNodeItem]) (\<lambda>s.
     bindM (items_of (items bNode)) (\<lambda>xs.
     bindM (append_items s xs) (\<lambda>aItems.
     bindM (delete_child n bNodeIndex) (\<lambda>n.
     bindM (if slen (childNodes aNode) = 0 then returnM (childNodes aNode)
            else bindM (pgs_of (childNodes bNode)) (append_pgs (childNodes aNode))) (\<lambda>aChildren.
     bindM (tx_writeNode (aNode\<lparr>items := aItems, childNodes := aChildren\<rparr>)) (\<lambda>_.
     bindM (tx_writeNode n) (\<lambda>_.
     bindM (tx_deleteNode bNode) (\<lambda>_.
     returnM n))))))))))))"

definition canSpareAnElement :: "dal \<Rightarrow> gonode \<Rightarrow> (tx, bool) m" where
  "canSpareAnElement d n = bindM (content_of n) (\<lambda>c. returnM (getSplitIndex d c \<noteq> - 1))"

text \<open>
  The sibling that can give an item, left before right, else a merge. Every branch stores
  the nodes it changed; the parent is returned.
\<close>

definition rebalance_merge :: "dal \<Rightarrow> gonode \<Rightarrow> gonode \<Rightarrow> nat \<Rightarrow> (tx, gonode) m" where
  "rebalance_merge d pNode unbalancedNode unbalancedNodeIndex =
     (if unbalancedNodeIndex = 0 then
        bindM (get_pg (childNodes pNode) (unbalancedNodeIndex + 1)) (\<lambda>p.
        bindM (tx_getNode d p) (\<lambda>rightNode.
        merge_node d pNode rightNode (unbalancedNodeIndex + 1)))
      else merge_node d pNode unbalancedNode unbalancedNodeIndex)"

definition rebalance_left :: "dal \<Rightarrow> gonode \<Rightarrow> gonode \<Rightarrow> nat \<Rightarrow> (tx, gonode) m" where
  "rebalance_left d pNode unbalancedNode unbalancedNodeIndex =
     (if int unbalancedNodeIndex \<noteq> int (slen (childNodes pNode)) - 1 then
        bindM (get_pg (childNodes pNode) (unbalancedNodeIndex + 1)) (\<lambda>p.
        bindM (tx_getNode d p) (\<lambda>rightNode.
        bindM (canSpareAnElement d rightNode) (\<lambda>spare.
        if spare then
          bindM (rotateLeft unbalancedNode pNode rightNode unbalancedNodeIndex) (\<lambda>(a, p, b).
          bindM (tx_writeNode a) (\<lambda>_. bindM (tx_writeNode p) (\<lambda>_. bindM (tx_writeNode b) (\<lambda>_.
          returnM p))))
        else rebalance_merge d pNode unbalancedNode unbalancedNodeIndex)))
      else rebalance_merge d pNode unbalancedNode unbalancedNodeIndex)"

definition rebalanceRemove :: "dal \<Rightarrow> gonode \<Rightarrow> gonode \<Rightarrow> nat \<Rightarrow> (tx, gonode) m" where
  "rebalanceRemove d pNode unbalancedNode unbalancedNodeIndex =
     (if unbalancedNodeIndex \<noteq> 0 then
        bindM (get_pg (childNodes pNode) (unbalancedNodeIndex - 1)) (\<lambda>p.
        bindM (tx_getNode d p) (\<lambda>leftNode.
        bindM (canSpareAnElement d leftNode) (\<lambda>spare.
        if spare then
          bindM (rotateRight leftNode pNode unbalancedNode unbalancedNodeIndex) (\<lambda>(a, p, b).
          bindM (tx_writeNode a) (\<lambda>_. bindM (tx_writeNode p) (\<lambda>_. bindM (tx_writeNode b) (\<lambda>_.
          returnM p))))
        else rebalance_left d pNode unbalancedNode unbalancedNodeIndex)))
      else rebalance_left d pNode unbalancedNode unbalancedNodeIndex)"

end
