(* ===== verification/Collection.thy ===== *)
theory Collection
  imports Node_Ops
begin

text \<open>
  \<^verbatim>\<open>collection.go\<close>: the operations on one B-tree. A collection handle is a value; the
  operations that change it return the new one, and every change is recorded in the
  transaction (\<open>trackCollection\<close>, or the root of the transaction for the root collection)
  where the source mutates the shared object.
\<close>

section \<open>Handles\<close>

definition newCollection :: "bytes \<Rightarrow> pgnum \<Rightarrow> collection" where
  "newCollection name r =
     \<lparr>c_name = name, c_root = r, c_counter = 0, c_rootCollection = False, c_dirtyMeta = False\<rparr>"

definition newEmptyCollection :: collection where
  "newEmptyCollection =
     \<lparr>c_name = [], c_root = 0, c_counter = 0, c_rootCollection = False, c_dirtyMeta = False\<rparr>"

definition markMetadataDirty :: "collection \<Rightarrow> (tx, collection) m" where
  "markMetadataDirty c t =
     (if c_rootCollection c \<or> \<not> tx_write t then Some (Inr c, t)
      else let c = c\<lparr>c_dirtyMeta := True\<rparr> in bindM (trackCollection c) (\<lambda>_. returnM c) t)"

definition setRoot :: "collection \<Rightarrow> pgnum \<Rightarrow> (tx, collection) m" where
  "setRoot c r t =
     (if c_root c = r then Some (Inr c, t)
      else let c = c\<lparr>c_root := r\<rparr> in
        if c_rootCollection c then Some (Inr c, t\<lparr>tx_root := r\<rparr>)
        else markMetadataDirty c t)"

definition collection_ID :: "collection \<Rightarrow> (tx, 64 word \<times> collection) m" where
  "collection_ID c t =
     (if \<not> tx_write t then Some (Inr (0, c), t)
      else bindM (markMetadataDirty (c\<lparr>c_counter := c_counter c + 1\<rparr>)) (\<lambda>c'. returnM (c_counter c, c')) t)"

section \<open>The path from the root\<close>

fun getNodes_loop :: "dal \<Rightarrow> gonode \<Rightarrow> nat list \<Rightarrow> (tx, gonode list) m" where
  "getNodes_loop d child [] = returnM []"
| "getNodes_loop d child (i # is) =
     bindM (get_pg (childNodes child) i) (\<lambda>p.
     bindM (tx_getNode d p) (\<lambda>child.
     bindM (getNodes_loop d child is) (\<lambda>nodes.
     returnM (child # nodes))))"

definition getNodes :: "dal \<Rightarrow> collection \<Rightarrow> nat list \<Rightarrow> (tx, gonode list) m" where
  "getNodes d c indexes =
     bindM (tx_getNode d (c_root c)) (\<lambda>root.
     bindM (getNodes_loop d root (drop 1 indexes)) (\<lambda>nodes.
     returnM (root # nodes)))"

section \<open>Put\<close>

text \<open>
  The loop over the ancestors, deepest pair first: the first argument is a node of the path,
  the list holds the nodes below it with their index in the parent. The node is returned as
  the splits below have left it.
\<close>

fun splitAncestors :: "dal \<Rightarrow> gonode \<Rightarrow> (nat \<times> gonode) list \<Rightarrow> (tx, gonode) m" where
  "splitAncestors d pnode [] = returnM pnode"
| "splitAncestors d pnode ((nodeIndex, node) # below) =
     bindM (splitAncestors d node below) (\<lambda>node.
     bindM (content_of node) (\<lambda>c.
     if isOverPopulated d c
     then bindM (split_node d pnode node nodeIndex) (\<lambda>(pnode, node). returnM pnode)
     else returnM pnode))"

definition splitRoot :: "dal \<Rightarrow> collection \<Rightarrow> gonode \<Rightarrow> (tx, collection) m" where
  "splitRoot d c rootNode =
     bindM (content_of rootNode) (\<lambda>rc.
     if isOverPopulated d rc then
       bindM (literal_items []) (\<lambda>its.
       bindM (literal_pgs [pageNum rootNode]) (\<lambda>cs.
       bindM (tx_newNode its cs) (\<lambda>newRoot.
       bindM (split_node d newRoot rootNode 0) (\<lambda>(newRoot, rootNode).
       bindM (tx_writeNode newRoot) (\<lambda>newRoot.
       setRoot c (pageNum newRoot))))))
     else returnM c)"

text \<open>Stores the item in the node the search ended in: in place of an item with the same key, or as a new one.\<close>

definition storeItem :: "gonode \<Rightarrow> nat \<Rightarrow> bytes \<Rightarrow> item \<Rightarrow> (tx, gonode) m" where
  "storeItem node insertionIndex key i =
     bindM (content_of node) (\<lambda>nc.
     bindM (if insertionIndex < length (n_items nc) \<and> item_key (n_items nc ! insertionIndex) = key
            then bindM (set_item (items node) insertionIndex i) (\<lambda>_. returnM node)
            else addItem node i insertionIndex)
     tx_writeNode)"

definition Put :: "dal \<Rightarrow> collection \<Rightarrow> bytes \<Rightarrow> bytes \<Rightarrow> (tx, collection) m" where
  "Put d c key value t =
     (if \<not> tx_write t then Some (Inl ErrWriteInsideReadTx, t) else
      let i = newItem key value in
      bindM (liftM (item_validate (pageSize d) i)) (\<lambda>_.
      if c_root c = 0 then
        bindM (literal_items [i]) (\<lambda>its.
        bindM (literal_pgs []) (\<lambda>cs.
        bindM (tx_newNode its cs) (\<lambda>n.
        bindM (tx_writeNode n) (\<lambda>root.
        setRoot c (pageNum root)))))
      else
        bindM (tx_getNode d (c_root c)) (\<lambda>root.
        bindM (findKey d root key False) (\<lambda>(insertionIndex, nodeToInsertIn, ancestorsIndexes).
        case nodeToInsertIn of None \<Rightarrow> failM Panic | Some node \<Rightarrow>
        bindM (storeItem node insertionIndex key i) (\<lambda>_.
        bindM (getNodes d c ancestorsIndexes) (\<lambda>ancestors.
        bindM (splitAncestors d (hd ancestors) (zip (drop 1 ancestorsIndexes) (tl ancestors))) (\<lambda>rootNode.
        splitRoot d c rootNode)))))) t)"

section \<open>Find\<close>

definition Find :: "dal \<Rightarrow> collection \<Rightarrow> bytes \<Rightarrow> (tx, item option) m" where
  "Find d c key =
     bindM (tx_getNode d (c_root c)) (\<lambda>n.
     bindM (findKey d n key True) (\<lambda>(index, containingNode, _).
     case containingNode of None \<Rightarrow> returnM None
     | Some node \<Rightarrow> bindM (get_item (items node) index) (\<lambda>it. returnM (Some it))))"

section \<open>Remove\<close>

fun rebalanceAncestors :: "dal \<Rightarrow> gonode \<Rightarrow> (nat \<times> gonode) list \<Rightarrow> (tx, gonode) m" where
  "rebalanceAncestors d pnode [] = returnM pnode"
| "rebalanceAncestors d pnode ((nodeIndex, node) # below) =
     bindM (rebalanceAncestors d node below) (\<lambda>node.
     bindM (content_of node) (\<lambda>c.
     if isUnderPopulated d c then rebalanceRemove d pnode node nodeIndex else returnM pnode))"

definition Remove :: "dal \<Rightarrow> collection \<Rightarrow> bytes \<Rightarrow> (tx, collection) m" where
  "Remove d c key t =
     (if \<not> tx_write t then Some (Inl ErrWriteInsideReadTx, t) else
      bindM (tx_getNode d (c_root c)) (\<lambda>rootNode.
      bindM (findKey d rootNode key True) (\<lambda>(removeItemIndex, nodeToRemoveFrom, ancestorsIndexes).
      case nodeToRemoveFrom of None \<Rightarrow> returnM c | Some node \<Rightarrow>
      bindM (if slen (childNodes node) = 0
             then bindM (removeItemFromLeaf node removeItemIndex) (\<lambda>_. returnM ancestorsIndexes)
             else bindM (removeItemFromInternal d node removeItemIndex) (\<lambda>affectedNodes.
                  returnM (ancestorsIndexes @ affectedNodes))) (\<lambda>ancestorsIndexes.
      bindM (getNodes d c ancestorsIndexes) (\<lambda>ancestors.
      bindM (rebalanceAncestors d (hd ancestors) (zip (drop 1 ancestorsIndexes) (tl ancestors))) (\<lambda>rootNode.
      if slen (items rootNode) = 0 \<and> slen (childNodes rootNode) > 0 then
        (if length ancestors < 2 then failM Panic else setRoot c (pageNum (ancestors ! 1)))
      else returnM c))))) t)"

section \<open>The metadata record\<close>

definition collection_serialize :: "collection \<Rightarrow> item" where
  "collection_serialize c =
     newItem (c_name c) (le_encode 8 (unat (c_root c)) @ le_encode 8 (unat (c_counter c)))"

definition collection_deserialize :: "collection \<Rightarrow> item \<Rightarrow> collection option" where
  "collection_deserialize c it =
     (let c = c\<lparr>c_name := item_key it\<rparr> in
      if length (item_value it) \<noteq> 0 then
        do { r \<leftarrow> get_at (item_value it) 0 8;
             n \<leftarrow> get_at (item_value it) 8 8;
             Some (c\<lparr>c_root := of_nat (le_decode r), c_counter := of_nat (le_decode n)\<rparr>) }
      else Some c)"

lemma collection_roundtrip_gen:
  "collection_deserialize newEmptyCollection (collection_serialize c) =
     Some \<lparr>c_name = c_name c, c_root = c_root c, c_counter = c_counter c,
           c_rootCollection = False, c_dirtyMeta = False\<rparr>"
  by (simp add: collection_deserialize_def collection_serialize_def newItem_def newEmptyCollection_def
      get_at_Some get_at_def slice_ab_def le_decode_encode_pgnum)

end
