(* ===== verification/Btree.thy ===== *)
theory Btree
  imports Node
begin

text \<open>
  The abstract view of a collection: a tree of pages, its items in order, and what an
  insertion and a search mean on the ordered list. The lemmas relate them to the search
  inside one node and to the two changes a split makes.
\<close>

section \<open>Trees of pages\<close>

datatype btree = BNode (bpage: pgnum) (bitems: "item list") (bsubs: "btree list")

definition bcontent :: "btree \<Rightarrow> content" where
  "bcontent T = \<lparr>n_items = bitems T, n_children = map bpage (bsubs T)\<rparr>"

lemma bcontent_simps [simp]:
  "n_items (bcontent T) = bitems T" "n_children (bcontent T) = map bpage (bsubs T)"
  "isLeaf (bcontent T) \<longleftrightarrow> bsubs T = []"
  by (simp_all add: bcontent_def isLeaf_def)

text \<open>The items of a node between the items of its subtrees.\<close>

fun weave :: "item list \<Rightarrow> item list list \<Rightarrow> item list" where
  "weave [] [] = []"
| "weave [] (x # xs) = x"
| "weave (a # as) [] = a # as"
| "weave (a # as) (x # xs) = x @ a # weave as xs"

fun inorder :: "btree \<Rightarrow> item list" where
  "inorder (BNode p its subs) = weave its (map inorder subs)"

fun page_list :: "btree \<Rightarrow> pgnum list" where
  "page_list (BNode p its subs) = p # concat (map page_list subs)"

text \<open>All leaves at depth \<open>h\<close>, and one more child than items above them.\<close>

fun bal :: "nat \<Rightarrow> btree \<Rightarrow> bool" where
  "bal 0 T = (bsubs T = [])"
| "bal (Suc h) T = (length (bsubs T) = length (bitems T) + 1 \<and> list_all (bal h) (bsubs T))"

text \<open>The tree is what the pages say, for a lookup \<open>v\<close> of node contents by page number.\<close>

fun tree_at :: "(pgnum \<Rightarrow> content option) \<Rightarrow> btree \<Rightarrow> bool" where
  "tree_at v (BNode p its subs) =
     (v p = Some \<lparr>n_items = its, n_children = map bpage subs\<rparr> \<and> list_all (tree_at v) subs)"

lemma tree_at_iff: "tree_at v T \<longleftrightarrow> v (bpage T) = Some (bcontent T) \<and> list_all (tree_at v) (bsubs T)"
  by (cases T) (simp add: bcontent_def)

lemma inorder_eq: "inorder T = weave (bitems T) (map inorder (bsubs T))"
  and page_list_eq: "page_list T = bpage T # concat (map page_list (bsubs T))"
  by (cases T; simp)+

lemma tree_at_cong:
  "\<forall>p \<in> set (page_list T). v p = w p \<Longrightarrow> tree_at v T = tree_at w T"
proof (induction T)
  case (BNode p its subs)
  have "tree_at v s = tree_at w s" if "s \<in> set subs" for s
    using BNode.IH [OF that] BNode.prems that by auto
  then show ?case using BNode.prems by (auto simp: list_all_iff)
qed

section \<open>Ordered items\<close>

abbreviation sorted_items :: "item list \<Rightarrow> bool" where
  "sorted_items its \<equiv> sorted_wrt (<) (keys its)"

definition find_item :: "bytes \<Rightarrow> item list \<Rightarrow> item option" where
  "find_item k its = List.find (\<lambda>it. item_key it = k) its"

definition ins_item :: "item \<Rightarrow> item list \<Rightarrow> item list" where
  "ins_item it its = filter (\<lambda>x. item_key x < item_key it) its @ it # filter (\<lambda>x. item_key it < item_key x) its"

lemma find_item_simps [simp]:
  "find_item k [] = None"
  "find_item k (it # its) = (if item_key it = k then Some it else find_item k its)"
  by (simp_all add: find_item_def)

lemma find_item_append [simp]:
  "find_item k (xs @ ys) = (case find_item k xs of Some it \<Rightarrow> Some it | None \<Rightarrow> find_item k ys)"
  by (induction xs) auto

lemma find_item_None: "(\<And>it. it \<in> set its \<Longrightarrow> item_key it \<noteq> k) \<Longrightarrow> find_item k its = None"
  by (induction its) auto

lemma find_item_context:
  assumes "\<And>x. x \<in> set pre \<Longrightarrow> item_key x < k" and "\<And>x. x \<in> set post \<Longrightarrow> k < item_key x"
  shows "find_item k (pre @ xs @ post) = find_item k xs"
proof -
  have "find_item k pre = None" "find_item k post = None"
    using assms by (auto intro!: find_item_None dest: order_less_imp_not_eq order_less_imp_not_eq2)
  then show ?thesis by (simp split: option.splits)
qed

lemma find_item_mid:
  assumes "sorted_items (l @ x # r)" and "item_key x = k"
  shows "find_item k (l @ x # r) = Some x"
proof -
  have "item_key y < k" if "y \<in> set l" for y using assms that by (auto simp: sorted_wrt_append)
  moreover have "k < item_key y" if "y \<in> set r" for y using assms that by (auto simp: sorted_wrt_append)
  ultimately show ?thesis using find_item_context [of l k r "[x]"] assms(2) by simp
qed

lemma ins_item_sorted:
  assumes "sorted_items its"
  shows "sorted_items (ins_item it its)"
  using assms by (auto simp: ins_item_def sorted_wrt_append sorted_wrt_map sorted_wrt_filter)

lemma ins_item_find:
  "find_item k (ins_item it its) = (if k = item_key it then Some it else find_item k its)"
proof -
  have f: "find_item k (filter P its) = (if P' k then find_item k its else None)"
    if "\<And>x. P x = P' (item_key x)" for P P'
    using that by (induction its) auto
  show ?thesis
    using f [of "\<lambda>x. item_key x < item_key it" "\<lambda>k. k < item_key it"]
      f [of "\<lambda>x. item_key it < item_key x" "\<lambda>k. item_key it < k"]
    by (auto simp: ins_item_def split: option.splits)
qed

lemma ins_item_context:
  assumes "\<And>x. x \<in> set pre \<Longrightarrow> item_key x < item_key it" and "\<And>x. x \<in> set post \<Longrightarrow> item_key it < item_key x"
  shows "ins_item it (pre @ xs @ post) = pre @ ins_item it xs @ post"
proof -
  have "filter (\<lambda>x. item_key x < item_key it) pre = pre" "filter (\<lambda>x. item_key it < item_key x) pre = []"
    "filter (\<lambda>x. item_key x < item_key it) post = []" "filter (\<lambda>x. item_key it < item_key x) post = post"
    using assms by (auto intro!: filter_True filter_False dest: order_less_not_sym)
  then show ?thesis by (simp add: ins_item_def)
qed

lemma ins_item_new:
  assumes "\<And>x. x \<in> set pre \<Longrightarrow> item_key x < item_key it" and "\<And>x. x \<in> set post \<Longrightarrow> item_key it < item_key x"
  shows "ins_item it (pre @ post) = pre @ it # post"
  using ins_item_context [of pre it post "[]"] assms by (simp add: ins_item_def)

lemma ins_item_same:
  assumes "\<And>x. x \<in> set pre \<Longrightarrow> item_key x < item_key it" and "\<And>x. x \<in> set post \<Longrightarrow> item_key it < item_key x"
    and "item_key old = item_key it"
  shows "ins_item it (pre @ old # post) = pre @ it # post"
  using ins_item_context [of pre it post "[old]"] assms by (simp add: ins_item_def)

section \<open>Positions in a weave\<close>

definition before_sub :: "item list \<Rightarrow> item list list \<Rightarrow> nat \<Rightarrow> item list" where
  "before_sub as xs i = concat (map (\<lambda>(a, x). x @ [a]) (zip (take i as) (take i xs)))"

definition after_sub :: "item list \<Rightarrow> item list list \<Rightarrow> nat \<Rightarrow> item list" where
  "after_sub as xs i = concat (map (\<lambda>(a, x). a # x) (zip (drop i as) (drop (Suc i) xs)))"

lemma weave_at_sub:
  assumes "length xs = length as + 1" and "i \<le> length as"
  shows "weave as xs = before_sub as xs i @ xs ! i @ after_sub as xs i"
  using assms
proof (induction as xs arbitrary: i rule: weave.induct)
  case (2 x xs)
  then show ?case by (simp add: before_sub_def after_sub_def)
next
  case (4 a as x xs)
  show ?case
  proof (cases i)
    case 0
    obtain y ys where xs: "xs = y # ys" using 4(2) by (cases xs) auto
    have "weave as xs = before_sub as xs 0 @ xs ! 0 @ after_sub as xs 0" using 4 by simp
    then show ?thesis using 0 xs by (simp add: before_sub_def after_sub_def)
  next
    case (Suc j)
    then show ?thesis using 4 by (simp add: before_sub_def after_sub_def)
  qed
qed auto

lemma before_sub_update: "before_sub as (xs[i := y]) i = before_sub as xs i"
  by (simp add: before_sub_def)

lemma after_sub_update: "after_sub as (xs[i := y]) i = after_sub as xs i"
  by (simp add: after_sub_def drop_update_cancel)

lemma weave_update:
  assumes "length xs = length as + 1" and "i \<le> length as"
  shows "weave as (xs[i := y]) = before_sub as xs i @ y @ after_sub as xs i"
  using weave_at_sub [of "xs[i := y]" as i] assms by (simp add: before_sub_update after_sub_update)

text \<open>Cutting a node at item \<open>i\<close>, and giving its parent the middle item.\<close>

lemma weave_cut:
  assumes "i < length as" and "length xs = length as + 1 \<or> xs = []"
  shows "weave as xs = weave (take i as) (take (Suc i) xs) @ as ! i # weave (drop (Suc i) as) (drop (Suc i) xs)"
  using assms
proof (induction as xs arbitrary: i rule: weave.induct)
  case (3 a as)
  have *: "weave l [] = l" for l by (cases l) auto
  show ?case using 3 id_take_nth_drop [of i "a # as"] by (simp only: * take_Nil drop_Nil)
next
  case (4 a as x xs)
  then show ?case by (cases i) auto
qed auto

lemma weave_insert:
  assumes "length xs = length as + 1" and "i \<le> length as"
  shows "weave (insert_at i m as) (take i xs @ l # r # drop (Suc i) xs) = weave as (xs[i := l @ m # r])"
  using assms
proof (induction as xs arbitrary: i rule: weave.induct)
  case (4 a as x xs)
  then show ?case by (cases i) (auto simp: insert_at_def)
qed (auto simp: insert_at_def)

lemma set_weave:
  "length xs = length as + 1 \<or> xs = [] \<Longrightarrow> set (weave as xs) = set as \<union> \<Union> (set ` set xs)"
  by (induction as xs rule: weave.induct) auto

text \<open>Keys around a child: the separators bound them.\<close>

lemma before_sub_less:
  assumes "sorted_items (before_sub as xs i @ rest)" and "\<And>a. a \<in> set (take i as) \<Longrightarrow> item_key a < k"
    and "y \<in> set (before_sub as xs i)"
  shows "item_key y < k"
proof -
  have "sorted_items (concat (map (\<lambda>(a, x). x @ [a]) (zip l ms))) \<Longrightarrow> \<forall>a \<in> set l. item_key a < k \<Longrightarrow>
      \<forall>y \<in> set (concat (map (\<lambda>(a, x). x @ [a]) (zip l ms))). item_key y < k" for l ms
  proof (induction l ms rule: list_induct2')
    case (4 a l x ms)
    have "item_key y < k" if "y \<in> set x" for y
      using 4(2,3) that by (fastforce simp: sorted_wrt_append)
    with 4 show ?case by (auto simp: sorted_wrt_append)
  qed auto
  with assms show ?thesis by (auto simp: before_sub_def sorted_wrt_append)
qed

lemma after_sub_greater:
  assumes "sorted_items (rest @ after_sub as xs i)" and "\<And>a. a \<in> set (drop i as) \<Longrightarrow> k < item_key a"
    and "y \<in> set (after_sub as xs i)"
  shows "k < item_key y"
proof -
  have "sorted_items (concat (map (\<lambda>(a, x). a # x) (zip l ms))) \<Longrightarrow> \<forall>a \<in> set l. k < item_key a \<Longrightarrow>
      \<forall>y \<in> set (concat (map (\<lambda>(a, x). a # x) (zip l ms))). k < item_key y" for l ms
  proof (induction l ms rule: list_induct2')
    case (4 a l x ms)
    have "k < item_key y" if "y \<in> set x" for y
    proof -
      have "item_key a < item_key y" using 4(2) that by (simp add: sorted_wrt_append)
      moreover have "k < item_key a" using 4(3) by simp
      ultimately show ?thesis by (rule order.strict_trans [rotated])
    qed
    moreover have "\<forall>y \<in> set (concat (map (\<lambda>(a, x). a # x) (zip l ms))). k < item_key y"
      using 4 by (simp add: sorted_wrt_append)
    ultimately show ?case using 4(3) by auto
  qed auto
  moreover have "sorted_items (after_sub as xs i)" using assms(1) by (simp add: sorted_wrt_append)
  ultimately show ?thesis using assms(2,3) unfolding after_sub_def by blast
qed


section \<open>Where a search goes\<close>

lemma set_items_weave: "set as \<subseteq> set (weave as xs)"
  by (induction as xs rule: weave.induct) auto

lemma sorted_weave_items: "sorted_items (weave as xs) \<Longrightarrow> sorted_items as"
proof (induction as xs rule: weave.induct)
  case (4 a as x xs)
  then show ?case using set_items_weave [of as xs] by (auto simp: sorted_wrt_append)
qed auto

lemma bal_cases:
  assumes "bal h T"
  shows "bsubs T = [] \<or> length (bsubs T) = length (bitems T) + 1"
  using assms by (cases h) auto

lemma weave_nil [simp]: "weave its [] = its"
  by (cases its) auto

text \<open>The two outcomes of the search inside a node of an ordered tree.\<close>

lemma node_search_found:
  assumes "bal h T" and "sorted_items (inorder T)" and "findKeyInNode (bcontent T) k = (True, i)"
  shows "i < length (bitems T)" and "item_key (bitems T ! i) = k"
    and "inorder T = weave (take i (bitems T)) (take (Suc i) (map inorder (bsubs T))) @ bitems T ! i
      # weave (drop (Suc i) (bitems T)) (drop (Suc i) (map inorder (bsubs T)))"
proof -
  have s: "sorted_items (bitems T)" using assms(2) sorted_weave_items by (simp add: inorder_eq)
  have "sorted_wrt (<) (keys (n_items (bcontent T)))" using s by simp
  from findKeyInNode_spec(2) [OF this assms(3)]
  show i: "i < length (bitems T)" "item_key (bitems T ! i) = k" by simp_all
  show "inorder T = weave (take i (bitems T)) (take (Suc i) (map inorder (bsubs T))) @ bitems T ! i
      # weave (drop (Suc i) (bitems T)) (drop (Suc i) (map inorder (bsubs T)))"
    by (subst inorder_eq, rule weave_cut [OF i(1)]) (use bal_cases [OF assms(1)] in auto)
qed

lemma node_search_missing:
  assumes "sorted_items (inorder T)" and "findKeyInNode (bcontent T) k = (False, i)"
  shows "i \<le> length (bitems T)" and "\<And>a. a \<in> set (take i (bitems T)) \<Longrightarrow> item_key a < k"
    and "\<And>a. a \<in> set (drop i (bitems T)) \<Longrightarrow> k < item_key a"
proof -
  have s: "sorted_items (bitems T)" using assms(1) sorted_weave_items by (simp add: inorder_eq)
  obtain found j where c: "findKeyInNode (bcontent T) k = (found, j)" "found \<longleftrightarrow> k \<in> set (keys (bitems T))"
    "j \<le> length (bitems T)" "\<forall>l < j. item_key (bitems T ! l) < k"
    "\<forall>l. j \<le> l \<and> l < length (bitems T) \<longrightarrow> k \<le> item_key (bitems T ! l)"
    using findKeyInNode_complete [of "bcontent T" k] s by auto
  then have j: "j = i" "k \<notin> set (keys (bitems T))" using assms(2) by auto
  show "i \<le> length (bitems T)" using c j by simp
  show "item_key a < k" if "a \<in> set (take i (bitems T))" for a
    using that c(4) j by (auto simp: in_set_conv_nth)
  show "k < item_key a" if a: "a \<in> set (drop i (bitems T))" for a
  proof -
    obtain l where "l < length (drop i (bitems T))" "drop i (bitems T) ! l = a"
      using a unfolding in_set_conv_nth by blast
    then have "k \<le> item_key a" "a \<in> set (bitems T)" using c(5) j by auto
    moreover have "item_key a \<noteq> k" using j(2) calculation(2) by auto
    ultimately show ?thesis by simp
  qed
qed

lemma child_bounds:
  assumes "bal (Suc h) T" and "sorted_items (inorder T)" and "findKeyInNode (bcontent T) k = (False, i)"
  shows "i < length (bsubs T)" and "bal h (bsubs T ! i)" and "sorted_items (inorder (bsubs T ! i))"
    and "inorder T = before_sub (bitems T) (map inorder (bsubs T)) i @ inorder (bsubs T ! i)
      @ after_sub (bitems T) (map inorder (bsubs T)) i"
    and "\<And>x. x \<in> set (before_sub (bitems T) (map inorder (bsubs T)) i) \<Longrightarrow> item_key x < k"
    and "\<And>x. x \<in> set (after_sub (bitems T) (map inorder (bsubs T)) i) \<Longrightarrow> k < item_key x"
proof -
  note m = node_search_missing [OF assms(2,3)]
  let ?xs = "map inorder (bsubs T)"
  have len: "length ?xs = length (bitems T) + 1" using assms(1) by simp
  show i: "i < length (bsubs T)" using m(1) len by simp
  show "bal h (bsubs T ! i)" using assms(1) i by (simp add: list_all_length)
  show w: "inorder T = before_sub (bitems T) ?xs i @ inorder (bsubs T ! i) @ after_sub (bitems T) ?xs i"
    using weave_at_sub [OF len m(1)] i by (simp add: inorder_eq)
  note so = assms(2) [unfolded w]
  show "sorted_items (inorder (bsubs T ! i))" using so by (simp add: sorted_wrt_append)
  show "item_key x < k" if "x \<in> set (before_sub (bitems T) ?xs i)" for x
    using before_sub_less [OF so m(2) that] .
  show "k < item_key x" if "x \<in> set (after_sub (bitems T) ?xs i)" for x
    using after_sub_greater [of "before_sub (bitems T) ?xs i @ inorder (bsubs T ! i)", OF _ m(3) that] so by simp
qed

text \<open>The result of a search: whether the key was met, its index, the node, and the path to it.\<close>

function search :: "btree \<Rightarrow> bytes \<Rightarrow> bool \<times> nat \<times> btree \<times> nat list" where
  "search T k =
     (let (found, i) = findKeyInNode (bcontent T) k in
      if found then (True, i, T, [])
      else if i < length (bsubs T)
      then let (f, j, u, path) = search (bsubs T ! i) k in (f, j, u, i # path)
      else (False, i, T, []))"
  by pat_completeness auto
termination
proof (relation "measure (\<lambda>(T, k). size T)")
  fix T k x found i
  assume "i < length (bsubs T)"
  then have "size (bsubs T ! i) < size T"
    by (cases T) (simp add: less_Suc_eq_le size_list_estimation' [OF nth_mem])
  then show "((bsubs T ! i, k), (T, k)) \<in> measure (\<lambda>(T, k). size T)" by simp
qed simp

declare search.simps [simp del]

lemma search_found: "findKeyInNode (bcontent T) k = (True, i) \<Longrightarrow> search T k = (True, i, T, [])"
  and search_leaf: "findKeyInNode (bcontent T) k = (False, i) \<Longrightarrow> length (bsubs T) \<le> i \<Longrightarrow> search T k = (False, i, T, [])"
  and search_child: "findKeyInNode (bcontent T) k = (False, i) \<Longrightarrow> i < length (bsubs T) \<Longrightarrow>
    search (bsubs T ! i) k = (f, j, u, path) \<Longrightarrow> search T k = (f, j, u, i # path)"
  by (subst search.simps; simp)+

lemma search_find_item:
  assumes "bal h T" and "sorted_items (inorder T)" and "search T k = (f, j, u, path)"
  shows "find_item k (inorder T) = (if f then Some (bitems u ! j) else None) \<and> (f \<longrightarrow> j < length (bitems u))"
  using assms
proof (induction h arbitrary: T f j u path)
  case 0
  obtain found i where fi: "findKeyInNode (bcontent T) k = (found, i)" by fastforce
  show ?case
  proof (cases found)
    case True
    then have fi': "findKeyInNode (bcontent T) k = (True, i)" using fi by simp
    note n = node_search_found [OF 0(1,2) fi']
    have "find_item k (inorder T) = Some (bitems T ! i)"
      using find_item_mid 0(2) n(2) unfolding n(3) by blast
    then show ?thesis using search_found fi True 0(3) n(1) by auto
  next
    case False
    then have fi': "findKeyInNode (bcontent T) k = (False, i)" using fi by simp
    note n = node_search_missing [OF 0(2) fi']
    have "inorder T = take i (bitems T) @ [] @ drop i (bitems T)" using 0(1) by (simp add: inorder_eq)
    then have "find_item k (inorder T) = None"
      using find_item_context [of "take i (bitems T)" k "drop i (bitems T)" "[]", OF n(2,3)] by simp
    then show ?thesis using search_leaf [OF fi'] 0(1,3) by auto
  qed
next
  case (Suc h)
  obtain found i where fi: "findKeyInNode (bcontent T) k = (found, i)" by fastforce
  show ?case
  proof (cases found)
    case True
    then have fi': "findKeyInNode (bcontent T) k = (True, i)" using fi by simp
    note n = node_search_found [OF Suc.prems(1,2) fi']
    have "find_item k (inorder T) = Some (bitems T ! i)"
      using find_item_mid Suc.prems(2) n(2) unfolding n(3) by blast
    then show ?thesis using search_found fi True Suc.prems(3) n(1) by auto
  next
    case False
    then have fi': "findKeyInNode (bcontent T) k = (False, i)" using fi by simp
    note c = child_bounds [OF Suc.prems(1,2) fi']
    obtain f' j' u' path' where r: "search (bsubs T ! i) k = (f', j', u', path')" by (rule prod_cases4)
    have "find_item k (inorder T) = find_item k (inorder (bsubs T ! i))"
      unfolding c(4) by (rule find_item_context [OF c(5,6)])
    then show ?thesis
      using Suc.IH [OF c(2,3) r] search_child [OF fi' c(1) r] Suc.prems(3) by auto
  qed
qed

end
