(* ===== verification/Tx_View.thy ===== *)
theory Tx_View
  imports Collection Btree
begin

text \<open>
  What a transaction sees of the pages: the nodes it changed, and the stored ones below. Reading
  a node copies it into new slices, so the memory of the transaction grows but nothing that
  was there changes; \<open>reads\<close> says so. The search down the tree is related to \<open>search\<close> on the
  abstract tree, which gives the correctness of \<open>Find\<close>.
\<close>

section \<open>Views\<close>

definition gvalid :: "gomem \<Rightarrow> gonode \<Rightarrow> bool" where
  "gvalid m n \<longleftrightarrow> svalid (itemArrays m) (items n) \<and> svalid (pgArrays m) (childNodes n)"

definition stored :: "dal \<Rightarrow> pgnum \<Rightarrow> content option" where
  "stored d p = (case dal_getNode d p of Inl _ \<Rightarrow> None | Inr c \<Rightarrow> Some c)"

definition tx_view :: "dal \<Rightarrow> tx \<Rightarrow> pgnum \<Rightarrow> content option" where
  "tx_view d t p = (case dirtyNodes t p of Some n \<Rightarrow> Some (contents (mem t) n) | None \<Rightarrow> stored d p)"

definition tx_used :: "tx \<Rightarrow> pgnum set" where
  "tx_used t = (case tx_freelist t of None \<Rightarrow> {} | Some fr \<Rightarrow> freelist_used fr)"

text \<open>The changed nodes are stored under their own, allocated pages, with slices inside their arrays.\<close>

definition tx_ok :: "tx \<Rightarrow> bool" where
  "tx_ok t \<longleftrightarrow> (\<forall>p n. dirtyNodes t p = Some n \<longrightarrow> pageNum n = p \<and> gvalid (mem t) n \<and> p \<in> tx_used t)"

definition gmem_ext :: "gomem \<Rightarrow> gomem \<Rightarrow> bool" where
  "gmem_ext m m' \<longleftrightarrow> grow m' = grow m \<and> mem_ext (itemArrays m) (itemArrays m') \<and> mem_ext (pgArrays m) (pgArrays m')"

definition reads :: "tx \<Rightarrow> tx \<Rightarrow> bool" where
  "reads t t' \<longleftrightarrow> t' = t\<lparr>mem := mem t'\<rparr> \<and> gmem_ext (mem t) (mem t')"

lemma gmem_ext_refl [simp]: "gmem_ext m m"
  by (simp add: gmem_ext_def)

lemma gmem_ext_trans: "gmem_ext m m' \<Longrightarrow> gmem_ext m' m'' \<Longrightarrow> gmem_ext m m''"
  by (auto simp: gmem_ext_def intro: mem_ext_trans)

lemma gmem_ext_node:
  assumes "gmem_ext m m'" and "gvalid m n"
  shows "gvalid m' n" and "contents m' n = contents m n"
  using assms by (auto simp: gmem_ext_def gvalid_def contents_def mem_ext_valid mem_ext_content)

lemma reads_refl [simp]: "reads t t"
  by (simp add: reads_def)

lemma reads_trans:
  assumes "reads t t'" and "reads t' t''"
  shows "reads t t''"
proof -
  have "t'' = t'\<lparr>mem := mem t''\<rparr>" "t' = t\<lparr>mem := mem t'\<rparr>" using assms by (simp_all add: reads_def)
  then have "t'' = t\<lparr>mem := mem t''\<rparr>" by (metis tx.update_convs(1) tx.surjective tx.select_convs)
  then show ?thesis using assms gmem_ext_trans by (auto simp: reads_def)
qed

lemma reads_fields:
  assumes "reads t t'"
  shows "dirtyNodes t' = dirtyNodes t" and "tx_freelist t' = tx_freelist t" and "tx_write t' = tx_write t"
    and "tx_root t' = tx_root t" and "collections t' = collections t" and "pagesToDelete t' = pagesToDelete t"
    and "deletedCollections t' = deletedCollections t" and "gmem_ext (mem t) (mem t')"
  using assms by (cases t; cases t'; simp add: reads_def)+

lemma reads_ok: "reads t t' \<Longrightarrow> tx_ok t \<Longrightarrow> tx_ok t'"
  using reads_fields(1,2,8) [of t t'] by (auto simp: tx_ok_def tx_used_def gmem_ext_node)

lemma reads_view:
  assumes "reads t t'" and "tx_ok t"
  shows "tx_view d t' = tx_view d t"
proof
  show "tx_view d t' p = tx_view d t p" for p
    using assms(2) gmem_ext_node(2) [OF reads_fields(8) [OF assms(1)]]
    by (auto simp: tx_view_def reads_fields(1) [OF assms(1)] tx_ok_def split: option.split)
qed

text \<open>A field update commutes with growing memory.\<close>

lemma reads_mem: "gmem_ext (mem t) m \<Longrightarrow> reads t (t\<lparr>mem := m\<rparr>)"
  by (simp add: reads_def)

section \<open>Reading a node\<close>

lemma append_each_item_spec:
  assumes "svalid (itemArrays (mem t)) s" and "mem_ext h0 (itemArrays (mem t))" and "length h0 \<le> sarr s"
  shows "\<exists>h s'. append_each_item s xs t = Some (Inr s', t\<lparr>mem := (mem t)\<lparr>itemArrays := h\<rparr>\<rparr>)
    \<and> mem_ext h0 h \<and> length h0 \<le> sarr s' \<and> svalid h s' \<and> scontent h s' = scontent (itemArrays (mem t)) s @ xs"
  using assms
proof (induction xs arbitrary: s t)
  case (Cons x xs)
  obtain h1 s1 where a: "sappend (grow (mem t)) (itemArrays (mem t)) s [x] = (h1, s1)" by fastforce
  note c = sappend_content [OF Cons.prems(1) a] and e = mem_ext_append [OF Cons.prems(2,3) a]
  let ?t = "t\<lparr>mem := (mem t)\<lparr>itemArrays := h1\<rparr>\<rparr>"
  have "append_items s [x] t = Some (Inr s1, ?t)" using a by (simp add: append_items_def)
  moreover obtain h s' where "append_each_item s1 xs ?t = Some (Inr s', ?t\<lparr>mem := (mem ?t)\<lparr>itemArrays := h\<rparr>\<rparr>)"
    "mem_ext h0 h \<and> length h0 \<le> sarr s' \<and> svalid h s' \<and> scontent h s' = scontent h1 s1 @ xs"
    using Cons.IH [of ?t s1] c e by auto
  ultimately show ?case using c(2) by (simp add: bindM_def) blast
next
  case Nil
  then show ?case by (intro exI [of _ "itemArrays (mem t)"]) simp
qed

lemma append_each_pg_spec:
  assumes "svalid (pgArrays (mem t)) s" and "mem_ext h0 (pgArrays (mem t))" and "length h0 \<le> sarr s"
  shows "\<exists>h s'. append_each_pg s xs t = Some (Inr s', t\<lparr>mem := (mem t)\<lparr>pgArrays := h\<rparr>\<rparr>)
    \<and> mem_ext h0 h \<and> length h0 \<le> sarr s' \<and> svalid h s' \<and> scontent h s' = scontent (pgArrays (mem t)) s @ xs"
  using assms
proof (induction xs arbitrary: s t)
  case (Cons x xs)
  obtain h1 s1 where a: "sappend (grow (mem t)) (pgArrays (mem t)) s [x] = (h1, s1)" by fastforce
  note c = sappend_content [OF Cons.prems(1) a] and e = mem_ext_append [OF Cons.prems(2,3) a]
  let ?t = "t\<lparr>mem := (mem t)\<lparr>pgArrays := h1\<rparr>\<rparr>"
  have "append_pgs s [x] t = Some (Inr s1, ?t)" using a by (simp add: append_pgs_def)
  moreover obtain h s' where "append_each_pg s1 xs ?t = Some (Inr s', ?t\<lparr>mem := (mem ?t)\<lparr>pgArrays := h\<rparr>\<rparr>)"
    "mem_ext h0 h \<and> length h0 \<le> sarr s' \<and> svalid h s' \<and> scontent h s' = scontent h1 s1 @ xs"
    using Cons.IH [of ?t s1] c e by auto
  ultimately show ?case using c(2) by (simp add: bindM_def) blast
next
  case Nil
  then show ?case by (intro exI [of _ "pgArrays (mem t)"]) simp
qed

text \<open>A stored node is copied into arrays of its own.\<close>

lemma tx_getNode_stored:
  assumes "dirtyNodes t p = None" and "stored d p = Some c"
  obtains n t' where "tx_getNode d p t = Some (Inr n, t')" and "reads t t'" and "gvalid (mem t') n"
    and "contents (mem t') n = c" and "pageNum n = p"
    and "length (itemArrays (mem t)) \<le> sarr (items n)" and "length (pgArrays (mem t)) \<le> sarr (childNodes n)"
proof -
  have g: "dal_getNode d p = Inr c" using assms(2) by (auto simp: stored_def split: sum.splits)
  let ?h0 = "itemArrays (mem t)" and ?g0 = "pgArrays (mem t)"
  obtain h1 s1 where l: "sliteral ?h0 [] = (h1, s1)" by fastforce
  note v1 = svalid_alloc [OF l [unfolded sliteral_def]]
  let ?t1 = "t\<lparr>mem := (mem t)\<lparr>itemArrays := h1\<rparr>\<rparr>"
  have e1: "mem_ext ?h0 h1" using l mem_ext_alloc by (simp add: sliteral_def)
  obtain h2 s2 where a: "append_each_item s1 (n_items c) ?t1 = Some (Inr s2, ?t1\<lparr>mem := (mem ?t1)\<lparr>itemArrays := h2\<rparr>\<rparr>)"
    "mem_ext ?h0 h2" "length ?h0 \<le> sarr s2" "svalid h2 s2" "scontent h2 s2 = n_items c"
    using append_each_item_spec [of ?t1 s1 ?h0 "n_items c"] v1 e1 by auto
  let ?t2 = "t\<lparr>mem := (mem t)\<lparr>itemArrays := h2\<rparr>\<rparr>"
  obtain g1 r1 where m: "sliteral ?g0 [] = (g1, r1)" by fastforce
  note w1 = svalid_alloc [OF m [unfolded sliteral_def]]
  let ?t3 = "t\<lparr>mem := (mem t)\<lparr>itemArrays := h2, pgArrays := g1\<rparr>\<rparr>"
  have f1: "mem_ext ?g0 g1" using m mem_ext_alloc by (simp add: sliteral_def)
  obtain g2 r2 where b: "append_each_pg r1 (n_children c) ?t3 = Some (Inr r2, ?t3\<lparr>mem := (mem ?t3)\<lparr>pgArrays := g2\<rparr>\<rparr>)"
    "mem_ext ?g0 g2" "length ?g0 \<le> sarr r2" "svalid g2 r2" "scontent g2 r2 = n_children c"
    using append_each_pg_spec [of ?t3 r1 ?g0 "n_children c"] w1 f1 by auto
  let ?n = "\<lparr>pageNum = p, items = s2, childNodes = r2\<rparr>"
  let ?t' = "t\<lparr>mem := (mem t)\<lparr>itemArrays := h2, pgArrays := g2\<rparr>\<rparr>"
  have "tx_getNode d p t = Some (Inr ?n, ?t')"
    using assms(1) l a(1) m b(1) by (simp add: tx_getNode_def g literal_items_def literal_pgs_def bindM_def)
  moreover have "reads t ?t'" using a(2) b(2) by (simp add: reads_def gmem_ext_def)
  moreover have "contents (mem ?t') ?n = c" using a(5) b(5) by (simp add: contents_def)
  ultimately show thesis using that [of ?n ?t'] a(3,4) b(3,4) by (simp add: gvalid_def)
qed

lemma tx_getNode_view:
  assumes "tx_ok t" and "tx_view d t p = Some c"
  obtains n t' where "tx_getNode d p t = Some (Inr n, t')" and "reads t t'" and "gvalid (mem t') n"
    and "contents (mem t') n = c" and "pageNum n = p"
    and "dirtyNodes t p = Some n \<and> t' = t \<or> dirtyNodes t p = None
      \<and> length (itemArrays (mem t)) \<le> sarr (items n) \<and> length (pgArrays (mem t)) \<le> sarr (childNodes n)"
proof (cases "dirtyNodes t p")
  case None
  then have "stored d p = Some c" using assms(2) by (simp add: tx_view_def)
  from tx_getNode_stored [OF None this] that None show thesis by metis
next
  case (Some n)
  then have "tx_getNode d p t = Some (Inr n, t)" by (simp add: tx_getNode_def)
  with that [of n t] Some assms show thesis by (simp add: tx_view_def tx_ok_def)
qed

section \<open>Searching down the tree\<close>

lemma get_pg_eq:
  assumes "gvalid (mem t) n" and "i < length (n_children (contents (mem t) n))"
  shows "get_pg (childNodes n) i t = Some (Inr (n_children (contents (mem t) n) ! i), t)"
proof -
  have "length (scontent (pgArrays (mem t)) (childNodes n)) = slen (childNodes n)"
    using assms(1) by (simp add: gvalid_def)
  then show ?thesis using assms(2) by (simp add: get_pg_def sget_def contents_def)
qed

lemma get_item_eq:
  assumes "gvalid (mem t) n" and "i < length (n_items (contents (mem t) n))"
  shows "get_item (items n) i t = Some (Inr (n_items (contents (mem t) n) ! i), t)"
proof -
  have "length (scontent (itemArrays (mem t)) (items n)) = slen (items n)"
    using assms(1) by (simp add: gvalid_def)
  then show ?thesis using assms(2) by (simp add: get_item_def sget_def contents_def)
qed

lemma tree_at_child:
  assumes "tree_at v T" and "i < length (bsubs T)"
  shows "tree_at v (bsubs T ! i)" and "v (bpage (bsubs T ! i)) = Some (bcontent (bsubs T ! i))"
proof -
  show c: "tree_at v (bsubs T ! i)" using assms by (cases T) (simp add: list_all_length)
  then show "v (bpage (bsubs T ! i)) = Some (bcontent (bsubs T ! i))" by (cases "bsubs T ! i") (simp add: bcontent_def)
qed

lemma tree_at_root: "tree_at v T \<Longrightarrow> v (bpage T) = Some (bcontent T)"
  by (cases T) (simp add: bcontent_def)

lemma findKeyHelper_spec:
  assumes "bal h T" and "sorted_items (inorder T)" and "tree_at (tx_view d t) T" and "tx_ok t"
    and "gvalid (mem t) n" and "contents (mem t) n = bcontent T" and "pageNum n = bpage T"
    and "search T k = (f, j, u, path)"
  shows "\<exists>t' n'. findKeyHelper d n k exact anc t = Some (Inr (if f \<or> \<not> exact then (j, Some n', anc @ path) else (0, None, anc @ path)), t')
    \<and> reads t t' \<and> gvalid (mem t') n' \<and> contents (mem t') n' = bcontent u \<and> pageNum n' = bpage u
    \<and> (path \<noteq> [] \<longrightarrow> dirtyNodes t (bpage u) = Some n' \<or> dirtyNodes t (bpage u) = None
      \<and> length (itemArrays (mem t)) \<le> sarr (items n') \<and> length (pgArrays (mem t)) \<le> sarr (childNodes n'))
    \<and> (path = [] \<longrightarrow> n' = n \<and> u = T)"
  using assms
proof (induction h arbitrary: T t n f j u path anc)
  case 0
  obtain found i where fi: "findKeyInNode (bcontent T) k = (found, i)" by fastforce
  show ?case
  proof (cases found)
    case True
    then have "search T k = (True, i, T, [])" using fi search_found by simp
    then show ?thesis using 0 fi True by (subst findKeyHelper.simps) auto
  next
    case False
    then have "search T k = (False, i, T, [])" using fi search_leaf 0(1) by simp
    then show ?thesis using 0 fi False by (subst findKeyHelper.simps) auto
  qed
next
  case (Suc h)
  obtain found i where fi: "findKeyInNode (bcontent T) k = (found, i)" by fastforce
  show ?case
  proof (cases found)
    case True
    then have "search T k = (True, i, T, [])" using fi search_found by simp
    then show ?thesis using Suc.prems fi True by (subst findKeyHelper.simps) auto
  next
    case False
    then have fi': "findKeyInNode (bcontent T) k = (False, i)" using fi by simp
    note c = child_bounds [OF Suc.prems(1,2) fi']
    let ?S = "bsubs T ! i"
    obtain f' j' u' path' where r: "search ?S k = (f', j', u', path')" by (rule prod_cases4)
    have res: "f = f'" "j = j'" "u = u'" "path = i # path'"
      using search_child [OF fi' c(1) r] Suc.prems(8) by auto
    note v = tree_at_child [OF Suc.prems(3) c(1)]
    obtain n1 t1 where g: "tx_getNode d (bpage ?S) t = Some (Inr n1, t1)" "reads t t1" "gvalid (mem t1) n1"
      "contents (mem t1) n1 = bcontent ?S" "pageNum n1 = bpage ?S"
      "dirtyNodes t (bpage ?S) = Some n1 \<and> t1 = t \<or> dirtyNodes t (bpage ?S) = None
        \<and> length (itemArrays (mem t)) \<le> sarr (items n1) \<and> length (pgArrays (mem t)) \<le> sarr (childNodes n1)"
      by (rule tx_getNode_view [OF Suc.prems(4) v(2)])
    have pg: "get_pg (childNodes n) i t = Some (Inr (bpage ?S), t)"
      using get_pg_eq [OF Suc.prems(5), of i] c(1) by (simp add: Suc.prems(6))
    have step: "findKeyHelper d n k exact anc t = findKeyHelper d n1 k exact (anc @ [i]) t1"
      using c(1) fi' pg g(1) Suc.prems(6) by (subst findKeyHelper.simps) (auto simp: bindM_def)
    have t1: "tree_at (tx_view d t1) ?S" "tx_ok t1"
      using v(1) reads_view [OF g(2) Suc.prems(4)] reads_ok [OF g(2) Suc.prems(4)] by simp_all
    note rf = reads_fields [OF g(2)]
    have le: "length (itemArrays (mem t)) \<le> length (itemArrays (mem t1))" "length (pgArrays (mem t)) \<le> length (pgArrays (mem t1))"
      using rf(8) by (simp_all add: gmem_ext_def mem_ext_def)
    obtain t' n' where ih: "findKeyHelper d n1 k exact (anc @ [i]) t1
        = Some (Inr (if f \<or> \<not> exact then (j, Some n', (anc @ [i]) @ path') else (0, None, (anc @ [i]) @ path')), t')"
      "reads t1 t'" "gvalid (mem t') n'" "contents (mem t') n' = bcontent u" "pageNum n' = bpage u"
      "path' \<noteq> [] \<longrightarrow> dirtyNodes t1 (bpage u) = Some n' \<or> dirtyNodes t1 (bpage u) = None
        \<and> length (itemArrays (mem t1)) \<le> sarr (items n') \<and> length (pgArrays (mem t1)) \<le> sarr (childNodes n')"
      "path' = [] \<longrightarrow> n' = n1 \<and> u = ?S"
      using Suc.IH [OF c(2,3) t1 g(3,4,5) r, of "anc @ [i]"] res by blast
    have "dirtyNodes t (bpage u) = Some n' \<or> dirtyNodes t (bpage u) = None
        \<and> length (itemArrays (mem t)) \<le> sarr (items n') \<and> length (pgArrays (mem t)) \<le> sarr (childNodes n')"
    proof (cases "path' = []")
      case True
      then show ?thesis using ih(7) g(6) by auto
    next
      case False
      then show ?thesis using ih(6) rf(1) le by auto
    qed
    then show ?thesis
      using ih(1-5) step res reads_trans [OF g(2) ih(2)] by (intro exI [of _ t'] exI [of _ n']) simp
  qed
qed

section \<open>Find\<close>

lemma find_tree:
  assumes "bal h T" and "sorted_items (inorder T)" and "tree_at (tx_view d t) T" and "tx_ok t" and "c_root c = bpage T"
  shows "\<exists>t'. Find d c k t = Some (Inr (find_item k (inorder T)), t') \<and> reads t t'"
proof -
  have v: "tx_view d t (c_root c) = Some (bcontent T)" using tree_at_root [OF assms(3)] assms(5) by simp
  obtain n t1 where g: "tx_getNode d (c_root c) t = Some (Inr n, t1)" "reads t t1" "gvalid (mem t1) n"
    "contents (mem t1) n = bcontent T" "pageNum n = c_root c"
    by (rule tx_getNode_view [OF assms(4) v]) blast
  obtain f j u path where s: "search T k = (f, j, u, path)" by (rule prod_cases4)
  have t1: "tree_at (tx_view d t1) T" "tx_ok t1"
    using reads_view [OF g(2) assms(4)] reads_ok [OF g(2) assms(4)] assms(3) by simp_all
  obtain t2 n' where f: "findKeyHelper d n k True [0] t1
      = Some (Inr (if f \<or> \<not> True then (j, Some n', [0] @ path) else (0, None, [0] @ path)), t2)"
    "reads t1 t2" "gvalid (mem t2) n'" "contents (mem t2) n' = bcontent u"
    using findKeyHelper_spec [OF assms(1,2) t1 g(3,4) _ s, of True "[0]"] g(5) assms(5) by auto
  note r = search_find_item [OF assms(1,2) s]
  have "Find d c k t = Some (Inr (find_item k (inorder T)), t2)"
    using g(1) f(1) r get_item_eq [OF f(3), of j] f(4) by (auto simp: Find_def findKey_def bindM_def)
  then show ?thesis using reads_trans [OF g(2) f(2)] by blast
qed

end
