(* ===== verification/Split_Point.thy ===== *)
theory Split_Point
  imports Dal Btree
begin

text \<open>
  Where a node is split and how large the halves are. The fill thresholds are taken as the
  exact rationals they denote; \<open>fill d a b\<close> says that they are far enough apart that every
  overpopulated node has a split position and both halves fit again.
\<close>

section \<open>The two halves\<close>

text \<open>Truncated items and children on the left, the tails on the right; the middle item moves up.\<close>

definition left_content :: "nat \<Rightarrow> content \<Rightarrow> content" where
  "left_content i c = \<lparr>n_items = take i (n_items c), n_children = take (i + 1) (n_children c)\<rparr>"

definition right_content :: "nat \<Rightarrow> content \<Rightarrow> content" where
  "right_content i c = \<lparr>n_items = drop (i + 1) (n_items c), n_children = drop (i + 1) (n_children c)\<rparr>"

section \<open>Sizes\<close>

text \<open>What the items of a node add to \<open>nodeSize\<close>.\<close>

definition esum :: "item list \<Rightarrow> nat" where
  "esum its = (\<Sum>it \<leftarrow> its. length (item_key it) + length (item_value it) + 8)"

lemma esum_simps [simp]:
  "esum [] = 0" "esum (it # its) = length (item_key it) + length (item_value it) + 8 + esum its"
  "esum (xs @ ys) = esum xs + esum ys"
  by (simp_all add: esum_def)

lemma nodeSize_esum: "nodeSize n = 11 + esum (n_items n)"
proof -
  have "cells_size its + 6 * length its = esum its" for its by (induction its) auto
  then show ?thesis by (simp add: nodeSize_eq)
qed

lemma prefixSize_esum: "i \<le> length (n_items n) \<Longrightarrow> prefixSize n i = 3 + esum (take i (n_items n))"
proof (induction i)
  case (Suc i)
  then show ?case by (simp add: prefixSize_Suc elementSize_def take_Suc_conv_app_nth)
qed (simp add: prefixSize_def)

lemma small_items_append [simp]: "small_items (xs @ ys) \<longleftrightarrow> small_items xs \<and> small_items ys"
  and small_items_Cons [simp]: "small_items (it # its) \<longleftrightarrow>
    length (item_key it) \<le> 255 \<and> length (item_value it) \<le> 255 \<and> small_items its"
  and small_items_Nil [simp]: "small_items []"
  by (simp_all add: small_items_def)

lemma esum_item: "esum [it] \<ge> 8" "small_items [it] \<Longrightarrow> esum [it] \<le> 518"
  by simp_all

lemma items_cut: "i < length its \<Longrightarrow> its = take i its @ its ! i # drop (i + 1) its"
  using id_take_nth_drop by auto

section \<open>Split positions exist\<close>

definition fill :: "dal \<Rightarrow> rat \<Rightarrow> rat \<Rightarrow> bool" where
  "fill d a b \<longleftrightarrow> minThreshold d = Fin a \<and> maxThreshold d = Fin b \<and> 526 \<le> a \<and> a + 526 \<le> b \<and> b < 2 ^ 23"

text \<open>A node within \<open>x\<close> bytes of the upper threshold.\<close>

definition node_fits :: "rat \<Rightarrow> nat \<Rightarrow> content \<Rightarrow> bool" where
  "node_fits b x c \<longleftrightarrow> small_items (n_items c) \<and> of_nat (nodeSize c) \<le> b + of_nat x"

lemma f32_less_nat: "n < 2 ^ 24 \<Longrightarrow> f32_less (Fin a) (f32_of_int (int n)) \<longleftrightarrow> a < of_nat n"
  by (simp add: f32_of_int_exact)

lemma node_fits_bound:
  assumes "fill d a b" and "node_fits b x c" and "x \<le> 1000"
  shows "nodeSize c < 2 ^ 24"
proof -
  have "(of_nat (nodeSize c) :: rat) \<le> b + of_nat x" using assms(2) by (simp add: node_fits_def)
  also have "\<dots> \<le> b + 1000" using assms(3) by simp
  also have "\<dots> < of_nat (2 ^ 24)" using assms(1) by (simp add: fill_def)
  finally show ?thesis by (simp only: of_nat_less_iff)
qed

lemma overpopulated_iff:
  assumes "fill d a b" and "node_fits b x c" and "x \<le> 1000"
  shows "isOverPopulated d c \<longleftrightarrow> b < of_nat (nodeSize c)"
  using assms(1) f32_less_nat [OF node_fits_bound [OF assms]] by (simp add: isOverPopulated_def fill_def)

lemma not_overpopulated_fits:
  assumes "fill d a b" and "node_fits b x c" and "x \<le> 1000" and "\<not> isOverPopulated d c"
  shows "node_fits b 0 c"
  using overpopulated_iff [OF assms(1-3)] assms(2,4) by (simp add: node_fits_def)

lemma split_halves_fit:
  assumes f: "fill d a b" and c: "node_fits b 518 c" and o: "isOverPopulated d c"
  obtains i where "getSplitIndex d c = int i" and "0 < i" and "i < length (n_items c)"
    and "node_fits b 0 (left_content i c)" and "node_fits b 0 (right_content i c)"
    and "small_items [n_items c ! i]"
proof -
  let ?its = "n_items c" let ?n = "length ?its"
  have sz: "nodeSize c < 2 ^ 24" by (rule node_fits_bound [OF f c]) simp
  have big: "b < of_nat (nodeSize c)" using overpopulated_iff [OF f c] o by simp
  have small: "small_items ?its" using c by (simp add: node_fits_def)
  have ab: "minThreshold d = Fin a" "526 \<le> a" "a + 526 \<le> b" using f by (simp_all add: fill_def)
  have less: "f32_less (minThreshold d) (f32_of_int (int (prefixSize c i))) \<longleftrightarrow> a < 3 + of_nat (esum (take i ?its))"
    if "i \<le> ?n" for i
  proof -
    have "esum ?its = esum (take i ?its) + esum (drop i ?its)" by (metis append_take_drop_id esum_simps(3))
    then have "prefixSize c i < 2 ^ 24" using sz that by (simp add: nodeSize_esum prefixSize_esum)
    then show ?thesis using that by (simp only: ab(1) f32_less_nat) (simp add: prefixSize_esum)
  qed
  have item: "small_items [?its ! i]" "esum ?its = esum (take i ?its) + esum [?its ! i] + esum (drop (i + 1) ?its)"
    "small_items (take i ?its)" "small_items (drop (i + 1) ?its)" if "i < ?n" for i
    using small items_cut [OF that] by (metis small_items_append small_items_Cons small_items_Nil esum_simps(1-3) add.assoc add_0_right)+
  show thesis
  proof (cases d c rule: getSplitIndex_cases)
    case none
    have "0 < ?n" using big ab by (cases ?its) (auto simp: nodeSize_esum)
    let ?i = "?n - 1"
    have last: "esum ?its = esum (take ?i ?its) + esum [?its ! ?i]" and s: "small_items [?its ! ?i]"
      using item(1,2) [of ?i] \<open>0 < ?n\<close> by simp_all
    have "esum [?its ! ?i] \<le> 518" by (rule esum_item(2) [OF s])
    then have "(of_nat (esum ?its) :: rat) \<le> of_nat (esum (take ?i ?its)) + 518"
      unfolding last by simp
    then have "a < 3 + of_nat (esum (take ?i ?its))" using big ab by (simp add: nodeSize_esum)
    moreover have "0 < ?i"
    proof (rule ccontr)
      assume "\<not> 0 < ?i"
      then have "esum (take ?i ?its) = 0" by simp
      with calculation ab show False by simp
    qed
    ultimately show thesis using none(2) [of ?i] less [of ?i] \<open>0 < ?n\<close> by auto
  next
    case (some i)
    note it = item [OF some(3)]
    have lo: "a < 3 + of_nat (esum (take i ?its))" using some(3,4) less [of i] by simp
    have prev: "esum (take i ?its) = esum (take (i - 1) ?its) + esum [?its ! (i - 1)]" "small_items [?its ! (i - 1)]"
      using take_Suc_conv_app_nth [of "i - 1" ?its] item(1) [of "i - 1"] some(2,3) by simp_all
    have "3 + of_nat (esum (take (i - 1) ?its)) \<le> a"
    proof (cases "i = 1")
      case False
      have "i - 1 \<le> ?n" using some(3) by linarith
      moreover have "\<not> f32_less (minThreshold d) (f32_of_int (int (prefixSize c (i - 1))))"
        using some(2) False by (intro some(5)) simp_all
      ultimately show ?thesis using less [of "i - 1"] by (simp add: not_less)
    qed (use ab in simp)
    moreover have "(of_nat (esum [?its ! (i - 1)]) :: rat) \<le> 518"
      using esum_item(2) [OF prev(2)] by (simp only: of_nat_le_iff [of _ 518, simplified])
    ultimately have hi: "3 + of_nat (esum (take i ?its)) \<le> a + 518" using prev(1) by simp
    have "node_fits b 0 (left_content i c)"
      using hi ab it(3) by (simp add: node_fits_def left_content_def nodeSize_esum)
    moreover have "node_fits b 0 (right_content i c)"
    proof -
      have "(of_nat (nodeSize c) :: rat) \<le> b + 518" using c by (simp add: node_fits_def)
      moreover have "(8 :: rat) \<le> of_nat (esum [?its ! i])" by simp
      ultimately have "11 + (of_nat (esum (drop (i + 1) ?its)) :: rat) \<le> b"
        using lo ab by (simp add: nodeSize_esum it(2))
      then show ?thesis using it(4) by (simp add: node_fits_def right_content_def nodeSize_esum)
    qed
    ultimately show thesis using that some(1-3) it(1) by blast
  qed
qed

section \<open>The default options\<close>

lemma default_fill:
  assumes "pageSize d = 4096" and "minFillPercent d = MinFillPercent DefaultOptions"
    and "maxFillPercent d = MaxFillPercent DefaultOptions"
  shows "fill d 2048 (15938355 / 4096)"
proof -
  have i: "f32_of_int (int 4096) = Fin 4096" using f32_of_int_exact [of 4096] by simp
  have e: "f32_of_rat 2048 = Fin 2048" using f32_of_int_exact [of 2048] by (simp add: f32_of_int_def)
  have "f32_round_abs (15938355 / 4096) = 15938355 / 4096" using f32_round_abs_dyadic [of 15938355 12] by simp
  then have m: "f32_of_rat (15938355 / 4096) = Fin (15938355 / 4096)" by (simp add: f32_of_rat_def Let_def)
  have "minThreshold d = Fin 2048" "maxThreshold d = Fin (15938355 / 4096)"
    using i e m assms default_fill_percents by (simp_all add: minThreshold_def maxThreshold_def DefaultOptions_def)
  then show ?thesis by (simp add: fill_def)
qed

end
