(* ===== verification/Node_Split.thy ===== *)
theory Node_Split
  imports Tx_View Split_Point
begin

text \<open>
  The memory side of insertion: what a node operation may write (\<open>gupd\<close>), when two nodes
  cannot disturb each other (\<open>gbefore\<close>, \<open>gapart\<close>), and the effect of \<open>addItem\<close>, \<open>insertChild\<close>
  and \<open>split_node\<close> on the contents of the nodes involved.
\<close>

section \<open>Nodes that do not disturb each other\<close>

definition gbefore :: "gonode \<Rightarrow> gonode \<Rightarrow> bool" where
  "gbefore m n \<longleftrightarrow> before (items m) (items n) \<and> before (childNodes m) (childNodes n)"

definition gapart :: "gonode \<Rightarrow> gonode \<Rightarrow> bool" where
  "gapart m n \<longleftrightarrow> sarr (items m) \<noteq> sarr (items n) \<and> sarr (childNodes m) \<noteq> sarr (childNodes n)"

definition gupd :: "gomem \<Rightarrow> gonode \<Rightarrow> gomem \<Rightarrow> gonode \<Rightarrow> bool" where
  "gupd m n m' n' \<longleftrightarrow> grow m' = grow m \<and> pageNum n' = pageNum n
     \<and> supd (itemArrays m) (items n) (itemArrays m') (items n')
     \<and> supd (pgArrays m) (childNodes n) (pgArrays m') (childNodes n')"

lemma gapart_sym: "gapart m n \<Longrightarrow> gapart n m"
  and gapart_before: "gapart m n \<Longrightarrow> gbefore m n"
  by (auto simp: gapart_def gbefore_def before_def)

lemma gupd_refl: "gvalid m n \<Longrightarrow> gupd m n m n"
  by (simp add: gupd_def gvalid_def supd_refl)

lemma gupd_trans: "gupd m n m' n' \<Longrightarrow> gupd m' n' m'' n'' \<Longrightarrow> gupd m n m'' n''"
  by (auto simp: gupd_def intro: supd_trans)

lemma gupd_valid: "gupd m n m' n' \<Longrightarrow> gvalid m' n'"
  by (auto simp: gupd_def gvalid_def dest: supd_valid)

lemma gupd_other:
  assumes "gupd m n m' n'" and "gvalid m x" and "gbefore x n"
  shows "gvalid m' x" and "contents m' x = contents m x" and "gbefore x n'"
  using assms supd_other [of "itemArrays m" "items n" "itemArrays m'" "items n'" "items x"]
    supd_other [of "pgArrays m" "childNodes n" "pgArrays m'" "childNodes n'" "childNodes x"]
  by (simp_all add: gupd_def gvalid_def gbefore_def contents_def)

lemma gupd_apart:
  assumes "gupd m n m' n'" and "gvalid m x" and "gapart x n"
  shows "gapart x n'"
  using assms supd_arr [of "itemArrays m" "items n" "itemArrays m'" "items n'" "items x"]
    supd_arr [of "pgArrays m" "childNodes n" "pgArrays m'" "childNodes n'" "childNodes x"]
  by (simp add: gupd_def gvalid_def gapart_def)

lemma supd_mem_ext:
  assumes "mem_ext h h'" and "svalid h s"
  shows "supd h s h' s"
  using assms by (simp add: supd_def mem_ext_valid mem_ext_content)

lemma gupd_mem_ext: "gmem_ext m m' \<Longrightarrow> gvalid m n \<Longrightarrow> gupd m n m' n"
  by (simp add: gupd_def gmem_ext_def gvalid_def supd_mem_ext)

text \<open>Freshly allocated arrays are apart from everything that is valid.\<close>

lemma gapart_fresh:
  assumes "gvalid m x" and "length (itemArrays m) \<le> sarr (items n)" and "length (pgArrays m) \<le> sarr (childNodes n)"
  shows "gapart x n"
  using assms by (auto simp: gvalid_def gapart_def svalid_def)

section \<open>Adding an item and a child\<close>

lemma addItem_spec:
  assumes "gvalid (mem t) n" and "i \<le> length (n_items (contents (mem t) n))"
  obtains m' n' where "addItem n it i t = Some (Inr n', t\<lparr>mem := m'\<rparr>)" and "gupd (mem t) n m' n'"
    and "contents m' n' = (contents (mem t) n)\<lparr>n_items := insert_at i it (n_items (contents (mem t) n))\<rparr>"
proof -
  note obt = that
  let ?h = "itemArrays (mem t)" and ?s = "items n"
  have v: "svalid ?h ?s" "svalid (pgArrays (mem t)) (childNodes n)" using assms(1) by (simp_all add: gvalid_def)
  have i: "i \<le> slen ?s" using assms(2) v(1) by (simp add: contents_def)
  have fin: thesis
    if "addItem n it i t = Some (Inr (n\<lparr>items := s'\<rparr>), t\<lparr>mem := (mem t)\<lparr>itemArrays := h'\<rparr>\<rparr>)"
      and "supd ?h ?s h' s'" and "scontent h' s' = insert_at i it (scontent ?h ?s)" for h' s'
    by (rule obt [OF that(1)]) (use that(2,3) v in \<open>auto simp: gupd_def contents_def supd_refl\<close>)
  show thesis
  proof (cases "slen ?s = i")
    case True
    obtain h' s' where a: "sappend (grow (mem t)) ?h ?s [it] = (h', s')" by fastforce
    note c = sappend_content [OF v(1) a]
    have "insert_at i it (scontent ?h ?s) = scontent ?h ?s @ [it]" using True v(1) by (simp add: insert_at_def)
    moreover have "addItem n it i t = Some (Inr (n\<lparr>items := s'\<rparr>), t\<lparr>mem := (mem t)\<lparr>itemArrays := h'\<rparr>\<rparr>)"
      using True a by (simp add: addItem_def append_items_def bindM_def)
    ultimately show thesis using fin c sappend_supd [OF v(1) a] by simp
  next
    case False
    then have i': "i < slen ?s" using i by simp
    obtain l where l: "slice_to ?s (i + 1) = Some l" using i' by (simp add: slice_to_def)
    obtain r where r: "slice_from ?s i = Some r" using i' by (simp add: slice_from_def)
    obtain h1 s1 where a: "sappend (grow (mem t)) ?h l (scontent ?h r) = (h1, s1)" by fastforce
    obtain h2 where h2: "sset h1 s1 i it = Some h2" "supd ?h ?s h2 s1" "scontent h2 s1 = insert_at i it (scontent ?h ?s)"
      by (rule insert_idiom [OF v(1) l r a, of i it]) auto
    have "addItem n it i t = Some (Inr (n\<lparr>items := s1\<rparr>), t\<lparr>mem := (mem t)\<lparr>itemArrays := h2\<rparr>\<rparr>)"
      using False l r a h2(1) by (simp add: addItem_def append_items_def items_of_def set_item_def bindM_def)
    then show thesis using fin h2 by simp
  qed
qed

lemma insertChild_spec:
  assumes "gvalid (mem t) n" and "i < length (n_children (contents (mem t) n))"
  obtains m' n' where "insertChild n i p t = Some (Inr n', t\<lparr>mem := m'\<rparr>)" and "gupd (mem t) n m' n'"
    and "contents m' n' = (contents (mem t) n)\<lparr>n_children := insert_at (i + 1) p (n_children (contents (mem t) n))\<rparr>"
proof -
  note obt = that
  let ?h = "pgArrays (mem t)" and ?s = "childNodes n"
  have v: "svalid ?h ?s" "svalid (itemArrays (mem t)) (items n)" using assms(1) by (simp_all add: gvalid_def)
  have i: "i < slen ?s" using assms(2) v(1) by (simp add: contents_def)
  have fin: thesis
    if "insertChild n i p t = Some (Inr (n\<lparr>childNodes := s'\<rparr>), t\<lparr>mem := (mem t)\<lparr>pgArrays := h'\<rparr>\<rparr>)"
      and "supd ?h ?s h' s'" and "scontent h' s' = insert_at (i + 1) p (scontent ?h ?s)" for h' s'
    by (rule obt [OF that(1)]) (use that(2,3) v in \<open>auto simp: gupd_def contents_def supd_refl\<close>)
  show thesis
  proof (cases "slen ?s = i + 1")
    case True
    obtain h' s' where a: "sappend (grow (mem t)) ?h ?s [p] = (h', s')" by fastforce
    note c = sappend_content [OF v(1) a]
    have "insert_at (i + 1) p (scontent ?h ?s) = scontent ?h ?s @ [p]" using True v(1) by (simp add: insert_at_def)
    moreover have "insertChild n i p t = Some (Inr (n\<lparr>childNodes := s'\<rparr>), t\<lparr>mem := (mem t)\<lparr>pgArrays := h'\<rparr>\<rparr>)"
      using True a by (simp add: insertChild_def append_pgs_def bindM_def)
    ultimately show thesis using fin c sappend_supd [OF v(1) a] by simp
  next
    case False
    obtain l where l: "slice_to ?s (i + 1) = Some l" using i by (simp add: slice_to_def)
    obtain r where r: "slice_from ?s i = Some r" using i by (simp add: slice_from_def)
    obtain h1 s1 where a: "sappend (grow (mem t)) ?h l (scontent ?h r) = (h1, s1)" by fastforce
    obtain h2 where h2: "sset h1 s1 (i + 1) p = Some h2" "supd ?h ?s h2 s1"
      "scontent h2 s1 = insert_at (i + 1) p (scontent ?h ?s)"
      by (rule insert_idiom [OF v(1) l r a, of "i + 1" p]) auto
    have "insertChild n i p t = Some (Inr (n\<lparr>childNodes := s1\<rparr>), t\<lparr>mem := (mem t)\<lparr>pgArrays := h2\<rparr>\<rparr>)"
      using False l r a h2(1) by (simp add: insertChild_def append_pgs_def pgs_of_def set_pg_def bindM_def)
    then show thesis using fin h2 by simp
  qed
qed


section \<open>Splitting\<close>

lemma cut_items:
  assumes "gvalid m ch" and "i < length (n_items (contents m ch))"
  obtains lI rI where "slice_to (items ch) i = Some lI" and "slice_from (items ch) (i + 1) = Some rI"
    and "svalid (itemArrays m) lI" and "scontent (itemArrays m) lI = take i (n_items (contents m ch))"
    and "svalid (itemArrays m) rI" and "scontent (itemArrays m) rI = drop (i + 1) (n_items (contents m ch))"
    and "sarr lI = sarr (items ch)" and "sarr rI = sarr (items ch)"
proof -
  have v: "svalid (itemArrays m) (items ch)" using assms(1) by (simp add: gvalid_def)
  have i: "i < slen (items ch)" using assms(2) v by (simp add: contents_def)
  obtain lI rI where l: "slice_to (items ch) i = Some lI" and r: "slice_from (items ch) (i + 1) = Some rI"
    using i by (simp add: slice_to_def slice_from_def)
  show thesis
    using that [OF l r] slice_to_content [OF v l] slice_from_content [OF v r] before_slice_to_arr [OF l]
      before_slice_from_arr [OF r] by (simp add: contents_def)
qed

lemma cut_children:
  assumes "gvalid m ch" and "i + 1 \<le> length (n_children (contents m ch))"
  obtains lC rC where "slice_to (childNodes ch) (i + 1) = Some lC" and "slice_from (childNodes ch) (i + 1) = Some rC"
    and "svalid (pgArrays m) lC" and "scontent (pgArrays m) lC = take (i + 1) (n_children (contents m ch))"
    and "svalid (pgArrays m) rC" and "scontent (pgArrays m) rC = drop (i + 1) (n_children (contents m ch))"
    and "sarr lC = sarr (childNodes ch)" and "sarr rC = sarr (childNodes ch)"
proof -
  have v: "svalid (pgArrays m) (childNodes ch)" using assms(1) by (simp add: gvalid_def)
  have i: "i + 1 \<le> slen (childNodes ch)" using assms(2) v by (simp add: contents_def)
  obtain lC rC where l: "slice_to (childNodes ch) (i + 1) = Some lC" and r: "slice_from (childNodes ch) (i + 1) = Some rC"
    using i by (simp add: slice_to_def slice_from_def)
  show thesis
    using that [OF l r] slice_to_content [OF v l] slice_from_content [OF v r] before_slice_to_arr [OF l]
      before_slice_from_arr [OF r] by (simp add: contents_def)
qed

text \<open>
  The right half of the children: a new slice for a leaf, the tail otherwise. Both halves are
  apart from any node that was apart from the node that is split.
\<close>

lemma split_pieces:
  assumes "gvalid (mem t) ch" and "i < length (n_items (contents (mem t) ch))"
    and "isLeaf (contents (mem t) ch) \<or> length (n_children (contents (mem t) ch)) = length (n_items (contents (mem t) ch)) + 1"
  obtains lI rI rC m1 lC where "slice_to (items ch) i = Some lI" and "slice_from (items ch) (i + 1) = Some rI"
    and "(if isLeaf (contents (mem t) ch) then literal_pgs []
          else liftM (or_panic (slice_from (childNodes ch) (i + 1)))) t = Some (Inr rC, t\<lparr>mem := m1\<rparr>)"
    and "\<forall>t' :: tx. (if isLeaf (contents (mem t) ch) then returnM (childNodes ch)
          else liftM (or_panic (slice_to (childNodes ch) (i + 1)))) t' = Some (Inr lC, t')"
    and "gmem_ext (mem t) m1"
    and "\<forall>p. gvalid m1 \<lparr>pageNum = p, items = lI, childNodes = lC\<rparr>
      \<and> contents m1 \<lparr>pageNum = p, items = lI, childNodes = lC\<rparr> = left_content i (contents (mem t) ch)"
    and "\<forall>p. gvalid m1 \<lparr>pageNum = p, items = rI, childNodes = rC\<rparr>
      \<and> contents m1 \<lparr>pageNum = p, items = rI, childNodes = rC\<rparr> = right_content i (contents (mem t) ch)"
    and "\<forall>x p. gvalid (mem t) x \<and> gapart x ch \<longrightarrow> gapart x \<lparr>pageNum = p, items = lI, childNodes = lC\<rparr>
      \<and> gapart x \<lparr>pageNum = p, items = rI, childNodes = rC\<rparr>"
proof -
  note obt = that
  let ?m = "mem t" let ?c = "contents ?m ch"
  obtain lI rI where I: "slice_to (items ch) i = Some lI" "slice_from (items ch) (i + 1) = Some rI"
    "svalid (itemArrays ?m) lI" "scontent (itemArrays ?m) lI = take i (n_items ?c)"
    "svalid (itemArrays ?m) rI" "scontent (itemArrays ?m) rI = drop (i + 1) (n_items ?c)"
    "sarr lI = sarr (items ch)" "sarr rI = sarr (items ch)"
    by (rule cut_items [OF assms(1,2)])
  show thesis
  proof (cases "isLeaf ?c")
    case True
    obtain g1 rC where l: "sliteral (pgArrays ?m) [] = (g1, rC)" by fastforce
    note f = svalid_alloc [OF l [unfolded sliteral_def]]
    let ?m1 = "?m\<lparr>pgArrays := g1\<rparr>"
    have e: "mem_ext (pgArrays ?m) g1" using l mem_ext_alloc by (simp add: sliteral_def)
    have vc: "svalid (pgArrays ?m) (childNodes ch)" using assms(1) by (simp add: gvalid_def)
    have c0: "n_children ?c = []" using True by (simp add: isLeaf_def)
    then have cc: "scontent g1 (childNodes ch) = []" using mem_ext_content [OF e vc] by (simp add: contents_def)
    show thesis
    proof (rule obt [of lI rI rC ?m1 "childNodes ch", OF I(1,2)])
      show "(if isLeaf ?c then literal_pgs [] else liftM (or_panic (slice_from (childNodes ch) (i + 1)))) t
          = Some (Inr rC, t\<lparr>mem := ?m1\<rparr>)"
        using True l by (simp add: literal_pgs_def)
      show "\<forall>x p. gvalid ?m x \<and> gapart x ch \<longrightarrow>
          gapart x \<lparr>pageNum = p, items = lI, childNodes = childNodes ch\<rparr> \<and> gapart x \<lparr>pageNum = p, items = rI, childNodes = rC\<rparr>"
        using I(7,8) f(4) by (auto simp: gapart_def gvalid_def svalid_def)
    qed (use True I e f c0 cc mem_ext_valid [OF e vc] in
        \<open>auto simp: gmem_ext_def gvalid_def contents_def left_content_def right_content_def\<close>)
  next
    case False
    then have "i + 1 \<le> length (n_children ?c)" using assms(2,3) by simp
    from cut_children [OF assms(1) this]
    obtain lC rC where C: "slice_to (childNodes ch) (i + 1) = Some lC" "slice_from (childNodes ch) (i + 1) = Some rC"
      "svalid (pgArrays ?m) lC" "scontent (pgArrays ?m) lC = take (i + 1) (n_children ?c)"
      "svalid (pgArrays ?m) rC" "scontent (pgArrays ?m) rC = drop (i + 1) (n_children ?c)"
      "sarr lC = sarr (childNodes ch)" "sarr rC = sarr (childNodes ch)" by blast
    show thesis
    proof (rule obt [of lI rI rC ?m lC, OF I(1,2)])
      show "(if isLeaf ?c then literal_pgs [] else liftM (or_panic (slice_from (childNodes ch) (i + 1)))) t
          = Some (Inr rC, t\<lparr>mem := ?m\<rparr>)"
        using False C(2) by simp
    qed (use False I C in \<open>auto simp: gvalid_def contents_def left_content_def right_content_def gapart_def\<close>)
  qed
qed

definition split_state :: "tx \<Rightarrow> gomem \<Rightarrow> freelist \<Rightarrow> gonode \<Rightarrow> gonode \<Rightarrow> gonode \<Rightarrow> tx" where
  "split_state t m fr pn ch nn = t\<lparr>mem := m, tx_freelist := Some fr,
     dirtyNodes := (dirtyNodes t)(pageNum nn \<mapsto> nn, pageNum pn \<mapsto> pn, pageNum ch \<mapsto> ch)\<rparr>"

lemma split_node_spec:
  assumes pn: "gvalid (mem t) pn" and ch: "gvalid (mem t) ch" and ap: "gapart pn ch"
    and i: "getSplitIndex d (contents (mem t) ch) = int i" "i < length (n_items (contents (mem t) ch))"
    and c: "isLeaf (contents (mem t) ch) \<or> length (n_children (contents (mem t) ch)) = length (n_items (contents (mem t) ch)) + 1"
    and P: "k \<le> length (n_items (contents (mem t) pn))" "k < length (n_children (contents (mem t) pn))"
    and fr: "tx_freelist t = Some fr" "getNextPage fr = (q, fr')"
  obtains m' pn' ch' nn where
    "split_node d pn ch k t = Some (Inr (pn', ch'), split_state t m' fr' pn' ch' nn)"
    and "gupd (mem t) pn m' pn'" and "pageNum ch' = pageNum ch" and "pageNum nn = q"
    and "contents m' pn' = \<lparr>n_items = insert_at k (n_items (contents (mem t) ch) ! i) (n_items (contents (mem t) pn)),
      n_children = insert_at (k + 1) q (n_children (contents (mem t) pn))\<rparr>"
    and "gvalid m' ch'" and "contents m' ch' = left_content i (contents (mem t) ch)"
    and "gvalid m' nn" and "contents m' nn = right_content i (contents (mem t) ch)"
    and "\<forall>x. gvalid (mem t) x \<and> gapart x ch \<longrightarrow> gapart x ch' \<and> gapart x nn"
proof -
  note obt = that
  let ?c = "contents (mem t) ch"
  obtain lI rI rC m1 lC where s: "slice_to (items ch) i = Some lI" "slice_from (items ch) (i + 1) = Some rI"
    "(if isLeaf ?c then literal_pgs [] else liftM (or_panic (slice_from (childNodes ch) (i + 1)))) t = Some (Inr rC, t\<lparr>mem := m1\<rparr>)"
    "\<forall>t' :: tx. (if isLeaf ?c then returnM (childNodes ch) else liftM (or_panic (slice_to (childNodes ch) (i + 1)))) t' = Some (Inr lC, t')"
    "gmem_ext (mem t) m1"
    "\<forall>p. gvalid m1 \<lparr>pageNum = p, items = lI, childNodes = lC\<rparr>
      \<and> contents m1 \<lparr>pageNum = p, items = lI, childNodes = lC\<rparr> = left_content i ?c"
    "\<forall>p. gvalid m1 \<lparr>pageNum = p, items = rI, childNodes = rC\<rparr>
      \<and> contents m1 \<lparr>pageNum = p, items = rI, childNodes = rC\<rparr> = right_content i ?c"
    "\<forall>x p. gvalid (mem t) x \<and> gapart x ch \<longrightarrow> gapart x \<lparr>pageNum = p, items = lI, childNodes = lC\<rparr>
      \<and> gapart x \<lparr>pageNum = p, items = rI, childNodes = rC\<rparr>"
    by (rule split_pieces [OF ch i(2) c])
  let ?nn = "\<lparr>pageNum = q, items = rI, childNodes = rC\<rparr>" and ?ch = "\<lparr>pageNum = pageNum ch, items = lI, childNodes = lC\<rparr>"
  let ?mid = "n_items ?c ! i"
  let ?t1 = "t\<lparr>mem := m1, tx_freelist := Some fr', dirtyNodes := (dirtyNodes t)(q \<mapsto> ?nn)\<rparr>"
  have pn1: "gvalid (mem ?t1) pn" "contents (mem ?t1) pn = contents (mem t) pn"
    using gmem_ext_node [OF s(5) pn] by simp_all
  have k: "k \<le> length (n_items (contents (mem ?t1) pn))" using P pn1 by simp
  obtain m2 pn2 where a: "addItem pn ?mid k ?t1 = Some (Inr pn2, ?t1\<lparr>mem := m2\<rparr>)" "gupd (mem ?t1) pn m2 pn2"
    "contents m2 pn2 = (contents (mem ?t1) pn)\<lparr>n_items := insert_at k ?mid (n_items (contents (mem ?t1) pn))\<rparr>"
    by (rule addItem_spec [OF pn1(1) k])
  let ?t2 = "?t1\<lparr>mem := m2\<rparr>"
  have pn2: "gvalid (mem ?t2) pn2" using gupd_valid [OF a(2)] by simp
  have k2: "k < length (n_children (contents (mem ?t2) pn2))" using P a(3) pn1 by simp
  obtain m3 pn3 where b: "insertChild pn2 k q ?t2 = Some (Inr pn3, ?t2\<lparr>mem := m3\<rparr>)" "gupd (mem ?t2) pn2 m3 pn3"
    "contents m3 pn3 = (contents (mem ?t2) pn2)\<lparr>n_children := insert_at (k + 1) q (n_children (contents (mem ?t2) pn2))\<rparr>"
    by (rule insertChild_spec [OF pn2 k2])
  have u1: "gupd m1 pn m3 pn3" using gupd_trans [of m1 pn m2 pn2 m3 pn3] a(2) b(2) by simp
  have u: "gupd (mem t) pn m3 pn3" using gupd_trans [OF gupd_mem_ext [OF s(5) pn] u1] .
  have num: "pageNum pn2 = pageNum pn" "pageNum pn3 = pageNum pn" using a(2) u by (simp_all add: gupd_def)
  have bf: "gbefore ?ch pn" "gbefore ?nn pn"
    using s(8) pn ap by (auto intro: gapart_before gapart_sym)
  have f1: "content_of ch t = Some (Inr ?c, t)" by (simp add: content_of_def)
  note f2 = get_item_eq [OF ch i(2)]
  have f4: "tx_newNode rI rC (t\<lparr>mem := m1\<rparr>) = Some (Inr ?nn, t\<lparr>mem := m1, tx_freelist := Some fr'\<rparr>)"
    using fr by (simp add: tx_newNode_def)
  have f5: "tx_writeNode ?nn (t\<lparr>mem := m1, tx_freelist := Some fr'\<rparr>) = Some (Inr ?nn, ?t1)"
    by (simp add: tx_writeNode_def)
  have ch': "ch\<lparr>items := lI, childNodes := lC\<rparr> = ?ch" by (cases ch) simp
  have fin: "tx_writeNode pn3 (?t2\<lparr>mem := m3\<rparr>) = Some (Inr pn3, ?t2\<lparr>mem := m3, dirtyNodes := (dirtyNodes ?t2)(pageNum pn \<mapsto> pn3)\<rparr>)"
    using num by (simp add: tx_writeNode_def)
  have fin2: "tx_writeNode ?ch (?t2\<lparr>mem := m3, dirtyNodes := (dirtyNodes ?t2)(pageNum pn \<mapsto> pn3)\<rparr>)
      = Some (Inr ?ch, split_state t m3 fr' pn3 ?ch ?nn)"
    using num by (simp add: tx_writeNode_def split_state_def)
  have pos: "\<not> int i < 0" by simp
  have e: "split_node d pn ch k t = Some (Inr (pn3, ?ch), split_state t m3 fr' pn3 ?ch ?nn)"
    unfolding split_node_def
    by (simp only: Let_def i(1) nat_int pos if_False s(1) s(2) or_panic_simps bindM_basic gonode.select_convs ch' returnM_apply
        bindM_Inr [of "content_of ch", OF f1] bindM_Inr [of "get_item (items ch) i", OF f2]
        bindM_Inr [of "if isLeaf ?c then literal_pgs [] else liftM (or_panic (slice_from (childNodes ch) (i + 1)))", OF s(3)]
        bindM_Inr [of "if isLeaf ?c then returnM (childNodes ch) else liftM (or_panic (slice_to (childNodes ch) (i + 1)))", OF s(4) [rule_format]]
        bindM_Inr [of "tx_newNode rI rC", OF f4] bindM_Inr [of "tx_writeNode ?nn", OF f5]
        bindM_Inr [of "addItem pn ?mid k", OF a(1)] bindM_Inr [of "insertChild pn2 k q", OF b(1)]
        bindM_Inr [of "tx_writeNode pn3", OF fin] bindM_Inr [of "tx_writeNode ?ch", OF fin2])
  show thesis
  proof (rule obt [OF e u])
    show "contents m3 pn3 = \<lparr>n_items = insert_at k ?mid (n_items (contents (mem t) pn)),
      n_children = insert_at (k + 1) q (n_children (contents (mem t) pn))\<rparr>"
      using b(3) a(3) pn1(2) by simp
    show "gvalid m3 ?ch" "contents m3 ?ch = left_content i ?c" "gvalid m3 ?nn" "contents m3 ?nn = right_content i ?c"
      using gupd_other [OF u1 _ bf(1)] gupd_other [OF u1 _ bf(2)] s(6,7) by simp_all
    show "\<forall>x. gvalid (mem t) x \<and> gapart x ch \<longrightarrow> gapart x ?ch \<and> gapart x ?nn" using s(8) by blast
  qed simp_all
qed

end
