(* ===== verification/Btree_Edit.thy ===== *)
theory Btree_Edit
  imports Split_Point "HOL-Library.Multiset"
begin

text \<open>
  The changes an insertion makes to a tree of pages: storing the items of the node at the end of a
  path, replacing a subtree, and splitting a child. Each keeps the balance, and the lemmas say
  what happens to the items in order, to the pages and to the sizes.
\<close>

section \<open>Sizes and pages of whole trees\<close>

fun all_nodes :: "(content \<Rightarrow> bool) \<Rightarrow> btree \<Rightarrow> bool" where
  "all_nodes P (BNode p its subs) = (P (bcontent (BNode p its subs)) \<and> list_all (all_nodes P) subs)"

text \<open>The root may exceed the threshold by \<open>x\<close> bytes, nothing below it does.\<close>

definition tree_fits :: "rat \<Rightarrow> nat \<Rightarrow> btree \<Rightarrow> bool" where
  "tree_fits b x T \<longleftrightarrow> node_fits b x (bcontent T) \<and> list_all (all_nodes (node_fits b 0)) (bsubs T)"

lemma tree_fits_0: "tree_fits b 0 T \<longleftrightarrow> all_nodes (node_fits b 0) T"
  by (cases T) (simp add: tree_fits_def)

lemma tree_fits_mono: "tree_fits b x T \<Longrightarrow> x \<le> y \<Longrightarrow> tree_fits b y T"
  by (auto simp: tree_fits_def node_fits_def)

definition pages_mset :: "btree \<Rightarrow> pgnum multiset" where
  "pages_mset T = mset (page_list T)"

lemma pages_mset_eq: "pages_mset (BNode p its subs) = add_mset p (\<Sum>s \<in># mset subs. pages_mset s)"
proof -
  have "mset (concat (map page_list subs)) = (\<Sum>s \<in># mset subs. pages_mset s)"
    by (induction subs) (simp_all add: pages_mset_def)
  then show ?thesis by (simp add: pages_mset_def)
qed

lemma distinct_pages: "mset (page_list T) = mset ps \<Longrightarrow> distinct (page_list T) \<longleftrightarrow> distinct ps"
  by (rule mset_eq_imp_distinct_iff)

section \<open>Replacing a subtree\<close>

definition set_sub :: "nat \<Rightarrow> btree \<Rightarrow> btree \<Rightarrow> btree" where
  "set_sub i S T = BNode (bpage T) (bitems T) ((bsubs T)[i := S])"

lemma set_sub_simps [simp]:
  "bpage (set_sub i S T) = bpage T" "bitems (set_sub i S T) = bitems T" "bsubs (set_sub i S T) = (bsubs T)[i := S]"
  by (simp_all add: set_sub_def)

lemma bcontent_set_sub:
  assumes "i < length (bsubs T)" and "bpage S = bpage (bsubs T ! i)"
  shows "bcontent (set_sub i S T) = bcontent T"
proof -
  have "(map bpage (bsubs T))[i := bpage S] = map bpage (bsubs T)" using assms by (simp add: list_update_same_conv)
  then show ?thesis by (simp add: bcontent_def map_update)
qed

lemma map_same_update: "y = f (xs ! i) \<Longrightarrow> (map f xs)[i := y] = map f xs"
  by (cases "i < length xs") (simp_all add: list_update_same_conv list_update_beyond not_less)

lemma inorder_set_sub_same: "inorder S = inorder (bsubs T ! i) \<Longrightarrow> inorder (set_sub i S T) = inorder T"
  by (simp add: set_sub_def map_update map_same_update inorder_eq [of T])

lemma bal_set_sub: "bal (Suc h) T \<Longrightarrow> bal h S \<Longrightarrow> bal (Suc h) (set_sub i S T)"
  by (auto simp: list_all_iff set_sub_def dest: set_update_subset_insert [THEN subsetD])

lemma list_all_update: "list_all P xs \<Longrightarrow> P x \<Longrightarrow> list_all P (xs[i := x])"
  by (auto simp: list_all_iff dest: set_update_subset_insert [THEN subsetD])

lemma pages_set_sub:
  assumes "i < length (bsubs T)" and "pages_mset S = pages_mset (bsubs T ! i) + N"
  shows "pages_mset (set_sub i S T) = pages_mset T + N"
proof -
  let ?f = "\<lambda>xs. \<Sum>s \<in># mset xs. pages_mset s"
  have c: "bsubs T = take i (bsubs T) @ bsubs T ! i # drop (Suc i) (bsubs T)"
    "(bsubs T)[i := S] = take i (bsubs T) @ S # drop (Suc i) (bsubs T)"
    using assms(1) by (simp_all add: id_take_nth_drop upd_conv_take_nth_drop)
  have "?f ((bsubs T)[i := S]) = ?f (bsubs T) + N"
    unfolding c(2) by (subst (3) c(1)) (simp add: assms(2))
  moreover have "pages_mset T = add_mset (bpage T) (?f (bsubs T))" by (cases T) (simp add: pages_mset_eq)
  ultimately show ?thesis by (simp add: set_sub_def pages_mset_eq)
qed

section \<open>Splitting a child\<close>

definition bleft :: "nat \<Rightarrow> btree \<Rightarrow> btree" where
  "bleft i T = BNode (bpage T) (take i (bitems T)) (take (i + 1) (bsubs T))"

definition bright :: "nat \<Rightarrow> pgnum \<Rightarrow> btree \<Rightarrow> btree" where
  "bright i q T = BNode q (drop (i + 1) (bitems T)) (drop (i + 1) (bsubs T))"

lemma bleft_bright_simps [simp]:
  "bpage (bleft i T) = bpage T" "bpage (bright i q T) = q"
  "bcontent (bleft i T) = left_content i (bcontent T)" "bcontent (bright i q T) = right_content i (bcontent T)"
  "bsubs (bleft i T) = take (i + 1) (bsubs T)" "bsubs (bright i q T) = drop (i + 1) (bsubs T)"
  by (simp_all add: bleft_def bright_def bcontent_def left_content_def right_content_def take_map drop_map)

lemma inorder_halves:
  assumes "bal h T" and "i < length (bitems T)"
  shows "inorder T = inorder (bleft i T) @ bitems T ! i # inorder (bright i q T)"
proof -
  have "length (map inorder (bsubs T)) = length (bitems T) + 1 \<or> map inorder (bsubs T) = []"
    using bal_cases [OF assms(1)] by auto
  from weave_cut [OF assms(2) this] show ?thesis
    by (subst inorder_eq) (simp add: bleft_def bright_def take_map drop_map)
qed

lemma bal_halves:
  assumes "bal h T" and "i < length (bitems T)"
  shows "bal h (bleft i T)" and "bal h (bright i q T)"
proof -
  have "list_all P (take n xs)" "list_all P (drop n xs)" if "list_all P xs" for P :: "btree \<Rightarrow> bool" and n xs
    using that by (auto simp: list_all_iff dest: in_set_takeD in_set_dropD)
  then show "bal h (bleft i T)" "bal h (bright i q T)"
    using assms by (cases h; simp add: bleft_def bright_def)+
qed

lemma pages_halves: "pages_mset (bleft i T) + pages_mset (bright i q T) = add_mset q (pages_mset T)"
proof -
  have "mset (bsubs T) = mset (take (i + 1) (bsubs T)) + mset (drop (i + 1) (bsubs T))"
    by (metis append_take_drop_id mset_append)
  then show ?thesis by (cases T) (simp add: bleft_def bright_def pages_mset_eq)
qed

text \<open>Child \<open>k\<close> is split at item \<open>i\<close>; its right half gets page \<open>q\<close>.\<close>

definition split_sub :: "nat \<Rightarrow> nat \<Rightarrow> pgnum \<Rightarrow> btree \<Rightarrow> btree" where
  "split_sub i k q T = (let S = bsubs T ! k in
     BNode (bpage T) (insert_at k (bitems S ! i) (bitems T))
       (take k (bsubs T) @ bleft i S # bright i q S # drop (Suc k) (bsubs T)))"

lemma split_sub_simps [simp]:
  "bpage (split_sub i k q T) = bpage T"
  "bitems (split_sub i k q T) = insert_at k (bitems (bsubs T ! k) ! i) (bitems T)"
  "bsubs (split_sub i k q T) =
     take k (bsubs T) @ bleft i (bsubs T ! k) # bright i q (bsubs T ! k) # drop (Suc k) (bsubs T)"
  by (simp_all add: split_sub_def Let_def)

lemma bcontent_split_sub:
  assumes "k < length (bsubs T)"
  shows "bcontent (split_sub i k q T) = \<lparr>n_items = insert_at k (bitems (bsubs T ! k) ! i) (bitems T),
    n_children = insert_at (k + 1) q (map bpage (bsubs T))\<rparr>"
proof -
  have "map bpage (bsubs T) = map bpage (take k (bsubs T)) @ bpage (bsubs T ! k) # map bpage (drop (Suc k) (bsubs T))"
    using assms id_take_nth_drop [of k "bsubs T"] by (metis list.simps(9) map_append)
  then show ?thesis
    using assms by (simp add: bcontent_def insert_at_def take_map drop_map min_def)
qed

lemma inorder_split_sub:
  assumes "bal (Suc h) T" and "k < length (bsubs T)" and "i < length (bitems (bsubs T ! k))"
  shows "inorder (split_sub i k q T) = inorder T"
proof -
  let ?xs = "map inorder (bsubs T)" and ?S = "bsubs T ! k"
  have bs: "bal h ?S" using assms(1,2) by (simp add: list_all_length)
  have len: "length ?xs = length (bitems T) + 1" "k \<le> length (bitems T)" using assms(1,2) by simp_all
  have "inorder (split_sub i k q T) = weave (insert_at k (bitems ?S ! i) (bitems T))
      (take k ?xs @ inorder (bleft i ?S) # inorder (bright i q ?S) # drop (Suc k) ?xs)"
    by (subst inorder_eq) (simp add: take_map drop_map)
  also have "\<dots> = weave (bitems T) (?xs[k := inorder (bleft i ?S) @ bitems ?S ! i # inorder (bright i q ?S)])"
    by (rule weave_insert [OF len])
  also have "\<dots> = inorder T"
    using inorder_halves [OF bs assms(3), of q, symmetric] by (simp add: inorder_eq [of T] map_same_update)
  finally show ?thesis .
qed

lemma bal_split_sub:
  assumes "bal (Suc h) T" and "k < length (bsubs T)" and "i < length (bitems (bsubs T ! k))"
  shows "bal (Suc h) (split_sub i k q T)"
proof -
  have "bal h (bsubs T ! k)" using assms(1,2) by (simp add: list_all_length)
  from bal_halves [OF this assms(3)] show ?thesis
    using assms by (auto simp: list_all_iff dest: in_set_takeD in_set_dropD)
qed

lemma pages_split_sub:
  assumes "k < length (bsubs T)"
  shows "pages_mset (split_sub i k q T) = add_mset q (pages_mset T)"
proof -
  let ?S = "bsubs T ! k" and ?f = "\<lambda>xs. \<Sum>s \<in># mset xs. pages_mset s"
  have "bsubs T = take k (bsubs T) @ ?S # drop (Suc k) (bsubs T)" using assms by (simp add: id_take_nth_drop)
  then have "?f (bsubs T) = ?f (take k (bsubs T)) + pages_mset ?S + ?f (drop (Suc k) (bsubs T))"
    by (metis ab_semigroup_add_class.add_ac(1) image_mset_add_mset image_mset_union mset.simps(2) mset_append
        sum_mset.add_mset sum_mset.union)
  moreover have "pages_mset T = add_mset (bpage T) (?f (bsubs T))" by (cases T) (simp add: pages_mset_eq)
  ultimately show ?thesis
    using pages_halves [of i ?S q] by (simp add: split_sub_def Let_def pages_mset_eq)
qed


section \<open>Storing items at the end of a path\<close>

fun path_sub :: "nat list \<Rightarrow> btree \<Rightarrow> btree" where
  "path_sub [] T = T"
| "path_sub (i # rest) T = path_sub rest (bsubs T ! i)"

fun valid_path :: "nat list \<Rightarrow> btree \<Rightarrow> bool" where
  "valid_path [] T = True"
| "valid_path (i # rest) T = (i < length (bsubs T) \<and> valid_path rest (bsubs T ! i))"

fun path_pages :: "nat list \<Rightarrow> btree \<Rightarrow> pgnum list" where
  "path_pages [] T = [bpage T]"
| "path_pages (i # rest) T = bpage T # path_pages rest (bsubs T ! i)"

fun store_at :: "nat list \<Rightarrow> item list \<Rightarrow> btree \<Rightarrow> btree" where
  "store_at [] its T = BNode (bpage T) its (bsubs T)"
| "store_at (i # rest) its T = set_sub i (store_at rest its (bsubs T ! i)) T"

text \<open>Every node on the path fits but the last, which may have grown by one item.\<close>

fun path_fits :: "rat \<Rightarrow> nat list \<Rightarrow> btree \<Rightarrow> bool" where
  "path_fits b [] T = tree_fits b 518 T"
| "path_fits b (i # rest) T = (i < length (bsubs T) \<and> node_fits b 0 (bcontent T)
     \<and> (\<forall>j < length (bsubs T). j \<noteq> i \<longrightarrow> all_nodes (node_fits b 0) (bsubs T ! j)) \<and> path_fits b rest (bsubs T ! i))"

definition stored_items :: "bool \<Rightarrow> nat \<Rightarrow> item \<Rightarrow> item list \<Rightarrow> item list" where
  "stored_items f j it its = (if f then its[j := it] else insert_at j it its)"

lemma bpage_store_at [simp]: "bpage (store_at path its T) = bpage T"
  by (cases path) simp_all

lemma page_list_set_sub:
  "page_list S = page_list (bsubs T ! i) \<Longrightarrow> page_list (set_sub i S T) = page_list T"
  by (simp add: set_sub_def map_update map_same_update page_list_eq [of T])

lemma page_list_store_at [simp]: "page_list (store_at path its T) = page_list T"
proof (induction path arbitrary: T)
  case Nil
  then show ?case by (simp add: page_list_eq [of T])
qed (simp add: page_list_set_sub)

lemma page_list_ne: "page_list T \<noteq> []"
  by (cases T) simp

lemma path_sub_page: "valid_path path T \<Longrightarrow> bpage (path_sub path T) \<in> set (page_list T)"
proof (induction path arbitrary: T)
  case (Cons i rest)
  then have "bpage (path_sub rest (bsubs T ! i)) \<in> set (page_list (bsubs T ! i))" by simp
  then show ?case using Cons.prems by (auto simp: page_list_eq [of T])
next
  case Nil
  then show ?case by (simp add: page_list_eq [of T])
qed

lemma bal_store_at: "bal h T \<Longrightarrow> valid_path path T \<Longrightarrow>
    bsubs (path_sub path T) = [] \<or> length its = length (bitems (path_sub path T)) \<Longrightarrow> bal h (store_at path its T)"
proof (induction path arbitrary: h T)
  case Nil
  then show ?case by (cases h) auto
next
  case (Cons i rest)
  then obtain h' where h: "h = Suc h'" by (cases h) auto
  then have "bal h' (bsubs T ! i)" using Cons.prems(1,2) by (simp add: list_all_length)
  then show ?case using Cons h by (simp only: store_at.simps) (intro bal_set_sub, simp_all)
qed

text \<open>Pages of different subtrees of a tree without repeated pages are different.\<close>

lemma distinct_sub_pages:
  assumes "distinct (page_list T)" and "i < length (bsubs T)"
  shows "distinct (page_list (bsubs T ! i))" and "bpage T \<notin> set (page_list (bsubs T ! i))"
    and "set (page_list (bsubs T ! i)) \<subseteq> set (page_list T)"
    and "\<And>j. j < length (bsubs T) \<Longrightarrow> j \<noteq> i \<Longrightarrow> set (page_list (bsubs T ! j)) \<inter> set (page_list (bsubs T ! i)) = {}"
proof -
  have d: "distinct (concat (map page_list (bsubs T)))" "bpage T \<notin> set (concat (map page_list (bsubs T)))"
    using assms(1) by (simp_all add: page_list_eq [of T])
  have n: "map page_list (bsubs T) ! i = page_list (bsubs T ! i)" using assms(2) by simp
  show "distinct (page_list (bsubs T ! i))" using d(1) assms(2) by (auto simp: distinct_concat_iff)
  show "bpage T \<notin> set (page_list (bsubs T ! i))" using d(2) assms(2) by auto
  show "set (page_list (bsubs T ! i)) \<subseteq> set (page_list T)" using assms(2) by (auto simp: page_list_eq [of T])
  show "set (page_list (bsubs T ! j)) \<inter> set (page_list (bsubs T ! i)) = {}" if j: "j < length (bsubs T)" "j \<noteq> i" for j
  proof -
    let ?ls = "map page_list (bsubs T)"
    have "removeAll [] ?ls = ?ls" by (intro removeAll_id) (auto simp: page_list_ne [symmetric])
    then have "distinct ?ls" using d(1) by (simp add: distinct_concat_iff)
    then have "?ls ! j \<noteq> ?ls ! i" using j assms(2) by (simp only: nth_eq_iff_index_eq length_map) simp
    moreover have "?ls ! j \<in> set ?ls" "?ls ! i \<in> set ?ls" using j assms(2) by (simp_all only: nth_mem length_map)
    ultimately have "set (?ls ! j) \<inter> set (?ls ! i) = {}" using d(1) unfolding distinct_concat_iff by blast
    then show ?thesis using j assms(2) by simp
  qed
qed

lemma tree_at_frame: "tree_at v T \<Longrightarrow> (\<And>p. p \<in> set (page_list T) \<Longrightarrow> w p = v p) \<Longrightarrow> tree_at w T"
  using tree_at_cong [of T w v] by simp

text \<open>A tree is what the pages say when its root is and its subtrees are.\<close>

lemma tree_atI: "v (bpage T) = Some (bcontent T) \<Longrightarrow> (\<And>i. i < length (bsubs T) \<Longrightarrow> tree_at v (bsubs T ! i)) \<Longrightarrow> tree_at v T"
  by (cases T) (simp add: bcontent_def list_all_length)

lemma tree_at_set_sub:
  assumes "tree_at v T" and "distinct (page_list T)" and "i < length (bsubs T)" and "bpage S = bpage (bsubs T ! i)"
    and "tree_at w S" and "\<And>p. p \<in> set (page_list T) \<Longrightarrow> p \<notin> set (page_list (bsubs T ! i)) \<Longrightarrow> w p = v p"
  shows "tree_at w (set_sub i S T)"
proof (rule tree_atI)
  note d = distinct_sub_pages [OF assms(2,3)]
  have "bpage T \<in> set (page_list T)" by (simp add: page_list_eq [of T])
  moreover have "v (bpage T) = Some (bcontent T)" using assms(1) by (cases T) (simp add: bcontent_def)
  ultimately show "w (bpage (set_sub i S T)) = Some (bcontent (set_sub i S T))"
    using assms(6) d(2) bcontent_set_sub [OF assms(3,4)] by simp
  show "tree_at w (bsubs (set_sub i S T) ! j)" if j: "j < length (bsubs (set_sub i S T))" for j
  proof (cases "j = i")
    case False
    have j': "j < length (bsubs T)" using j by simp
    have "tree_at v (bsubs T ! j)" using assms(1) j' by (cases T) (simp add: list_all_length)
    moreover have "w p = v p" if "p \<in> set (page_list (bsubs T ! j))" for p
      using assms(6) d(4) [OF j' False] distinct_sub_pages(3) [OF assms(2) j'] that by blast
    ultimately have "tree_at w (bsubs T ! j)" by (rule tree_at_frame)
    then show ?thesis using False by simp
  qed (use assms(3,5) in simp)
qed

lemma tree_at_store:
  assumes "tree_at v T" and "distinct (page_list T)" and "valid_path path T" and "path_sub path T = u"
  shows "tree_at (v(bpage u \<mapsto> \<lparr>n_items = its, n_children = map bpage (bsubs u)\<rparr>)) (store_at path its T)"
  using assms
proof (induction path arbitrary: T)
  case Nil
  let ?v = "v(bpage u \<mapsto> \<lparr>n_items = its, n_children = map bpage (bsubs u)\<rparr>)"
  have T: "T = u" using Nil by simp
  show ?case unfolding T store_at.simps
  proof (rule tree_atI)
    fix i assume i: "i < length (bsubs (BNode (bpage u) its (bsubs u)))"
    have "tree_at v (bsubs u ! i)" using Nil(1) i unfolding T by (cases u) (simp add: list_all_length)
    moreover have "?v p = v p" if "p \<in> set (page_list (bsubs u ! i))" for p
      using distinct_sub_pages(2) [of u i] Nil(2) i T that by auto
    ultimately have "tree_at ?v (bsubs u ! i)" by (rule tree_at_frame)
    then show "tree_at ?v (bsubs (BNode (bpage u) its (bsubs u)) ! i)" by simp
  qed (simp add: bcontent_def)
next
  case (Cons i rest)
  have i: "i < length (bsubs T)" "valid_path rest (bsubs T ! i)" "path_sub rest (bsubs T ! i) = u" using Cons.prems by simp_all
  have v: "tree_at v (bsubs T ! i)" using Cons.prems(1) i(1) by (cases T) (simp add: list_all_length)
  note d = distinct_sub_pages [OF Cons.prems(2) i(1)]
  have u: "bpage u \<in> set (page_list (bsubs T ! i))" using path_sub_page [OF i(2)] i(3) by simp
  show ?case unfolding store_at.simps
    by (rule tree_at_set_sub [OF Cons.prems(1,2) i(1) _ Cons.IH [OF v d(1) i(2,3)]]) (use u in auto)
qed

lemma path_fits_store:
  assumes "tree_fits b 0 T" and "valid_path path T" and "path_sub path T = u"
    and "tree_fits b 518 (BNode (bpage u) its (bsubs u))"
  shows "path_fits b path (store_at path its T)"
  using assms
proof (induction path arbitrary: T)
  case (Cons i rest)
  have i: "i < length (bsubs T)" using Cons.prems by simp
  have "tree_fits b 0 (bsubs T ! i)"
    using Cons.prems(1) i unfolding tree_fits_0 by (cases T) (simp add: list_all_length)
  then have "path_fits b rest (store_at rest its (bsubs T ! i))" using Cons by simp
  then show ?case
    using Cons.prems(1) i bcontent_set_sub [OF i, of "store_at rest its (bsubs T ! i)"]
    by (simp add: tree_fits_def list_all_length)
qed simp

section \<open>The search and the insertion\<close>

lemma store_found:
  assumes "bal h T" and "sorted_items (inorder T)" and "findKeyInNode (bcontent T) (item_key it) = (True, i)"
  shows "inorder (BNode (bpage T) ((bitems T)[i := it]) (bsubs T)) = ins_item it (inorder T)"
proof -
  note n = node_search_found [OF assms]
  let ?xs = "map inorder (bsubs T)"
  let ?l = "weave (take i (bitems T)) (take (Suc i) ?xs)" and ?r = "weave (drop (Suc i) (bitems T)) (drop (Suc i) ?xs)"
  have "length ?xs = length ((bitems T)[i := it]) + 1 \<or> ?xs = []" using bal_cases [OF assms(1)] by auto
  from weave_cut [of i "(bitems T)[i := it]", OF _ this] n(1)
  have new: "weave ((bitems T)[i := it]) ?xs = ?l @ it # ?r" by (simp add: take_update_cancel drop_update_cancel)
  have so: "sorted_items (?l @ bitems T ! i # ?r)" using assms(2) n(3) by simp
  have "ins_item it (?l @ bitems T ! i # ?r) = ?l @ it # ?r"
    using so n(2) by (intro ins_item_same) (auto simp: sorted_wrt_append)
  then show ?thesis using new n(3) by simp
qed

lemma search_path:
  assumes "bal h T" and "sorted_items (inorder T)" and "search T k = (f, j, u, path)"
  shows "valid_path path T \<and> path_sub path T = u \<and> length path \<le> h \<and> (\<not> f \<longrightarrow> bsubs u = [] \<and> j \<le> length (bitems u))
    \<and> (f \<longrightarrow> j < length (bitems u) \<and> item_key (bitems u ! j) = k)"
  using assms
proof (induction h arbitrary: T f j u path)
  case 0
  obtain found i where fi: "findKeyInNode (bcontent T) k = (found, i)" by fastforce
  show ?case
  proof (cases found)
    case True
    then have "findKeyInNode (bcontent T) k = (True, i)" using fi by simp
    then show ?thesis using 0 node_search_found [OF 0(1,2)] search_found [of T k i] by auto
  next
    case False
    then have "findKeyInNode (bcontent T) k = (False, i)" using fi by simp
    then show ?thesis using 0 node_search_missing(1) [OF 0(2)] search_leaf [of T k i] by auto
  qed
next
  case (Suc h)
  obtain found i where fi: "findKeyInNode (bcontent T) k = (found, i)" by fastforce
  show ?case
  proof (cases found)
    case True
    then have "findKeyInNode (bcontent T) k = (True, i)" using fi by simp
    then show ?thesis using Suc.prems node_search_found [OF Suc.prems(1,2)] search_found [of T k i] by auto
  next
    case False
    then have fi': "findKeyInNode (bcontent T) k = (False, i)" using fi by simp
    note c = child_bounds [OF Suc.prems(1,2) fi']
    obtain f' j' u' path' where r: "search (bsubs T ! i) k = (f', j', u', path')" by (rule prod_cases4)
    have eq: "f = f'" "j = j'" "u = u'" "path = i # path'" using search_child [OF fi' c(1) r] Suc.prems(3) by auto
    show ?thesis using Suc.IH [OF c(2,3) r] c(1) eq by auto
  qed
qed

text \<open>Storing the item where the search ended is an insertion into the ordered items.\<close>

lemma inorder_stored:
  assumes "bal h T" and "sorted_items (inorder T)" and "search T (item_key it) = (f, j, u, path)"
  shows "inorder (store_at path (stored_items f j it (bitems u)) T) = ins_item it (inorder T)"
  using assms
proof (induction h arbitrary: T f j u path)
  case 0
  obtain found i where fi: "findKeyInNode (bcontent T) (item_key it) = (found, i)" by fastforce
  have leaf: "inorder T = bitems T" using 0(1) by (simp add: inorder_eq)
  show ?case
  proof (cases found)
    case True
    then have fi': "findKeyInNode (bcontent T) (item_key it) = (True, i)" using fi by simp
    then have eq: "f" "j = i" "u = T" "path = []" using search_found [of T "item_key it" i] 0(3) by auto
    show ?thesis using store_found [OF 0(1,2) fi'] eq by (simp add: stored_items_def)
  next
    case False
    then have fi': "findKeyInNode (bcontent T) (item_key it) = (False, i)" using fi by simp
    then have eq: "\<not> f" "j = i" "u = T" "path = []" using search_leaf [of T "item_key it" i] 0(1,3) by auto
    note m = node_search_missing [OF 0(2) fi']
    have "ins_item it (take i (bitems T) @ drop i (bitems T)) = take i (bitems T) @ it # drop i (bitems T)"
      using m by (intro ins_item_new)
    then show ?thesis using eq leaf 0(1) by (simp add: stored_items_def insert_at_def inorder_eq)
  qed
next
  case (Suc h)
  obtain found i where fi: "findKeyInNode (bcontent T) (item_key it) = (found, i)" by fastforce
  show ?case
  proof (cases found)
    case True
    then have fi': "findKeyInNode (bcontent T) (item_key it) = (True, i)" using fi by simp
    then have eq: "f" "j = i" "u = T" "path = []" using search_found [of T "item_key it" i] Suc.prems(3) by auto
    show ?thesis using store_found [OF Suc.prems(1,2) fi'] eq by (simp add: stored_items_def)
  next
    case False
    then have fi': "findKeyInNode (bcontent T) (item_key it) = (False, i)" using fi by simp
    note c = child_bounds [OF Suc.prems(1,2) fi']
    obtain f' j' u' path' where r: "search (bsubs T ! i) (item_key it) = (f', j', u', path')" by (rule prod_cases4)
    have eq: "f = f'" "j = j'" "u = u'" "path = i # path'" using search_child [OF fi' c(1) r] Suc.prems(3) by auto
    let ?S = "store_at path' (stored_items f j it (bitems u)) (bsubs T ! i)"
    have ih: "inorder ?S = ins_item it (inorder (bsubs T ! i))" using Suc.IH [OF c(2,3) r] eq by simp
    have len: "length (map inorder (bsubs T)) = length (bitems T) + 1" "i \<le> length (bitems T)"
      using Suc.prems(1) c(1) by simp_all
    have "inorder (store_at path (stored_items f j it (bitems u)) T)
        = weave (bitems T) ((map inorder (bsubs T))[i := inorder ?S])"
      using eq by (simp add: set_sub_def map_update)
    also have "\<dots> = before_sub (bitems T) (map inorder (bsubs T)) i @ inorder ?S @ after_sub (bitems T) (map inorder (bsubs T)) i"
      by (rule weave_update [OF len])
    also have "\<dots> = ins_item it (inorder T)"
      unfolding ih c(4) by (rule ins_item_context [OF c(5,6), symmetric])
    finally show ?thesis .
  qed
qed

end
