(* ===== verification/Tree_Split.thy ===== *)
theory Tree_Split
  imports Node_Split Btree_Edit
begin

text \<open>
  The rebalancing part of \<open>Put\<close>: the splits on the way up turn the pages of a tree into the pages of a
  tree with the same items in order, and with the item stored first this is an insertion. The
  aliasing of slices is tracked by \<open>owns\<close>: a node on the path may be written because every
  other changed node lies before it in memory.
\<close>

section \<open>Invariants of a transaction\<close>

definition held :: "dal \<Rightarrow> tx \<Rightarrow> gonode \<Rightarrow> bool" where
  "held d t n \<longleftrightarrow> gvalid (mem t) n \<and> tx_view d t (pageNum n) = Some (contents (mem t) n)
     \<and> (\<forall>m. dirtyNodes t (pageNum n) = Some m \<longrightarrow> m = n)"

definition owns :: "tx \<Rightarrow> gonode \<Rightarrow> bool" where
  "owns t n \<longleftrightarrow> (\<forall>q m. dirtyNodes t q = Some m \<and> q \<noteq> pageNum n \<longrightarrow> gbefore m n)"

text \<open>
  The free list is sound and can hand out \<open>n\<close> pages with numbers below \<open>L\<close>; it never holds more
  than \<open>M\<close> released pages, because allocations take from them.
\<close>

definition alloc_ok :: "nat \<Rightarrow> nat \<Rightarrow> tx \<Rightarrow> nat \<Rightarrow> bool" where
  "alloc_ok L M t n \<longleftrightarrow> L \<le> 2 ^ 64 \<and> (\<exists>fr. tx_freelist t = Some fr \<and> freelist_inv fr \<and> unat (maxPage fr) + n < L
     \<and> length (releasedPages fr) \<le> M)"

lemma alloc_ok_mono: "alloc_ok L M t n \<Longrightarrow> m \<le> n \<Longrightarrow> alloc_ok L M t m"
  by (auto simp: alloc_ok_def)

lemma alloc_step:
  assumes "alloc_ok L M t (Suc r)"
  obtains fr q fr' where "tx_freelist t = Some fr" and "getNextPage fr = (q, fr')" and "q \<notin> tx_used t" and "q \<noteq> 0"
    and "\<forall>t'. tx_freelist t' = Some fr' \<longrightarrow> tx_used t' = insert q (tx_used t) \<and> alloc_ok L M t' r"
proof -
  obtain fr where fr: "tx_freelist t = Some fr" "freelist_inv fr" "unat (maxPage fr) + Suc r < L"
    "length (releasedPages fr) \<le> M" "L \<le> 2 ^ 64"
    using assms by (auto simp: alloc_ok_def)
  obtain q fr' where q: "getNextPage fr = (q, fr')" by fastforce
  have "freelist_room fr (Suc r)" using fr(3,5) by (simp add: freelist_room_def)
  note qs = getNextPage_spec [OF fr(2) this q] and gs = getNextPage_sizes [OF this q]
  show thesis
    by (rule that [OF fr(1) q]) (use qs gs fr in \<open>auto simp: tx_used_def alloc_ok_def\<close>)
qed

text \<open>What a change of the tree \<open>T\<close> leaves alone: memory, dirty nodes and pages elsewhere.\<close>

definition mem_frame :: "gonode list \<Rightarrow> tx \<Rightarrow> tx \<Rightarrow> bool" where
  "mem_frame ns t t' \<longleftrightarrow> (\<forall>x. gvalid (mem t) x \<and> (\<forall>n \<in> set ns. gbefore x n) \<longrightarrow>
     gvalid (mem t') x \<and> contents (mem t') x = contents (mem t) x)"

definition dirty_frame :: "gonode list \<Rightarrow> tx \<Rightarrow> tx \<Rightarrow> bool" where
  "dirty_frame ns t t' \<longleftrightarrow> (\<forall>x. gvalid (mem t) x \<and> (\<forall>n \<in> set ns. gapart x n) \<longrightarrow>
     (\<forall>p m. dirtyNodes t' p = Some m \<longrightarrow> dirtyNodes t p = Some m \<or> gapart x m))"

definition page_frame :: "dal \<Rightarrow> btree \<Rightarrow> tx \<Rightarrow> tx \<Rightarrow> bool" where
  "page_frame d T t t' \<longleftrightarrow> (\<forall>p \<in> tx_used t. p \<notin> set (page_list T) \<longrightarrow>
     tx_view d t' p = tx_view d t p \<and> dirtyNodes t' p = dirtyNodes t p)"

definition same_rest :: "tx \<Rightarrow> tx \<Rightarrow> bool" where
  "same_rest t t' \<longleftrightarrow> t' = t\<lparr>mem := mem t', dirtyNodes := dirtyNodes t', tx_freelist := tx_freelist t'\<rparr>"

text \<open>The tree \<open>T\<close> has become \<open>T'\<close>, whose additional pages were allocated.\<close>

definition tree_step :: "dal \<Rightarrow> tx \<Rightarrow> btree \<Rightarrow> tx \<Rightarrow> btree \<Rightarrow> bool" where
  "tree_step d t T t' T' \<longleftrightarrow> tx_ok t' \<and> tree_at (tx_view d t') T' \<and> inorder T' = inorder T
     \<and> (\<exists>N. pages_mset T' = pages_mset T + mset N \<and> distinct N \<and> set N \<inter> tx_used t = {}
          \<and> tx_used t' = set N \<union> tx_used t)"

lemma same_rest_refl [simp]: "same_rest t t"
  by (simp add: same_rest_def)

lemma same_rest_trans: "same_rest t t' \<Longrightarrow> same_rest t' t'' \<Longrightarrow> same_rest t t''"
  by (cases t; cases t'; cases t'') (simp add: same_rest_def)

lemma mem_frame_refl [simp]: "mem_frame ns t t"
  by (simp add: mem_frame_def)

lemma dirty_frame_refl [simp]: "dirty_frame ns t t"
  by (simp add: dirty_frame_def)

lemma page_frame_refl [simp]: "page_frame d T t t"
  by (simp add: page_frame_def)

lemma mem_frame_mono: "mem_frame ns t t' \<Longrightarrow> set ns \<subseteq> set ns' \<Longrightarrow> mem_frame ns' t t'"
  and dirty_frame_mono: "dirty_frame ns t t' \<Longrightarrow> set ns \<subseteq> set ns' \<Longrightarrow> dirty_frame ns' t t'"
  unfolding mem_frame_def dirty_frame_def by blast+

lemma pages_set: "set (page_list T) = set_mset (pages_mset T)"
  by (simp add: pages_mset_def)

lemma pages_distinct:
  assumes "pages_mset T' = pages_mset T + mset N" and "distinct (page_list T)" and "distinct N"
    and "set N \<inter> set (page_list T) = {}"
  shows "distinct (page_list T')" and "set (page_list T') = set (page_list T) \<union> set N"
proof -
  have m: "mset (page_list T') = mset (page_list T @ N)" using assms(1) by (simp add: pages_mset_def)
  show "distinct (page_list T')" using distinct_pages [OF m] assms(2-4) by auto
  show "set (page_list T') = set (page_list T) \<union> set N" using mset_eq_setD [OF m] by simp
qed

lemma tree_step_pages:
  assumes "tree_step d t T t' T'" and "distinct (page_list T)" and "set (page_list T) \<subseteq> tx_used t"
  shows "distinct (page_list T')" and "set (page_list T') \<subseteq> tx_used t'" and "tx_used t \<subseteq> tx_used t'"
    and "set (page_list T) \<subseteq> set (page_list T')" and "set (page_list T') \<inter> tx_used t = set (page_list T)"
    and "tx_used t' = tx_used t \<union> set (page_list T')"
proof -
  obtain N where N: "pages_mset T' = pages_mset T + mset N" "distinct N" "set N \<inter> tx_used t = {}"
    "tx_used t' = set N \<union> tx_used t"
    using assms(1) by (auto simp: tree_step_def)
  have d: "set N \<inter> set (page_list T) = {}" using N(3) assms(3) by blast
  note p = pages_distinct [OF N(1) assms(2) N(2) d]
  show "distinct (page_list T')" by (rule p(1))
  show "set (page_list T') \<subseteq> tx_used t'" "tx_used t \<subseteq> tx_used t'" "set (page_list T) \<subseteq> set (page_list T')"
    using p(2) N(4) assms(3) by blast+
  show "set (page_list T') \<inter> tx_used t = set (page_list T)" using p(2) N(3) assms(3) by blast
  show "tx_used t' = tx_used t \<union> set (page_list T')" using p(2) N(4) assms(3) by blast
qed

lemma gupd_mem_frame: "gupd (mem t) n (mem t') n' \<Longrightarrow> mem_frame [n] t t'"
  unfolding mem_frame_def using gupd_other by auto

text \<open>An owner can be rewritten: the other dirty nodes keep their contents.\<close>

lemma owned_others:
  assumes "tx_ok t" and "owns t n" and "mem_frame [n] t t'" and "dirtyNodes t q = Some m" and "q \<noteq> pageNum n"
  shows "gvalid (mem t') m" and "contents (mem t') m = contents (mem t) m"
  using assms unfolding tx_ok_def owns_def mem_frame_def by auto

section \<open>One split\<close>

lemma split_view:
  assumes "tx_ok t" and "owns t pn" and "gupd (mem t) pn m' pn'" and "pageNum ch' = pageNum ch"
    and "contents m' ch' = lc" and "contents m' nn = rc" and "contents m' pn' = pc"
    and "gvalid m' ch'" and "gvalid m' nn" and "pageNum nn \<noteq> pageNum pn" and "pageNum nn \<noteq> pageNum ch"
    and "pageNum pn \<noteq> pageNum ch"
    and "insert (pageNum nn) (insert (pageNum pn) (insert (pageNum ch) (tx_used t))) \<subseteq> tx_used (split_state t m' fr pn' ch' nn)"
  shows "tx_view d (split_state t m' fr pn' ch' nn) =
      (tx_view d t)(pageNum nn \<mapsto> rc, pageNum pn \<mapsto> pc, pageNum ch \<mapsto> lc)"
    and "tx_ok (split_state t m' fr pn' ch' nn)"
proof -
  let ?t = "split_state t m' fr pn' ch' nn"
  have num: "pageNum pn' = pageNum pn" using assms(3) by (simp add: gupd_def)
  have mf: "mem_frame [pn] t ?t" using gupd_mem_frame [of t pn ?t pn'] assms(3) by (simp add: split_state_def)
  have dn: "dirtyNodes ?t = (dirtyNodes t)(pageNum nn \<mapsto> nn, pageNum pn \<mapsto> pn', pageNum ch \<mapsto> ch')"
    using num assms(4) by (simp add: split_state_def)
  have mem: "mem ?t = m'" by (simp add: split_state_def)
  have oth: "gvalid m' m \<and> contents m' m = contents (mem t) m" if "dirtyNodes t q = Some m" "q \<noteq> pageNum pn" for q m
    using owned_others [OF assms(1,2) mf that] mem by simp
  show "tx_view d ?t = (tx_view d t)(pageNum nn \<mapsto> rc, pageNum pn \<mapsto> pc, pageNum ch \<mapsto> lc)"
  proof
    show "tx_view d ?t p = ((tx_view d t)(pageNum nn \<mapsto> rc, pageNum pn \<mapsto> pc, pageNum ch \<mapsto> lc)) p" for p
      using oth assms(5-7) by (auto simp: tx_view_def dn mem split: option.split)
  qed
  show "tx_ok ?t"
    unfolding tx_ok_def dn mem
  proof (intro allI impI)
    fix p n
    assume "((dirtyNodes t)(pageNum nn \<mapsto> nn, pageNum pn \<mapsto> pn', pageNum ch \<mapsto> ch')) p = Some n"
    then have c: "if p = pageNum ch then n = ch' else if p = pageNum pn then n = pn' else if p = pageNum nn then n = nn
        else dirtyNodes t p = Some n"
      by (simp add: fun_upd_apply eq_commute split: if_split_asm)
    show "pageNum n = p \<and> gvalid m' n \<and> p \<in> tx_used ?t"
    proof (cases "p \<in> {pageNum ch, pageNum pn, pageNum nn}")
      case True
      then show ?thesis using c assms(4,8,9,13) num gupd_valid [OF assms(3)] by (auto split: if_split_asm)
    next
      case False
      then have "dirtyNodes t p = Some n" "p \<noteq> pageNum pn" using c by simp_all
      then show ?thesis using oth assms(1,13) unfolding tx_ok_def by blast
    qed
  qed
qed

lemma list_all_nth_mem: "list_all P xs \<Longrightarrow> i < length xs \<Longrightarrow> P (xs ! i)"
  by (simp add: list_all_length)

text \<open>The pages after a split are those of \<open>split_sub\<close>.\<close>

lemma tree_at_split_sub:
  assumes v: "\<And>i. i < length (bsubs T) \<Longrightarrow> tree_at v (bsubs T ! i)"
    and d: "distinct (page_list T)" and k: "k < length (bsubs T)" and q: "q \<notin> set (page_list T)"
    and w: "w = v(q \<mapsto> bcontent (bright i q (bsubs T ! k)), bpage T \<mapsto> bcontent (split_sub i k q T),
      bpage (bsubs T ! k) \<mapsto> bcontent (bleft i (bsubs T ! k)))"
  shows "tree_at w (split_sub i k q T)"
proof -
  let ?S = "bsubs T ! k"
  note dk = distinct_sub_pages [OF d k]
  have pS: "bpage ?S \<in> set (page_list ?S)" by (cases ?S) simp
  have same: "tree_at w X" if "tree_at v X" "set (page_list X) \<subseteq> set (page_list T)" "bpage T \<notin> set (page_list X)"
    "bpage ?S \<notin> set (page_list X)" for X
    using that(1) by (rule tree_at_frame) (use that(2-4) q w in auto)
  have sub: "tree_at w (bsubs T ! j)" if "j < length (bsubs T)" "j \<noteq> k" for j
    using same [OF v [OF that(1)] distinct_sub_pages(3,2) [OF d that(1)]] dk(4) [OF that] pS by auto
  have low: "tree_at w (bsubs ?S ! j)" if j: "j < length (bsubs ?S)" for j
  proof -
    note dj = distinct_sub_pages [OF dk(1) j]
    have "tree_at v (bsubs ?S ! j)" using tree_at_child(1) [OF v [OF k] j] .
    then show ?thesis using same dj(2,3) dk(2,3) by blast
  qed
  have wT: "w (bpage T) = Some (bcontent (split_sub i k q T))" "w (bpage ?S) = Some (bcontent (bleft i ?S))"
    "w q = Some (bcontent (bright i q ?S))"
  proof -
    have "bpage T \<noteq> bpage ?S" using dk(2) pS by auto
    moreover have "q \<noteq> bpage T" "q \<noteq> bpage ?S" using q dk(3) pS by (auto simp: page_list_eq [of T])
    ultimately show "w (bpage T) = Some (bcontent (split_sub i k q T))" "w (bpage ?S) = Some (bcontent (bleft i ?S))"
      "w q = Some (bcontent (bright i q ?S))" by (simp_all add: w)
  qed
  have L: "tree_at w (bleft i ?S)"
    by (rule tree_atI) (use wT(2) low in \<open>simp_all del: bleft_bright_simps(3) add: bleft_bright_simps(1,2,5,6)\<close>)
  have R: "tree_at w (bright i q ?S)"
    by (rule tree_atI) (use wT(3) low in \<open>simp_all del: bleft_bright_simps(4) add: bleft_bright_simps(1,2,5,6)\<close>)
  have all: "tree_at w X" if "X \<in> set (bsubs (split_sub i k q T))" for X
  proof -
    have "X \<in> set (take k (bsubs T)) \<or> X = bleft i ?S \<or> X = bright i q ?S \<or> X \<in> set (drop (Suc k) (bsubs T))"
      using that by auto
    then show ?thesis
    proof (elim disjE)
      assume "X \<in> set (take k (bsubs T))"
      then obtain j where "j < k" "X = bsubs T ! j" using k by (auto simp: in_set_conv_nth)
      then show ?thesis using sub k by simp
    next
      assume "X \<in> set (drop (Suc k) (bsubs T))"
      then obtain j where j: "j < length (drop (Suc k) (bsubs T))" "drop (Suc k) (bsubs T) ! j = X"
        unfolding in_set_conv_nth by blast
      then have "Suc k + j < length (bsubs T)" "X = bsubs T ! (Suc k + j)" by simp_all
      then show ?thesis using sub [of "Suc k + j"] by simp
    qed (use L R in simp_all)
  qed
  show ?thesis
  proof (rule tree_atI)
    show "w (bpage (split_sub i k q T)) = Some (bcontent (split_sub i k q T))" using wT(1) by simp
    show "tree_at w (bsubs (split_sub i k q T) ! j)" if "j < length (bsubs (split_sub i k q T))" for j
      by (rule all [OF nth_mem [OF that]])
  qed
qed


lemma small_item_nth: "small_items xs \<Longrightarrow> i < length xs \<Longrightarrow> small_items [xs ! i]"
  by (simp add: small_items_def list_all_length)

lemma esum_insert_at: "esum (insert_at k x xs) = esum xs + esum [x]"
proof -
  have "esum xs = esum (take k xs) + esum (drop k xs)" by (metis append_take_drop_id esum_simps(3))
  then show ?thesis by (simp add: insert_at_def)
qed

lemma small_insert_at: "small_items (insert_at k x xs) \<longleftrightarrow> small_items xs \<and> small_items [x]"
proof -
  have "small_items xs = (small_items (take k xs) \<and> small_items (drop k xs))"
    by (metis append_take_drop_id small_items_append)
  then show ?thesis by (auto simp: insert_at_def)
qed

lemma node_fits_insert:
  assumes "node_fits b 0 c" and "small_items [x]"
  shows "node_fits b 518 \<lparr>n_items = insert_at k x (n_items c), n_children = cs\<rparr>"
proof -
  have "(of_nat (esum [x]) :: rat) \<le> 518"
    using esum_item(2) [OF assms(2)] by (simp only: of_nat_le_iff [of _ 518, simplified])
  then show ?thesis
    using assms by (simp add: node_fits_def nodeSize_esum esum_insert_at small_insert_at)
qed

lemma all_nodes_iff: "all_nodes P T \<longleftrightarrow> P (bcontent T) \<and> list_all (all_nodes P) (bsubs T)"
  by (cases T) simp

lemma tree_fits_split_sub:
  assumes "node_fits b 0 (bcontent T)" and "\<And>j. j < length (bsubs T) \<Longrightarrow> j \<noteq> k \<Longrightarrow> all_nodes (node_fits b 0) (bsubs T ! j)"
    and "k < length (bsubs T)" and "tree_fits b 518 (bsubs T ! k)" and "small_items [bitems (bsubs T ! k) ! i]"
    and "node_fits b 0 (left_content i (bcontent (bsubs T ! k)))"
    and "node_fits b 0 (right_content i (bcontent (bsubs T ! k)))"
  shows "tree_fits b 518 (split_sub i k q T)"
proof -
  let ?S = "bsubs T ! k" and ?P = "all_nodes (node_fits b 0)"
  have sub: "list_all ?P (bsubs ?S)" using assms(4) by (simp add: tree_fits_def)
  then have "list_all ?P (take (i + 1) (bsubs ?S))" "list_all ?P (drop (i + 1) (bsubs ?S))"
    by (auto simp: list_all_iff dest: in_set_takeD in_set_dropD)
  then have LR: "?P (bleft i ?S)" "?P (bright i q ?S)"
    using assms(6,7) all_nodes_iff [of _ "bleft i ?S"] all_nodes_iff [of _ "bright i q ?S"] by simp_all
  have "list_all ?P (take k (bsubs T))" "list_all ?P (drop (Suc k) (bsubs T))"
    using assms(2,3) by (auto simp: list_all_length)
  moreover have "node_fits b 518 (bcontent (split_sub i k q T))"
    unfolding bcontent_split_sub [OF assms(3)] using node_fits_insert [OF assms(1,5)] by simp
  ultimately show ?thesis using LR by (simp add: tree_fits_def)
qed

lemma split_step:
  assumes f: "fill d a b" and ok: "tx_ok t" and pn: "gvalid (mem t) pn" "contents (mem t) pn = bcontent T" "pageNum pn = bpage T"
    and own: "owns t pn" and k: "k < length (bsubs T)"
    and ch: "gvalid (mem t) ch" "contents (mem t) ch = bcontent (bsubs T ! k)" "pageNum ch = bpage (bsubs T ! k)"
    and ap: "gapart pn ch" and bal: "bal (Suc h) T"
    and v: "\<And>i. i < length (bsubs T) \<Longrightarrow> tree_at (tx_view d t) (bsubs T ! i)"
    and dist: "distinct (page_list T)" and used: "set (page_list T) \<subseteq> tx_used t" and al: "alloc_ok L M t (Suc r)"
    and fS: "tree_fits b 518 (bsubs T ! k)" and over: "isOverPopulated d (bcontent (bsubs T ! k))"
    and fT: "node_fits b 0 (bcontent T)" "\<And>j. j < length (bsubs T) \<Longrightarrow> j \<noteq> k \<Longrightarrow> all_nodes (node_fits b 0) (bsubs T ! j)"
  obtains t' pn' ch' T' where "split_node d pn ch k t = Some (Inr (pn', ch'), t')"
    and "tree_step d t T t' T'" and "bal (Suc h) T'" and "tree_fits b 518 T'" and "bpage T' = bpage T"
    and "held d t' pn'" and "pageNum pn' = bpage T" and "alloc_ok L M t' r" and "same_rest t t'"
    and "mem_frame [pn] t t'" and "dirty_frame [pn, ch] t t'" and "page_frame d T t t'"
    and "\<forall>x. gvalid (mem t) x \<and> gapart x pn \<longrightarrow> gapart x pn'"
    and "dirtyNodes t' (bpage T) = Some pn'" and "length (bitems T') = Suc (length (bitems T))"
proof -
  note obt = that
  let ?S = "bsubs T ! k"
  have bS: "bal h ?S" using bal k by (simp add: list_all_length)
  have nS: "node_fits b 518 (bcontent ?S)" using fS by (simp add: tree_fits_def)
  obtain i where i: "getSplitIndex d (bcontent ?S) = int i" "i < length (bitems ?S)"
    "node_fits b 0 (left_content i (bcontent ?S))" "node_fits b 0 (right_content i (bcontent ?S))"
    "small_items [bitems ?S ! i]"
    using split_halves_fit [OF f nS over] by auto
  obtain fr q fr' where fr: "tx_freelist t = Some fr" and q: "getNextPage fr = (q, fr')" and qn0: "q \<notin> tx_used t" "q \<noteq> 0"
    and qs: "\<forall>t'. tx_freelist t' = Some fr' \<longrightarrow> tx_used t' = insert q (tx_used t) \<and> alloc_ok L M t' r"
    by (rule alloc_step [OF al])
  have qn: "q \<notin> set (page_list T)" "q \<notin> tx_used t" using qn0 used by auto
  have c1: "getSplitIndex d (contents (mem t) ch) = int i" "i < length (n_items (contents (mem t) ch))"
    using i ch(2) by simp_all
  have c2: "isLeaf (contents (mem t) ch) \<or> length (n_children (contents (mem t) ch)) = length (n_items (contents (mem t) ch)) + 1"
    using bal_cases [OF bS] ch(2) by auto
  have c3: "k \<le> length (n_items (contents (mem t) pn))" "k < length (n_children (contents (mem t) pn))"
    using k bal pn(2) by simp_all
  obtain m' pn' ch' nn where sp: "split_node d pn ch k t = Some (Inr (pn', ch'), split_state t m' fr' pn' ch' nn)"
    and u: "gupd (mem t) pn m' pn'" and num: "pageNum ch' = pageNum ch" "pageNum nn = q"
    and cpn: "contents m' pn' = \<lparr>n_items = insert_at k (n_items (contents (mem t) ch) ! i) (n_items (contents (mem t) pn)),
      n_children = insert_at (k + 1) q (n_children (contents (mem t) pn))\<rparr>"
    and vch: "gvalid m' ch'" "contents m' ch' = left_content i (contents (mem t) ch)"
    and vnn: "gvalid m' nn" "contents m' nn = right_content i (contents (mem t) ch)"
    and apx: "\<forall>x. gvalid (mem t) x \<and> gapart x ch \<longrightarrow> gapart x ch' \<and> gapart x nn"
    by (rule split_node_spec [OF pn(1) ch(1) ap c1 c2 c3 fr q])
  let ?t = "split_state t m' fr' pn' ch' nn" and ?T = "split_sub i k q T"
  have npn: "pageNum pn' = bpage T" using u pn(3) by (simp add: gupd_def)
  have pS: "bpage ?S \<in> set (page_list ?S)" by (cases ?S) simp
  note dk = distinct_sub_pages [OF dist k]
  have ne: "bpage T \<noteq> bpage ?S" "q \<noteq> bpage T" "q \<noteq> bpage ?S"
    using dk(2,3) pS qn(1) by (auto simp: page_list_eq [of T])
  have cT: "contents m' pn' = bcontent ?T" using cpn ch(2) pn(2) bcontent_split_sub [OF k] by simp
  have ut: "tx_used ?t = insert q (tx_used t)" "alloc_ok L M ?t r" using qs by (simp_all add: split_state_def)
  have "bpage T \<in> tx_used t" using used by (simp add: page_list_eq [of T])
  moreover have "bpage ?S \<in> tx_used t" using used pS dk(3) by blast
  ultimately have uu: "insert (pageNum nn) (insert (pageNum pn) (insert (pageNum ch) (tx_used t))) \<subseteq> tx_used ?t"
    using num(2) pn(3) ch(3) ut(1) by auto
  have sv: "tx_view d ?t = (tx_view d t)(pageNum nn \<mapsto> bcontent (bright i q ?S), pageNum pn \<mapsto> bcontent ?T,
      pageNum ch \<mapsto> bcontent (bleft i ?S))" "tx_ok ?t"
    by (rule split_view [OF ok own u num(1)]; use vch vnn cT ch(2,3) pn(3) num(2) ne uu in simp)+
  have view: "tx_view d ?t = (tx_view d t)(q \<mapsto> bcontent (bright i q ?S), bpage T \<mapsto> bcontent ?T,
      bpage ?S \<mapsto> bcontent (bleft i ?S))"
    using sv(1) num(2) pn(3) ch(3) by simp
  have at: "tree_at (tx_view d ?t) ?T" by (rule tree_at_split_sub [OF v dist k qn(1) view])
  have dn: "dirtyNodes ?t = (dirtyNodes t)(q \<mapsto> nn, bpage T \<mapsto> pn', bpage ?S \<mapsto> ch')"
    using num npn ch(3) by (simp add: split_state_def)
  show thesis
  proof (rule obt [OF sp])
    have "pages_mset ?T = pages_mset T + mset [q]" using pages_split_sub [OF k] by simp
    moreover have "distinct [q]" "set [q] \<inter> tx_used t = {}" "tx_used ?t = set [q] \<union> tx_used t" using qn ut by auto
    moreover have "inorder ?T = inorder T" by (rule inorder_split_sub [OF bal k i(2)])
    ultimately show "tree_step d t T ?t ?T" using sv(2) at unfolding tree_step_def by blast
    show "bal (Suc h) ?T" by (rule bal_split_sub [OF bal k i(2)])
    show "tree_fits b 518 ?T" by (rule tree_fits_split_sub [OF fT k fS i(5,3,4)])
    show "held d ?t pn'"
      using gupd_valid [OF u] cT ne npn view dn by (simp add: held_def split_state_def)
    show "alloc_ok L M ?t r" by (rule ut(2))
    show "mem_frame [pn] t ?t" using gupd_mem_frame [of t pn ?t pn'] u by (simp add: split_state_def)
    show "dirty_frame [pn, ch] t ?t"
      unfolding dirty_frame_def
    proof (intro allI impI)
      fix x p m
      assume x: "gvalid (mem t) x \<and> (\<forall>n \<in> set [pn, ch]. gapart x n)" and m: "dirtyNodes ?t p = Some m"
      have "gapart x pn'" "gapart x ch'" "gapart x nn"
        using x gupd_apart [OF u] apx by auto
      then show "dirtyNodes t p = Some m \<or> gapart x m" using m unfolding dn by (auto split: if_split_asm)
    qed
    show "page_frame d T t ?t"
      unfolding page_frame_def
    proof (intro ballI impI)
      fix p assume p: "p \<in> tx_used t" "p \<notin> set (page_list T)"
      have "p \<noteq> q" using p(1) qn(2) by auto
      moreover have "p \<noteq> bpage T" "p \<noteq> bpage ?S" using p(2) pS dk(3) by (auto simp: page_list_eq [of T])
      ultimately show "tx_view d ?t p = tx_view d t p \<and> dirtyNodes ?t p = dirtyNodes t p" by (simp add: view dn)
    qed
    show "\<forall>x. gvalid (mem t) x \<and> gapart x pn \<longrightarrow> gapart x pn'" using gupd_apart [OF u] by blast
    show "dirtyNodes ?t (bpage T) = Some pn'" using dn ne by simp
  qed (use npn in \<open>simp_all add: split_state_def same_rest_def\<close>)
qed


section \<open>The splits on the way up\<close>

text \<open>The nodes that \<open>getNodes\<close> returned, paired with their index in the parent, lie on a path of the tree.\<close>

fun on_path :: "btree \<Rightarrow> (nat \<times> gonode) list \<Rightarrow> bool" where
  "on_path T [] = True"
| "on_path T ((i, n) # rest) = (i < length (bsubs T) \<and> pageNum n = bpage (bsubs T ! i) \<and> on_path (bsubs T ! i) rest)"

lemma tree_step_trans:
  assumes "tree_step d t T t1 T1" and "tree_step d t1 T1 t2 T2"
  shows "tree_step d t T t2 T2"
proof -
  obtain N M where N: "pages_mset T1 = pages_mset T + mset N" "distinct N" "set N \<inter> tx_used t = {}" "tx_used t1 = set N \<union> tx_used t"
    and M: "pages_mset T2 = pages_mset T1 + mset M" "distinct M" "set M \<inter> tx_used t1 = {}" "tx_used t2 = set M \<union> tx_used t1"
    using assms unfolding tree_step_def by blast
  have "pages_mset T2 = pages_mset T + mset (N @ M)" using N(1) M(1) by simp
  moreover have "distinct (N @ M)" using N(2,4) M(2,3) by auto
  moreover have "set (N @ M) \<inter> tx_used t = {}" "tx_used t2 = set (N @ M) \<union> tx_used t" using N M by auto
  ultimately show ?thesis using assms unfolding tree_step_def by metis
qed

lemma mem_frame_trans:
  assumes "mem_frame ns t t1" and "mem_frame [n] t1 t2" and "n \<in> set ns"
  shows "mem_frame ns t t2"
  using assms unfolding mem_frame_def by auto

lemma dirty_frame_trans:
  assumes "dirty_frame ns t t1" and "dirty_frame ms t1 t2" and "mem_frame ns t t1"
    and "\<And>x m. gvalid (mem t) x \<Longrightarrow> (\<forall>n \<in> set ns. gapart x n) \<Longrightarrow> m \<in> set ms \<Longrightarrow> gapart x m"
  shows "dirty_frame ns t t2"
  unfolding dirty_frame_def
proof (intro allI impI)
  fix x p m
  assume x: "gvalid (mem t) x \<and> (\<forall>n \<in> set ns. gapart x n)" and m: "dirtyNodes t2 p = Some m"
  have "gvalid (mem t1) x" using assms(3) x gapart_before unfolding mem_frame_def by blast
  moreover have "\<forall>n \<in> set ms. gapart x n" using assms(4) x by blast
  ultimately have "dirtyNodes t1 p = Some m \<or> gapart x m" using assms(2) m unfolding dirty_frame_def by blast
  then show "dirtyNodes t p = Some m \<or> gapart x m" using assms(1) x unfolding dirty_frame_def by blast
qed

lemma page_frame_trans:
  assumes "page_frame d T t t1" and "page_frame d T1 t1 t2" and "tx_used t \<subseteq> tx_used t1"
    and "set (page_list T1) \<inter> tx_used t \<subseteq> set (page_list T)"
  shows "page_frame d T t t2"
  unfolding page_frame_def
proof (intro ballI impI)
  fix p assume p: "p \<in> tx_used t" "p \<notin> set (page_list T)"
  then have "p \<in> tx_used t1" "p \<notin> set (page_list T1)" using assms(3,4) by auto
  then show "tx_view d t2 p = tx_view d t p \<and> dirtyNodes t2 p = dirtyNodes t p"
    using assms(1,2) p unfolding page_frame_def by simp
qed

lemma sorted_apart: "sorted_wrt gapart (n # ns) \<Longrightarrow> m \<in> set ns \<Longrightarrow> gapart n m"
  by simp

text \<open>The step of a subtree is a step of the tree.\<close>

lemma tree_step_sub:
  assumes "tree_step d t (bsubs T ! i) t1 S1" and "tree_at (tx_view d t) T" and "distinct (page_list T)"
    and "i < length (bsubs T)" and "bpage S1 = bpage (bsubs T ! i)" and "page_frame d (bsubs T ! i) t t1"
    and "set (page_list T) \<subseteq> tx_used t"
  shows "tree_step d t T t1 (set_sub i S1 T)"
proof -
  have s: "tx_ok t1" "tree_at (tx_view d t1) S1" "inorder S1 = inorder (bsubs T ! i)"
    using assms(1) by (simp_all add: tree_step_def)
  have "tree_at (tx_view d t1) (set_sub i S1 T)"
    by (rule tree_at_set_sub [OF assms(2-5) s(2)]) (use assms(6,7) in \<open>auto simp: page_frame_def\<close>)
  moreover have "inorder (set_sub i S1 T) = inorder T" by (rule inorder_set_sub_same [of S1 T i, OF s(3)])
  moreover obtain N where "pages_mset S1 = pages_mset (bsubs T ! i) + mset N" "distinct N" "set N \<inter> tx_used t = {}"
    "tx_used t1 = set N \<union> tx_used t"
    using assms(1) by (auto simp: tree_step_def)
  moreover have "pages_mset (set_sub i S1 T) = pages_mset T + mset N"
    using pages_set_sub [OF assms(4)] calculation(3) by blast
  ultimately show ?thesis using s(1) unfolding tree_step_def by blast
qed

lemma page_frame_sub:
  assumes "page_frame d (bsubs T ! i) t t1" and "distinct (page_list T)" and "i < length (bsubs T)"
  shows "page_frame d T t t1"
  using assms(1) distinct_sub_pages(3) [OF assms(2,3)] unfolding page_frame_def by blast

lemma splitAncestors_spec:
  assumes "fill d a b" and "bal h T" and "tree_at (tx_view d t) T" and "distinct (page_list T)"
    and "on_path T below" and "path_fits b (map fst below) T" and "tx_ok t"
    and "\<forall>n \<in> set (pn # map snd below). held d t n \<and> owns t n" and "pageNum pn = bpage T"
    and "sorted_wrt gapart (pn # map snd below)" and "alloc_ok L M t (length below + r)" and "set (page_list T) \<subseteq> tx_used t"
  shows "\<exists>t' pn' T'. splitAncestors d pn below t = Some (Inr pn', t') \<and> tree_step d t T t' T' \<and> bal h T'
    \<and> tree_fits b 518 T' \<and> bpage T' = bpage T \<and> held d t' pn' \<and> pageNum pn' = bpage T \<and> alloc_ok L M t' r \<and> same_rest t t'
    \<and> mem_frame (pn # map snd below) t t' \<and> dirty_frame (pn # map snd below) t t' \<and> page_frame d T t t'
    \<and> (\<forall>x. gvalid (mem t) x \<and> (\<forall>n \<in> set (pn # map snd below). gapart x n) \<longrightarrow> gapart x pn')"
  using assms(2-)
proof (induction below arbitrary: h T pn t r)
  case Nil
  have "tree_step d t T t T"
    unfolding tree_step_def using Nil by (intro conjI exI [of _ "[]"]) simp_all
  then show ?case using Nil by (intro exI [of _ t] exI [of _ pn] exI [of _ T]) simp
next
  case (Cons x rest)
  obtain i node where x: "x = (i, node)" by fastforce
  let ?S = "bsubs T ! i" and ?ns = "node # map snd rest"
  have i: "i < length (bsubs T)" "pageNum node = bpage ?S" "on_path ?S rest" using Cons.prems(4) x by simp_all
  obtain h' where h: "h = Suc h'" using Cons.prems(1) i(1) by (cases h) auto
  have bS: "bal h' ?S" using Cons.prems(1) h i(1) by (simp add: list_all_length)
  note ds = distinct_sub_pages [OF Cons.prems(3) i(1)]
  have pf: "node_fits b 0 (bcontent T)" "\<And>j. j < length (bsubs T) \<Longrightarrow> j \<noteq> i \<Longrightarrow> all_nodes (node_fits b 0) (bsubs T ! j)"
    "path_fits b (map fst rest) ?S" using Cons.prems(5) x by auto
  have hd: "\<forall>n \<in> set ?ns. held d t n \<and> owns t n" "sorted_wrt gapart ?ns" "alloc_ok L M t (length rest + (r + 1))"
    "set (page_list ?S) \<subseteq> tx_used t"
    using Cons.prems(7,9,10,11) x ds(3) by auto
  obtain t1 node1 S1 where s1: "splitAncestors d node rest t = Some (Inr node1, t1)" "tree_step d t ?S t1 S1" "bal h' S1"
    "tree_fits b 518 S1" "bpage S1 = bpage ?S" "held d t1 node1" "pageNum node1 = bpage ?S" "alloc_ok L M t1 (r + 1)" "same_rest t t1"
    "mem_frame ?ns t t1" "dirty_frame ?ns t t1" "page_frame d ?S t t1"
    "\<forall>x. gvalid (mem t) x \<and> (\<forall>n \<in> set ?ns. gapart x n) \<longrightarrow> gapart x node1"
    using Cons.IH [OF bS tree_at_child(1) [OF Cons.prems(2) i(1)] ds(1) i(3) pf(3) Cons.prems(6) hd(1) i(2) hd(2-4)] by blast
  let ?T1 = "set_sub i S1 T" and ?all = "pn # map snd (x # rest)"
  have step1: "tree_step d t T t1 ?T1"
    by (rule tree_step_sub [OF s1(2) Cons.prems(2,3) i(1) s1(5,12) Cons.prems(11)])
  have ok1: "tx_ok t1" "tree_at (tx_view d t1) ?T1" "tree_at (tx_view d t1) S1"
    using step1 s1(2) by (simp_all add: tree_step_def)
  note p1 = tree_step_pages [OF step1 Cons.prems(3,11)]
  have apn: "\<forall>n \<in> set ?ns. gapart pn n" using Cons.prems(9) x by simp
  have pn: "held d t pn" "owns t pn" using Cons.prems(7) by simp_all
  have vpn: "gvalid (mem t) pn" using pn(1) by (simp add: held_def)
  have cpn: "contents (mem t) pn = bcontent T"
    using pn(1) tree_at_root [OF Cons.prems(2)] Cons.prems(8) by (simp add: held_def)
  have pn1: "gvalid (mem t1) pn" "contents (mem t1) pn = bcontent ?T1"
    using s1(10) vpn apn gapart_before cpn bcontent_set_sub [OF i(1) s1(5)] by (auto simp: mem_frame_def)
  have pT: "bpage T \<in> set (page_list T)" by (cases T) simp
  have dpn: "dirtyNodes t1 (bpage T) = dirtyNodes t (bpage T)"
    using s1(12) pT ds(2) Cons.prems(11) by (auto simp: page_frame_def)
  have own1: "owns t1 pn"
    unfolding owns_def
  proof (intro allI impI)
    fix q m assume "dirtyNodes t1 q = Some m \<and> q \<noteq> pageNum pn"
    moreover from this have "dirtyNodes t q = Some m \<or> gapart pn m"
      using s1(11) vpn apn unfolding dirty_frame_def by blast
    ultimately show "gbefore m pn" using pn(2) gapart_before gapart_sym unfolding owns_def by blast
  qed
  have held1: "held d t1 pn"
    using pn1 tree_at_root [OF ok1(2)] pn(1) dpn Cons.prems(8) by (simp add: held_def)
  have ap1: "gapart pn node1" using s1(13) vpn apn by blast
  have cn1: "contents (mem t1) node1 = bcontent S1" "gvalid (mem t1) node1"
    using s1(5-7) tree_at_root [OF ok1(3)] by (simp_all add: held_def)
  have "set ?ns \<subseteq> set ?all" using x by auto
  note mf1 = mem_frame_mono [OF s1(10) this] dirty_frame_mono [OF s1(11) this]
  have pgf: "page_frame d T t t1" by (rule page_frame_sub [OF s1(12) Cons.prems(3) i(1)])
  have bal1: "bal h ?T1" unfolding h using bal_set_sub [OF _ s1(3)] Cons.prems(1) h by simp
  have sub1: "bsubs ?T1 ! i = S1" "i < length (bsubs ?T1)" using i(1) by simp_all
  have fit1: "node_fits b 0 (bcontent ?T1)" using pf(1) bcontent_set_sub [OF i(1) s1(5)] by simp
  have fit2: "\<And>j. j < length (bsubs ?T1) \<Longrightarrow> j \<noteq> i \<Longrightarrow> all_nodes (node_fits b 0) (bsubs ?T1 ! j)" using pf(2) by simp
  show ?case
  proof (cases "isOverPopulated d (bcontent S1)")
    case False
    have r: "splitAncestors d pn (x # rest) t = Some (Inr pn, t1)"
      using False s1(1) cn1 by (simp add: x bindM_def content_of_def)
    have "node_fits b 518 (bcontent S1)" using s1(4) by (simp add: tree_fits_def)
    then have "node_fits b 0 (bcontent S1)" using not_overpopulated_fits [OF assms(1)] False by simp
    then have "all_nodes (node_fits b 0) S1" using s1(4) by (simp add: tree_fits_def all_nodes_iff [of _ S1])
    then have "list_all (all_nodes (node_fits b 0)) (bsubs ?T1)"
      using fit2 sub1(1) unfolding list_all_length by metis
    then have "tree_fits b 0 ?T1" using fit1 by (simp add: tree_fits_def)
    then have "tree_fits b 518 ?T1" by (rule tree_fits_mono) simp
    moreover have "alloc_ok L M t1 r"
      using alloc_ok_mono [OF s1(8)] by simp
    ultimately show ?thesis
      using r step1 bal1 held1 Cons.prems(8) s1(9) mf1 pgf
      by (intro exI [of _ t1] exI [of _ pn] exI [of _ ?T1]) simp
  next
    case True
    have over: "isOverPopulated d (bcontent (bsubs ?T1 ! i))" "tree_fits b 518 (bsubs ?T1 ! i)" using True s1(4) sub1(1) by simp_all
    have ch: "contents (mem t1) node1 = bcontent (bsubs ?T1 ! i)" "pageNum node1 = bpage (bsubs ?T1 ! i)"
      using cn1(1) s1(5,7) sub1(1) by simp_all
    have al: "alloc_ok L M t1 (Suc r)" using s1(8) by simp
    have pnp: "pageNum pn = bpage ?T1" using Cons.prems(8) by simp
    obtain t2 pn2 ch2 T2 where s2: "split_node d pn node1 i t1 = Some (Inr (pn2, ch2), t2)" "tree_step d t1 ?T1 t2 T2"
      "bal (Suc h') T2" "tree_fits b 518 T2" "bpage T2 = bpage ?T1" "held d t2 pn2" "pageNum pn2 = bpage ?T1" "alloc_ok L M t2 r"
      "same_rest t1 t2" "mem_frame [pn] t1 t2" "dirty_frame [pn, node1] t1 t2" "page_frame d ?T1 t1 t2"
      "\<forall>x. gvalid (mem t1) x \<and> gapart x pn \<longrightarrow> gapart x pn2"
      by (rule split_step [OF assms(1) ok1(1) pn1 pnp own1 sub1(2) cn1(2) ch ap1 bal1 [unfolded h]
            tree_at_child(1) [OF ok1(2)] p1(1,2) al over(2,1) fit1 fit2]) blast
    have r: "splitAncestors d pn (x # rest) t = Some (Inr pn2, t2)"
      using True s1(1) cn1 s2(1) by (simp add: x bindM_def content_of_def)
    have mf2: "mem_frame ?all t t2"
      by (rule mem_frame_trans [OF mf1(1) s2(10)]) simp
    have df2: "dirty_frame ?all t t2"
      by (rule dirty_frame_trans [OF mf1(2) s2(11) mf1(1)]) (use s1(13) x in auto)
    have pg2: "page_frame d T t t2"
      by (rule page_frame_trans [OF pgf s2(12) p1(3)]) (use p1(5) in simp)
    have "gapart y pn2" if "gvalid (mem t) y" "\<forall>n \<in> set ?all. gapart y n" for y
    proof -
      have "gvalid (mem t1) y" using mf1(1) that gapart_before unfolding mem_frame_def by blast
      then show ?thesis using s2(13) that by auto
    qed
    then show ?thesis
      using r tree_step_trans [OF step1 s2(2)] s2(3-8) h same_rest_trans [OF s1(9) s2(9)] mf2 df2 pg2
      by (intro exI [of _ t2] exI [of _ pn2] exI [of _ T2]) simp
  qed
qed


section \<open>The root\<close>

text \<open>The part of a state that a change of the root leaves alone.\<close>

definition same_nodes :: "tx \<Rightarrow> tx \<Rightarrow> bool" where
  "same_nodes t t' \<longleftrightarrow> mem t' = mem t \<and> dirtyNodes t' = dirtyNodes t \<and> tx_freelist t' = tx_freelist t
     \<and> tx_write t' = tx_write t \<and> pagesToDelete t' = pagesToDelete t \<and> deletedCollections t' = deletedCollections t"

lemma same_nodes_refl [simp]: "same_nodes t t"
  by (simp add: same_nodes_def)

lemma same_nodes_view:
  assumes "same_nodes t t'"
  shows "tx_view d t' = tx_view d t" and "tx_ok t' = tx_ok t" and "tx_used t' = tx_used t" and "alloc_ok L M t' n = alloc_ok L M t n"
proof -
  have e: "mem t' = mem t" "dirtyNodes t' = dirtyNodes t" "tx_freelist t' = tx_freelist t"
    using assms by (simp_all add: same_nodes_def)
  show "tx_view d t' = tx_view d t" by (rule ext) (simp add: tx_view_def e split: option.split)
  show "tx_ok t' = tx_ok t" "tx_used t' = tx_used t" "alloc_ok L M t' n = alloc_ok L M t n"
    by (simp_all add: tx_ok_def tx_used_def alloc_ok_def e)
qed

text \<open>What happens to the handle of the collection, and to the fields a change of the tree does not touch.\<close>

definition handle_step :: "collection \<Rightarrow> tx \<Rightarrow> collection \<Rightarrow> tx \<Rightarrow> bool" where
  "handle_step c t c' t' \<longleftrightarrow> c_name c' = c_name c \<and> c_rootCollection c' = c_rootCollection c \<and> c_counter c' = c_counter c
     \<and> tx_write t' = tx_write t \<and> pagesToDelete t' = pagesToDelete t \<and> deletedCollections t' = deletedCollections t
     \<and> (if c_rootCollection c then tx_root t' = c_root c' \<and> collections t' = collections t
        else tx_root t' = tx_root t \<and> (if c_root c' = c_root c then c' = c \<and> collections t' = collections t
          else c_dirtyMeta c' \<and> collections t' = (collections t)(c_name c \<mapsto> c')))"

text \<open>
  The new root of a collection: in the handle, and in the transaction for the root collection
  or in the list of changed collections otherwise.
\<close>

lemma setRoot_spec:
  assumes "tx_write t" and "c_rootCollection c \<Longrightarrow> tx_root t = c_root c"
  obtains c' t' where "setRoot c r t = Some (Inr c', t')" and "same_nodes t t'" and "c_root c' = r" and "handle_step c t c' t'"
proof (cases "c_root c = r")
  case True
  then have e: "setRoot c r t = Some (Inr c, t)" by (simp add: setRoot_def)
  show thesis by (rule that [OF e]) (use True assms in \<open>simp_all add: handle_step_def\<close>)
next
  case False
  note ne = this
  show thesis
  proof (cases "c_rootCollection c")
    case True
    then have e: "setRoot c r t = Some (Inr (c\<lparr>c_root := r\<rparr>), t\<lparr>tx_root := r\<rparr>)" using ne by (simp add: setRoot_def Let_def)
    show thesis by (rule that [OF e]) (use True in \<open>simp_all add: same_nodes_def handle_step_def\<close>)
  next
    case False
    let ?c = "c\<lparr>c_root := r, c_dirtyMeta := True\<rparr>"
    have e: "setRoot c r t = Some (Inr ?c, t\<lparr>collections := (collections t)(c_name c \<mapsto> ?c)\<rparr>)"
      using False ne assms(1)
      by (simp add: setRoot_def markMetadataDirty_def trackCollection_def bindM_def Let_def)
    show thesis by (rule that [OF e]) (use False ne in \<open>simp_all add: same_nodes_def handle_step_def\<close>)
  qed
qed

text \<open>A new root above the old one: one empty item list and one child, in arrays of its own.\<close>

lemma new_root_spec:
  assumes "tx_ok t" and "alloc_ok L M t (Suc r)" and "gvalid (mem t) n"
  obtains q nr t1 where "bindM (literal_items []) (\<lambda>its. bindM (literal_pgs [p]) (\<lambda>cs. tx_newNode its cs)) t = Some (Inr nr, t1)"
    and "same_rest t t1" and "pageNum nr = q" and "q \<notin> tx_used t" and "q \<noteq> 0" and "tx_used t1 = insert q (tx_used t)"
    and "alloc_ok L M t1 r" and "dirtyNodes t1 = dirtyNodes t" and "gmem_ext (mem t) (mem t1)" and "gvalid (mem t1) nr"
    and "contents (mem t1) nr = \<lparr>n_items = [], n_children = [p]\<rparr>" and "owns t1 nr" and "gapart n nr"
    and "\<forall>x. gvalid (mem t) x \<longrightarrow> gapart x nr"
proof -
  obtain fr q fr' where fr: "tx_freelist t = Some fr" and q: "getNextPage fr = (q, fr')" and qn: "q \<notin> tx_used t" "q \<noteq> 0"
    and qs: "\<forall>t'. tx_freelist t' = Some fr' \<longrightarrow> tx_used t' = insert q (tx_used t) \<and> alloc_ok L M t' r"
    by (rule alloc_step [OF assms(2)])
  obtain h1 s1 where l: "sliteral (itemArrays (mem t)) [] = (h1, s1)" by fastforce
  obtain g1 r1 where m: "sliteral (pgArrays (mem t)) [p] = (g1, r1)" by fastforce
  note v = svalid_alloc [OF l [unfolded sliteral_def]] and w = svalid_alloc [OF m [unfolded sliteral_def]]
  let ?nr = "\<lparr>pageNum = q, items = s1, childNodes = r1\<rparr>"
  let ?t = "t\<lparr>mem := (mem t)\<lparr>itemArrays := h1, pgArrays := g1\<rparr>, tx_freelist := Some fr'\<rparr>"
  have e: "bindM (literal_items []) (\<lambda>its. bindM (literal_pgs [p]) (\<lambda>cs. tx_newNode its cs)) t = Some (Inr ?nr, ?t)"
    using l m fr q by (simp add: bindM_def literal_items_def literal_pgs_def tx_newNode_def)
  have ext: "gmem_ext (mem t) (mem ?t)"
    using mem_ext_alloc [of "itemArrays (mem t)" "[]" 0 h1 s1] mem_ext_alloc [of "pgArrays (mem t)" "[p]" 1 g1 r1] l m
    by (simp add: gmem_ext_def sliteral_def)
  have ap: "gapart x ?nr" if "gvalid (mem t) x" for x by (rule gapart_fresh [OF that]) (use v w in simp_all)
  show thesis
  proof (rule that [OF e])
    show "owns ?t ?nr" using assms(1) ap gapart_before by (auto simp: owns_def tx_ok_def)
    show "gapart n ?nr" by (rule ap [OF assms(3)])
    show "\<forall>x. gvalid (mem t) x \<longrightarrow> gapart x ?nr" using ap by blast
    show "tx_used ?t = insert q (tx_used t)" "alloc_ok L M ?t r" using qs by simp_all
  qed (use qn v w ext in \<open>auto simp: same_rest_def gvalid_def contents_def\<close>)
qed


lemma same_rest_fields:
  assumes "same_rest t t'"
  shows "tx_write t' = tx_write t" and "tx_root t' = tx_root t" and "collections t' = collections t"
    and "pagesToDelete t' = pagesToDelete t" and "deletedCollections t' = deletedCollections t"
  using assms by (cases t; cases t'; simp add: same_rest_def)+

lemma handle_step_eq:
  assumes "tx_write t1 = tx_write t" and "tx_root t1 = tx_root t" and "collections t1 = collections t"
    and "pagesToDelete t1 = pagesToDelete t" and "deletedCollections t1 = deletedCollections t" and "handle_step c t1 c' t'"
  shows "handle_step c t c' t'"
  using assms(6) by (simp add: handle_step_def assms(1-5))

lemma handle_step_rest: "same_rest t t1 \<Longrightarrow> handle_step c t1 c' t' \<Longrightarrow> handle_step c t c' t'"
  using handle_step_eq same_rest_fields by blast

lemma handle_step_refl:
  "(c_rootCollection c \<Longrightarrow> tx_root t = c_root c) \<Longrightarrow> handle_step c t c t"
  by (simp add: handle_step_def)

lemma small_root_fits:
  assumes "fill d a b" and "tree_fits b 518 T" and "length (bitems T) \<le> 1"
  shows "tree_fits b 0 T"
proof -
  have s: "small_items (bitems T)" using assms(2) by (simp add: tree_fits_def node_fits_def)
  have "esum (bitems T) \<le> 518" using s assms(3) by (cases "bitems T") (auto simp: le_Suc_eq)
  then have "(of_nat (esum (bitems T)) :: rat) \<le> 518" by (simp only: of_nat_le_iff [of _ 518, simplified])
  then show ?thesis
    using assms(1,2) s by (simp add: tree_fits_def node_fits_def fill_def nodeSize_esum)
qed

lemma splitRoot_spec:
  assumes fl: "fill d a b" and bl: "bal h T" and at: "tree_at (tx_view d t) T" and di: "distinct (page_list T)"
    and tf: "tree_fits b 518 T" and ok: "tx_ok t" and hn: "held d t n" "pageNum n = bpage T" and al: "alloc_ok L M t (Suc (Suc r))"
    and us: "set (page_list T) \<subseteq> tx_used t" and wr: "tx_write t" and rt: "c_root c = bpage T"
    and rc: "c_rootCollection c \<Longrightarrow> tx_root t = c_root c"
  shows "\<exists>c' t' T'. splitRoot d c n t = Some (Inr c', t') \<and> tree_step d t T t' T' \<and> tree_fits b 0 T'
    \<and> (bal h T' \<or> bal (Suc h) T') \<and> c_root c' = bpage T' \<and> page_frame d T t t' \<and> handle_step c t c' t' \<and> alloc_ok L M t' r"
proof -
  have vn: "gvalid (mem t) n" using hn(1) by (simp add: held_def)
  have cn: "contents (mem t) n = bcontent T"
    using hn tree_at_root [OF at] by (simp add: held_def)
  show ?thesis
  proof (cases "isOverPopulated d (bcontent T)")
    case False
    have "splitRoot d c n t = Some (Inr c, t)"
      using False cn by (simp add: splitRoot_def content_of_def bindM_def)
    moreover have "tree_fits b 0 T"
      using not_overpopulated_fits [OF fl, of 518 "bcontent T"] False tf by (simp add: tree_fits_def)
    moreover have "tree_step d t T t T"
      unfolding tree_step_def using ok at by (intro conjI exI [of _ "[]"]) simp_all
    moreover have "alloc_ok L M t r" using alloc_ok_mono [OF al] by simp
    ultimately show ?thesis using bl rt handle_step_refl [OF rc] by auto
  next
    case True
    obtain q nr t1 where nr: "bindM (literal_items []) (\<lambda>its. bindM (literal_pgs [bpage T]) (\<lambda>cs. tx_newNode its cs)) t = Some (Inr nr, t1)"
      "same_rest t t1" "pageNum nr = q" "q \<notin> tx_used t" "q \<noteq> 0" "tx_used t1 = insert q (tx_used t)" "alloc_ok L M t1 (Suc r)"
      "dirtyNodes t1 = dirtyNodes t" "gmem_ext (mem t) (mem t1)" "gvalid (mem t1) nr"
      "contents (mem t1) nr = \<lparr>n_items = [], n_children = [bpage T]\<rparr>" "owns t1 nr" "gapart n nr"
      by (rule new_root_spec [OF ok al vn]) blast
    let ?T1 = "BNode q [] [T]"
    have ok1: "tx_ok t1" using ok gmem_ext_node(1) [OF nr(9)] by (auto simp: tx_ok_def nr(6,8))
    have v1: "tx_view d t1 = tx_view d t"
    proof
      show "tx_view d t1 p = tx_view d t p" for p
        using ok gmem_ext_node(2) [OF nr(9)] by (auto simp: tx_view_def tx_ok_def nr(8) split: option.split)
    qed
    have n1: "gvalid (mem t1) n" "contents (mem t1) n = bcontent (bsubs ?T1 ! 0)" "pageNum n = bpage (bsubs ?T1 ! 0)"
      using gmem_ext_node [OF nr(9) vn] cn hn(2) by simp_all
    have r1: "contents (mem t1) nr = bcontent ?T1" "pageNum nr = bpage ?T1" using nr(3,11) by (simp_all add: bcontent_def)
    have qT: "q \<notin> set (page_list T)" using nr(4) us by blast
    have d1: "distinct (page_list ?T1)" "set (page_list ?T1) \<subseteq> tx_used t1" using qT di us nr(6) by auto
    have b1: "bal (Suc h) ?T1" using bl by simp
    have k: "0 < length (bsubs ?T1)" by simp
    have at1: "tree_at (tx_view d t1) (bsubs ?T1 ! i)" if "i < length (bsubs ?T1)" for i using that at v1 by simp
    have f1: "tree_fits b 518 (bsubs ?T1 ! 0)" "isOverPopulated d (bcontent (bsubs ?T1 ! 0))" using tf True by simp_all
    have f2: "node_fits b 0 (bcontent ?T1)" using fl by (simp add: node_fits_def nodeSize_esum fill_def)
    have f3: "\<And>j. j < length (bsubs ?T1) \<Longrightarrow> j \<noteq> 0 \<Longrightarrow> all_nodes (node_fits b 0) (bsubs ?T1 ! j)" by simp
    obtain t2 pn2 ch2 T2 where s: "split_node d nr n 0 t1 = Some (Inr (pn2, ch2), t2)" "tree_step d t1 ?T1 t2 T2"
      "bal (Suc h) T2" "tree_fits b 518 T2" "bpage T2 = bpage ?T1" "pageNum pn2 = bpage ?T1" "alloc_ok L M t2 r" "same_rest t1 t2"
      "page_frame d ?T1 t1 t2" "dirtyNodes t2 (bpage ?T1) = Some pn2" "length (bitems T2) = Suc (length (bitems ?T1))"
      by (rule split_step [OF fl ok1 nr(10) r1 nr(12) k n1 gapart_sym [OF nr(13)] b1 at1 d1 nr(7) f1 f2 f3]) blast
    have w2: "tx_writeNode pn2 t2 = Some (Inr pn2, t2)"
      using s(6,10) by (simp add: tx_writeNode_def fun_upd_idem)
    note rest = same_rest_trans [OF nr(2) s(8)]
    have pre: "tx_write t2" "c_rootCollection c \<Longrightarrow> tx_root t2 = c_root c"
      using wr rc same_rest_fields [OF rest] by simp_all
    obtain c' t3 where r: "setRoot c (pageNum pn2) t2 = Some (Inr c', t3)" "same_nodes t2 t3" "c_root c' = pageNum pn2"
      "handle_step c t2 c' t3"
      by (rule setRoot_spec [of t2 c "pageNum pn2", OF pre])
    have e: "splitRoot d c n t = Some (Inr c', t3)"
    proof -
      have "bindM (literal_items []) (\<lambda>its. bindM (literal_pgs [pageNum n]) (\<lambda>cs. bindM (tx_newNode its cs) f)) t = f nr t1" for f :: "gonode \<Rightarrow> (tx, collection) m"
        using nr(1) hn(2) by (auto simp: bindM_def split: option.splits prod.splits sum.splits)
      then show ?thesis
        using True cn s(1) w2 r(1) by (simp add: splitRoot_def content_of_def bindM_def)
    qed
    note sv = same_nodes_view [OF r(2)]
    have hs: "handle_step c t c' t3" by (rule handle_step_rest [OF rest r(4)])
    have fr: "page_frame d T t t3"
      unfolding page_frame_def
    proof (intro ballI impI)
      fix p assume p: "p \<in> tx_used t" "p \<notin> set (page_list T)"
      then have "p \<in> tx_used t1" "p \<notin> set (page_list ?T1)" using nr(4,6) by auto
      then have "tx_view d t2 p = tx_view d t1 p" "dirtyNodes t2 p = dirtyNodes t1 p"
        using s(9) unfolding page_frame_def by blast+
      then show "tx_view d t3 p = tx_view d t p \<and> dirtyNodes t3 p = dirtyNodes t p"
        using sv(1) v1 nr(8) r(2) by (simp add: same_nodes_def)
    qed
    have st: "tree_step d t T t3 T2"
    proof -
      obtain N where N: "pages_mset T2 = pages_mset ?T1 + mset N" "distinct N" "set N \<inter> tx_used t1 = {}"
        "tx_used t2 = set N \<union> tx_used t1"
        using s(2) by (auto simp: tree_step_def)
      have "pages_mset T2 = pages_mset T + mset (q # N)" using N(1) by (simp add: pages_mset_def)
      moreover have "distinct (q # N)" "set (q # N) \<inter> tx_used t = {}" "tx_used t3 = set (q # N) \<union> tx_used t"
        using N(2-4) nr(4,6) sv(3) by auto
      moreover have "tx_ok t3" "tree_at (tx_view d t3) T2" "inorder T2 = inorder T"
        using s(2) sv(1,2) by (simp_all add: tree_step_def)
      ultimately show ?thesis unfolding tree_step_def by blast
    qed
    have ft: "tree_fits b 0 T2" by (rule small_root_fits [OF fl s(4)]) (use s(11) in simp)
    have "alloc_ok L M t3 r" using s(7) sv(4) by simp
    then show ?thesis using e st ft s(3,5,6) fr hs r(3) by metis
  qed
qed

end
