(* ===== verification/Btree_Put.thy ===== *)
theory Btree_Put
  imports Tree_Split
begin

text \<open>
  Correctness of \<open>Put\<close>: the search, the change of one node, the nodes on the path read again,
  the splits. The pages of the collection go from one tree to another whose items are those of the
  first with the item stored, and no page outside the tree is touched.
\<close>

section \<open>Storing the item in the node that was found\<close>

lemma search_missing_key:
  "search T k = (False, j, u, path) \<Longrightarrow> j < length (bitems u) \<Longrightarrow> item_key (bitems u ! j) \<noteq> k"
proof (induction T k arbitrary: j u path rule: search.induct)
  case (1 T k)
  obtain found i where fi: "findKeyInNode (bcontent T) k = (found, i)" by fastforce
  then have n: "\<not> found"
    using 1(2) search_found [of T k i] by (cases found) auto
  then have fi': "findKeyInNode (bcontent T) k = (False, i)" using fi by simp
  show ?case
  proof (cases "i < length (bsubs T)")
    case True
    obtain f' j' u' path' where r: "search (bsubs T ! i) k = (f', j', u', path')" by (rule prod_cases4)
    have eq: "f' = False" "j' = j" "u' = u" using search_child [OF fi' True r] 1(2) by auto
    show ?thesis using 1(1) [OF fi' [symmetric] refl _ True] r eq 1(3) by simp
  next
    case False
    then have "search T k = (False, i, T, [])" using fi' by (intro search_leaf) simp_all
    then have "j = i" "u = T" using 1(2) by simp_all
    then show ?thesis using fi' 1(3) by (auto simp: findKeyInNode_def Let_def split: if_splits)
  qed
qed

lemma set_item_gupd:
  assumes "gvalid (mem t) n" and "j < length (n_items (contents (mem t) n))"
  obtains m' where "set_item (items n) j it t = Some (Inr (), t\<lparr>mem := m'\<rparr>)" and "gupd (mem t) n m' n"
    and "contents m' n = (contents (mem t) n)\<lparr>n_items := (n_items (contents (mem t) n))[j := it]\<rparr>"
proof -
  let ?h = "itemArrays (mem t)"
  have v: "svalid ?h (items n)" "svalid (pgArrays (mem t)) (childNodes n)" using assms(1) by (simp_all add: gvalid_def)
  then have "j < slen (items n)" using assms(2) by (simp add: contents_def)
  then obtain h' where h': "sset ?h (items n) j it = Some h'" by (simp add: sset_def)
  have e: "set_item (items n) j it t = Some (Inr (), t\<lparr>mem := (mem t)\<lparr>itemArrays := h'\<rparr>\<rparr>)"
    using h' by (simp add: set_item_def)
  show thesis
    by (rule that [OF e]) (use sset_supd [OF v(1) h'] sset_content [OF v(1) h'] supd_refl [OF v(2)] in
        \<open>simp_all add: gupd_def contents_def\<close>)
qed

lemma storeItem_spec:
  assumes "gvalid (mem t) n" and "contents (mem t) n = bcontent u"
    and "if f then j < length (bitems u) \<and> item_key (bitems u ! j) = k
         else j \<le> length (bitems u) \<and> (j < length (bitems u) \<longrightarrow> item_key (bitems u ! j) \<noteq> k)"
  obtains m' n' where "storeItem n j k it t = Some (Inr n', t\<lparr>mem := m', dirtyNodes := (dirtyNodes t)(pageNum n \<mapsto> n')\<rparr>)"
    and "gupd (mem t) n m' n'"
    and "contents m' n' = \<lparr>n_items = stored_items f j it (bitems u), n_children = map bpage (bsubs u)\<rparr>"
proof -
  note obt = that
  have c: "content_of n t = Some (Inr (bcontent u), t)" using assms(2) by (simp add: content_of_def)
  show thesis
  proof (cases f)
    case True
    have j: "j < length (n_items (contents (mem t) n))" "j < length (bitems u)" "item_key (bitems u ! j) = k"
      using True assms(2,3) by simp_all
    obtain m' where s: "set_item (items n) j it t = Some (Inr (), t\<lparr>mem := m'\<rparr>)" "gupd (mem t) n m' n"
      "contents m' n = (contents (mem t) n)\<lparr>n_items := (n_items (contents (mem t) n))[j := it]\<rparr>"
      by (rule set_item_gupd [OF assms(1) j(1)])
    have e: "storeItem n j k it t = Some (Inr n, t\<lparr>mem := m', dirtyNodes := (dirtyNodes t)(pageNum n \<mapsto> n)\<rparr>)"
      using c j s(1) by (simp add: storeItem_def bindM_def tx_writeNode_def)
    show thesis by (rule obt [OF e s(2)]) (use True s(3) assms(2) in \<open>simp add: stored_items_def bcontent_def\<close>)
  next
    case False
    have j: "j \<le> length (n_items (contents (mem t) n))" "\<not> (j < length (bitems u) \<and> item_key (bitems u ! j) = k)"
      using False assms(2,3) by auto
    obtain m' n' where s: "addItem n it j t = Some (Inr n', t\<lparr>mem := m'\<rparr>)" "gupd (mem t) n m' n'"
      "contents m' n' = (contents (mem t) n)\<lparr>n_items := insert_at j it (n_items (contents (mem t) n))\<rparr>"
      by (rule addItem_spec [OF assms(1) j(1)])
    have num: "pageNum n' = pageNum n" using s(2) by (simp add: gupd_def)
    have e: "storeItem n j k it t = Some (Inr n', t\<lparr>mem := m', dirtyNodes := (dirtyNodes t)(pageNum n \<mapsto> n')\<rparr>)"
      using c j(2) s(1) num by (auto simp: storeItem_def bindM_def tx_writeNode_def)
    show thesis by (rule obt [OF e s(2)]) (use False s(3) assms(2) in \<open>simp add: stored_items_def bcontent_def\<close>)
  qed
qed

lemma stored_items_fit:
  assumes "node_fits b 0 (bcontent u)" and "small_items [it]" and "f \<longrightarrow> j < length (bitems u)"
  shows "node_fits b 518 \<lparr>n_items = stored_items f j it (bitems u), n_children = cs\<rparr>"
proof (cases f)
  case False
  then show ?thesis using node_fits_insert [OF assms(1,2)] by (simp add: stored_items_def)
next
  case True
  then have j: "j < length (bitems u)" using assms(3) by simp
  have s: "(of_nat (esum [it]) :: rat) \<le> 518"
    using esum_item(2) [OF assms(2)] by (simp only: of_nat_le_iff [of _ 518, simplified])
  have e: "(bitems u)[j := it] = take j (bitems u) @ it # drop (Suc j) (bitems u)"
    "bitems u = take j (bitems u) @ bitems u ! j # drop (Suc j) (bitems u)"
    using j by (simp_all add: upd_conv_take_nth_drop id_take_nth_drop)
  have "esum ((bitems u)[j := it]) + esum [bitems u ! j] = esum (bitems u) + esum [it]"
    unfolding e(1) by (subst (3) e(2)) simp
  then have "esum ((bitems u)[j := it]) \<le> esum (bitems u) + esum [it]" by simp
  then have "(of_nat (esum ((bitems u)[j := it])) :: rat) \<le> of_nat (esum (bitems u)) + of_nat (esum [it])"
    by (simp only: of_nat_le_iff flip: of_nat_add)
  moreover have "small_items ((bitems u)[j := it])"
  proof -
    have "small_items (bitems u)" using assms(1) by (simp add: node_fits_def)
    then have "small_items (take j (bitems u) @ bitems u ! j # drop (Suc j) (bitems u))" using e(2) by simp
    then show ?thesis unfolding e(1) using assms(2) by simp
  qed
  ultimately show ?thesis using True assms(1) s by (simp add: stored_items_def node_fits_def nodeSize_esum)
qed

section \<open>Nodes that the transaction may write\<close>

text \<open>
  \<open>n\<close> may be written while the pages \<open>P\<close> are in use: every other changed node lies before it in
  memory, and the changed nodes of \<open>P\<close> are in other arrays.
\<close>

definition writable :: "tx \<Rightarrow> pgnum set \<Rightarrow> gonode \<Rightarrow> bool" where
  "writable t P n \<longleftrightarrow> owns t n \<and> (\<forall>q \<in> P. \<forall>m. q \<noteq> pageNum n \<and> dirtyNodes t q = Some m \<longrightarrow> gapart n m)"

definition path_owned :: "tx \<Rightarrow> pgnum set \<Rightarrow> bool" where
  "path_owned t P \<longleftrightarrow> (\<forall>p \<in> P. \<forall>n. dirtyNodes t p = Some n \<longrightarrow> writable t P n)"

definition fresh_in :: "tx \<Rightarrow> gonode \<Rightarrow> bool" where
  "fresh_in t n \<longleftrightarrow> length (itemArrays (mem t)) \<le> sarr (items n) \<and> length (pgArrays (mem t)) \<le> sarr (childNodes n)"

text \<open>A node as \<open>getNode\<close> returns it: the changed one, or a copy in new arrays.\<close>

definition got :: "tx \<Rightarrow> gonode \<Rightarrow> bool" where
  "got t n \<longleftrightarrow> dirtyNodes t (pageNum n) = Some n \<or> dirtyNodes t (pageNum n) = None \<and> fresh_in t n"

lemma fresh_apart: "fresh_in t n \<Longrightarrow> gvalid (mem t) x \<Longrightarrow> gapart x n"
  by (simp add: fresh_in_def gapart_fresh)

lemma got_writable:
  assumes "tx_ok t" and "path_owned t P" and "pageNum n \<in> P" and "got t n"
  shows "writable t P n"
proof (cases "dirtyNodes t (pageNum n)")
  case None
  then have f: "fresh_in t n" using assms(4) by (simp add: got_def)
  have "gapart m n" if "dirtyNodes t q = Some m" for q m
    using fresh_apart [OF f] assms(1) that by (simp add: tx_ok_def)
  then show ?thesis by (auto simp: writable_def owns_def intro: gapart_before gapart_sym)
next
  case (Some m)
  then show ?thesis using assms(2-4) by (auto simp: got_def path_owned_def)
qed

lemma got_apart:
  assumes "tx_ok t" and "path_owned t P" and "pageNum n \<in> P" and "got t n" and "reads t t1" and "gvalid (mem t1) n"
    and "pageNum m \<in> P" and "got t1 m" and "pageNum m \<noteq> pageNum n"
  shows "gapart n m"
proof (cases "dirtyNodes t1 (pageNum m)")
  case None
  then have "fresh_in t1 m" using assms(8) by (simp add: got_def)
  then show ?thesis using assms(6) by (rule fresh_apart)
next
  case (Some m')
  then have "dirtyNodes t (pageNum m) = Some m" using assms(8) reads_fields(1) [OF assms(5)] by (simp add: got_def)
  then show ?thesis using got_writable [OF assms(1-4)] assms(7,9) by (simp add: writable_def)
qed

lemma got_reads:
  assumes "got t1 m" and "reads t t1"
  shows "got t m"
  using assms reads_fields(1,8) [OF assms(2)] by (auto simp: got_def fresh_in_def gmem_ext_def mem_ext_def)

lemma path_owned_reads: "reads t t1 \<Longrightarrow> path_owned t P \<Longrightarrow> path_owned t1 P"
  and owns_reads: "reads t t1 \<Longrightarrow> owns t n \<Longrightarrow> owns t1 n"
  by (simp_all add: path_owned_def writable_def owns_def reads_fields(1))

text \<open>Writing a writable node keeps all this.\<close>

lemma path_owned_store:
  assumes "tx_ok t" and "path_owned t P" and "writable t P n" and "pageNum n \<in> P" and "gupd (mem t) n m' n'"
    and "t' = t\<lparr>mem := m', dirtyNodes := (dirtyNodes t)(pageNum n \<mapsto> n')\<rparr>"
  shows "path_owned t' P"
proof -
  have num: "pageNum n' = pageNum n" using assms(5) by (simp add: gupd_def)
  have dn: "dirtyNodes t' = (dirtyNodes t)(pageNum n \<mapsto> n')" using assms(6) by simp
  have v: "gvalid (mem t) x \<and> pageNum x = q" if "dirtyNodes t q = Some x" for q x using assms(1) that by (simp add: tx_ok_def)
  have ap: "gapart x n'" if "dirtyNodes t q = Some x" "q \<in> P" "q \<noteq> pageNum n" for q x
  proof -
    have "gapart n x" using assms(3) that unfolding writable_def by blast
    then show ?thesis using gupd_apart [OF assms(5)] v [OF that(1)] gapart_sym by blast
  qed
  have new: "owns t' n'"
    unfolding owns_def
  proof (intro allI impI)
    fix q x assume "dirtyNodes t' q = Some x \<and> q \<noteq> pageNum n'"
    then have x: "dirtyNodes t q = Some x" "q \<noteq> pageNum n" using dn num by (auto split: if_split_asm)
    then have "gbefore x n" using assms(3) unfolding writable_def owns_def by blast
    then show "gbefore x n'" using gupd_other(3) [OF assms(5)] v [OF x(1)] by blast
  qed
  have old: "owns t' x" if x: "dirtyNodes t p = Some x" "p \<in> P" "p \<noteq> pageNum n" for p x
  proof -
    have "owns t x" using assms(2) x unfolding path_owned_def writable_def by blast
    moreover have "gbefore n' x" using gapart_before [OF gapart_sym [OF ap [OF x]]] .
    ultimately show ?thesis using dn by (auto simp: owns_def)
  qed
  show ?thesis
    unfolding path_owned_def writable_def
  proof (intro ballI allI impI conjI)
    fix p x assume p: "p \<in> P" "dirtyNodes t' p = Some x"
    show "owns t' x" using new old p dn by (auto split: if_split_asm)
    fix q y assume q: "q \<in> P" "q \<noteq> pageNum x \<and> dirtyNodes t' q = Some y"
    show "gapart x y"
    proof (cases "p = pageNum n")
      case True
      then have "x = n'" "q \<noteq> pageNum n" "dirtyNodes t q = Some y" using p q dn num by auto
      then show ?thesis using ap q(1) gapart_sym by blast
    next
      case False
      then have x: "dirtyNodes t p = Some x" using p dn by simp
      show ?thesis
      proof (cases "q = pageNum n")
        case True
        then show ?thesis using q dn ap [OF x p(1) False] by simp
      next
        case qn: False
        then have "dirtyNodes t q = Some y" using q dn by simp
        then show ?thesis using assms(2) x p(1) q unfolding path_owned_def writable_def by blast
      qed
    qed
  qed
qed

lemma store_view:
  assumes "tx_ok t" and "owns t n" and "gupd (mem t) n m' n'" and "contents m' n' = c"
    and "t' = t\<lparr>mem := m', dirtyNodes := (dirtyNodes t)(pageNum n \<mapsto> n')\<rparr>" and "pageNum n \<in> tx_used t"
  shows "tx_view d t' = (tx_view d t)(pageNum n \<mapsto> c)" and "tx_ok t'"
proof -
  have dn: "dirtyNodes t' = (dirtyNodes t)(pageNum n \<mapsto> n')" "mem t' = m'" using assms(5) by simp_all
  have mf: "mem_frame [n] t t'" using gupd_mem_frame [of t n t' n'] assms(3) dn(2) by simp
  have oth: "gvalid m' x \<and> contents m' x = contents (mem t) x" if "dirtyNodes t q = Some x" "q \<noteq> pageNum n" for q x
    using owned_others [OF assms(1,2) mf that] dn(2) by simp
  show "tx_view d t' = (tx_view d t)(pageNum n \<mapsto> c)"
  proof
    show "tx_view d t' p = ((tx_view d t)(pageNum n \<mapsto> c)) p" for p
      using oth assms(4) by (auto simp: tx_view_def dn split: option.split)
  qed
  show "tx_ok t'"
    using oth assms(1,6) gupd_valid [OF assms(3)] assms(3) assms(5) unfolding tx_ok_def dn
    by (auto simp: gupd_def tx_used_def split: if_split_asm)
qed


section \<open>The nodes on the path\<close>

lemma path_pages_subset: "valid_path path T \<Longrightarrow> set (path_pages path T) \<subseteq> set (page_list T)"
proof (induction path arbitrary: T)
  case (Cons i rest)
  then have "set (path_pages rest (bsubs T ! i)) \<subseteq> set (page_list (bsubs T ! i))" "i < length (bsubs T)" by simp_all
  then show ?case by (auto simp: page_list_eq [of T])
next
  case Nil
  show ?case by (simp add: page_list_eq [of T])
qed

lemma path_pages_last: "valid_path path T \<Longrightarrow> bpage (path_sub path T) \<in> set (path_pages path T)"
  by (induction path arbitrary: T) simp_all

lemma path_sub_fits: "tree_fits b 0 T \<Longrightarrow> valid_path path T \<Longrightarrow> tree_fits b 0 (path_sub path T)"
proof (induction path arbitrary: T)
  case (Cons i rest)
  then have "all_nodes (node_fits b 0) (bsubs T ! i)" by (simp add: tree_fits_def list_all_length)
  then show ?case using Cons by (simp add: tree_fits_0)
qed simp

lemma path_pages_head: "bpage T \<in> set (path_pages path T)"
  by (cases path) simp_all

lemma getNodes_loop_spec:
  assumes "valid_path path T" and "tree_at (tx_view d t) T" and "distinct (page_list T)" and "tx_ok t"
    and "path_owned t P" and "set (path_pages path T) \<subseteq> P" and "gvalid (mem t) n" and "contents (mem t) n = bcontent T"
  shows "\<exists>ns t'. getNodes_loop d n path t = Some (Inr ns, t') \<and> reads t t' \<and> length ns = length path
    \<and> on_path T (zip path ns) \<and> sorted_wrt gapart ns
    \<and> (\<forall>m \<in> set ns. gvalid (mem t') m \<and> tx_view d t' (pageNum m) = Some (contents (mem t') m) \<and> got t m
        \<and> pageNum m \<in> set (path_pages path T) - {bpage T})"
  using assms
proof (induction path arbitrary: T t n)
  case Nil
  then show ?case by (intro exI [of _ "[]"] exI [of _ t]) simp
next
  case (Cons i rest)
  let ?S = "bsubs T ! i"
  have i: "i < length (bsubs T)" "valid_path rest ?S" using Cons.prems(1) by simp_all
  note v = tree_at_child [OF Cons.prems(2) i(1)] and dk = distinct_sub_pages [OF Cons.prems(3) i(1)]
  obtain n1 t1 where g: "tx_getNode d (bpage ?S) t = Some (Inr n1, t1)" "reads t t1" "gvalid (mem t1) n1"
    "contents (mem t1) n1 = bcontent ?S" "pageNum n1 = bpage ?S"
    "dirtyNodes t (bpage ?S) = Some n1 \<and> t1 = t \<or> dirtyNodes t (bpage ?S) = None
      \<and> length (itemArrays (mem t)) \<le> sarr (items n1) \<and> length (pgArrays (mem t)) \<le> sarr (childNodes n1)"
    by (rule tx_getNode_view [OF Cons.prems(4) v(2)])
  have g1: "got t n1" using g(5,6) by (auto simp: got_def fresh_in_def)
  have pg: "get_pg (childNodes n) i t = Some (Inr (bpage ?S), t)"
    using get_pg_eq [OF Cons.prems(7), of i] i(1) by (simp add: Cons.prems(8))
  have t1: "tree_at (tx_view d t1) ?S" "tx_ok t1"
    using v(1) reads_view [OF g(2) Cons.prems(4)] reads_ok [OF g(2) Cons.prems(4)] by simp_all
  have P: "set (path_pages rest ?S) \<subseteq> P" "pageNum n1 \<in> P"
    using Cons.prems(6) path_pages_head [of ?S rest] g(5) by auto
  obtain ns t' where ih: "getNodes_loop d n1 rest t1 = Some (Inr ns, t')" "reads t1 t'" "length ns = length rest"
    "on_path ?S (zip rest ns)" "sorted_wrt gapart ns"
    "\<forall>m \<in> set ns. gvalid (mem t') m \<and> tx_view d t' (pageNum m) = Some (contents (mem t') m) \<and> got t1 m
        \<and> pageNum m \<in> set (path_pages rest ?S) - {bpage ?S}"
    using Cons.IH [OF i(2) t1(1) dk(1) t1(2) path_owned_reads [OF g(2) Cons.prems(5)] P(1) g(3,4)] by blast
  have e: "getNodes_loop d n (i # rest) t = Some (Inr (n1 # ns), t')"
    using pg g(1) ih(1) by (simp add: bindM_def)
  have n1: "gvalid (mem t') n1" "tx_view d t' (pageNum n1) = Some (contents (mem t') n1)"
    using gmem_ext_node [OF reads_fields(8) [OF ih(2)] g(3)] reads_view [OF ih(2) t1(2)] tree_at_root [OF t1(1)] g(4,5)
    by simp_all
  have ap: "gapart n1 m" if "m \<in> set ns" for m
  proof -
    have "pageNum m \<in> set (path_pages rest ?S) - {bpage ?S}" "got t1 m" using ih(6) that by blast+
    then have "pageNum m \<in> P" "pageNum m \<noteq> pageNum n1" using P(1) g(5) by auto
    with \<open>got t1 m\<close> show ?thesis by (intro got_apart [OF Cons.prems(4,5) P(2) g1 g(2,3)])
  qed
  have pgs: "set (path_pages rest ?S) \<subseteq> set (page_list ?S)" by (rule path_pages_subset [OF i(2)])
  have num: "pageNum m \<in> set (path_pages (i # rest) T) - {bpage T}" if "m \<in> set (n1 # ns)" for m
  proof -
    have "pageNum m \<in> set (path_pages rest ?S)"
      using that ih(6) g(5) path_pages_head [of ?S rest] by auto
    then show ?thesis using pgs dk(2) by auto
  qed
  have "\<forall>m \<in> set (n1 # ns). gvalid (mem t') m \<and> tx_view d t' (pageNum m) = Some (contents (mem t') m) \<and> got t m
      \<and> pageNum m \<in> set (path_pages (i # rest) T) - {bpage T}"
  proof
    fix m assume m: "m \<in> set (n1 # ns)"
    have "gvalid (mem t') m \<and> tx_view d t' (pageNum m) = Some (contents (mem t') m) \<and> got t m"
    proof (cases "m = n1")
      case True
      show ?thesis unfolding True using n1 g1 by blast
    next
      case False
      then have "m \<in> set ns" using m by simp
      then have "gvalid (mem t') m" "tx_view d t' (pageNum m) = Some (contents (mem t') m)" "got t1 m" using ih(6) by blast+
      then show ?thesis using got_reads [OF _ g(2)] by blast
    qed
    with num [OF m] show "gvalid (mem t') m \<and> tx_view d t' (pageNum m) = Some (contents (mem t') m) \<and> got t m
      \<and> pageNum m \<in> set (path_pages (i # rest) T) - {bpage T}" by blast
  qed
  moreover have "sorted_wrt gapart (n1 # ns)" using ap ih(5) by simp
  moreover have "on_path T (zip (i # rest) (n1 # ns))" using i(1) g(5) ih(4) by simp
  moreover have "length (n1 # ns) = length (i # rest)" using ih(3) by simp
  ultimately show ?case using e reads_trans [OF g(2) ih(2)] by blast
qed

lemma getNodes_spec:
  assumes "valid_path path T" and "tree_at (tx_view d t) T" and "distinct (page_list T)" and "tx_ok t"
    and "path_owned t (set (path_pages path T))" and "c_root c = bpage T"
  obtains n ns t' where "getNodes d c (x # path) t = Some (Inr (n # ns), t')" and "reads t t'" and "length ns = length path"
    and "on_path T (zip path ns)" and "sorted_wrt gapart (n # ns)" and "pageNum n = bpage T"
    and "\<forall>m \<in> set (n # ns). held d t' m \<and> owns t' m \<and> got t m"
proof -
  let ?P = "set (path_pages path T)"
  have v: "tx_view d t (c_root c) = Some (bcontent T)" using tree_at_root [OF assms(2)] assms(6) by simp
  obtain n t1 where g: "tx_getNode d (c_root c) t = Some (Inr n, t1)" "reads t t1" "gvalid (mem t1) n"
    "contents (mem t1) n = bcontent T" "pageNum n = c_root c"
    "dirtyNodes t (c_root c) = Some n \<and> t1 = t \<or> dirtyNodes t (c_root c) = None
      \<and> length (itemArrays (mem t)) \<le> sarr (items n) \<and> length (pgArrays (mem t)) \<le> sarr (childNodes n)"
    by (rule tx_getNode_view [OF assms(4) v])
  have g1: "got t n" using g(5,6) by (auto simp: got_def fresh_in_def)
  have t1: "tree_at (tx_view d t1) T" "tx_ok t1"
    using assms(2) reads_view [OF g(2) assms(4)] reads_ok [OF g(2) assms(4)] by simp_all
  obtain ns t' where l: "getNodes_loop d n path t1 = Some (Inr ns, t')" "reads t1 t'" "length ns = length path"
    "on_path T (zip path ns)" "sorted_wrt gapart ns"
    "\<forall>m \<in> set ns. gvalid (mem t') m \<and> tx_view d t' (pageNum m) = Some (contents (mem t') m) \<and> got t1 m
        \<and> pageNum m \<in> ?P - {bpage T}"
    using getNodes_loop_spec [OF assms(1) t1(1) assms(3) t1(2) path_owned_reads [OF g(2) assms(5)] subset_refl g(3,4)] by blast
  have e: "getNodes d c (x # path) t = Some (Inr (n # ns), t')"
    using g(1) l(1) by (simp add: getNodes_def bindM_def)
  have p: "pageNum n = bpage T" "pageNum n \<in> ?P" using g(5) assms(6) path_pages_head by simp_all
  have n: "gvalid (mem t') n" "tx_view d t' (pageNum n) = Some (contents (mem t') n)"
    using gmem_ext_node [OF reads_fields(8) [OF l(2)] g(3)] reads_view [OF l(2) t1(2)] tree_at_root [OF t1(1)] g(4) p(1)
    by simp_all
  have rt: "reads t t'" by (rule reads_trans [OF g(2) l(2)])
  have fin: "held d t' m \<and> owns t' m \<and> got t m" if "gvalid (mem t') m" "tx_view d t' (pageNum m) = Some (contents (mem t') m)"
    "got t m" "pageNum m \<in> ?P" for m
  proof -
    have "owns t m" using got_writable [OF assms(4,5) that(4,3)] by (simp add: writable_def)
    then show ?thesis
      using that(1-3) owns_reads [OF rt] by (auto simp: held_def got_def reads_fields(1) [OF rt])
  qed
  have ap: "gapart n m" if "m \<in> set ns" for m
  proof -
    have "pageNum m \<in> ?P - {bpage T}" "got t1 m" using l(6) that by blast+
    then have "pageNum m \<in> ?P" "pageNum m \<noteq> pageNum n" using p(1) by auto
    with \<open>got t1 m\<close> show ?thesis by (intro got_apart [OF assms(4,5) p(2) g1 g(2,3)])
  qed
  have "\<forall>m \<in> set (n # ns). held d t' m \<and> owns t' m \<and> got t m"
  proof
    fix m assume "m \<in> set (n # ns)"
    then consider "m = n" | "m \<in> set ns" by auto
    then show "held d t' m \<and> owns t' m \<and> got t m"
    proof cases
      case 1
      then show ?thesis using fin [OF n g1 p(2)] by simp
    next
      case 2
      then have "gvalid (mem t') m" "tx_view d t' (pageNum m) = Some (contents (mem t') m)" "got t1 m" "pageNum m \<in> ?P"
        using l(6) by blast+
      then show ?thesis using fin got_reads [OF _ g(2)] by blast
    qed
  qed
  then show thesis using that [OF e rt l(3,4) _ p(1)] ap l(5) by simp
qed


section \<open>The invariant of a collection in a transaction\<close>

text \<open>
  The pages of the transaction hold the tree \<open>T\<close> of height \<open>h\<close>: balanced, ordered, on different
  allocated pages; with \<open>tree_inv\<close>, every node within the upper threshold \<open>b\<close>.
\<close>

definition tree_ok :: "dal \<Rightarrow> tx \<Rightarrow> nat \<Rightarrow> btree \<Rightarrow> bool" where
  "tree_ok d t h T \<longleftrightarrow> tx_ok t \<and> bal h T \<and> sorted_items (inorder T) \<and> tree_at (tx_view d t) T
     \<and> distinct (page_list T) \<and> set (page_list T) \<subseteq> tx_used t"

definition tree_inv :: "dal \<Rightarrow> rat \<Rightarrow> tx \<Rightarrow> nat \<Rightarrow> btree \<Rightarrow> bool" where
  "tree_inv d b t h T \<longleftrightarrow> tx_ok t \<and> bal h T \<and> sorted_items (inorder T) \<and> tree_at (tx_view d t) T
     \<and> distinct (page_list T) \<and> set (page_list T) \<subseteq> tx_used t \<and> tree_fits b 0 T"

text \<open>The path a \<open>Put\<close> of key \<open>k\<close> takes may be written.\<close>

definition put_safe :: "tx \<Rightarrow> btree \<Rightarrow> bytes \<Rightarrow> bool" where
  "put_safe t T k = (case search T k of (_, _, _, path) \<Rightarrow> path_owned t (set (path_pages path T)))"

lemma put_safe_clean: "dirtyNodes t = Map.empty \<Longrightarrow> put_safe t T k"
  by (simp add: put_safe_def path_owned_def split: prod.split)

lemma valid_path_store [simp]:
  "valid_path path T \<Longrightarrow> valid_path path (store_at path its T)"
  "valid_path path T \<Longrightarrow> path_pages path (store_at path its T) = path_pages path T"
  by (induction path arbitrary: T) simp_all

lemma tx_used_ne_0: "0 \<notin> tx_used t"
  by (simp add: tx_used_def freelist_used_def split: option.split)

lemma item_validate_small: "item_validate ps it = Inr () \<Longrightarrow> small_items [it]"
  by (simp add: item_validate_def node_validate_Inr NewNodeForSerialization_def)

section \<open>The search and one changed node\<close>

text \<open>A writable node of the tree gets new items and is stored.\<close>

lemma store_tree:
  assumes "tx_ok t" and "tree_at (tx_view d t) T" and "distinct (page_list T)" and "set (page_list T) \<subseteq> tx_used t"
    and "valid_path path T" and "path_sub path T = u" and "writable t P n" and "pageNum n = bpage u" and "bpage u \<in> P"
    and "gupd (mem t) n m' n'" and "contents m' n' = \<lparr>n_items = its, n_children = map bpage (bsubs u)\<rparr>" and "path_owned t P"
    and "t' = t\<lparr>mem := m', dirtyNodes := (dirtyNodes t)(bpage u \<mapsto> n')\<rparr>"
  shows "tx_ok t'" and "tree_at (tx_view d t') (store_at path its T)" and "path_owned t' P" and "page_frame d T t t'"
    and "tx_used t' = tx_used t"
proof -
  have e: "t' = t\<lparr>mem := m', dirtyNodes := (dirtyNodes t)(pageNum n \<mapsto> n')\<rparr>" using assms(8,13) by simp
  have pg: "bpage u \<in> set (page_list T)" using path_sub_page [OF assms(5)] assms(6) by auto
  then have "pageNum n \<in> tx_used t" using assms(4,8) by auto
  note sv = store_view [OF assms(1) _ assms(10,11) e this]
  have v: "tx_view d t' = (tx_view d t)(bpage u \<mapsto> \<lparr>n_items = its, n_children = map bpage (bsubs u)\<rparr>)" "tx_ok t'"
    using sv assms(7,8) by (simp_all add: writable_def)
  show "tx_ok t'" by (rule v(2))
  show "tree_at (tx_view d t') (store_at path its T)" unfolding v(1) by (rule tree_at_store [OF assms(2,3,5,6)])
  show "path_owned t' P" by (rule path_owned_store [OF assms(1,12,7) _ assms(10) e]) (simp add: assms(8,9))
  show "page_frame d T t t'" using pg unfolding page_frame_def v(1) by (auto simp: e assms(8))
  show "tx_used t' = tx_used t" by (simp add: tx_used_def e)
qed

lemma writable_reads: "reads t t1 \<Longrightarrow> writable t P n \<Longrightarrow> writable t1 P n"
  by (simp add: writable_def owns_def reads_fields(1))

lemma page_frame_reads:
  assumes "tx_ok t" and "reads t t1" and "page_frame d T t1 t2"
  shows "page_frame d T t t2"
  using assms(3) reads_view [OF assms(2,1)] reads_fields(1,2) [OF assms(2)] by (simp add: page_frame_def tx_used_def)

lemma page_frame_then_reads:
  assumes "page_frame d T t t1" and "tx_ok t1" and "reads t1 t2"
  shows "page_frame d T t t2"
  using assms(1) reads_view [OF assms(3,2)] reads_fields(1) [OF assms(3)] by (simp add: page_frame_def)

lemma tree_inv_ok: "tree_inv d b t h T \<Longrightarrow> tree_ok d t h T"
  by (simp add: tree_inv_def tree_ok_def)

lemma tree_inv_used: "tree_inv d b t h T \<Longrightarrow> tx_ok t" "tree_inv d b t h T \<Longrightarrow> distinct (page_list T)"
  "tree_inv d b t h T \<Longrightarrow> set (page_list T) \<subseteq> tx_used t" "tree_inv d b t h T \<Longrightarrow> tree_at (tx_view d t) T"
  by (simp_all add: tree_inv_def)

lemma node_lengths:
  assumes "gvalid m n" and "contents m n = bcontent u"
  shows "slen (items n) = length (bitems u)" and "slen (childNodes n) = length (bsubs u)"
  using assms by (auto simp: gvalid_def contents_def bcontent_def dest!: arg_cong [of _ _ length])

lemma findKey_got:
  assumes inv: "tree_ok d t h T" and rt: "c_root c = bpage T" and s: "search T k = (f, j, u, path)"
  obtains root t0 n t1 where "tx_getNode d (c_root c) t = Some (Inr root, t0)"
    and "findKey d root k exact t0 = Some (Inr (if f \<or> \<not> exact then (j, Some n, 0 # path) else (0, None, 0 # path)), t1)"
    and "reads t t1" and "gvalid (mem t1) n" and "contents (mem t1) n = bcontent u" and "pageNum n = bpage u" and "got t n"
proof -
  note obt = that
  have i: "tx_ok t" "bal h T" "sorted_items (inorder T)" "tree_at (tx_view d t) T" using inv by (simp_all add: tree_ok_def)
  have v: "tx_view d t (c_root c) = Some (bcontent T)" using tree_at_root [OF i(4)] rt by simp
  obtain root t0 where g: "tx_getNode d (c_root c) t = Some (Inr root, t0)" "reads t t0" "gvalid (mem t0) root"
    "contents (mem t0) root = bcontent T" "pageNum root = c_root c"
    "dirtyNodes t (c_root c) = Some root \<and> t0 = t \<or> dirtyNodes t (c_root c) = None
      \<and> length (itemArrays (mem t)) \<le> sarr (items root) \<and> length (pgArrays (mem t)) \<le> sarr (childNodes root)"
    by (rule tx_getNode_view [OF i(1) v])
  have t0: "tree_at (tx_view d t0) T" "tx_ok t0"
    using i(4) reads_view [OF g(2) i(1)] reads_ok [OF g(2) i(1)] by simp_all
  obtain t1 n where fk: "findKeyHelper d root k exact [0] t0
      = Some (Inr (if f \<or> \<not> exact then (j, Some n, [0] @ path) else (0, None, [0] @ path)), t1)"
    "reads t0 t1" "gvalid (mem t1) n" "contents (mem t1) n = bcontent u" "pageNum n = bpage u"
    "path \<noteq> [] \<longrightarrow> dirtyNodes t0 (bpage u) = Some n \<or> dirtyNodes t0 (bpage u) = None
      \<and> length (itemArrays (mem t0)) \<le> sarr (items n) \<and> length (pgArrays (mem t0)) \<le> sarr (childNodes n)"
    "path = [] \<longrightarrow> n = root \<and> u = T"
    using findKeyHelper_spec [OF i(2,3) t0 g(3,4) _ s, of exact "[0]"] unfolding g(5) rt by blast
  have "got t n"
  proof (cases "path = []")
    case True
    then show ?thesis using fk(7) g(5,6) by (auto simp: got_def fresh_in_def)
  next
    case False
    then have "got t0 n" using fk(5,6) by (auto simp: got_def fresh_in_def)
    then show ?thesis by (rule got_reads [OF _ g(2)])
  qed
  then show thesis
    by (intro obt [OF g(1) _ reads_trans [OF g(2) fk(2)] fk(3-5)]) (use fk(1) in \<open>simp_all add: findKey_def\<close>)
qed

section \<open>Put\<close>

text \<open>The first part: the item is stored and the nodes on the path are at hand.\<close>

definition ready :: "dal \<Rightarrow> rat \<Rightarrow> tx \<Rightarrow> nat \<Rightarrow> btree \<Rightarrow> item \<Rightarrow> nat list \<Rightarrow> gonode \<Rightarrow> gonode list \<Rightarrow> tx \<Rightarrow> btree \<Rightarrow> bool" where
  "ready d b t h T it path n ns t' T' \<longleftrightarrow> tx_ok t' \<and> bal h T' \<and> inorder T' = ins_item it (inorder T) \<and> bpage T' = bpage T
     \<and> page_list T' = page_list T \<and> tree_at (tx_view d t') T' \<and> path_fits b path T' \<and> length path \<le> h \<and> length ns = length path
     \<and> on_path T' (zip path ns) \<and> sorted_wrt gapart (n # ns) \<and> pageNum n = bpage T \<and> (\<forall>m \<in> set (n # ns). held d t' m \<and> owns t' m)
     \<and> t' = t\<lparr>mem := mem t', dirtyNodes := dirtyNodes t'\<rparr> \<and> page_frame d T t t'"

lemma put_store:
  assumes inv: "tree_inv d b t h T" and rt: "c_root c = bpage T" and sm: "small_items [it]" and ps: "put_safe t T (item_key it)"
  obtains root t0 j node path t1 t2 n2 n ns t3 T' where "tx_getNode d (c_root c) t = Some (Inr root, t0)"
    and "findKey d root (item_key it) False t0 = Some (Inr (j, Some node, 0 # path), t1)"
    and "storeItem node j (item_key it) it t1 = Some (Inr n2, t2)"
    and "getNodes d c (0 # path) t2 = Some (Inr (n # ns), t3)"
    and "ready d b t h T it path n ns t3 T'"
proof -
  note obt = that
  let ?k = "item_key it"
  have i: "tx_ok t" "bal h T" "sorted_items (inorder T)" "tree_at (tx_view d t) T" "distinct (page_list T)" "tree_fits b 0 T"
    "set (page_list T) \<subseteq> tx_used t"
    using inv by (simp_all add: tree_inv_def)
  obtain f j u path where s: "search T ?k = (f, j, u, path)" by (rule prod_cases4)
  let ?P = "set (path_pages path T)"
  have po: "path_owned t ?P" using ps s by (simp add: put_safe_def)
  note sp = search_path [OF i(2,3) s]
  have vu: "valid_path path T" "path_sub path T = u" "length path \<le> h" using sp by simp_all
  obtain root t0 t1 n' where g: "tx_getNode d (c_root c) t = Some (Inr root, t0)"
    and fk': "findKey d root ?k False t0 = Some (Inr (if f \<or> \<not> False then (j, Some n', 0 # path) else (0, None, 0 # path)), t1)"
    and r1: "reads t t1" and fk: "gvalid (mem t1) n'" "contents (mem t1) n' = bcontent u" "pageNum n' = bpage u" "got t n'"
    by (rule findKey_got [OF tree_inv_ok [OF inv] rt s])
  have uP: "bpage u \<in> ?P" using vu path_pages_last by metis
  have w: "writable t1 ?P n'" using writable_reads [OF r1 got_writable [OF i(1) po _ fk(4)]] uP fk(3) by simp
  have ok1: "tx_ok t1" "tree_at (tx_view d t1) T" "set (page_list T) \<subseteq> tx_used t1"
    using i reads_ok [OF r1] reads_view [OF r1] by (simp_all add: tx_used_def reads_fields(2) [OF r1])
  have hit: "if f then j < length (bitems u) \<and> item_key (bitems u ! j) = ?k
      else j \<le> length (bitems u) \<and> (j < length (bitems u) \<longrightarrow> item_key (bitems u ! j) \<noteq> ?k)"
    using sp search_missing_key s by (cases f) auto
  let ?its = "stored_items f j it (bitems u)"
  obtain m2 n2 where st: "storeItem n' j ?k it t1 = Some (Inr n2, t1\<lparr>mem := m2, dirtyNodes := (dirtyNodes t1)(pageNum n' \<mapsto> n2)\<rparr>)"
    "gupd (mem t1) n' m2 n2" "contents m2 n2 = \<lparr>n_items = ?its, n_children = map bpage (bsubs u)\<rparr>"
    by (rule storeItem_spec [OF fk(1,2) hit])
  let ?t2 = "t1\<lparr>mem := m2, dirtyNodes := (dirtyNodes t1)(bpage u \<mapsto> n2)\<rparr>" and ?T = "store_at path ?its T"
  note sv = store_tree [OF ok1(1,2) i(5) ok1(3) vu(1,2) w fk(3) uP st(2,3) path_owned_reads [OF r1 po] refl]
  have po2: "path_owned ?t2 (set (path_pages path ?T))" using sv(3) vu(1) by simp
  have vp2: "valid_path path ?T" "distinct (page_list ?T)" "c_root c = bpage ?T" using vu(1) i(5) rt by simp_all
  obtain n ns t3 where gn: "getNodes d c (0 # path) ?t2 = Some (Inr (n # ns), t3)" "reads ?t2 t3" "length ns = length path"
    "on_path ?T (zip path ns)" "sorted_wrt gapart (n # ns)" "pageNum n = bpage ?T" "\<forall>m \<in> set (n # ns). held d t3 m \<and> owns t3 m \<and> got ?t2 m"
    by (rule getNodes_spec [OF vp2(1) sv(2) vp2(2) sv(1) po2 vp2(3)])
  have b2: "bal h ?T"
  proof (rule bal_store_at [OF i(2) vu(1)])
    show "bsubs (path_sub path T) = [] \<or> length ?its = length (bitems (path_sub path T))"
      using sp by (cases f) (auto simp: stored_items_def)
  qed
  have fu: "node_fits b 0 (bcontent u)" "list_all (all_nodes (node_fits b 0)) (bsubs u)"
    using path_sub_fits [OF i(6) vu(1)] vu(2) by (simp_all add: tree_fits_def)
  have "node_fits b 518 \<lparr>n_items = ?its, n_children = map bpage (bsubs u)\<rparr>"
    by (rule stored_items_fit [OF fu(1) sm]) (use sp in auto)
  then have "tree_fits b 518 (BNode (bpage u) ?its (bsubs u))" using fu(2) by (simp add: tree_fits_def bcontent_def)
  then have pf: "path_fits b path ?T" by (rule path_fits_store [OF i(6) vu(1,2)])
  have ino: "inorder ?T = ins_item it (inorder T)" by (rule inorder_stored [OF i(2,3) s])
  have at3: "tree_at (tx_view d t3) ?T" using sv(2) reads_view [OF gn(2) sv(1)] by simp
  have rest: "t3 = t\<lparr>mem := mem t3, dirtyNodes := dirtyNodes t3\<rparr>"
    using r1 gn(2) by (cases t; cases t1; cases t3) (simp add: reads_def)
  have pg: "page_frame d T t t3"
    by (rule page_frame_reads [OF i(1) r1 page_frame_then_reads [OF sv(4,1) gn(2)]])
  have rd: "ready d b t h T it path n ns t3 ?T"
    unfolding ready_def using reads_ok [OF gn(2) sv(1)] b2 ino at3 pf vu(3) gn(3-7) rest pg by simp
  show thesis by (rule obt [OF g _ _ gn(1) rd]) (use fk' st(1) fk(3) in simp_all)
qed


lemma tree_step_ready:
  assumes "tree_step d t T t' T'" and "distinct (page_list T)" and "set (page_list T) \<subseteq> tx_used t"
    and "bal h T'" and "sorted_items (inorder T)" and "tree_fits b 0 T'"
  shows "tree_inv d b t' h T'"
  using tree_step_pages [OF assms(1-3)] assms(1,4-6) by (simp add: tree_inv_def tree_step_def)

text \<open>
  A \<open>Put\<close> into a collection whose pages hold the tree \<open>T\<close> returns, and the pages then hold a tree
  with the item stored: at most one level higher, on the old pages and newly allocated ones.
\<close>

lemma put_tree:
  assumes fl: "fill d a b" and inv: "tree_inv d b t h T" and rt: "c_root c = bpage T"
    and rc: "c_rootCollection c \<Longrightarrow> tx_root t = c_root c" and wr: "tx_write t"
    and va: "item_validate (pageSize d) (newItem k v) = Inr ()" and al: "alloc_ok L M t (h + 2 + r)" and ps: "put_safe t T k"
  shows "\<exists>c' t' T' h'. Put d c k v t = Some (Inr c', t') \<and> tree_inv d b t' h' T' \<and> h' \<le> h + 1
    \<and> inorder T' = ins_item (newItem k v) (inorder T) \<and> c_root c' = bpage T' \<and> handle_step c t c' t' \<and> page_frame d T t t'
    \<and> set (page_list T') \<inter> tx_used t = set (page_list T) \<and> tx_used t' = tx_used t \<union> set (page_list T') \<and> alloc_ok L M t' r"
proof -
  let ?it = "newItem k v"
  have i: "distinct (page_list T)" "set (page_list T) \<subseteq> tx_used t" "sorted_items (inorder T)"
    using inv by (simp_all add: tree_inv_def)
  have key: "item_key ?it = k" by (simp add: newItem_def)
  have ps': "put_safe t T (item_key ?it)" using ps key by simp
  obtain root t0 j node path t1 t2 n2 n ns t3 T3 where g: "tx_getNode d (c_root c) t = Some (Inr root, t0)"
    and fk: "findKey d root k False t0 = Some (Inr (j, Some node, 0 # path), t1)"
    and st: "storeItem node j k ?it t1 = Some (Inr n2, t2)"
    and gn: "getNodes d c (0 # path) t2 = Some (Inr (n # ns), t3)"
    and rd: "ready d b t h T ?it path n ns t3 T3"
    by (rule put_store [OF inv rt item_validate_small [OF va] ps', unfolded key])
  have r: "tx_ok t3" "bal h T3" "inorder T3 = ins_item ?it (inorder T)" "bpage T3 = bpage T" "page_list T3 = page_list T"
    "tree_at (tx_view d t3) T3" "path_fits b path T3" "length path \<le> h" "length ns = length path" "on_path T3 (zip path ns)"
    "sorted_wrt gapart (n # ns)" "pageNum n = bpage T3" "\<forall>m \<in> set (n # ns). held d t3 m \<and> owns t3 m"
    "t3 = t\<lparr>mem := mem t3, dirtyNodes := dirtyNodes t3\<rparr>" "page_frame d T t t3"
    using rd by (simp_all add: ready_def)
  have f3: "tx_freelist t3 = tx_freelist t" "tx_write t3 = tx_write t" "tx_root t3 = tx_root t" "collections t3 = collections t"
    "pagesToDelete t3 = pagesToDelete t" "deletedCollections t3 = deletedCollections t"
    using r(14) by (cases t; cases t3; simp)+
  have u3: "tx_used t3 = tx_used t" by (simp add: tx_used_def f3(1))
  let ?below = "zip path ns"
  have lb: "length ?below = length path" "map fst ?below = path" "map snd ?below = ns" using r(9) by simp_all
  have al3: "alloc_ok L M t3 (length ?below + (2 + r))"
    using alloc_ok_mono [OF al, of "length path + (2 + r)"] r(8) lb(1) by (simp add: alloc_ok_def f3(1))
  have d3: "distinct (page_list T3)" "set (page_list T3) \<subseteq> tx_used t3" using i r(5) u3 by simp_all
  obtain t4 n4 T4 where a: "splitAncestors d n ?below t3 = Some (Inr n4, t4)" "tree_step d t3 T3 t4 T4" "bal h T4"
    "tree_fits b 518 T4" "bpage T4 = bpage T3" "held d t4 n4" "pageNum n4 = bpage T3" "alloc_ok L M t4 (2 + r)" "same_rest t3 t4"
    "page_frame d T3 t3 t4"
    using splitAncestors_spec [OF fl r(2,6) d3(1) r(10) _ r(1) _ r(12) _ al3 d3(2)] r(7,11,13) unfolding lb by blast
  note p4 = tree_step_pages [OF a(2) d3]
  have at4: "tx_ok t4" "tree_at (tx_view d t4) T4" "inorder T4 = inorder T3" using a(2) by (simp_all add: tree_step_def)
  have num4: "pageNum n4 = bpage T4" "c_root c = bpage T4" using a(5,7) rt r(4) by simp_all
  have pre: "tx_write t4" "c_rootCollection c \<Longrightarrow> tx_root t4 = c_root c"
    using wr rc f3 same_rest_fields [OF a(9)] by simp_all
  have al4: "alloc_ok L M t4 (Suc (Suc r))" using a(8) by simp
  obtain c' t5 T5 where z: "splitRoot d c n4 t4 = Some (Inr c', t5)" "tree_step d t4 T4 t5 T5" "tree_fits b 0 T5"
    "bal h T5 \<or> bal (Suc h) T5" "c_root c' = bpage T5" "page_frame d T4 t4 t5" "handle_step c t4 c' t5" "alloc_ok L M t5 r"
    using splitRoot_spec [OF fl a(3) at4(2) p4(1) a(4) at4(1) a(6) num4(1) al4 p4(2) pre(1) num4(2) pre(2)] by blast
  have e: "Put d c k v t = Some (Inr c', t5)"
  proof -
    have "c_root c \<noteq> 0" using rt i(2) tx_used_ne_0 [of t] by (auto simp: page_list_eq [of T])
    then show ?thesis
      using wr va g fk st gn a(1) z(1) by (simp add: Put_def bindM_def)
  qed
  note step = tree_step_trans [OF a(2) z(2)] and p5 = tree_step_pages [OF tree_step_trans [OF a(2) z(2)] d3]
  have so: "sorted_items (inorder T3)" using ins_item_sorted [OF i(3)] r(3) by simp
  have inv': "tree_inv d b t5 h' T5" if "bal h' T5" for h' by (rule tree_step_ready [OF step d3 that so z(3)])
  have pf: "page_frame d T t t5"
  proof -
    have "page_frame d T3 t3 t5"
      by (rule page_frame_trans [OF a(10) z(6) p4(3)]) (use p4(5) in simp)
    then show ?thesis
      by (rule page_frame_trans [OF r(15)]) (use u3 r(5) in auto)
  qed
  have hs: "handle_step c t c' t5"
    by (rule handle_step_eq [OF f3(2-6) handle_step_rest [OF a(9) z(7)]])
  have ino: "inorder T5 = ins_item ?it (inorder T)" using step r(3) by (simp add: tree_step_def)
  have pgs: "set (page_list T5) \<inter> tx_used t = set (page_list T)" "tx_used t5 = tx_used t \<union> set (page_list T5)"
    using p5(5,6) u3 r(5) by simp_all
  from z(4) show ?thesis
  proof
    assume "bal h T5"
    from inv' [OF this] show ?thesis using e ino z(5) hs pf pgs z(8) by (intro exI [of _ c'] exI [of _ t5] exI [of _ T5] exI [of _ h]) simp
  next
    assume "bal (Suc h) T5"
    from inv' [OF this] show ?thesis using e ino z(5) hs pf pgs z(8) by (intro exI [of _ c'] exI [of _ t5] exI [of _ T5] exI [of _ "Suc h"]) simp
  qed
qed

end
