(* ===== verification/Tx.thy ===== *)
theory Tx
  imports Collection
begin

text \<open>
  \<^verbatim>\<open>tx.go\<close>: collections of a transaction, commit and rollback. Go iterates over maps in an
  unspecified order; the loops over \<open>collections\<close> and \<open>dirtyNodes\<close> take the order of the
  iteration as an argument.
\<close>

section \<open>Collections\<close>

definition getRootCollection :: "tx \<Rightarrow> collection" where
  "getRootCollection t = newEmptyCollection\<lparr>c_root := tx_root t, c_rootCollection := True\<rparr>"

definition GetCollection :: "dal \<Rightarrow> bytes \<Rightarrow> (tx, collection option) m" where
  "GetCollection d name t =
     (if tx_write t \<and> name \<in> deletedCollections t then Some (Inr None, t)
      else if tx_write t \<and> collections t name \<noteq> None then Some (Inr (collections t name), t)
      else
        bindM (Find d (getRootCollection t) name) (\<lambda>it.
        case it of None \<Rightarrow> returnM None
        | Some it \<Rightarrow>
          bindM (liftM (or_panic (collection_deserialize newEmptyCollection it))) (\<lambda>c.
          bindM (trackCollection c) (\<lambda>_. returnM (Some c)))) t)"

definition createCollection :: "dal \<Rightarrow> collection \<Rightarrow> (tx, collection) m" where
  "createCollection d c t =
     bindM (Put d (getRootCollection t) (c_name c) (item_value (collection_serialize c))) (\<lambda>_ t.
       bindM (trackCollection c) (\<lambda>_. returnM c)
         (t\<lparr>deletedCollections := deletedCollections t - {c_name c}\<rparr>)) t"

definition CreateCollection :: "dal \<Rightarrow> bytes \<Rightarrow> (tx, collection) m" where
  "CreateCollection d name t =
     (if \<not> tx_write t then Some (Inl ErrWriteInsideReadTx, t)
      else
        bindM (literal_items []) (\<lambda>its.
        bindM (literal_pgs []) (\<lambda>cs.
        bindM (tx_newNode its cs) (\<lambda>n.
        bindM (tx_writeNode n) (\<lambda>newCollectionPage.
        createCollection d (newEmptyCollection\<lparr>c_name := name, c_root := pageNum newCollectionPage\<rparr>))))) t)"

definition GetOrCreateCollection :: "dal \<Rightarrow> bytes \<Rightarrow> (tx, collection) m" where
  "GetOrCreateCollection d name =
     bindM (GetCollection d name) (\<lambda>c.
     case c of Some c \<Rightarrow> returnM c | None \<Rightarrow> CreateCollection d name)"

definition DeleteCollection :: "dal \<Rightarrow> bytes \<Rightarrow> (tx, unit) m" where
  "DeleteCollection d name t =
     (if \<not> tx_write t then Some (Inl ErrWriteInsideReadTx, t)
      else
        bindM (Remove d (getRootCollection t) name) (\<lambda>_ t.
          Some (Inr (), t\<lparr>collections := (collections t)(name := None),
                          deletedCollections := insert name (deletedCollections t)\<rparr>)) t)"

section \<open>Commit and rollback\<close>

fun flushCollectionMetadata :: "dal \<Rightarrow> bytes list \<Rightarrow> (tx, unit) m" where
  "flushCollectionMetadata d [] t = Some (Inr (), t)"
| "flushCollectionMetadata d (key # order) t =
     (case collections t key of None \<Rightarrow> flushCollectionMetadata d order t
      | Some c \<Rightarrow>
        if key \<in> deletedCollections t \<or> \<not> c_dirtyMeta c then flushCollectionMetadata d order t
        else
          bindM (Put d (getRootCollection t) (c_name c) (item_value (collection_serialize c))) (\<lambda>_ t.
            flushCollectionMetadata d order
              (t\<lparr>collections := (collections t)(key \<mapsto> c\<lparr>c_dirtyMeta := False\<rparr>)\<rparr>)) t)"

fun commitNodePages :: "dal \<Rightarrow> tx \<Rightarrow> pgnum list \<Rightarrow> page list res" where
  "commitNodePages d t [] = Inr []"
| "commitNodePages d t (num # order) =
     (case dirtyNodes t num of None \<Rightarrow> commitNodePages d t order
      | Some node \<Rightarrow>
        bindR (nodePage d (pageNum node) (contents (mem t) node)) (\<lambda>p.
        bindR (commitNodePages d t order) (\<lambda>ps. Inr (p # ps))))"

definition commitPages :: "dal \<Rightarrow> tx \<Rightarrow> pgnum list \<Rightarrow> (page list \<times> freelist \<times> meta) res" where
  "commitPages d t order =
     (case tx_freelist t of None \<Rightarrow> Inl Panic
      | Some fr \<Rightarrow>
        let nextFreelist = fold releasePage (pagesToDelete t) (freelist_clone fr) in
        bindR (commitNodePages d t order) (\<lambda>pages.
        bindR (or_panic (freelist_serialize nextFreelist (p_data (allocateEmptyPage d)))) (\<lambda>fdata.
        let nextMeta = \<lparr>m_root = tx_root t, m_freelistPage = m_freelistPage (d_meta d)\<rparr> in
        bindR (or_panic (meta_serialize nextMeta (p_data (allocateEmptyPage d)))) (\<lambda>mdata.
        Inr (pages @ [\<lparr>p_num = m_freelistPage (d_meta d), p_data = fdata\<rparr>,
                      \<lparr>p_num = metaPageNum, p_data = mdata\<rparr>],
             nextFreelist, nextMeta)))))"

text \<open>
  The iteration orders of one commit: over the collections, and over the dirty nodes as they
  are after the metadata has been flushed.
\<close>

definition Commit :: "faults \<Rightarrow> bytes list \<Rightarrow> (tx \<Rightarrow> pgnum list) \<Rightarrow> dal \<Rightarrow> tx \<Rightarrow> (unit res \<times> dal) option" where
  "Commit io corder norder d t =
     (if \<not> tx_write t then Some (Inr (), d)
      else
        (case flushCollectionMetadata d corder t of None \<Rightarrow> None
         | Some (Inl e, t) \<Rightarrow> Some (Inl e, d)
         | Some (Inr _, t) \<Rightarrow>
           (case commitPages d t (norder t) of Inl e \<Rightarrow> Some (Inl e, d)
            | Inr (pages, nextFreelist, nextMeta) \<Rightarrow>
              (case applyPagesWithWAL io pages d of
                 (Inl e, d) \<Rightarrow> Some (Inl e, d)
               | (Inr _, d) \<Rightarrow> Some (Inr (), d\<lparr>d_freelist := nextFreelist, d_meta := nextMeta\<rparr>)))))"

definition Rollback :: "tx \<Rightarrow> tx" where
  "Rollback t =
     (if \<not> tx_write t then t
      else t\<lparr>dirtyNodes := Map.empty, pagesToDelete := [], tx_freelist := None,
             collections := Map.empty, deletedCollections := {}\<rparr>)"

section \<open>What a commit leaves\<close>

text \<open>The pages a commit writes, in terms of the flushed transaction.\<close>

lemma nodePage_Inr:
  assumes "nodePage d p c = Inr pg"
  shows "p_num pg = p" and "node_validate (pageSize d) c = Inr ()"
    and "node_serialize c (replicate (pageSize d) 0) = Some (p_data pg)"
  using assms by (auto simp: nodePage_def bindR_Inr_iff or_panic_def allocateEmptyPage_def split: option.splits)

lemma nodePage_readable:
  assumes "nodePage d p c = Inr pg" and "encodedSize c \<le> pageSize d" and "pageSize d \<le> 2 ^ 16"
  shows "length (p_data pg) = pageSize d" and "node_deserialize (p_data pg) = Some c"
proof -
  note n = nodePage_Inr [OF assms(1)]
  have v: "isLeaf c \<or> length (n_children c) = length (n_items c) + 1" "small_items (n_items c)"
    using n(2) by (auto simp: node_validate_Inr)
  have "encodedSize c \<le> length (replicate (pageSize d) 0 :: bytes)" "length (replicate (pageSize d) 0 :: bytes) \<le> 2 ^ 16"
    using assms(2,3) by simp_all
  from node_roundtrip_gen [OF v(1) this v(2)] obtain b where
    b: "node_serialize c (replicate (pageSize d) 0) = Some b" "length b = length (replicate (pageSize d) 0 :: bytes)"
    "node_deserialize b = Some \<lparr>n_items = n_items c, n_children = n_children c\<rparr>" by blast
  then show "length (p_data pg) = pageSize d" "node_deserialize (p_data pg) = Some c" using n(3) by simp_all
qed

definition dirty_pages :: "tx \<Rightarrow> pgnum list \<Rightarrow> pgnum list" where
  "dirty_pages t order = filter (\<lambda>p. dirtyNodes t p \<noteq> None) order"

lemma commitNodePages_Inr:
  assumes "commitNodePages d t order = Inr pages" and "\<And>p n. dirtyNodes t p = Some n \<Longrightarrow> pageNum n = p"
  shows "map p_num pages = dirty_pages t order"
    and "\<forall>pg \<in> set pages. \<exists>n. dirtyNodes t (p_num pg) = Some n \<and> nodePage d (p_num pg) (contents (mem t) n) = Inr pg"
  using assms(1)
proof (induction order arbitrary: pages)
  case (Cons p order)
  {
    case 1
    then show ?case using Cons.IH(1) nodePage_Inr(1) assms(2)
      by (auto simp: dirty_pages_def bindR_Inr_iff split: option.splits) 
  next
    case 2
    then show ?case using Cons.IH(2) nodePage_Inr(1) assms(2)
      by (auto simp: bindR_Inr_iff split: option.splits)
  }
qed (auto simp: dirty_pages_def)

lemma commitPages_Inr:
  assumes "commitPages d t order = Inr (pages, fr, me)"
  obtains nps fdata mdata where "commitNodePages d t order = Inr nps"
    and "pages = nps @ [\<lparr>p_num = m_freelistPage (d_meta d), p_data = fdata\<rparr>, \<lparr>p_num = metaPageNum, p_data = mdata\<rparr>]"
    and "freelist_serialize fr (replicate (pageSize d) 0) = Some fdata"
    and "meta_serialize me (replicate (pageSize d) 0) = Some mdata"
    and "me = \<lparr>m_root = tx_root t, m_freelistPage = m_freelistPage (d_meta d)\<rparr>"
    and "\<forall>f. tx_freelist t = Some f \<longrightarrow> fr = fold releasePage (pagesToDelete t) (freelist_clone f)"
  using assms
  by (auto simp: commitPages_def bindR_Inr_iff or_panic_def allocateEmptyPage_def Let_def split: option.splits)


text \<open>
  The conditions on a flushed transaction that a commit relies on: the loop over the dirty
  nodes visits each of them once; they are stored under their own page number, which is
  neither the header nor the free list page; every page has an offset in range, every node
  fits its page, and the log fits a 64-bit size.
\<close>

definition commit_ready :: "dal \<Rightarrow> tx \<Rightarrow> pgnum list \<Rightarrow> bool" where
  "commit_ready d t order \<longleftrightarrow>
     24 \<le> pageSize d \<and> pageSize d \<le> 2 ^ 16 \<and> m_freelistPage (d_meta d) \<noteq> 0 \<and> distinct order
     \<and> walHeaderSize + (length order + 2) * (8 + pageSize d) < 2 ^ 63
     \<and> page_ok (pageSize d) (m_freelistPage (d_meta d))
     \<and> (\<forall>p n. dirtyNodes t p = Some n \<longrightarrow> p \<in> set order \<and> pageNum n = p \<and> p \<noteq> 0
         \<and> p \<noteq> m_freelistPage (d_meta d) \<and> page_ok (pageSize d) p
         \<and> encodedSize (contents (mem t) n) \<le> pageSize d)"

lemma commit_ready_pages:
  assumes "commit_ready d t order" and "commitPages d t order = Inr (pages, fr, me)"
  shows "loggable (pageSize d) pages" and "distinct (map p_num pages)"
    and "\<And>p. p \<in> p_num ` set pages \<longleftrightarrow> dirtyNodes t p \<noteq> None \<or> p = 0 \<or> p = m_freelistPage (d_meta d)"
    and "\<And>p n. dirtyNodes t p = Some n \<Longrightarrow> \<exists>pg \<in> set pages. p_num pg = p
      \<and> node_deserialize (p_data pg) = Some (contents (mem t) n)
      \<and> node_validate (pageSize d) (contents (mem t) n) = Inr ()"
    and "\<exists>pg \<in> set pages. p_num pg = m_freelistPage (d_meta d) \<and> freelist_deserialize newFreelist (p_data pg) = Some fr"
    and "\<exists>pg \<in> set pages. p_num pg = 0 \<and> meta_deserialize (p_data pg) = Inr me"
proof -
  let ?ps = "pageSize d" and ?fp = "m_freelistPage (d_meta d)"
  note r = assms(1) [unfolded commit_ready_def]
  have dn: "pageNum n = p" if "dirtyNodes t p = Some n" for p n using r that by blast
  obtain nps fdata mdata where nps: "commitNodePages d t order = Inr nps"
    and pages: "pages = nps @ [\<lparr>p_num = ?fp, p_data = fdata\<rparr>, \<lparr>p_num = metaPageNum, p_data = mdata\<rparr>]"
    and f: "freelist_serialize fr (replicate ?ps 0) = Some fdata"
    and m: "meta_serialize me (replicate ?ps 0) = Some mdata"
    by (rule commitPages_Inr [OF assms(2)]) blast
  have np: "map p_num nps = dirty_pages t order"
    "\<forall>pg \<in> set nps. \<exists>n. dirtyNodes t (p_num pg) = Some n \<and> nodePage d (p_num pg) (contents (mem t) n) = Inr pg"
    using commitNodePages_Inr [OF nps] dn by blast+
  have node: "length (p_data pg) = ?ps \<and> page_ok ?ps (p_num pg) \<and> (\<exists>n. dirtyNodes t (p_num pg) = Some n
      \<and> node_deserialize (p_data pg) = Some (contents (mem t) n) \<and> node_validate ?ps (contents (mem t) n) = Inr ())"
    if pg: "pg \<in> set nps" for pg
  proof -
    obtain n where n: "dirtyNodes t (p_num pg) = Some n" "nodePage d (p_num pg) (contents (mem t) n) = Inr pg"
      using np(2) pg by blast
    have e: "encodedSize (contents (mem t) n) \<le> ?ps" "?ps \<le> 2 ^ 16" "page_ok ?ps (p_num pg)" using r n(1) by blast+
    show ?thesis using nodePage_readable [OF n(2) e(1,2)] nodePage_Inr(2) [OF n(2)] n(1) e(3) by simp
  qed
  have fits: "10 + 8 * length (releasedPages fr) \<le> ?ps"
    using f freelist_serialize_None [of "replicate ?ps 0" fr] by (metis length_replicate not_le option.distinct(1))
  have fl: "length fdata = ?ps" using freelist_serialize_Some [of fr "replicate ?ps 0"] f fits by auto
  have "length (releasedPages fr) < 2 ^ 16" using fits r by linarith
  then have fd: "freelist_deserialize newFreelist fdata = Some fr"
    using freelist_roundtrip_gen [OF f] by simp
  have ml: "length mdata = ?ps" using m by (auto simp: meta_serialize_eq put_at_length)
  have md: "meta_deserialize mdata = Inr me" by (rule meta_roundtrip_gen [OF m])
  have nums: "set (map p_num nps) = {p. dirtyNodes t p \<noteq> None}"
    unfolding np(1) using r by (auto simp: dirty_pages_def)
  have pnums: "p_num ` set nps = {p. dirtyNodes t p \<noteq> None}" using nums by simp
  have "length nps \<le> length order"
    using np(1) length_filter_le by (metis dirty_pages_def length_map)
  then have "length pages * (8 + ?ps) \<le> (length order + 2) * (8 + ?ps)" using pages by (intro mult_le_mono) simp_all
  then have sz: "walHeaderSize + length pages * (8 + ?ps) < 2 ^ 63" using r by linarith
  have "page_ok ?ps 0" using r by (simp add: page_ok_def)
  then have "pages_ok ?ps pages"
    using r node fl ml by (auto simp: pages list_all_iff page_data_ok_def metaPageNum_def)
  moreover have "?ps < 2 ^ 32" using r by simp
  ultimately show "loggable ?ps pages" using sz unfolding loggable_def by blast
  have "distinct (map p_num nps)" unfolding np(1) using r by (simp add: dirty_pages_def)
  moreover have "0 \<notin> p_num ` set nps" "?fp \<notin> p_num ` set nps" "?fp \<noteq> 0"
  proof -
    have rd: "\<And>p n. dirtyNodes t p = Some n \<Longrightarrow> p \<noteq> 0 \<and> p \<noteq> ?fp" using r by blast
    have "dirtyNodes t 0 = None" "dirtyNodes t ?fp = None"
      using rd [of 0] rd [of ?fp] by (cases "dirtyNodes t 0"; cases "dirtyNodes t ?fp"; simp)+
    then show "0 \<notin> p_num ` set nps" "?fp \<notin> p_num ` set nps" using pnums by auto
  qed (use r in blast)
  ultimately show "distinct (map p_num pages)" by (simp add: pages metaPageNum_def)
  show "p \<in> p_num ` set pages \<longleftrightarrow> dirtyNodes t p \<noteq> None \<or> p = 0 \<or> p = ?fp" for p
    using pnums by (auto simp: pages metaPageNum_def)
  show "\<exists>pg \<in> set pages. p_num pg = p \<and> node_deserialize (p_data pg) = Some (contents (mem t) n)
      \<and> node_validate ?ps (contents (mem t) n) = Inr ()" if "dirtyNodes t p = Some n" for p n
  proof -
    have "p \<in> p_num ` set nps" using pnums that by simp
    then obtain pg where pg: "pg \<in> set nps" "p_num pg = p" by auto
    show ?thesis using node [OF pg(1)] pg that by (intro bexI [of _ pg]) (auto simp: pages)
  qed
  show "\<exists>pg \<in> set pages. p_num pg = ?fp \<and> freelist_deserialize newFreelist (p_data pg) = Some fr"
    using fd by (simp add: pages)
  show "\<exists>pg \<in> set pages. p_num pg = 0 \<and> meta_deserialize (p_data pg) = Inr me"
    using md by (simp add: pages metaPageNum_def)
qed


text \<open>
  C14: the commit of a transaction is atomic end to end. Whatever fails, the later recovery yields
  the data file before the transaction or the one with all its pages; an error leaves the header and
  the free list in memory as they were, success installs the new ones and is durable.
\<close>

lemma commit_pages_atomic:
  assumes "flushCollectionMetadata d co t = Some (Inr (), t')" and "commitPages d t' (no t') = Inr (pages, fr, me)"
    and "commit_ready d t' (no t')" and "fileOpen d" and "d_disk d = \<lparr>dbfile = Some old, walfile = None\<rparr>"
    and "tx_write t" and "Commit io co no d t = Some (r, d')"
  shows "\<exists>durable. (r = Inr () \<longrightarrow> durable)
    \<and> (\<forall>ios. recoverWAL no_faults (recoveries ios d') = (Inr (), d'\<lparr>d_disk :=
         \<lparr>dbfile = Some (if durable then apply_pages (pageSize d) pages old else old), walfile = None\<rparr>\<rparr>))
    \<and> (if r = Inr () then d_meta d' = me \<and> d_freelist d' = fr else d_meta d' = d_meta d \<and> d_freelist d' = d_freelist d)"
proof -
  note l = commit_ready_pages(1) [OF assms(3,2)]
  obtain ra da where a: "applyPagesWithWAL io pages d = (ra, da)" by fastforce
  have rd: "r = ra" "d' = (case ra of Inl _ \<Rightarrow> da | Inr _ \<Rightarrow> da\<lparr>d_freelist := fr, d_meta := me\<rparr>)"
    using assms(7) assms(1,2,6) a by (auto simp: Commit_def split: sum.splits)
  have o: "disk_only d da" using applyPagesWithWAL_disk_only [of d io pages] a by simp
  note of = disk_only_fields [OF o]
  have k: "d_disk d' = d_disk da" "pageSize d' = pageSize d" "fileOpen d'"
    using of assms(4) by (cases ra; simp add: rd(2))+
  obtain durable where c: "commit_crash (pageSize d) pages old durable (d_disk d')" "r = Inr () \<longrightarrow> durable"
    using applyPagesWithWAL_crash [OF a assms(5,4) l] commit_crash.after_wal [of "pageSize d" pages old] k(1) rd(1)
    by metis
  have "recoverWAL no_faults (recoveries ios d') = (Inr (), d'\<lparr>d_disk :=
      \<lparr>dbfile = Some (if durable then apply_pages (pageSize d) pages old else old), walfile = None\<rparr>\<rparr>)" for ios
    using recoveries_recover [OF c(1) l k(2,3)] .
  moreover have "if r = Inr () then d_meta d' = me \<and> d_freelist d' = fr
      else d_meta d' = d_meta d \<and> d_freelist d' = d_freelist d"
    using of by (cases ra) (simp_all add: rd)
  ultimately show ?thesis using c(2) by blast
qed

text \<open>What the pages of a database say once they are applied to the data file.\<close>

lemma dal_getNode_page:
  assumes "db_bytes d = Inr f" and "file_page (pageSize d) f p = Some xs" and "node_deserialize xs = Some c"
    and "node_validate (pageSize d) c = Inr ()"
  shows "dal_getNode d p = Inr c"
  using readPage_file [OF assms(1,2)] assms(3,4) by (simp add: dal_getNode_def or_panic_def)

lemma dal_getNode_other:
  assumes "db_bytes d = Inr f" and "db_bytes d' = Inr f'" and "pageSize d' = pageSize d"
    and "page_ok (pageSize d) q"
    and "\<And>w. page_data_ok (pageSize d) q w \<Longrightarrow> file_page (pageSize d) f q = Some w \<Longrightarrow> file_page (pageSize d) f' q = Some w"
    and "dal_getNode d q = Inr c"
  shows "dal_getNode d' q = Inr c"
proof -
  obtain w where w: "file_page (pageSize d) f q = Some w"
    using assms(1,6) by (auto simp: dal_getNode_def readPage_eq bindR_Inr_iff split: option.splits)
  have "length w = pageSize d" using w by (auto simp: file_page_eq [OF assms(4)] read_at_Inr)
  then have "file_page (pageSize d) f' q = Some w" using assms(4,5) w by (simp add: page_data_ok_def)
  then have "readPage d' q = readPage d q"
    using readPage_file [OF assms(1) w] readPage_file [OF assms(2), of q w] assms(3) by simp
  then show ?thesis using assms(3,6) by (simp add: dal_getNode_def)
qed

text \<open>What a successful commit leaves: the disk, the fields of the database, and what its pages say.\<close>

lemma commit_persists_gen:
  assumes "flushCollectionMetadata d co t = Some (Inr (), t')" and "commit_ready d t' (no t')"
    and "fileOpen d" and "d_disk d = \<lparr>dbfile = Some old, walfile = None\<rparr>"
    and "tx_write t" and "Commit io co no d t = Some (Inr (), d')"
  shows "(\<exists>f. d_disk d' = \<lparr>dbfile = Some f, walfile = None\<rparr>)
    \<and> pageSize d' = pageSize d \<and> fileOpen d' \<and> minFillPercent d' = minFillPercent d \<and> maxFillPercent d' = maxFillPercent d
    \<and> m_freelistPage (d_meta d') = m_freelistPage (d_meta d)
    \<and> (\<forall>f. tx_freelist t' = Some f \<longrightarrow> d_freelist d' = fold releasePage (pagesToDelete t') (freelist_clone f))
    \<and> walfile (d_disk d') = None \<and> readMeta d' = Inr (d_meta d') \<and> readFreelist d' = Inr (d_freelist d')
    \<and> m_root (d_meta d') = tx_root t'
    \<and> (\<forall>p n. dirtyNodes t' p = Some n \<longrightarrow> dal_getNode d' p = Inr (contents (mem t') n))
    \<and> (\<forall>q c. dirtyNodes t' q = None \<and> q \<noteq> 0 \<and> q \<noteq> m_freelistPage (d_meta d) \<and> page_ok (pageSize d) q
         \<and> dal_getNode d q = Inr c \<longrightarrow> dal_getNode d' q = Inr c)"
proof -
  obtain pages fr me da where cp: "commitPages d t' (no t') = Inr (pages, fr, me)"
    and a: "applyPagesWithWAL io pages d = (Inr (), da)"
    and d': "d' = da\<lparr>d_freelist := fr, d_meta := me\<rparr>"
    using assms(6) assms(1,5) by (auto simp: Commit_def split: sum.splits prod.splits)
  note cr = commit_ready_pages [OF assms(2) cp]
  let ?ps = "pageSize d" let ?f = "apply_pages ?ps pages old"
  have pok: "pages_ok ?ps pages" by (rule loggable_pages_ok [OF cr(1)])
  have o: "disk_only d da" using applyPagesWithWAL_disk_only [of d io pages] a by simp
  have dk: "d_disk d' = \<lparr>dbfile = Some ?f, walfile = None\<rparr>"
    using applyPagesWithWAL_crash [OF a assms(4,3) cr(1)] d' by simp
  have k: "pageSize d' = ?ps" "fileOpen d'" "d_meta d' = me" "d_freelist d' = fr"
    using disk_only_fields [OF o] assms(3) d' by simp_all
  have b: "db_bytes d' = Inr ?f" "db_bytes d = Inr old" using dk k assms(3,4) by (simp_all add: db_bytes_def)
  have fpg: "file_page (pageSize d') ?f (p_num pg) = Some (p_data pg)" if "pg \<in> set pages" for pg
    using apply_pages_file_page [OF pok cr(2) that] k(1) by simp
  have rp: "readPage d' (p_num pg) = Inr \<lparr>p_num = 0, p_data = p_data pg\<rparr>" if "pg \<in> set pages" for pg
    by (rule readPage_file [OF b(1) fpg [OF that]])
  have me: "me = \<lparr>m_root = tx_root t', m_freelistPage = m_freelistPage (d_meta d)\<rparr>"
    using cp by (rule commitPages_Inr)
  have "readMeta d' = Inr me"
  proof -
    obtain pg where pg: "pg \<in> set pages" "p_num pg = 0" "meta_deserialize (p_data pg) = Inr me" using cr(6) by blast
    show ?thesis using rp [OF pg(1)] pg(2,3) by (simp add: readMeta_def metaPageNum_def)
  qed
  moreover have "readFreelist d' = Inr fr"
  proof -
    obtain pg where pg: "pg \<in> set pages" "p_num pg = m_freelistPage (d_meta d)"
      "freelist_deserialize newFreelist (p_data pg) = Some fr" using cr(5) by blast
    have "m_freelistPage (d_meta d') = p_num pg" using me pg(2) k(3) by simp
    then show ?thesis using rp [OF pg(1)] pg(3) by (simp add: readFreelist_def or_panic_def)
  qed
  moreover have "dal_getNode d' p = Inr (contents (mem t') n)" if n: "dirtyNodes t' p = Some n" for p n
  proof -
    obtain pg where pg: "pg \<in> set pages" "p_num pg = p" "node_deserialize (p_data pg) = Some (contents (mem t') n)"
      "node_validate ?ps (contents (mem t') n) = Inr ()" using cr(4) [OF n] by blast
    show ?thesis using dal_getNode_page [OF b(1) fpg [OF pg(1)] pg(3)] pg(2,4) k(1) by simp
  qed
  moreover have "dal_getNode d' q = Inr c"
    if q: "dirtyNodes t' q = None" "q \<noteq> 0" "q \<noteq> m_freelistPage (d_meta d)" "page_ok ?ps q" "dal_getNode d q = Inr c" for q c
  proof (rule dal_getNode_other [OF b(2,1) k(1) q(4) _ q(5)])
    have nq: "q \<notin> p_num ` set pages" using cr(3) [of q] q(1-3) by blast
    show "file_page ?ps ?f q = Some w" if "page_data_ok ?ps q w" "file_page ?ps old q = Some w" for w
      by (rule apply_pages_other_page [OF pok nq that])
  qed
  moreover have "\<forall>f. tx_freelist t' = Some f \<longrightarrow> fr = fold releasePage (pagesToDelete t') (freelist_clone f)"
    by (rule commitPages_Inr [OF cp]) blast
  moreover have "minFillPercent d' = minFillPercent d" "maxFillPercent d' = maxFillPercent d"
    using disk_only_fields [OF o] d' by simp_all
  ultimately show ?thesis using dk k me by simp
qed


text \<open>A transaction that is ready, and whose free list fits its page, commits when no call fails.\<close>

lemma applyPagesWithWAL_ok:
  assumes "loggable (pageSize d) pages" and "fileOpen d" and "d_disk d = \<lparr>dbfile = Some old, walfile = None\<rparr>"
  shows "applyPagesWithWAL no_faults pages d =
    (Inr (), d\<lparr>d_disk := \<lparr>dbfile = Some (apply_pages (pageSize d) pages old), walfile = None\<rparr>\<rparr>)"
proof -
  let ?d = "set_wal (Some (wal_image (pageSize d) pages)) d"
  have "\<not> list_ex (\<lambda>p. length (p_data p) \<noteq> pageSize d) pages"
    using loggable_data [OF assms(1)] by (auto simp: list_ex_iff)
  then have w: "writeWAL no_faults pages d = (Inr (), ?d)" by (simp add: writeWAL_def Let_def wal_image_def)
  have b: "db_bytes ?d = Inr old" "pageSize ?d = pageSize d"
    using assms(2,3) by (simp_all add: db_bytes_def set_wal_def)
  have "writePages no_faults 0 pages ?d = (Inr (), set_db_bytes (apply_pages (pageSize d) pages old) ?d)"
    using writePages_ok [OF b(1)] loggable_pages_ok [OF assms(1)] b(2) by simp
  with w assms(3) show ?thesis
    by (simp add: applyPagesWithWAL_def syncDB_def removeIfExists_def set_wal_def set_db_bytes_def)
qed

lemma releasedPages_fold: "releasedPages (fold releasePage ps fr) = releasedPages fr @ ps"
  by (induction ps arbitrary: fr) (simp_all add: releasePage_def)

lemma nodePage_total:
  assumes "node_validate (pageSize d) c = Inr ()" and "encodedSize c \<le> pageSize d" and "pageSize d \<le> 2 ^ 16"
  shows "\<exists>pg. nodePage d p c = Inr pg"
proof -
  have v: "isLeaf c \<or> length (n_children c) = length (n_items c) + 1" "small_items (n_items c)"
    using assms(1) by (auto simp: node_validate_Inr)
  have "encodedSize c \<le> length (replicate (pageSize d) 0 :: bytes)" "length (replicate (pageSize d) 0 :: bytes) \<le> 2 ^ 16"
    using assms(2,3) by simp_all
  from node_roundtrip_gen [OF v(1) this v(2)] obtain b where "node_serialize c (replicate (pageSize d) 0) = Some b" by blast
  then show ?thesis using assms(1) by (simp add: nodePage_def allocateEmptyPage_def or_panic_def)
qed

lemma commitNodePages_total:
  assumes "\<And>p n. dirtyNodes t p = Some n \<Longrightarrow> \<exists>pg. nodePage d (pageNum n) (contents (mem t) n) = Inr pg"
  shows "\<exists>pgs. commitNodePages d t order = Inr pgs"
proof (induction order)
  case (Cons p order)
  then obtain pgs where "commitNodePages d t order = Inr pgs" by blast
  then show ?case using assms [of p] by (cases "dirtyNodes t p") auto
qed simp

lemma commitPages_total:
  assumes "commit_ready d t order" and "tx_freelist t = Some fr"
    and "10 + 8 * (length (releasedPages fr) + length (pagesToDelete t)) \<le> pageSize d"
    and "\<And>p n. dirtyNodes t p = Some n \<Longrightarrow> node_validate (pageSize d) (contents (mem t) n) = Inr ()"
  shows "\<exists>pages fr' me. commitPages d t order = Inr (pages, fr', me)"
proof -
  let ?fr = "fold releasePage (pagesToDelete t) (freelist_clone fr)" and ?z = "replicate (pageSize d) 0 :: bytes"
  let ?me = "\<lparr>m_root = tx_root t, m_freelistPage = m_freelistPage (d_meta d)\<rparr>"
  have ps: "24 \<le> pageSize d" "pageSize d \<le> 2 ^ 16" using assms(1) by (simp_all add: commit_ready_def)
  have nd: "\<exists>pg. nodePage d (pageNum n) (contents (mem t) n) = Inr pg" if "dirtyNodes t p = Some n" for p n
    by (rule nodePage_total [OF assms(4) [OF that]])
      (use assms(1) that in \<open>auto simp: commit_ready_def\<close>)
  obtain pgs where pgs: "commitNodePages d t order = Inr pgs" using commitNodePages_total nd by blast
  obtain fb where fb: "freelist_serialize ?fr ?z = Some fb"
    using freelist_serialize_Some [of ?fr ?z] assms(3) by (auto simp: releasedPages_fold freelist_clone_def)
  obtain mb where "meta_serialize ?me ?z = Some mb"
    using meta_serialize_Some [of ?z ?me] ps by (auto simp: metaHeaderSize_def)
  with pgs fb assms(2) show ?thesis by (simp add: commitPages_def allocateEmptyPage_def or_panic_def Let_def)
qed

lemma commit_returns_gen:
  assumes "flushCollectionMetadata d co t = Some (Inr (), t')" and "commit_ready d t' (no t')"
    and "fileOpen d" and "d_disk d = \<lparr>dbfile = Some old, walfile = None\<rparr>"
    and "tx_write t" and "tx_freelist t' = Some fr"
    and "10 + 8 * (length (releasedPages fr) + length (pagesToDelete t')) \<le> pageSize d"
    and "\<forall>p n. dirtyNodes t' p = Some n \<longrightarrow> node_validate (pageSize d) (contents (mem t') n) = Inr ()"
  shows "\<exists>d'. Commit no_faults co no d t = Some (Inr (), d')"
proof -
  obtain pages fr' me where cp: "commitPages d t' (no t') = Inr (pages, fr', me)"
    using commitPages_total [OF assms(2,6,7)] assms(8) by blast
  note l = commit_ready_pages(1) [OF assms(2) cp]
  show ?thesis using applyPagesWithWAL_ok [OF l assms(3,4)] cp assms(1,5) by (simp add: Commit_def)
qed


text \<open>A concrete transaction: one new leaf on page 3 of a database with page size 64.\<close>

definition ex_db :: dal where
  "ex_db = \<lparr>pageSize = 64, minFillPercent = Fin (1 / 2), maxFillPercent = Fin 1, fileOpen = True,
     d_disk = \<lparr>dbfile = Some (replicate 192 0), walfile = None\<rparr>,
     d_meta = \<lparr>m_root = 2, m_freelistPage = 1\<rparr>, d_freelist = \<lparr>maxPage = 2, releasedPages = []\<rparr>\<rparr>"

definition ex_leaf :: gonode where
  "ex_leaf = \<lparr>pageNum = 3, items = Slice 0 0 1, childNodes = Slice 0 0 0\<rparr>"

definition ex_tx :: tx where
  "ex_tx = (newTx (\<lambda>_ n. n) ex_db True)\<lparr>
     mem := \<lparr>grow = \<lambda>_ n. n, itemArrays = [GArray [newItem [1] [7]] 1], pgArrays = [GArray [] 0]\<rparr>,
     dirtyNodes := Map.empty(3 \<mapsto> ex_leaf), tx_freelist := Some \<lparr>maxPage = 3, releasedPages = []\<rparr>\<rparr>"


lemma ex_tx_simps [simp]:
  "contents (mem ex_tx) ex_leaf = NewNodeForSerialization [newItem [1] [7]] []"
  "dirtyNodes ex_tx p = (if p = 3 then Some ex_leaf else None)" "tx_write ex_tx" "collections ex_tx = Map.empty"
  "tx_freelist ex_tx = Some \<lparr>maxPage = 3, releasedPages = []\<rparr>" "pagesToDelete ex_tx = []" "tx_root ex_tx = 2" "pageNum ex_leaf = 3"
  by (simp_all add: ex_tx_def ex_leaf_def contents_def scontent_def newTx_def NewNodeForSerialization_def ex_db_def)

lemma ex_db_simps [simp]:
  "pageSize ex_db = 64" "fileOpen ex_db" "d_meta ex_db = \<lparr>m_root = 2, m_freelistPage = 1\<rparr>"
  "d_disk ex_db = \<lparr>dbfile = Some (replicate 192 0), walfile = None\<rparr>"
  by (simp_all add: ex_db_def)

lemma ex_ready:
  "commit_ready ex_db ex_tx [3]" "flushCollectionMetadata ex_db [] ex_tx = Some (Inr (), ex_tx)"
  "\<forall>p n. dirtyNodes ex_tx p = Some n \<longrightarrow> node_validate (pageSize ex_db) (contents (mem ex_tx) n) = Inr ()"
  "10 + 8 * (length (releasedPages \<lparr>maxPage = 3, releasedPages = []\<rparr>) + length (pagesToDelete ex_tx)) \<le> pageSize ex_db"
  by (auto simp: commit_ready_def walHeaderSize_def page_ok_def encodedSize_def slot_size_def isLeaf_def
      NewNodeForSerialization_def newItem_def node_validate_Inr nodeSize_eq small_items_def)


lemma ex_commit:
  obtains d' where "Commit no_faults [] (\<lambda>_. [3]) ex_db ex_tx = Some (Inr (), d')"
proof -
  obtain pages fr me where cp: "commitPages ex_db ex_tx [3] = Inr (pages, fr, me)"
    using commitPages_total [OF ex_ready(1) _ ex_ready(4)] ex_ready(3) by auto
  note l = commit_ready_pages(1) [OF ex_ready(1) cp]
  show thesis
    using that applyPagesWithWAL_ok [OF l ex_db_simps(2,4)] cp ex_ready(2) by (simp add: Commit_def)
qed


lemma commit_pages_atomic_witness:
  "\<exists>pages fr me d'. commitPages ex_db ex_tx [3] = Inr (pages, fr, me)
    \<and> Commit no_faults [] (\<lambda>_. [3]) ex_db ex_tx = Some (Inr (), d')
    \<and> recoverWAL no_faults (recoveries [no_faults(SyncDB := Some 0)] d') = (Inr (), d'\<lparr>d_disk :=
         \<lparr>dbfile = Some (apply_pages 64 pages (replicate 192 0)), walfile = None\<rparr>\<rparr>)"
proof -
  obtain d' where c: "Commit no_faults [] (\<lambda>_. [3]) ex_db ex_tx = Some (Inr (), d')" by (rule ex_commit)
  obtain pages fr me where cp: "commitPages ex_db ex_tx [3] = Inr (pages, fr, me)"
    using commitPages_total [OF ex_ready(1) _ ex_ready(4)] ex_ready(3) by auto
  let ?io = "no_faults(SyncDB := Some 0)"
  from commit_pages_atomic [OF ex_ready(2) cp ex_ready(1) ex_db_simps(2,4) ex_tx_simps(3) c]
  obtain durable where durable
    "\<forall>ios. recoverWAL no_faults (recoveries ios d') = (Inr (), d'\<lparr>d_disk :=
      \<lparr>dbfile = Some (if durable then apply_pages (pageSize ex_db) pages (replicate 192 0) else replicate 192 0),
       walfile = None\<rparr>\<rparr>)" by blast
  then have "recoverWAL no_faults (recoveries [?io] d') = (Inr (), d'\<lparr>d_disk :=
      \<lparr>dbfile = Some (apply_pages 64 pages (replicate 192 0)), walfile = None\<rparr>\<rparr>)" by (simp only: ex_db_simps if_True)
  with c cp show ?thesis by blast
qed

end
