(* ===== verification/Kv_Store.thy ===== *)
theory Kv_Store
  imports Btree_Put Tx
begin

text \<open>
  A collection as a map from keys to values: the interface \<open>kv_store\<close>, its interpretation on
  \<open>Find\<close> and \<open>Put\<close> over the pages of a transaction, and the properties of the two operations.
\<close>

section \<open>The map a tree stands for\<close>

definition kv_map :: "item list \<Rightarrow> bytes \<rightharpoonup> bytes" where
  "kv_map its k = map_option item_value (find_item k its)"

lemma find_item_key: "find_item k its = Some it \<Longrightarrow> item_key it = k"
  by (induction its) (auto split: if_split_asm)

lemma find_item_kv: "find_item k its = map_option (newItem k) (kv_map its k)"
  using find_item_key [of k its] by (cases "find_item k its") (auto simp: kv_map_def newItem_def)

lemma kv_map_ins: "kv_map (ins_item (newItem k v) its) = (kv_map its)(k \<mapsto> v)"
  by (rule ext) (simp add: kv_map_def ins_item_find newItem_def)

section \<open>The interface\<close>

text \<open>
  \<open>rep s m\<close>: the state \<open>s\<close> holds the map \<open>m\<close>. A lookup answers from the map and keeps it; an
  update that is allowed returns a state that holds the updated map.
\<close>

locale kv_store =
  fixes rep :: "'s \<Rightarrow> ('k \<rightharpoonup> bytes) \<Rightarrow> bool"
    and get :: "'s \<Rightarrow> 'k \<Rightarrow> (bytes option \<times> 's) option"
    and put :: "'s \<Rightarrow> 'k \<Rightarrow> bytes \<Rightarrow> 's option"
    and can_put :: "'s \<Rightarrow> 'k \<Rightarrow> bytes \<Rightarrow> bool"
  assumes get_rep: "rep s m \<Longrightarrow> \<exists>s'. get s k = Some (m k, s') \<and> rep s' m"
    and put_rep: "rep s m \<Longrightarrow> can_put s k v \<Longrightarrow> \<exists>s'. put s k v = Some s' \<and> rep s' (m(k \<mapsto> v))"
begin

lemma rep_unique: "rep s m \<Longrightarrow> rep s m' \<Longrightarrow> m = m'"
  by (rule ext) (metis get_rep option.inject prod.inject)

lemma get_after_put:
  assumes "rep s m" and "can_put s k v"
  shows "\<exists>s'. put s k v = Some s' \<and> (\<forall>k'. \<exists>s''. get s' k' = Some (if k' = k then Some v else m k', s'') \<and> rep s'' (m(k \<mapsto> v)))"
proof -
  obtain s' where s': "put s k v = Some s'" "rep s' (m(k \<mapsto> v))" using put_rep [OF assms] by blast
  have "\<exists>s''. get s' k' = Some (if k' = k then Some v else m k', s'') \<and> rep s'' (m(k \<mapsto> v))" for k'
    using get_rep [OF s'(2), of k'] by (auto simp: fun_upd_apply)
  then show ?thesis using s'(1) by blast
qed

text \<open>A sequence of updates, each allowed where it is made.\<close>

primrec puts :: "('k \<times> bytes) list \<Rightarrow> 's \<Rightarrow> 's option" where
  "puts [] s = Some s"
| "puts (kv # kvs) s = Option.bind (put s (fst kv) (snd kv)) (puts kvs)"

primrec can_puts :: "('k \<times> bytes) list \<Rightarrow> 's \<Rightarrow> bool" where
  "can_puts [] s = True"
| "can_puts (kv # kvs) s = (can_put s (fst kv) (snd kv) \<and> (\<forall>s'. put s (fst kv) (snd kv) = Some s' \<longrightarrow> can_puts kvs s'))"

lemma puts_rep: "rep s m \<Longrightarrow> can_puts kvs s \<Longrightarrow> \<exists>s'. puts kvs s = Some s' \<and> rep s' (m ++ map_of (rev kvs))"
proof (induction kvs arbitrary: s m)
  case (Cons kv kvs)
  have "can_put s (fst kv) (snd kv)" using Cons.prems(2) by simp
  from put_rep [OF Cons.prems(1) this]
  obtain s1 where s1: "put s (fst kv) (snd kv) = Some s1" "rep s1 (m(fst kv \<mapsto> snd kv))" by blast
  moreover have "can_puts kvs s1" using Cons.prems(2) s1(1) by simp
  ultimately obtain s' where s': "puts kvs s1 = Some s'" "rep s' (m(fst kv \<mapsto> snd kv) ++ map_of (rev kvs))"
    using Cons.IH by blast
  have "m(fst kv \<mapsto> snd kv) = m ++ map_of [kv]" by (cases kv) simp
  moreover have "map_of (rev (kv # kvs)) = map_of [kv] ++ map_of (rev kvs)" by (simp only: rev.simps map_of_append)
  ultimately have "rep s' (m ++ map_of (rev (kv # kvs)))" using s'(2) by (simp only: map_add_assoc)
  moreover have "puts (kv # kvs) s = Some s'" using s1(1) s'(1) by simp
  ultimately show ?case by blast
qed simp

end

section \<open>Find and Put implement it\<close>

text \<open>The state: the handle of a collection, and the transaction.\<close>

definition kv_rep :: "dal \<Rightarrow> rat \<Rightarrow> rat \<Rightarrow> collection \<times> tx \<Rightarrow> (bytes \<rightharpoonup> bytes) \<Rightarrow> bool" where
  "kv_rep d a b s m \<longleftrightarrow> fill d a b \<and> tx_write (snd s) \<and> (c_rootCollection (fst s) \<longrightarrow> tx_root (snd s) = c_root (fst s))
     \<and> (\<exists>h T. tree_inv d b (snd s) h T \<and> c_root (fst s) = bpage T \<and> m = kv_map (inorder T))"

definition kv_get :: "dal \<Rightarrow> collection \<times> tx \<Rightarrow> bytes \<Rightarrow> (bytes option \<times> collection \<times> tx) option" where
  "kv_get d s k = (case Find d (fst s) k (snd s) of
     Some (Inr it, t) \<Rightarrow> Some (map_option item_value it, fst s, t) | _ \<Rightarrow> None)"

definition kv_put :: "dal \<Rightarrow> collection \<times> tx \<Rightarrow> bytes \<Rightarrow> bytes \<Rightarrow> (collection \<times> tx) option" where
  "kv_put d s k v = (case Put d (fst s) k v (snd s) of Some (Inr c, t) \<Rightarrow> Some (c, t) | _ \<Rightarrow> None)"

text \<open>
  A \<open>Put\<close> is allowed when the item is valid, the page numbers do not run out, and the nodes
  on its path own their memory.
\<close>

definition kv_can_put :: "dal \<Rightarrow> rat \<Rightarrow> collection \<times> tx \<Rightarrow> bytes \<Rightarrow> bytes \<Rightarrow> bool" where
  "kv_can_put d b s k v \<longleftrightarrow> item_validate (pageSize d) (newItem k v) = Inr ()
     \<and> (\<exists>L M h T. tree_inv d b (snd s) h T \<and> c_root (fst s) = bpage T \<and> alloc_ok L M (snd s) (h + 2) \<and> put_safe (snd s) T k)"

lemma tree_inv_reads:
  assumes "tree_inv d b t h T" and "reads t t'"
  shows "tree_inv d b t' h T"
proof -
  have "tx_ok t" using assms(1) by (simp add: tree_inv_def)
  from reads_ok [OF assms(2) this] reads_view [OF assms(2) this] show ?thesis
    using assms(1) reads_fields(2) [OF assms(2)] by (simp add: tree_inv_def tx_used_def)
qed

lemma find_tree_inv:
  assumes "tree_inv d b t h T" and "c_root c = bpage T"
  shows "\<exists>t'. Find d c k t = Some (Inr (map_option (newItem k) (kv_map (inorder T) k)), t') \<and> reads t t' \<and> tree_inv d b t' h T"
  using find_tree [of h T d t c k] assms tree_inv_reads [OF assms(1)]
  by (auto simp: tree_inv_def find_item_kv)

lemma kv_map_unique:
  assumes "tree_inv d b t h T" and "tree_inv d b t h' T'" and "bpage T = bpage T'"
  shows "kv_map (inorder T) = kv_map (inorder T')"
proof
  fix k
  let ?c = "newCollection [] (bpage T)"
  have c: "c_root ?c = bpage T" "c_root ?c = bpage T'" using assms(3) by (simp_all add: newCollection_def)
  have "map_option (newItem k) (kv_map (inorder T) k) = map_option (newItem k) (kv_map (inorder T') k)"
    using find_tree_inv [OF assms(1) c(1), of k] find_tree_inv [OF assms(2) c(2), of k] by auto
  then show "kv_map (inorder T) k = kv_map (inorder T') k"
    by (cases "kv_map (inorder T) k"; cases "kv_map (inorder T') k") (simp_all add: newItem_def)
qed

interpretation kv: kv_store "kv_rep d a b" "kv_get d" "kv_put d" "kv_can_put d b" for d a b
proof
  fix s :: "collection \<times> tx" and m :: "bytes \<rightharpoonup> bytes" and k v
  assume r: "kv_rep d a b s m"
  obtain c t where s: "s = (c, t)" by fastforce
  obtain h T where T: "fill d a b" "tree_inv d b t h T" "c_root c = bpage T" "m = kv_map (inorder T)" "tx_write t"
    "c_rootCollection c \<longrightarrow> tx_root t = c_root c"
    using r s by (auto simp: kv_rep_def)
  show "\<exists>s'. kv_get d s k = Some (m k, s') \<and> kv_rep d a b s' m"
  proof -
    obtain t' where t': "Find d c k t = Some (Inr (map_option (newItem k) (m k)), t')" "reads t t'" "tree_inv d b t' h T"
      using find_tree_inv [OF T(2,3), of k] T(4) by blast
    have "kv_get d s k = Some (m k, c, t')"
      using t'(1) s by (cases "m k") (simp_all add: kv_get_def newItem_def)
    moreover have "kv_rep d a b (c, t') m"
      using T t'(3) reads_fields(3,4) [OF t'(2)] by (auto simp: kv_rep_def)
    ultimately show ?thesis by blast
  qed
  assume cp: "kv_can_put d b s k v"
  show "\<exists>s'. kv_put d s k v = Some s' \<and> kv_rep d a b s' (m(k \<mapsto> v))"
  proof -
    obtain L M h2 T2 where cp': "item_validate (pageSize d) (newItem k v) = Inr ()" "tree_inv d b t h2 T2" "c_root c = bpage T2"
      "alloc_ok L M t (h2 + 2 + 0)" "put_safe t T2 k"
      using cp s by (auto simp: kv_can_put_def)
    have m2: "m = kv_map (inorder T2)" using kv_map_unique [OF T(2) cp'(2)] T(3,4) cp'(3) by simp
    obtain c' t' T' h' where p: "Put d c k v t = Some (Inr c', t')" "tree_inv d b t' h' T'"
      "inorder T' = ins_item (newItem k v) (inorder T2)" "c_root c' = bpage T'" "handle_step c t c' t'"
      using put_tree [OF T(1) cp'(2,3) _ T(5) cp'(1,4,5)] T(6) by blast
    have "kv_put d s k v = Some (c', t')" using p(1) s by (simp add: kv_put_def)
    moreover have "kv_rep d a b (c', t') (m(k \<mapsto> v))"
    proof -
      have "tx_write t'" "c_rootCollection c' \<longrightarrow> tx_root t' = c_root c'"
        using p(5) T(5) by (auto simp: handle_step_def)
      moreover have "m(k \<mapsto> v) = kv_map (inorder T')" using m2 p(3) kv_map_ins [of k v "inorder T2"] by simp
      ultimately show ?thesis using T(1) p(2,4) unfolding kv_rep_def fst_conv snd_conv by blast
    qed
    ultimately show ?thesis by blast
  qed
qed


section \<open>The first item, and items that are refused\<close>

text \<open>A new leaf, in arrays with no spare capacity, on a page that was free.\<close>

lemma new_leaf_spec:
  assumes "tx_ok t" and "alloc_ok L M t (Suc r)"
  obtains q n t1 where "\<And>f :: gonode \<Rightarrow> (tx, 'b) m. bindM (literal_items its) (\<lambda>i. bindM (literal_pgs []) (\<lambda>cs.
      bindM (tx_newNode i cs) (\<lambda>n. bindM (tx_writeNode n) f))) t = f n t1"
    and "pageNum n = q" and "q \<notin> tx_used t" and "tx_used t1 = insert q (tx_used t)" and "alloc_ok L M t1 r" and "tx_ok t1"
    and "tx_view d t1 = (tx_view d t)(q \<mapsto> \<lparr>n_items = its, n_children = []\<rparr>)" and "same_rest t t1"
    and "dirtyNodes t1 = (dirtyNodes t)(q \<mapsto> n)" and "scap (itemArrays (mem t1)) (items n) = length its"
    and "contents (mem t1) n = \<lparr>n_items = its, n_children = []\<rparr>"
proof -
  obtain fr q fr' where fr: "tx_freelist t = Some fr" and q: "getNextPage fr = (q, fr')" and qn: "q \<notin> tx_used t" and "q \<noteq> 0"
    and qs: "\<forall>t'. tx_freelist t' = Some fr' \<longrightarrow> tx_used t' = insert q (tx_used t) \<and> alloc_ok L M t' r"
    by (rule alloc_step [OF assms(2)])
  obtain h1 s1 where l: "sliteral (itemArrays (mem t)) its = (h1, s1)" by fastforce
  obtain g1 r1 where m: "sliteral (pgArrays (mem t)) [] = (g1, r1)" by fastforce
  note v = svalid_alloc [OF l [unfolded sliteral_def]] and w = svalid_alloc [OF m [unfolded sliteral_def]]
  let ?n = "\<lparr>pageNum = q, items = s1, childNodes = r1\<rparr>"
  let ?m = "(mem t)\<lparr>itemArrays := h1, pgArrays := g1\<rparr>"
  let ?t = "t\<lparr>mem := ?m, tx_freelist := Some fr', dirtyNodes := (dirtyNodes t)(q \<mapsto> ?n)\<rparr>"
  have ext: "gmem_ext (mem t) ?m"
    using mem_ext_alloc [of "itemArrays (mem t)" its "length its" h1 s1] mem_ext_alloc [of "pgArrays (mem t)" "[]" 0 g1 r1] l m
    by (simp add: gmem_ext_def sliteral_def)
  have n: "gvalid ?m ?n" "contents ?m ?n = \<lparr>n_items = its, n_children = []\<rparr>"
    using v w by (simp_all add: gvalid_def contents_def)
  have old: "pageNum x = p \<and> gvalid ?m x \<and> contents ?m x = contents (mem t) x" if "dirtyNodes t p = Some x" for p x
    using assms(1) that gmem_ext_node [OF ext] by (simp add: tx_ok_def)
  have ut: "tx_used ?t = insert q (tx_used t)" "alloc_ok L M ?t r" using qs by simp_all
  have ok: "tx_ok ?t" unfolding tx_ok_def ut(1) using old n(1) assms(1) by (auto simp: tx_ok_def)
  have view: "tx_view d ?t = (tx_view d t)(q \<mapsto> \<lparr>n_items = its, n_children = []\<rparr>)"
  proof
    show "tx_view d ?t p = ((tx_view d t)(q \<mapsto> \<lparr>n_items = its, n_children = []\<rparr>)) p" for p
      using old n(2) by (auto simp: tx_view_def split: option.split)
  qed
  have e: "bindM (literal_items its) (\<lambda>i. bindM (literal_pgs []) (\<lambda>cs. bindM (tx_newNode i cs) (\<lambda>n. bindM (tx_writeNode n) f))) t
      = f ?n ?t" for f :: "gonode \<Rightarrow> (tx, 'b) m"
    using l m fr q by (simp add: bindM_def literal_items_def literal_pgs_def tx_newNode_def tx_writeNode_def)
  have cap: "scap h1 s1 = length its" using l by (auto simp: sliteral_def salloc_def scap_def)
  show thesis by (rule that [OF e _ qn ut ok view]) (use cap n(2) in \<open>simp_all add: same_rest_def\<close>)
qed

lemma small_item_fits:
  assumes "item_validate ps (newItem k v) = Inr ()" and "fill d a b"
  shows "node_fits b 0 \<lparr>n_items = [newItem k v], n_children = []\<rparr>" and "\<not> isOverPopulated d \<lparr>n_items = [newItem k v], n_children = []\<rparr>"
proof -
  have sm: "small_items [newItem k v]" by (rule item_validate_small [OF assms(1)])
  then have "(of_nat (esum [newItem k v]) :: rat) \<le> 518"
    using esum_item(2) [OF sm] by (simp only: of_nat_le_iff [of _ 518, simplified])
  then show f: "node_fits b 0 \<lparr>n_items = [newItem k v], n_children = []\<rparr>"
    using sm assms(2) by (simp add: node_fits_def fill_def nodeSize_esum)
  show "\<not> isOverPopulated d \<lparr>n_items = [newItem k v], n_children = []\<rparr>"
    using overpopulated_iff [OF assms(2) f] f by (simp add: node_fits_def)
qed

lemma put_first:
  assumes "c_root c = 0" and "tx_write t" and "c_rootCollection c \<Longrightarrow> tx_root t = 0" and "tx_ok t"
    and "item_validate (pageSize d) (newItem k v) = Inr ()" and "alloc_ok L M t (Suc r)" and "fill d a b"
  shows "\<exists>c' t' q. Put d c k v t = Some (Inr c', t') \<and> q \<notin> tx_used t \<and> tx_used t' = insert q (tx_used t)
    \<and> tree_inv d b t' 0 (BNode q [newItem k v] []) \<and> c_root c' = q \<and> handle_step c t c' t'
    \<and> (\<forall>p. p \<noteq> q \<longrightarrow> tx_view d t' p = tx_view d t p) \<and> alloc_ok L M t' r"
proof -
  let ?it = "newItem k v"
  obtain q n t1 where l: "\<And>f :: gonode \<Rightarrow> (tx, collection) m. bindM (literal_items [?it]) (\<lambda>i. bindM (literal_pgs []) (\<lambda>cs.
      bindM (tx_newNode i cs) (\<lambda>n. bindM (tx_writeNode n) f))) t = f n t1"
    and q: "pageNum n = q" "q \<notin> tx_used t" "tx_used t1 = insert q (tx_used t)" "alloc_ok L M t1 r" "tx_ok t1"
      "tx_view d t1 = (tx_view d t)(q \<mapsto> \<lparr>n_items = [?it], n_children = []\<rparr>)" "same_rest t t1"
    by (rule new_leaf_spec [OF assms(4,6), where its = "[?it]" and d = d and 'b = collection]) blast
  have pre: "tx_write t1" "c_rootCollection c \<Longrightarrow> tx_root t1 = c_root c"
    using assms(1-3) same_rest_fields [OF q(7)] by simp_all
  obtain c' t' where r: "setRoot c q t1 = Some (Inr c', t')" "same_nodes t1 t'" "c_root c' = q" "handle_step c t1 c' t'"
    by (rule setRoot_spec [of t1 c q, OF pre])
  have e: "Put d c k v t = Some (Inr c', t')"
    using assms(1,2,5) l q(1) r(1) by (simp add: Put_def bindM_def [of "liftM _"])
  note sv = same_nodes_view [OF r(2)]
  have u: "tx_used t' = insert q (tx_used t)" "alloc_ok L M t' r" using q(3,4) sv(3,4) by simp_all
  have "tree_inv d b t' 0 (BNode q [?it] [])"
    using q(5,6) sv(1,2) u(1) small_item_fits(1) [OF assms(5,7)] by (simp add: tree_inv_def tree_fits_def bcontent_def)
  moreover have "\<forall>p. p \<noteq> q \<longrightarrow> tx_view d t' p = tx_view d t p" using sv(1) q(6) by simp
  ultimately show ?thesis
    using e u q(2) r(3) handle_step_rest [OF q(7) r(4)] by (intro exI [of _ c'] exI [of _ t'] exI [of _ q]) simp
qed

section \<open>A search ends on every tree\<close>

lemma sort_Search_le: "sort_Search n f \<le> n"
proof -
  have "i \<le> j \<Longrightarrow> sort_Search_loop f i j \<le> j" for i j
  proof (induction f i j rule: sort_Search_loop.induct)
    case (1 f i j)
    show ?case
    proof (cases "i < j")
      case True
      let ?h = "(i + j) div 2"
      have h: "?h + 1 \<le> j" "i \<le> ?h" using True by linarith+
      have "sort_Search_loop f (?h + 1) j \<le> j" if "\<not> f ?h" using "1.IH"(1) [OF True refl that h(1)] .
      moreover have "sort_Search_loop f i ?h \<le> j" if "f ?h" using "1.IH"(2) [OF True refl _ h(2)] that h(1) by simp
      ultimately show ?thesis using True by (subst sort_Search_loop.simps) (simp add: Let_def)
    next
      case False
      then show ?thesis using "1.prems" by (subst sort_Search_loop.simps) simp
    qed
  qed
  then show ?thesis by (simp add: sort_Search_def)
qed

lemma findKeyHelper_returns:
  assumes "all_nodes (\<lambda>c. isLeaf c \<or> length (n_children c) = length (n_items c) + 1) T" and "tree_at (tx_view d t) T"
    and "tx_ok t" and "gvalid (mem t) n" and "contents (mem t) n = bcontent T"
  shows "\<exists>j n' anc' t'. findKeyHelper d n k exact anc t = Some (Inr (j, n', anc'), t') \<and> reads t t'
    \<and> (\<forall>m. n' = Some m \<longrightarrow> gvalid (mem t') m \<and> (exact \<longrightarrow> j < length (n_items (contents (mem t') m))))"
  using assms
proof (induction T arbitrary: n t anc)
  case (BNode p its subs)
  let ?T = "BNode p its subs"
  obtain found i where fi: "findKeyInNode (bcontent ?T) k = (found, i)" by fastforce
  then have i: "i \<le> length its" "found \<longrightarrow> i < length its"
    using sort_Search_le by (auto simp: findKeyInNode_def Let_def split: if_splits)
  show ?case
  proof (cases "found \<or> subs = []")
    case True
    then show ?thesis using BNode.prems fi i by (subst findKeyHelper.simps) auto
  next
    case False
    have len: "i < length subs" using BNode.prems(1) False i(1) by auto
    let ?S = "subs ! i"
    have v: "tree_at (tx_view d t) ?S" "tx_view d t (bpage ?S) = Some (bcontent ?S)"
      using tree_at_child [OF BNode.prems(2), of i] len by simp_all
    obtain n1 t1 where g: "tx_getNode d (bpage ?S) t = Some (Inr n1, t1)" "reads t t1" "gvalid (mem t1) n1"
      "contents (mem t1) n1 = bcontent ?S"
      by (rule tx_getNode_view [OF BNode.prems(3) v(2)]) blast
    have pg: "get_pg (childNodes n) i t = Some (Inr (bpage ?S), t)"
      using get_pg_eq [OF BNode.prems(4), of i] len by (simp add: BNode.prems(5))
    have step: "findKeyHelper d n k exact anc t = findKeyHelper d n1 k exact (anc @ [i]) t1"
      using False fi pg g(1) BNode.prems(5) by (subst findKeyHelper.simps) (auto simp: bindM_def)
    have S: "?S \<in> set subs" "all_nodes (\<lambda>c. isLeaf c \<or> length (n_children c) = length (n_items c) + 1) ?S"
      using len BNode.prems(1) by (simp_all add: list_all_length)
    have t1: "tree_at (tx_view d t1) ?S" "tx_ok t1"
      using v(1) reads_view [OF g(2) BNode.prems(3)] reads_ok [OF g(2) BNode.prems(3)] by simp_all
    from BNode.IH [OF S t1 g(3,4), of "anc @ [i]"] show ?thesis
      unfolding step using reads_trans [OF g(2)] by blast
  qed
qed

lemma find_returns_gen:
  assumes "all_nodes (\<lambda>c. isLeaf c \<or> length (n_children c) = length (n_items c) + 1) T" and "tree_at (tx_view d t) T"
    and "tx_ok t" and "c_root c = bpage T"
  shows "\<exists>it t'. Find d c k t = Some (Inr it, t') \<and> reads t t'"
proof -
  have v: "tx_view d t (c_root c) = Some (bcontent T)" using tree_at_root [OF assms(2)] assms(4) by simp
  obtain n t1 where g: "tx_getNode d (c_root c) t = Some (Inr n, t1)" "reads t t1" "gvalid (mem t1) n"
    "contents (mem t1) n = bcontent T"
    by (rule tx_getNode_view [OF assms(3) v]) blast
  have t1: "tree_at (tx_view d t1) T" "tx_ok t1"
    using reads_view [OF g(2) assms(3)] reads_ok [OF g(2) assms(3)] assms(2) by simp_all
  obtain j n' anc' t2 where f: "findKeyHelper d n k True [0] t1 = Some (Inr (j, n', anc'), t2)" "reads t1 t2"
    "\<forall>m. n' = Some m \<longrightarrow> gvalid (mem t2) m \<and> j < length (n_items (contents (mem t2) m))"
    using findKeyHelper_returns [OF assms(1) t1 g(3,4), of k True "[0]"] by auto
  note rt = reads_trans [OF g(2) f(2)]
  show ?thesis
  proof (cases n')
    case None
    then show ?thesis using g(1) f(1) rt by (auto simp: Find_def findKey_def bindM_def)
  next
    case (Some m)
    then show ?thesis
      using g(1) f(1) rt get_item_eq [of t2 m j] f(3) by (auto simp: Find_def findKey_def bindM_def)
  qed
qed


section \<open>A concrete collection\<close>

text \<open>One leaf on page 3, in a database whose nodes are split above half a page of 4096 bytes.\<close>

definition kv_db :: dal where
  "kv_db = ex_db\<lparr>pageSize := 4096, minFillPercent := Fin (1 / 4), maxFillPercent := Fin (1 / 2)\<rparr>"

abbreviation kv_tree :: btree where
  "kv_tree \<equiv> BNode 3 [newItem [1] [7]] []"

lemma kv_fill: "fill kv_db 1024 2048"
proof -
  have e: "f32_of_rat 4096 = Fin 4096" "f32_of_rat 1024 = Fin 1024" "f32_of_rat 2048 = Fin 2048"
    using f32_of_int_exact [of 4096] f32_of_int_exact [of 1024] f32_of_int_exact [of 2048] by (simp_all add: f32_of_int_def)
  have "minThreshold kv_db = Fin 1024" "maxThreshold kv_db = Fin 2048"
    by (simp_all add: kv_db_def minThreshold_def maxThreshold_def f32_of_int_def e)
  then show ?thesis by (simp add: fill_def)
qed

lemma kv_inv: "tree_inv kv_db 2048 ex_tx 0 kv_tree"
  by (auto simp: tree_inv_def tx_ok_def gvalid_def svalid_def ex_tx_def ex_leaf_def tx_view_def contents_def scontent_def
      tx_used_def freelist_used_def tree_fits_def node_fits_def nodeSize_esum newItem_def bcontent_def)

lemma kv_item_ok: "item_validate (pageSize kv_db) (newItem [5] [6]) = Inr ()"
  by (auto simp: kv_db_def item_validate_def node_validate_Inr NewNodeForSerialization_def isLeaf_def newItem_def
      nodeSize_eq small_items_def)

lemma kv_room: "n < 100 \<Longrightarrow> alloc_ok 200 0 ex_tx n"
  by (simp add: alloc_ok_def freelist_inv_def)

lemma kv_put_safe: "put_safe ex_tx kv_tree k"
proof -
  have one: "path_pages path kv_tree = [3]" if "search kv_tree k = (f, j, u, path)" for f j u path
    using that by (subst (asm) search.simps) (auto split: prod.splits if_splits)
  show ?thesis
    by (auto simp: put_safe_def path_owned_def writable_def owns_def one split: prod.split if_splits)
qed

section \<open>Properties\<close>

text \<open>
  C10: \<open>Find\<close> implements the lookup in the map that the pages of the collection stand for: it returns
  the item of the key, or none, and leaves the tree as it is.
\<close>

theorem find_is_lookup:
  assumes "tree_inv d b t h T" and "c_root c = bpage T"
  shows "\<exists>t'. Find d c k t = Some (Inr (map_option (newItem k) (kv_map (inorder T) k)), t') \<and> reads t t' \<and> tree_inv d b t' h T"
  by (rule find_tree_inv [OF assms])

lemma find_is_lookup_witness:
  "\<exists>t'. Find kv_db (newCollection [9] 3) [1] ex_tx = Some (Inr (Some (newItem [1] [7])), t')"
  using find_is_lookup [OF kv_inv, of "newCollection [9] 3" "[1]"]
  by (auto simp: newCollection_def kv_map_def newItem_def)



text \<open>
  After any sequence of \<open>Put\<close>s, each allowed where it is made, \<open>Find\<close> returns for every key the value
  last put, or what it returned before.
\<close>

lemma puts_then_find:
  assumes "kv_rep d a b s m" and "kv.can_puts d b kvs s"
  shows "\<exists>s'. kv.puts d kvs s = Some s' \<and> (\<forall>k. \<exists>s''. kv_get d s' k = Some ((m ++ map_of (rev kvs)) k, s''))"
proof -
  obtain s' where "kv.puts d kvs s = Some s'" "kv_rep d a b s' (m ++ map_of (rev kvs))"
    using kv.puts_rep [OF assms] by blast
  then show ?thesis using kv.get_rep by blast
qed

lemma puts_then_find_witness:
  "\<exists>s' s''. kv.puts kv_db [([5], [6])] (newCollection [9] 3, ex_tx) = Some s' \<and> kv_get kv_db s' [1] = Some (Some [7], s'')"
proof -
  let ?s = "(newCollection [9] 3, ex_tx)"
  have r: "kv_rep kv_db 1024 2048 ?s (kv_map (inorder kv_tree))"
    unfolding kv_rep_def
    by (intro conjI exI [of _ 0] exI [of _ kv_tree]) (use kv_fill kv_inv in \<open>simp_all add: newCollection_def\<close>)
  have "kv_can_put kv_db 2048 ?s [5] [6]"
    unfolding kv_can_put_def
    by (intro conjI exI [of _ 200] exI [of _ 0] exI [of _ kv_tree])
      (use kv_item_ok kv_room [of "0 + 2"] kv_inv kv_put_safe in \<open>simp_all add: newCollection_def\<close>)
  then have "kv.can_puts kv_db 2048 [([5], [6])] ?s" by simp
  from puts_then_find [OF r this] show ?thesis by (auto simp: kv_map_def newItem_def dest: spec [of _ "[1]"])
qed

text \<open>
  The first \<open>Put\<close> into a collection without a root creates it: one leaf with the item, on a page that was free.
\<close>

lemma put_creates_root:
  assumes "c_root c = 0" and "tx_write t" and "\<not> c_rootCollection c" and "tx_ok t" and "fill d a b"
    and "item_validate (pageSize d) (newItem k v) = Inr ()" and "alloc_ok L M t 1"
  shows "\<exists>c' t' q. Put d c k v t = Some (Inr c', t') \<and> q \<notin> tx_used t \<and> tree_inv d b t' 0 (BNode q [newItem k v] [])
    \<and> c_root c' = q \<and> c_dirtyMeta c' \<and> collections t' = (collections t)(c_name c \<mapsto> c')
    \<and> (\<forall>p. p \<noteq> q \<longrightarrow> tx_view d t' p = tx_view d t p)"
proof -
  have "alloc_ok L M t (Suc 0)" using assms(7) by simp
  with put_first [OF assms(1,2) _ assms(4,6) _ assms(5)] assms(3)
  obtain c' t' q where p: "Put d c k v t = Some (Inr c', t')" "q \<notin> tx_used t" "tree_inv d b t' 0 (BNode q [newItem k v] [])"
    "c_root c' = q" "handle_step c t c' t'" "\<forall>p. p \<noteq> q \<longrightarrow> tx_view d t' p = tx_view d t p" "tx_used t' = insert q (tx_used t)"
    by blast
  have "q \<noteq> 0" using p(7) tx_used_ne_0 [of t'] by auto
  then show ?thesis using p assms(1,3) by (auto simp: handle_step_def)
qed

lemma put_creates_root_witness:
  "\<exists>c' t' q. Put kv_db (newCollection [9] 0) [5] [6] ex_tx = Some (Inr c', t') \<and> c_root c' = q
    \<and> tree_inv kv_db 2048 t' 0 (BNode q [newItem [5] [6]] [])"
proof -
  have "tx_ok ex_tx" using kv_inv by (simp add: tree_inv_def)
  from put_creates_root [OF _ _ _ this kv_fill kv_item_ok kv_room, of "newCollection [9] 0"]
  have "\<exists>c' t' q. Put kv_db (newCollection [9] 0) [5] [6] ex_tx = Some (Inr c', t') \<and> q \<notin> tx_used ex_tx
    \<and> tree_inv kv_db 2048 t' 0 (BNode q [newItem [5] [6]] []) \<and> c_root c' = q \<and> c_dirtyMeta c'
    \<and> collections t' = (collections ex_tx)(c_name (newCollection [9] 0) \<mapsto> c')
    \<and> (\<forall>p. p \<noteq> q \<longrightarrow> tx_view kv_db t' p = tx_view kv_db ex_tx p)"
    by (simp only: ex_tx_simps) (simp add: newCollection_def)
  then show ?thesis by blast
qed

text \<open>
  \<open>Put\<close> in a write transaction refuses a key or value of more than 255 bytes and an item that does not
  fit an empty leaf, with the error for it and without any change.
\<close>

lemma put_refuses_large_items:
  assumes "tx_write t" and "255 < length k \<or> 255 < length v \<or> pageSize d < length k + length v + 19"
  shows "Put d c k v t = Some (Inl ErrItemTooLarge, t)"
proof -
  have "item_validate (pageSize d) (newItem k v) = Inl ErrItemTooLarge"
    using assms(2) by (auto simp: item_validate_def node_validate_def NewNodeForSerialization_def newItem_def nodeSize_eq)
  then show ?thesis using assms(1) by (simp add: Put_def Let_def)
qed

lemma put_refuses_large_items_witness:
  "Put kv_db (newCollection [9] 3) (replicate 256 1) [] ex_tx = Some (Inl ErrItemTooLarge, ex_tx)"
  by (rule put_refuses_large_items) simp_all

text \<open>
  C18: \<open>Find\<close> returns on every tree of pages whose nodes are leaves or have one child more than items, even
  when the keys are in no order or the leaves at different depths.
\<close>

theorem find_returns:
  assumes "all_nodes (\<lambda>c. isLeaf c \<or> length (n_children c) = length (n_items c) + 1) T" and "tree_at (tx_view d t) T"
    and "tx_ok t" and "c_root c = bpage T"
  shows "\<exists>it t'. Find d c k t = Some (Inr it, t') \<and> reads t t'"
  by (rule find_returns_gen [OF assms])

lemma find_returns_witness:
  "\<exists>it t'. Find kv_db (newCollection [9] 3) [200] ex_tx = Some (Inr it, t')"
  using find_returns [of kv_tree kv_db ex_tx "newCollection [9] 3" "[200]"] kv_inv
  by (auto simp: tree_inv_def newCollection_def)

text \<open>
  A node that exceeds the upper threshold by at most one item has a split position, and neither half exceeds it.
\<close>

lemma split_point:
  assumes "fill d a b" and "node_fits b 518 c" and "isOverPopulated d c"
  shows "\<exists>i. getSplitIndex d c = int i \<and> 0 < i \<and> i < length (n_items c)
    \<and> \<not> isOverPopulated d (left_content i c) \<and> \<not> isOverPopulated d (right_content i c)"
proof -
  obtain i where i: "getSplitIndex d c = int i" "0 < i" "i < length (n_items c)"
    "node_fits b 0 (left_content i c)" "node_fits b 0 (right_content i c)"
    by (rule split_halves_fit [OF assms])
  have "\<not> isOverPopulated d x" if "node_fits b 0 x" for x
    using overpopulated_iff [OF assms(1) that] that by (simp add: node_fits_def)
  then show ?thesis using i by blast
qed

lemma split_point_witness:
  "\<exists>i. getSplitIndex kv_db \<lparr>n_items = replicate 4 (newItem (replicate 255 0) (replicate 255 0)), n_children = []\<rparr> = int i
    \<and> 0 < i \<and> i < 4"
proof -
  let ?c = "\<lparr>n_items = replicate 4 (newItem (replicate 255 0) (replicate 255 0)), n_children = []\<rparr>"
  have s: "nodeSize ?c = 2083" "small_items (n_items ?c)"
    by (simp_all add: nodeSize_esum newItem_def small_items_def list_all_iff eval_simps)
  have c: "node_fits 2048 518 ?c" using s by (simp add: node_fits_def)
  have "isOverPopulated kv_db ?c" using overpopulated_iff [OF kv_fill c] s by simp
  from split_point [OF kv_fill c this]
  obtain i where "getSplitIndex kv_db ?c = int i" "0 < i" "i < length (n_items ?c)" by blast
  then show ?thesis by auto
qed

text \<open>
  C19: with the default options and pages of 4096 bytes the thresholds are 2048 and about 3891 bytes, so every node that
  one insertion makes too large has such a split position.
\<close>

theorem default_options_split:
  assumes "pageSize d = 4096" and "minFillPercent d = MinFillPercent DefaultOptions"
    and "maxFillPercent d = MaxFillPercent DefaultOptions"
  shows "minThreshold d = Fin 2048 \<and> maxThreshold d = Fin (15938355 / 4096)
    \<and> (\<forall>c. small_items (n_items c) \<and> 3891 < nodeSize c \<and> nodeSize c \<le> 4409 \<longrightarrow>
         (\<exists>i. getSplitIndex d c = int i \<and> i < length (n_items c) \<and> nodeSize (left_content i c) \<le> 3891
           \<and> nodeSize (right_content i c) \<le> 3891))"
proof (intro conjI allI impI)
  let ?b = "15938355 / 4096 :: rat"
  note f = default_fill [OF assms]
  show "minThreshold d = Fin 2048" "maxThreshold d = Fin ?b" using f by (simp_all add: fill_def)
  fix c assume c: "small_items (n_items c) \<and> 3891 < nodeSize c \<and> nodeSize c \<le> 4409"
  then have "nodeSize c \<le> 4409" "3892 \<le> nodeSize c" by simp_all
  then have "(of_nat (nodeSize c) :: rat) \<le> of_nat 4409" "of_nat 3892 \<le> (of_nat (nodeSize c) :: rat)"
    by (simp_all only: of_nat_le_iff)
  then have n: "node_fits ?b 518 c" "?b < of_nat (nodeSize c)" using c by (simp_all add: node_fits_def)
  then have o: "isOverPopulated d c" using overpopulated_iff [OF f n(1)] by simp
  obtain i where i: "getSplitIndex d c = int i" "i < length (n_items c)"
    "node_fits ?b 0 (left_content i c)" "node_fits ?b 0 (right_content i c)"
    by (rule split_halves_fit [OF f n(1) o])
  have "nodeSize x \<le> 3891" if "node_fits ?b 0 x" for x
  proof -
    have "(of_nat (nodeSize x) :: rat) < of_nat 3892" using that by (simp add: node_fits_def)
    then show ?thesis by (simp only: of_nat_less_iff)
  qed
  then show "\<exists>i. getSplitIndex d c = int i \<and> i < length (n_items c) \<and> nodeSize (left_content i c) \<le> 3891
           \<and> nodeSize (right_content i c) \<le> 3891"
    using i by blast
qed

lemma default_options_split_witness:
  "minThreshold (ex_db\<lparr>pageSize := 4096, minFillPercent := MinFillPercent DefaultOptions,
     maxFillPercent := MaxFillPercent DefaultOptions\<rparr>) = Fin 2048"
  using default_options_split [of "ex_db\<lparr>pageSize := 4096, minFillPercent := MinFillPercent DefaultOptions,
     maxFillPercent := MaxFillPercent DefaultOptions\<rparr>"] by simp

end
