(* ===== verification/DB.thy ===== *)
theory DB
  imports Tx
begin

text \<open>
  \<^verbatim>\<open>db.go\<close>: options, opening a database, and the two locks. The locking discipline of
  \<open>ReadTx\<close>, \<open>WriteTx\<close>, \<open>Commit\<close> and \<open>Rollback\<close> is a step relation over any number of
  concurrent transactions; the invariant says which locks a transaction in each phase holds.
  Last comes the command-line tool of \<^verbatim>\<open>cmd/mykv/main.go\<close>.
\<close>

section \<open>Opening\<close>

definition withDefaults :: "int \<Rightarrow> Options \<Rightarrow> Options" where
  "withDefaults osPageSize opt =
     \<lparr>o_pageSize = (if o_pageSize opt = 0 then osPageSize else o_pageSize opt),
      MinFillPercent = (if MinFillPercent opt = Fin 0 then MinFillPercent DefaultOptions else MinFillPercent opt),
      MaxFillPercent = (if MaxFillPercent opt = Fin 0 then MaxFillPercent DefaultOptions else MaxFillPercent opt)\<rparr>"

definition options_validate :: "Options \<Rightarrow> unit res" where
  "options_validate opt =
     (if o_pageSize opt \<le> 0 then Inl ErrInvalidOptions
      else if f32_le (MinFillPercent opt) (Fin 0) \<or> f32_le (Fin 1) (MinFillPercent opt) then Inl ErrInvalidOptions
      else if f32_le (MaxFillPercent opt) (Fin 0) \<or> f32_less (Fin 1) (MaxFillPercent opt) then Inl ErrInvalidOptions
      else if f32_le (MaxFillPercent opt) (MinFillPercent opt) then Inl ErrInvalidOptions
      else if o_pageSize opt < int metaHeaderSize then Inl ErrInvalidOptions
      else Inr ())"

definition Open :: "faults \<Rightarrow> int \<Rightarrow> Options option \<Rightarrow> disk \<Rightarrow> dal res \<times> disk" where
  "Open io osPageSize options dk =
     (let opt = withDefaults osPageSize (case options of None \<Rightarrow> DefaultOptions | Some opt \<Rightarrow> opt) in
      case options_validate opt of Inl e \<Rightarrow> (Inl e, dk)
      | Inr _ \<Rightarrow> newDal io opt dk)"

definition Close :: "faults \<Rightarrow> dal \<Rightarrow> unit res \<times> dal" where
  "Close io d = dal_close io d"

section \<open>Locks\<close>

text \<open>
  One transaction: not running, reading, building changes, or inside the apply phase of a
  commit. The database a transaction started from is kept with it as a ghost.
\<close>

datatype phase = Idle | Reading dal | Writing dal tx | Applying dal tx

record dbstate =
  db :: dal
  writeLock :: bool
  commitR :: nat
  commitW :: bool
  txs :: "nat \<Rightarrow> phase"

definition init_dbstate :: "dal \<Rightarrow> dbstate" where
  "init_dbstate d = \<lparr>db = d, writeLock = False, commitR = 0, commitW = False, txs = (\<lambda>_. Idle)\<rparr>"

text \<open>
  \<open>commitLock\<close> is a read-write lock: \<open>RLock\<close> needs it free of a writer, \<open>Lock\<close> needs it
  free of writers and readers. \<open>Commit\<close> of a write transaction releases both locks on every
  path: when the flush fails before \<open>commitLock\<close> is taken, and after the apply phase, with or
  without an error.
\<close>

inductive db_step :: "dbstate \<Rightarrow> dbstate \<Rightarrow> bool" where
  ReadTx: "txs s i = Idle \<Longrightarrow> \<not> commitW s \<Longrightarrow>
    db_step s (s\<lparr>commitR := commitR s + 1, txs := (txs s)(i := Reading (db s))\<rparr>)"
| ReadDone: "txs s i = Reading d \<Longrightarrow>
    db_step s (s\<lparr>commitR := commitR s - 1, txs := (txs s)(i := Idle)\<rparr>)"
| WriteTx: "txs s i = Idle \<Longrightarrow> \<not> writeLock s \<Longrightarrow>
    db_step s (s\<lparr>writeLock := True, txs := (txs s)(i := Writing (db s) (newTx g (db s) True))\<rparr>)"
| Change: "txs s i = Writing b t \<Longrightarrow> db_step s (s\<lparr>txs := (txs s)(i := Writing b t')\<rparr>)"
| Rollback: "txs s i = Writing b t \<Longrightarrow>
    db_step s (s\<lparr>writeLock := False, txs := (txs s)(i := Idle)\<rparr>)"
| CommitFlushFails: "txs s i = Writing b t \<Longrightarrow> flushCollectionMetadata (db s) co t = Some (Inl e, t') \<Longrightarrow>
    db_step s (s\<lparr>writeLock := False, txs := (txs s)(i := Idle)\<rparr>)"
| CommitLock: "txs s i = Writing b t \<Longrightarrow> flushCollectionMetadata (db s) co t = Some (Inr u, t') \<Longrightarrow>
    \<not> commitW s \<Longrightarrow> commitR s = 0 \<Longrightarrow>
    db_step s (s\<lparr>commitW := True, txs := (txs s)(i := Applying b t')\<rparr>)"
| CommitPagesFail: "txs s i = Applying b t \<Longrightarrow> commitPages (db s) t no = Inl e \<Longrightarrow>
    db_step s (s\<lparr>writeLock := False, commitW := False, txs := (txs s)(i := Idle)\<rparr>)"
| CommitApplyFails: "txs s i = Applying b t \<Longrightarrow> commitPages (db s) t no = Inr (ps, fr, me) \<Longrightarrow>
    applyPagesWithWAL io ps (db s) = (Inl e, d) \<Longrightarrow>
    db_step s (s\<lparr>db := d, writeLock := False, commitW := False, txs := (txs s)(i := Idle)\<rparr>)"
| CommitDone: "txs s i = Applying b t \<Longrightarrow> commitPages (db s) t no = Inr (ps, fr, me) \<Longrightarrow>
    applyPagesWithWAL io ps (db s) = (Inr u, d) \<Longrightarrow>
    db_step s (s\<lparr>db := d\<lparr>d_freelist := fr, d_meta := me\<rparr>, writeLock := False, commitW := False,
       txs := (txs s)(i := Idle)\<rparr>)"

inductive db_reachable :: "dal \<Rightarrow> dbstate \<Rightarrow> bool" for d0 :: dal where
  start: "db_reachable d0 (init_dbstate d0)"
| step: "db_reachable d0 s \<Longrightarrow> db_step s s' \<Longrightarrow> db_reachable d0 s'"

definition readers :: "(nat \<Rightarrow> phase) \<Rightarrow> nat set" where
  "readers f = {i. \<exists>d. f i = Reading d}"

definition writers :: "(nat \<Rightarrow> phase) \<Rightarrow> nat set" where
  "writers f = {i. \<exists>b t. f i = Writing b t \<or> f i = Applying b t}"

definition appliers :: "(nat \<Rightarrow> phase) \<Rightarrow> nat set" where
  "appliers f = {i. \<exists>b t. f i = Applying b t}"

definition lock_inv :: "dbstate \<Rightarrow> bool" where
  "lock_inv s \<longleftrightarrow> finite (readers (txs s)) \<and> commitR s = card (readers (txs s))
     \<and> (if writeLock s then \<exists>i. writers (txs s) = {i} else writers (txs s) = {})
     \<and> (if commitW s then \<exists>i. appliers (txs s) = {i} else appliers (txs s) = {})
     \<and> (commitW s \<longrightarrow> readers (txs s) = {})
     \<and> (\<forall>i d. txs s i = Reading d \<longrightarrow> d = db s)
     \<and> (\<forall>i b t. txs s i = Writing b t \<or> txs s i = Applying b t \<longrightarrow> b = db s)"

section \<open>The command-line tool\<close>

datatype cli_output = NoOutput | CollectionNotFound | Found bytes | KeyNotFound

definition cli_put ::
  "faults \<Rightarrow> bytes list \<Rightarrow> (tx \<Rightarrow> pgnum list) \<Rightarrow> (nat \<Rightarrow> nat \<Rightarrow> nat) \<Rightarrow> dal \<Rightarrow> bytes \<Rightarrow> bytes \<Rightarrow> bytes
   \<Rightarrow> (cli_output res \<times> dal) option" where
  "cli_put io co no g d collection key value =
     (case bindM (GetOrCreateCollection d collection) (\<lambda>c. Put d c key value) (newTx g d True) of
        None \<Rightarrow> None
      | Some (Inl e, _) \<Rightarrow> Some (Inl e, d)
      | Some (Inr _, t) \<Rightarrow>
        (case Commit io co no d t of None \<Rightarrow> None
         | Some (Inl e, d) \<Rightarrow> Some (Inl e, d)
         | Some (Inr _, d) \<Rightarrow> Some (Inr NoOutput, d)))"

definition cli_get :: "(nat \<Rightarrow> nat \<Rightarrow> nat) \<Rightarrow> dal \<Rightarrow> bytes \<Rightarrow> bytes \<Rightarrow> (cli_output res \<times> dal) option" where
  "cli_get g d collection key =
     (case bindM (GetCollection d collection) (\<lambda>c.
             case c of None \<Rightarrow> returnM CollectionNotFound
             | Some c \<Rightarrow> bindM (Find d c key) (\<lambda>it.
                 returnM (case it of None \<Rightarrow> KeyNotFound | Some it \<Rightarrow> Found (item_value it))))
           (newTx g d False) of
        None \<Rightarrow> None
      | Some (r, _) \<Rightarrow> Some (r, d))"

definition cli_delete ::
  "faults \<Rightarrow> bytes list \<Rightarrow> (tx \<Rightarrow> pgnum list) \<Rightarrow> (nat \<Rightarrow> nat \<Rightarrow> nat) \<Rightarrow> dal \<Rightarrow> bytes \<Rightarrow> bytes
   \<Rightarrow> (cli_output res \<times> dal) option" where
  "cli_delete io co no g d collection key =
     (case bindM (GetCollection d collection) (\<lambda>c.
             case c of None \<Rightarrow> returnM () | Some c \<Rightarrow> bindM (Remove d c key) (\<lambda>_. returnM ()))
           (newTx g d True) of
        None \<Rightarrow> None
      | Some (Inl e, _) \<Rightarrow> Some (Inl e, d)
      | Some (Inr _, t) \<Rightarrow>
        (case Commit io co no d t of None \<Rightarrow> None
         | Some (Inl e, d) \<Rightarrow> Some (Inl e, d)
         | Some (Inr _, d) \<Rightarrow> Some (Inr NoOutput, d)))"

datatype operation = OpPut | OpGet | OpDelete | OpOther

definition cli_main ::
  "faults \<Rightarrow> bytes list \<Rightarrow> (tx \<Rightarrow> pgnum list) \<Rightarrow> (nat \<Rightarrow> nat \<Rightarrow> nat) \<Rightarrow> int \<Rightarrow> disk \<Rightarrow>
   operation \<Rightarrow> bytes \<Rightarrow> bytes \<Rightarrow> bytes \<Rightarrow> (cli_output res \<times> disk) option" where
  "cli_main io co no g osPageSize dk oper collection key value =
     (case Open io osPageSize (Some DefaultOptions) dk of
        (Inl e, dk) \<Rightarrow> Some (Inl e, dk)
      | (Inr d, _) \<Rightarrow>
        map_option (\<lambda>(r, d). (r, d_disk d))
          (case oper of
             OpPut \<Rightarrow> cli_put io co no g d collection key value
           | OpGet \<Rightarrow> cli_get g d collection key
           | OpDelete \<Rightarrow> cli_delete io co no g d collection key
           | OpOther \<Rightarrow> Some (Inl ErrUnknownOperation, d)))"

section \<open>The locking invariant\<close>

lemma lock_inv_init: "lock_inv (init_dbstate d)"
  by (simp add: lock_inv_def init_dbstate_def readers_def writers_def appliers_def)

lemma phase_sets_upd [simp]:
  "readers (f(i := Idle)) = readers f - {i}" "readers (f(i := Reading d)) = insert i (readers f)"
  "readers (f(i := Writing b t)) = readers f - {i}" "readers (f(i := Applying b t)) = readers f - {i}"
  "writers (f(i := Idle)) = writers f - {i}" "writers (f(i := Reading d)) = writers f - {i}"
  "writers (f(i := Writing b t)) = insert i (writers f)" "writers (f(i := Applying b t)) = insert i (writers f)"
  "appliers (f(i := Idle)) = appliers f - {i}" "appliers (f(i := Reading d)) = appliers f - {i}"
  "appliers (f(i := Writing b t)) = appliers f - {i}" "appliers (f(i := Applying b t)) = insert i (appliers f)"
  by (auto simp: readers_def writers_def appliers_def split: if_splits)

lemma phase_sets_in:
  "f i = Idle \<Longrightarrow> i \<notin> readers f \<and> i \<notin> writers f \<and> i \<notin> appliers f"
  "f i = Reading d \<Longrightarrow> i \<in> readers f \<and> i \<notin> writers f \<and> i \<notin> appliers f"
  "f i = Writing b t \<Longrightarrow> i \<notin> readers f \<and> i \<in> writers f \<and> i \<notin> appliers f"
  "f i = Applying b t \<Longrightarrow> i \<notin> readers f \<and> i \<in> writers f \<and> i \<in> appliers f"
  by (auto simp: readers_def writers_def appliers_def)

lemma readersI: "f i = Reading d \<Longrightarrow> i \<in> readers f"
  and writersI: "f i = Writing b t \<Longrightarrow> i \<in> writers f" "f i = Applying b t \<Longrightarrow> i \<in> writers f"
  by (auto simp: readers_def writers_def)

lemma lock_step_inv: "db_step s s' \<Longrightarrow> lock_inv s \<Longrightarrow> lock_inv s'"
proof (induction rule: db_step.induct)
  case (ReadTx s i)
  then show ?case using phase_sets_in(1) [of "txs s" i] by (auto simp: lock_inv_def split: if_splits)
next
  case (ReadDone s i d)
  then show ?case
    using phase_sets_in(2) [of "txs s" i] by (auto simp: lock_inv_def split: if_splits) metis+
next
  case (WriteTx s i g)
  then show ?case using phase_sets_in(1) [of "txs s" i] by (auto simp: lock_inv_def split: if_splits)
next
  case (Change s i b t t')
  then show ?case using phase_sets_in(3) [of "txs s" i] by (auto simp: lock_inv_def dest: writersI split: if_splits)
next
  case (Rollback s i b t)
  then show ?case using phase_sets_in(3) [of "txs s" i] by (auto simp: lock_inv_def dest: writersI split: if_splits)
next
  case (CommitFlushFails s i b t co e t')
  then show ?case using phase_sets_in(3) [of "txs s" i] by (auto simp: lock_inv_def dest: writersI split: if_splits)
next
  case (CommitLock s i b t co u t')
  then show ?case using phase_sets_in(3) [of "txs s" i] by (auto simp: lock_inv_def dest: writersI split: if_splits)
next
  case (CommitPagesFail s i b t no e)
  then show ?case using phase_sets_in(4) [of "txs s" i] by (auto simp: lock_inv_def dest: writersI split: if_splits)
next
  case (CommitApplyFails s i b t no ps fr me io e d)
  then show ?case
    using phase_sets_in(4) [of "txs s" i] by (auto simp: lock_inv_def dest: readersI writersI split: if_splits)
next
  case (CommitDone s i b t no ps fr me io u d)
  then show ?case
    using phase_sets_in(4) [of "txs s" i] by (auto simp: lock_inv_def dest: readersI writersI split: if_splits)
qed

lemma db_reachable_inv: "db_reachable d0 s \<Longrightarrow> lock_inv s"
  by (induction rule: db_reachable.induct) (auto intro: lock_inv_init lock_step_inv)

lemma isolation_gen:
  assumes "db_reachable d0 s"
  shows "\<And>i j. i \<in> writers (txs s) \<Longrightarrow> j \<in> writers (txs s) \<Longrightarrow> i = j"
    and "appliers (txs s) \<noteq> {} \<Longrightarrow> readers (txs s) = {}"
    and "\<And>i d. txs s i = Reading d \<Longrightarrow> d = db s"
    and "\<And>i d t. txs s i = Writing d t \<or> txs s i = Applying d t \<Longrightarrow> d = db s"
  using db_reachable_inv [OF assms] unfolding lock_inv_def by (auto split: if_splits)

text \<open>
  C16: in every reachable state of the locks there is at most one write transaction, no read
  transaction is open while a commit applies its pages, and every open transaction still sees the
  database it started from, so no update is lost.
\<close>

lemma isolation:
  assumes "db_reachable d0 s"
  shows "(\<forall>i j. i \<in> writers (txs s) \<and> j \<in> writers (txs s) \<longrightarrow> i = j)
    \<and> (appliers (txs s) \<noteq> {} \<longrightarrow> readers (txs s) = {})
    \<and> (\<forall>i d. txs s i = Reading d \<longrightarrow> d = db s)
    \<and> (\<forall>i d t. txs s i = Writing d t \<or> txs s i = Applying d t \<longrightarrow> d = db s)"
  using isolation_gen [OF assms] by blast

lemma isolation_witness:
  "\<exists>s t. db_reachable ex_db s \<and> txs s 0 = Reading ex_db \<and> txs s 1 = Writing ex_db t
    \<and> (\<forall>j. j \<in> writers (txs s) \<longrightarrow> j = 1)"
proof -
  let ?g = "\<lambda>_ n. n" let ?s0 = "init_dbstate ex_db"
  let ?s1 = "?s0\<lparr>commitR := commitR ?s0 + 1, txs := (txs ?s0)(0 := Reading (db ?s0))\<rparr>"
  let ?s2 = "?s1\<lparr>writeLock := True, txs := (txs ?s1)(1 := Writing (db ?s1) (newTx ?g (db ?s1) True))\<rparr>"
  have "db_step ?s0 ?s1" by (rule db_step.ReadTx) (simp_all add: init_dbstate_def)
  moreover have "db_step ?s1 ?s2" by (rule db_step.WriteTx) (simp_all add: init_dbstate_def)
  ultimately have r: "db_reachable ex_db ?s2"
    using db_reachable.step [OF db_reachable.step [OF db_reachable.start]] by blast
  have p: "txs ?s2 0 = Reading ex_db" "txs ?s2 1 = Writing ex_db (newTx ?g ex_db True)" by (simp_all add: init_dbstate_def)
  show ?thesis using isolation [OF r] r p writersI(1) [where f = "txs ?s2" and i = 1, OF p(2)] by blast
qed

text \<open>
  No step of any transaction changes the database while a read transaction is open.
\<close>

lemma database_fixed_while_reading:
  assumes "db_reachable d0 s" and "db_step s s'" and "readers (txs s) \<noteq> {}"
  shows "db s' = db s"
proof -
  have na: "txs s i \<noteq> Applying b t" for i b t
    using isolation_gen(2) [OF assms(1)] assms(3) phase_sets_in(4) [of "txs s" i b t] by blast
  show ?thesis using assms(2) by (cases rule: db_step.cases) (simp_all add: na)
qed

lemma database_fixed_while_reading_witness:
  "\<exists>s s'. db_reachable ex_db s \<and> db_step s s' \<and> readers (txs s) = {0} \<and> db s' = ex_db"
proof -
  let ?s0 = "init_dbstate ex_db"
  let ?s1 = "?s0\<lparr>commitR := commitR ?s0 + 1, txs := (txs ?s0)(0 := Reading (db ?s0))\<rparr>"
  let ?s2 = "?s1\<lparr>writeLock := True, txs := (txs ?s1)(1 := Writing (db ?s1) (newTx (\<lambda>_ n. n) (db ?s1) True))\<rparr>"
  have s1: "db_step ?s0 ?s1" by (rule db_step.ReadTx) (simp_all add: init_dbstate_def)
  have r: "db_reachable ex_db ?s1" by (rule db_reachable.step [OF db_reachable.start s1])
  have s2: "db_step ?s1 ?s2" by (rule db_step.WriteTx) (simp_all add: init_dbstate_def)
  have rd: "readers (txs ?s1) = {0}" by (auto simp: readers_def init_dbstate_def)
  have "db ?s1 = ex_db" by (simp add: init_dbstate_def)
  moreover have "db ?s2 = db ?s1" by (rule database_fixed_while_reading [OF r s2]) (unfold rd, simp)
  ultimately show ?thesis using r s2 rd by (intro exI [of _ ?s1] exI [of _ ?s2]) (simp only: simp_thms)
qed

text \<open>
  Options with finite fill percents are accepted exactly when the page size holds the header and
  0 < min < 1 and min < max <= 1.
\<close>

lemma options_accepted_iff:
  assumes "MinFillPercent opt = Fin a" and "MaxFillPercent opt = Fin b"
  shows "options_validate opt = Inr () \<longleftrightarrow> 24 \<le> o_pageSize opt \<and> 0 < a \<and> a < 1 \<and> a < b \<and> b \<le> 1"
  using assms by (auto simp: options_validate_def metaHeaderSize_def)

lemma options_accepted_iff_witness:
  "options_validate \<lparr>o_pageSize = 4096, MinFillPercent = Fin (1 / 2), MaxFillPercent = Fin (3 / 4)\<rparr> = Inr ()"
  using options_accepted_iff [of "\<lparr>o_pageSize = 4096, MinFillPercent = Fin (1 / 2), MaxFillPercent = Fin (3 / 4)\<rparr>" "1 / 2" "3 / 4"]
  by simp


text \<open>
  In a read transaction every operation that would write returns the error for it and
  changes nothing, and commit and rollback leave the database alone.
\<close>

lemma read_transactions_cannot_write:
  assumes "\<not> tx_write t"
  shows "Put d c k v t = Some (Inl ErrWriteInsideReadTx, t) \<and> Remove d c k t = Some (Inl ErrWriteInsideReadTx, t)
    \<and> CreateCollection d name t = Some (Inl ErrWriteInsideReadTx, t)
    \<and> DeleteCollection d name t = Some (Inl ErrWriteInsideReadTx, t)
    \<and> collection_ID c t = Some (Inr (0, c), t) \<and> Commit io co no d t = Some (Inr (), d) \<and> Rollback t = t"
  using assms
  by (simp add: Put_def Remove_def CreateCollection_def DeleteCollection_def collection_ID_def Commit_def Rollback_def)


lemma read_transactions_cannot_write_witness:
  "Put ex_db (newCollection [1] 2) [3] [4] (newTx (\<lambda>_ n. n) ex_db False)
    = Some (Inl ErrWriteInsideReadTx, newTx (\<lambda>_ n. n) ex_db False)"
proof -
  have "\<not> tx_write (newTx (\<lambda>_ n. n) ex_db False)" by (simp add: newTx_def)
  then show ?thesis using read_transactions_cannot_write by blast
qed

end
