(* ===== verification/Db_Store.thy ===== *)
theory Db_Store
  imports Kv_Store DB
begin

text \<open>
  The database as the transactions leave it: the trees its file holds, the invariant over all of them, and
  what a transaction that keeps it does when it looks up a collection, flushes the metadata and commits.
\<close>

section \<open>What a database holds\<close>

text \<open>
  A tree in the file: allocated pages with nodes below the upper threshold \<open>b\<close>. The number \<open>n\<close> bounds its height and
  the number of its items; every transaction that puts one item raises the bound by one.
\<close>

definition db_tree :: "dal \<Rightarrow> rat \<Rightarrow> nat \<Rightarrow> nat \<Rightarrow> btree \<Rightarrow> bool" where
  "db_tree d b n h T \<longleftrightarrow> h \<le> n \<and> length (inorder T) \<le> n \<and> bal h T \<and> sorted_items (inorder T) \<and> tree_at (stored d) T \<and> distinct (page_list T)
     \<and> set (page_list T) \<subseteq> freelist_used (d_freelist d) \<and> tree_fits b 0 T"

definition metadata :: "bytes \<Rightarrow> pgnum \<Rightarrow> 64 word \<Rightarrow> collection" where
  "metadata name p n = \<lparr>c_name = name, c_root = p, c_counter = n, c_rootCollection = False, c_dirtyMeta = False\<rparr>"

text \<open>
  \<open>R\<close> is the tree of the root collection and \<open>F\<close> gives the tree of every collection. All trees are on
  different allocated pages, none on the page of the free list, which fits its page.
\<close>

definition db_inv :: "dal \<Rightarrow> rat \<Rightarrow> nat \<Rightarrow> btree \<Rightarrow> (bytes \<rightharpoonup> btree) \<Rightarrow> bool" where
  "db_inv d b k R F \<longleftrightarrow> (\<exists>h. db_tree d b k h R) \<and> bpage R = m_root (d_meta d)
     \<and> (\<forall>name. F name = None \<longrightarrow> find_item name (inorder R) = None)
     \<and> (\<forall>name T. F name = Some T \<longrightarrow> (\<exists>h. db_tree d b k h T)
         \<and> (\<exists>n. find_item name (inorder R) = Some (collection_serialize (metadata name (bpage T) n)))
         \<and> set (page_list T) \<inter> set (page_list R) = {} \<and> m_freelistPage (d_meta d) \<notin> set (page_list T))
     \<and> (\<forall>x y S T. F x = Some S \<and> F y = Some T \<and> x \<noteq> y \<longrightarrow> set (page_list S) \<inter> set (page_list T) = {})
     \<and> m_freelistPage (d_meta d) \<in> freelist_used (d_freelist d) \<and> m_freelistPage (d_meta d) \<notin> set (page_list R)
     \<and> freelist_inv (d_freelist d) \<and> 10 + 8 * length (releasedPages (d_freelist d)) \<le> pageSize d
     \<and> fileOpen d \<and> (\<exists>f. d_disk d = \<lparr>dbfile = Some f, walfile = None\<rparr>)"

text \<open>
  The thresholds leave room to split. An internal node needs more bytes in its page than its size, four for every item;
  it fits when the upper threshold is at most two thirds of a page, or when the trees have few items. The default options are
  of the second kind: with pages of 4096 bytes, trees of up to 50 items are safe.
\<close>

definition db_config :: "dal \<Rightarrow> rat \<Rightarrow> rat \<Rightarrow> nat \<Rightarrow> bool" where
  "db_config d a b n \<longleftrightarrow> fill d a b \<and> (3 * b \<le> 2 * of_nat (pageSize d) \<or> b + 4 * of_nat n + 1 \<le> of_nat (pageSize d))
     \<and> pageSize d \<le> 2 ^ 16"

text \<open>The page numbers of one more transaction are below this limit, which leaves the file far from the 63-bit limit.\<close>

definition page_limit :: "dal \<Rightarrow> nat \<Rightarrow> nat" where
  "page_limit d n = unat (maxPage (d_freelist d)) + 2 * n + 6"

definition db_room :: "dal \<Rightarrow> nat \<Rightarrow> bool" where
  "db_room d n \<longleftrightarrow> page_limit d n \<le> 2 ^ 64 \<and> walHeaderSize + (page_limit d n + 2) * (8 + pageSize d) < 2 ^ 63"

text \<open>The file holds the header and the free list that are in memory.\<close>

definition db_synced :: "dal \<Rightarrow> bool" where
  "db_synced d \<longleftrightarrow> readMeta d = Inr (d_meta d) \<and> readFreelist d = Inr (d_freelist d)"

lemma page_size_min:
  assumes "db_config d a b k"
  shows "1053 \<le> pageSize d"
proof -
  have "(1052 :: rat) \<le> b" "3 * b \<le> 2 * of_nat (pageSize d) \<or> b + 4 * of_nat k + 1 \<le> of_nat (pageSize d)"
    using assms by (auto simp: db_config_def fill_def)
  then have "(of_nat 1053 :: rat) \<le> of_nat (pageSize d)"
    using of_nat_0_le_iff [of k, where 'a = rat] by (simp del: of_nat_0_le_iff) linarith
  then show ?thesis by (simp only: of_nat_le_iff)
qed

lemma metadata_roundtrip [simp]:
  "collection_deserialize newEmptyCollection (collection_serialize (metadata name p n)) = Some (metadata name p n)"
  by (simp add: collection_roundtrip_gen) (simp add: metadata_def)

lemma metadata_simps [simp]:
  "c_name (metadata name p n) = name" "c_root (metadata name p n) = p" "\<not> c_rootCollection (metadata name p n)"
  "\<not> c_dirtyMeta (metadata name p n)" "c_counter (metadata name p n) = n"
  by (simp_all add: metadata_def)

lemma ins_item_length:
  "length (ins_item it its) \<le> length its + 1"
  "find_item (item_key it) its \<noteq> None \<Longrightarrow> length (ins_item it its) \<le> length its"
proof -
  have l: "length (ins_item it its) = Suc (length (filter (\<lambda>x. item_key x \<noteq> item_key it) its))"
    by (induction its) (auto simp: ins_item_def)
  then show "length (ins_item it its) \<le> length its + 1" by simp
  have "find_item k its \<noteq> None \<Longrightarrow> length (filter (\<lambda>x. item_key x \<noteq> k) its) < length its" for k
  proof (induction its)
    case (Cons x its)
    have "length (filter (\<lambda>x. item_key x \<noteq> k) its) \<le> length its" by simp
    then show ?case using Cons by (cases "item_key x = k") (simp_all add: le_imp_less_Suc)
  qed simp
  then show "find_item (item_key it) its \<noteq> None \<Longrightarrow> length (ins_item it its) \<le> length its" using l by fastforce
qed

lemma weave_length: "length xs = length as + 1 \<Longrightarrow> length (weave as xs) = length as + sum_list (map length xs)"
proof (induction as xs rule: weave.induct)
  case (2 x xs)
  then show ?case by simp
qed simp_all

lemma items_le_inorder: "bal h T \<Longrightarrow> all_nodes (\<lambda>c. length (n_items c) \<le> length (inorder T)) T"
proof -
  have mono: "all_nodes P T \<Longrightarrow> (\<And>c. P c \<Longrightarrow> Q c) \<Longrightarrow> all_nodes Q T" for P Q T
    by (induction T) (auto simp: list_all_iff)
  show "bal h T \<Longrightarrow> all_nodes (\<lambda>c. length (n_items c) \<le> length (inorder T)) T"
  proof (induction h arbitrary: T)
    case 0
    then show ?case by (cases T; cases "bitems T") (auto simp: bcontent_def)
  next
    case (Suc h)
    obtain p its subs where T: "T = BNode p its subs" by (cases T)
    have w: "length (inorder T) = length its + sum_list (map (length \<circ> inorder) subs)"
      using Suc.prems weave_length [of "map inorder subs" its] by (simp add: T)
    have "all_nodes (\<lambda>c. length (n_items c) \<le> length (inorder T)) S" if S: "S \<in> set subs" for S
    proof -
      have "length (inorder S) \<le> length (inorder T)"
        using member_le_sum_list [of "(length \<circ> inorder) S" "map (length \<circ> inorder) subs"] S w by simp
      moreover have "all_nodes (\<lambda>c. length (n_items c) \<le> length (inorder S)) S"
        using Suc.IH [of S] Suc.prems S by (simp add: T list_all_iff)
      ultimately show ?thesis using mono [of _ S] by (metis (no_types, lifting) le_trans)
    qed
    then show ?case using w by (simp add: T bcontent_def list_all_iff)
  qed
qed

section \<open>Trees during a transaction\<close>

lemma freelist_clone_id [simp]: "freelist_clone fr = fr"
  by (cases fr) (simp add: freelist_clone_def)

lemma newTx_simps [simp]:
  "tx_view d (newTx g d w) = stored d" "tx_ok (newTx g d w)" "dirtyNodes (newTx g d w) = Map.empty"
  "tx_write (newTx g d w) = w" "tx_root (newTx g d w) = m_root (d_meta d)" "collections (newTx g d w) = Map.empty"
  "deletedCollections (newTx g d w) = {}" "pagesToDelete (newTx g d w) = []"
  "tx_used (newTx g d True) = freelist_used (d_freelist d)"
  by (simp_all add: newTx_def tx_view_def fun_eq_iff tx_ok_def tx_used_def)

lemma newTx_inv: "db_tree d b k h T \<Longrightarrow> tree_inv d b (newTx g d True) h T"
  by (simp add: db_tree_def tree_inv_def)

lemma newTx_alloc:
  assumes "freelist_inv (d_freelist d)" and "unat (maxPage (d_freelist d)) + n < L" and "L \<le> 2 ^ 64"
  shows "alloc_ok L (length (releasedPages (d_freelist d))) (newTx g d True) n"
  using assms by (simp add: alloc_ok_def newTx_def)

lemma tree_inv_same: "same_nodes t t' \<Longrightarrow> tree_inv d b t' h T = tree_inv d b t h T"
  by (simp add: tree_inv_def same_nodes_view)

lemma tree_inv_frame:
  assumes "tree_inv d b t h X" and "tx_ok t'" and "page_frame d T t t'" and "set (page_list X) \<inter> set (page_list T) = {}"
    and "tx_used t \<subseteq> tx_used t'"
  shows "tree_inv d b t' h X"
proof -
  have "tx_view d t' p = tx_view d t p" if "p \<in> set (page_list X)" for p
    using assms(1,3,4) that unfolding tree_inv_def page_frame_def by blast
  then have "tree_at (tx_view d t') X" using assms(1) tree_at_frame by (metis tree_inv_def)
  then show ?thesis using assms(1,2,5) by (auto simp: tree_inv_def)
qed

lemma tree_page_node:
  "tree_at v T \<Longrightarrow> all_nodes P T \<Longrightarrow> p \<in> set (page_list T) \<Longrightarrow> \<exists>c. v p = Some c \<and> P c"
proof (induction T)
  case (BNode q its subs)
  show ?case
  proof (cases "p = q")
    case True
    then show ?thesis using BNode.prems by (auto simp: bcontent_def)
  next
    case False
    then obtain S where "S \<in> set subs" "p \<in> set (page_list S)" using BNode.prems(3) by auto
    then show ?thesis using BNode.IH BNode.prems(1,2) by (auto simp: list_all_iff)
  qed
qed

lemma all_nodes_conj: "all_nodes P T \<Longrightarrow> all_nodes Q T \<Longrightarrow> all_nodes (\<lambda>c. P c \<and> Q c) T"
  by (induction T) (auto simp: list_all_iff)

lemma bal_all_nodes: "bal h T \<Longrightarrow> all_nodes (\<lambda>c. isLeaf c \<or> length (n_children c) = length (n_items c) + 1) T"
proof (induction h arbitrary: T)
  case 0
  then show ?case by (cases T) (simp add: bcontent_def isLeaf_def)
next
  case (Suc h)
  then show ?case by (cases T) (auto simp: bcontent_def list_all_iff)
qed

text \<open>Nodes of a tree fit their pages.\<close>

lemma node_fits_page:
  assumes "db_config d a b k" and "node_fits b 0 c" and "isLeaf c \<or> length (n_children c) = length (n_items c) + 1"
    and "length (n_items c) \<le> k"
  shows "node_validate (pageSize d) c = Inr ()" and "encodedSize c \<le> pageSize d"
proof -
  have small: "small_items (n_items c)" and sz: "(of_nat (nodeSize c) :: rat) \<le> b" using assms(2) by (simp_all add: node_fits_def)
  have n: "3 * nodeSize c \<le> 2 * pageSize d \<or> nodeSize c + 4 * k + 1 \<le> pageSize d"
  proof (cases "3 * b \<le> 2 * of_nat (pageSize d)")
    case True
    then have "of_nat (3 * nodeSize c) \<le> (of_nat (2 * pageSize d) :: rat)" using sz by simp
    then have "3 * nodeSize c \<le> 2 * pageSize d" by (simp only: of_nat_le_iff)
    then show ?thesis ..
  next
    case False
    then have "of_nat (nodeSize c + 4 * k + 1) \<le> (of_nat (pageSize d) :: rat)" using sz assms(1) by (simp add: db_config_def)
    then have "nodeSize c + 4 * k + 1 \<le> pageSize d" by (simp only: of_nat_le_iff)
    then show ?thesis ..
  qed
  then have "nodeSize c \<le> pageSize d" by linarith
  then show "node_validate (pageSize d) c = Inr ()" using assms(3) small by (auto simp: node_validate_Inr)
  have "cells_size its + 6 * length its = esum its" "8 * length its \<le> esum its" for its
    by (induction its) auto
  then have "encodedSize c \<le> nodeSize c + 4 * length (n_items c) + 1" "8 * length (n_items c) + 11 \<le> nodeSize c"
    by (simp_all add: encodedSize_def slot_size_def nodeSize_esum add.commute flip: \<open>\<And>its. cells_size its + 6 * length its = esum its\<close>)
  then show "encodedSize c \<le> pageSize d" using n assms(4) by linarith
qed

lemma tree_inv_page:
  assumes "tree_inv d b t h T" and "db_config d a b k" and "p \<in> set (page_list T)" and "length (inorder T) \<le> k"
  obtains c where "tx_view d t p = Some c" and "node_validate (pageSize d) c = Inr ()" and "encodedSize c \<le> pageSize d"
proof -
  have i: "tree_at (tx_view d t) T" "all_nodes (node_fits b 0) T" "bal h T"
    using assms(1) by (simp_all add: tree_inv_def tree_fits_0)
  note al = all_nodes_conj [OF all_nodes_conj [OF i(2) bal_all_nodes [OF i(3)]] items_le_inorder [OF i(3)]]
  obtain c where "tx_view d t p = Some c" "node_fits b 0 c" "isLeaf c \<or> length (n_children c) = length (n_items c) + 1"
    "length (n_items c) \<le> k"
    using tree_page_node [OF i(1) al assms(3)] assms(4) by auto
  then show thesis using that node_fits_page [OF assms(2)] by blast
qed


section \<open>The collection of a name\<close>

lemma getRootCollection_simps [simp]:
  "c_root (getRootCollection t) = tx_root t" "c_rootCollection (getRootCollection t)"
  by (simp_all add: getRootCollection_def newEmptyCollection_def)

lemma GetCollection_spec:
  assumes "bal h R" and "sorted_items (inorder R)" and "tree_at (tx_view d t) R" and "tx_ok t" and "tx_root t = bpage R"
    and "deletedCollections t = {}" and "collections t = Map.empty"
  obtains t1 where "reads t t1"
    and "find_item name (inorder R) = None \<longrightarrow> GetCollection d name t = Some (Inr None, t1)"
    and "\<forall>p n. find_item name (inorder R) = Some (collection_serialize (metadata name p n)) \<longrightarrow>
      GetCollection d name t = Some (Inr (Some (metadata name p n)),
        if tx_write t then t1\<lparr>collections := Map.empty(name \<mapsto> metadata name p n)\<rparr> else t1)"
proof -
  obtain t1 where f: "Find d (getRootCollection t) name t = Some (Inr (find_item name (inorder R)), t1)" "reads t t1"
    using find_tree [OF assms(1-4), of "getRootCollection t" name] assms(5) by auto
  note rf = reads_fields [OF f(2)]
  show thesis
  proof (rule that [OF f(2)])
    show "find_item name (inorder R) = None \<longrightarrow> GetCollection d name t = Some (Inr None, t1)"
      using f(1) assms(6,7) by (simp add: GetCollection_def bindM_def)
    show "\<forall>p n. find_item name (inorder R) = Some (collection_serialize (metadata name p n)) \<longrightarrow>
      GetCollection d name t = Some (Inr (Some (metadata name p n)),
        if tx_write t then t1\<lparr>collections := Map.empty(name \<mapsto> metadata name p n)\<rparr> else t1)"
      using f(1) assms(6,7) rf(3,5) by (simp add: GetCollection_def bindM_def trackCollection_def)
  qed
qed

section \<open>Flushing the metadata\<close>

lemma flush_skip:
  "(\<And>key c. collections t key = Some c \<Longrightarrow> \<not> c_dirtyMeta c) \<Longrightarrow> flushCollectionMetadata d co t = Some (Inr (), t)"
  by (induction co) (auto split: option.split)

lemma flush_one:
  assumes "collections t = Map.empty(name \<mapsto> c)" and "c_dirtyMeta c" and "deletedCollections t = {}" and "name \<in> set co"
    and "Put d (getRootCollection t) (c_name c) (item_value (collection_serialize c)) t = Some (Inr c', t')"
    and "collections t' = collections t"
  shows "flushCollectionMetadata d co t = Some (Inr (), t'\<lparr>collections := Map.empty(name \<mapsto> c\<lparr>c_dirtyMeta := False\<rparr>)\<rparr>)"
  using assms(4)
proof (induction co)
  case (Cons key co)
  show ?case
  proof (cases "key = name")
    case True
    have e: "(collections t')(key \<mapsto> x) = Map.empty(name \<mapsto> x)" for x using True assms(1,6) by simp
    have "flushCollectionMetadata d (key # co) t
        = flushCollectionMetadata d co (t'\<lparr>collections := (collections t')(key \<mapsto> c\<lparr>c_dirtyMeta := False\<rparr>)\<rparr>)"
      using True assms(1-3,5) by (simp add: bindM_def)
    moreover have "flushCollectionMetadata d co (t'\<lparr>collections := Map.empty(name \<mapsto> c\<lparr>c_dirtyMeta := False\<rparr>)\<rparr>)
        = Some (Inr (), t'\<lparr>collections := Map.empty(name \<mapsto> c\<lparr>c_dirtyMeta := False\<rparr>)\<rparr>)"
      by (rule flush_skip) (auto split: if_split_asm)
    ultimately show ?thesis unfolding e by (rule trans)
  next
    case False
    then show ?thesis using Cons assms(1) by simp
  qed
qed simp

section \<open>A commit keeps the trees\<close>

text \<open>An iteration over the map of changed nodes visits each of them once.\<close>

definition map_order :: "(tx \<Rightarrow> pgnum list) \<Rightarrow> bool" where
  "map_order no \<longleftrightarrow> (\<forall>t. distinct (no t) \<and> set (no t) = dom (dirtyNodes t))"

lemma dirty_count:
  assumes "tx_ok t" and "distinct ps" and "set ps = dom (dirtyNodes t)" and "alloc_ok L M t 0"
  shows "length ps < L"
proof -
  obtain fr where fr: "tx_freelist t = Some fr" "unat (maxPage fr) < L" using assms(4) by (auto simp: alloc_ok_def)
  have "set ps \<subseteq> tx_used t" using assms(1,3) by (auto simp: tx_ok_def)
  then have "unat ` set ps \<subseteq> {1 .. unat (maxPage fr)}" using fr(1) by (auto simp: tx_used_def freelist_used_def)
  then have "card (unat ` set ps) \<le> unat (maxPage fr)"
    using card_mono [of "{1 .. unat (maxPage fr)}"] by fastforce
  moreover have "inj_on unat (set ps)" by (simp add: inj_on_def word_unat_eq_iff)
  then have "card (unat ` set ps) = length ps" using assms(2) by (simp only: card_image distinct_card)
  ultimately show ?thesis using fr(2) by simp
qed

lemma used_page_ok:
  assumes "alloc_ok L M t 0" and "p \<in> tx_used t" and "walHeaderSize + (L + 2) * (8 + ps) < 2 ^ 63"
  shows "page_ok ps p"
proof -
  obtain fr where fr: "tx_freelist t = Some fr" "unat (maxPage fr) < L" using assms(1) by (auto simp: alloc_ok_def)
  then have "unat p < L" using assms(2) by (simp add: tx_used_def freelist_used_def)
  then have "(unat p + 1) * ps \<le> (L + 2) * (8 + ps)" by (intro mult_le_mono) simp_all
  then show ?thesis using assms(3) by (simp add: page_ok_def)
qed

lemma maxPage_fold: "maxPage (fold releasePage ps fr) = maxPage fr"
  by (induction ps arbitrary: fr) (simp_all add: releasePage_def)

text \<open>
  A transaction whose changed nodes all fit their pages commits when no call fails, and every page it sees is
  what the database then says.
\<close>

lemma commit_trees:
  assumes fl: "flushCollectionMetadata d co t = Some (Inr (), t')" and ok: "tx_ok t'" and no: "map_order no"
    and wr: "tx_write t" and op: "fileOpen d" and dk: "d_disk d = \<lparr>dbfile = Some old, walfile = None\<rparr>"
    and cf: "db_config d a b k" and al: "alloc_ok L M t' 0" and M: "10 + 8 * (M + length (pagesToDelete t')) \<le> pageSize d"
    and lim: "walHeaderSize + (L + 2) * (8 + pageSize d) < 2 ^ 63"
    and del: "distinct (pagesToDelete t')" "set (pagesToDelete t') \<subseteq> tx_used t'"
    and fp: "m_freelistPage (d_meta d) \<in> tx_used t'" "dirtyNodes t' (m_freelistPage (d_meta d)) = None"
    and dn: "\<forall>p n. dirtyNodes t' p = Some n \<longrightarrow> node_validate (pageSize d) (contents (mem t') n) = Inr ()
      \<and> encodedSize (contents (mem t') n) \<le> pageSize d"
  shows "\<exists>d' f. Commit no_faults co no d t = Some (Inr (), d') \<and> d_disk d' = \<lparr>dbfile = Some f, walfile = None\<rparr>
    \<and> pageSize d' = pageSize d \<and> fileOpen d' \<and> minFillPercent d' = minFillPercent d \<and> maxFillPercent d' = maxFillPercent d
    \<and> m_freelistPage (d_meta d') = m_freelistPage (d_meta d) \<and> m_root (d_meta d') = tx_root t'
    \<and> db_synced d' \<and> freelist_used (d_freelist d') = tx_used t' - set (pagesToDelete t') \<and> freelist_inv (d_freelist d')
    \<and> length (releasedPages (d_freelist d')) \<le> M + length (pagesToDelete t') \<and> unat (maxPage (d_freelist d')) < L
    \<and> (\<forall>p \<in> tx_used t'. p \<noteq> m_freelistPage (d_meta d) \<longrightarrow> tx_view d t' p \<noteq> None \<longrightarrow> stored d' p = tx_view d t' p)"
proof -
  let ?fp = "m_freelistPage (d_meta d)"
  have z: "0 \<notin> tx_used t'" by (rule tx_used_ne_0)
  have oo: "distinct (no t')" "set (no t') = dom (dirtyNodes t')" using no by (simp_all add: map_order_def)
  have len: "length (no t') < L" by (rule dirty_count [OF ok oo al])
  then have sz: "walHeaderSize + (length (no t') + 2) * (8 + pageSize d) < 2 ^ 63"
    using lim mult_le_mono1 [of "length (no t') + 2" "L + 2" "8 + pageSize d"] by linarith
  have ps: "24 \<le> pageSize d"
  proof -
    show ?thesis using page_size_min [OF cf] by simp
  qed
  have du: "p \<in> tx_used t' \<and> pageNum n = p \<and> p \<noteq> 0 \<and> p \<noteq> ?fp" if "dirtyNodes t' p = Some n" for p n
    using ok that z fp(2) by (auto simp: tx_ok_def)
  have rdy: "commit_ready d t' (no t')"
    unfolding commit_ready_def
    using ps cf fp(1) z oo sz used_page_ok [OF al _ lim] du dn by (auto simp: db_config_def)
  obtain fr where fr: "tx_freelist t' = Some fr" "length (releasedPages fr) \<le> M" "freelist_inv fr" "unat (maxPage fr) < L"
    using al by (auto simp: alloc_ok_def)
  obtain d' where c: "Commit no_faults co no d t = Some (Inr (), d')"
    using commit_returns_gen [where no = no, OF fl rdy op dk wr fr(1)] fr(2) M dn by auto
  note p = commit_persists_gen [where no = no, OF fl rdy op dk wr c]
  have "stored d' q = tx_view d t' q" if q: "q \<in> tx_used t'" "q \<noteq> ?fp" "tx_view d t' q \<noteq> None" for q
  proof (cases "dirtyNodes t' q")
    case None
    then obtain e where "dal_getNode d q = Inr e" using q(3) by (auto simp: tx_view_def stored_def split: sum.splits)
    moreover from this have "dal_getNode d' q = Inr e"
      using p None q used_page_ok [OF al q(1) lim] z by auto
    ultimately show ?thesis using None by (simp add: tx_view_def stored_def)
  next
    case (Some n)
    then have "dal_getNode d' q = Inr (contents (mem t') n)" using p by blast
    then show ?thesis using Some by (simp add: tx_view_def stored_def)
  qed
  moreover have e: "d_freelist d' = fold releasePage (pagesToDelete t') fr" using p fr(1) by simp
  moreover have "freelist_inv (d_freelist d') \<and> freelist_used (d_freelist d') = tx_used t' - set (pagesToDelete t')"
    unfolding e using fl.free_many [OF fr(3) del(1)] del(2) fr(1) by (simp add: tx_used_def)
  moreover have "length (releasedPages (d_freelist d')) \<le> M + length (pagesToDelete t')" using e fr(2) by (simp add: releasedPages_fold)
  moreover have "unat (maxPage (d_freelist d')) < L" using e fr(4) by (simp add: maxPage_fold)
  moreover have "db_synced d'" using p by (simp add: db_synced_def)
  ultimately show ?thesis using c p by auto
qed

lemma committed_tree:
  assumes "tree_inv d b t' h T" and "set (page_list T) \<subseteq> freelist_used (d_freelist d')"
    and "\<forall>p \<in> tx_used t'. p \<noteq> fp \<longrightarrow> tx_view d t' p \<noteq> None \<longrightarrow> stored d' p = tx_view d t' p" and "fp \<notin> set (page_list T)"
    and "h \<le> k" and "length (inorder T) \<le> k"
  shows "db_tree d' b k h T"
proof -
  have i: "tree_at (tx_view d t') T" "set (page_list T) \<subseteq> tx_used t'" using assms(1) by (simp_all add: tree_inv_def)
  have "stored d' p = tx_view d t' p" if p: "p \<in> set (page_list T)" for p
  proof -
    have "all_nodes (\<lambda>_. True) T" by (induction T) (auto simp: list_all_iff)
    then have "tx_view d t' p \<noteq> None" using tree_page_node [OF i(1) _ p] by auto
    moreover have "p \<in> tx_used t'" "p \<noteq> fp" using i(2) p assms(4) by auto
    ultimately show ?thesis using assms(3) by simp
  qed
  then have "tree_at (stored d') T" by (rule tree_at_frame [OF i(1)])
  then show ?thesis using assms(1,2,5,6) by (simp add: tree_inv_def db_tree_def)
qed


section \<open>The flush before a commit\<close>

lemma small_inorder: "all_nodes (\<lambda>c. small_items (n_items c)) T \<Longrightarrow> small_items (inorder T)"
proof (induction T)
  case (BNode p its subs)
  have w: "set (weave as xs) \<subseteq> set as \<union> \<Union> (set ` set xs)" for as xs
    by (induction as xs rule: weave.induct) auto
  have "small_items (inorder S)" if "S \<in> set subs" for S using BNode that by (simp add: list_all_iff)
  then show ?case using BNode.prems w [of its "map inorder subs"] by (fastforce simp: small_items_def list_all_iff bcontent_def)
qed

lemma find_item_in: "find_item k its = Some it \<Longrightarrow> it \<in> set its"
  by (induction its) (auto split: if_split_asm)

lemma metadata_name_small:
  assumes "tree_fits b 0 R" and "find_item name (inorder R) = Some (collection_serialize (metadata name p n))"
  shows "length name \<le> 255"
proof -
  have "all_nodes (\<lambda>c. small_items (n_items c)) R"
    using assms(1) unfolding tree_fits_0 by (induction R) (auto simp: node_fits_def list_all_iff)
  then have "small_items (inorder R)" by (rule small_inorder)
  moreover have "collection_serialize (metadata name p n) \<in> set (inorder R)" by (rule find_item_in [OF assms(2)])
  ultimately show ?thesis by (auto simp: small_items_def list_all_iff collection_serialize_def newItem_def)
qed

lemma metadata_item_ok:
  assumes "db_config d a b k" and "length (c_name c) \<le> 255"
  shows "item_validate (pageSize d) (newItem (c_name c) (item_value (collection_serialize c))) = Inr ()"
  using page_size_min [OF assms(1)] assms(2)
  by (simp add: item_validate_def node_validate_Inr NewNodeForSerialization_def isLeaf_def newItem_def
      nodeSize_eq small_items_def collection_serialize_def)

lemma flush_tree:
  assumes cf: "db_config d a b k" and inv: "tree_inv d b t h R" and rt: "tx_root t = bpage R" and wr: "tx_write t"
    and del: "deletedCollections t = {}" and ps: "c_dirtyMeta c \<Longrightarrow> put_safe t R (c_name c)"
    and al: "alloc_ok L M t (if c_dirtyMeta c then h + 2 else 0)" and nm: "length (c_name c) \<le> 255" and co: "c_name c \<in> set co"
    and cs: "collections t = Map.empty(c_name c \<mapsto> c)"
    and nw: "find_item (c_name c) (inorder R) \<noteq> None"
    and old: "\<not> c_dirtyMeta c \<Longrightarrow> find_item (c_name c) (inorder R) = Some (collection_serialize c)"
  shows "\<exists>t' R' h'. flushCollectionMetadata d co t = Some (Inr (), t') \<and> tree_inv d b t' h' R' 
    \<and> h' \<le> (if c_dirtyMeta c then h + 1 else h) \<and> length (inorder R') \<le> length (inorder R) \<and> tx_root t' = bpage R'
    \<and> (\<forall>x. find_item x (inorder R') = (if x = c_name c then Some (collection_serialize c) else find_item x (inorder R)))
    \<and> page_frame d R t t' \<and> set (page_list R') \<inter> tx_used t = set (page_list R) \<and> tx_used t' = tx_used t \<union> set (page_list R')
    \<and> alloc_ok L M t' 0 \<and> pagesToDelete t' = pagesToDelete t"
proof (cases "c_dirtyMeta c")
  case False
  have "flushCollectionMetadata d co t = Some (Inr (), t)"
    by (rule flush_skip) (use False cs in \<open>auto split: if_split_asm\<close>)
  moreover have "set (page_list R) \<subseteq> tx_used t" using inv by (simp add: tree_inv_def)
  ultimately show ?thesis
    using inv rt old [OF False] al False by (intro exI [of _ t] exI [of _ R] exI [of _ h]) auto
next
  case True
  let ?rc = "getRootCollection t" and ?v = "item_value (collection_serialize c)"
  have fl: "fill d a b" using cf by (simp add: db_config_def)
  have al': "alloc_ok L M t (h + 2 + 0)" using al True by simp
  obtain c1 t1 R' h' where p: "Put d ?rc (c_name c) ?v t = Some (Inr c1, t1)" "tree_inv d b t1 h' R'" "h' \<le> h + 1"
    "inorder R' = ins_item (newItem (c_name c) ?v) (inorder R)" "c_root c1 = bpage R'" "handle_step ?rc t c1 t1"
    "page_frame d R t t1" "set (page_list R') \<inter> tx_used t = set (page_list R)" "tx_used t1 = tx_used t \<union> set (page_list R')"
    "alloc_ok L M t1 0"
    using put_tree [OF fl inv _ _ wr metadata_item_ok [OF cf nm] al' ps [OF True], of ?rc] rt by auto
  have hs: "tx_root t1 = bpage R'" "collections t1 = collections t" "pagesToDelete t1 = pagesToDelete t"
    using p(5,6) by (simp_all add: handle_step_def)
  let ?t = "t1\<lparr>collections := Map.empty(c_name c \<mapsto> c\<lparr>c_dirtyMeta := False\<rparr>)\<rparr>"
  have fc: "flushCollectionMetadata d co t = Some (Inr (), ?t)"
    by (rule flush_one [OF cs True del co p(1) hs(2)])
  have sn: "same_nodes t1 ?t" by (simp add: same_nodes_def)
  have it: "newItem (c_name c) ?v = collection_serialize c" "item_key (collection_serialize c) = c_name c"
    by (simp_all add: collection_serialize_def newItem_def)
  have "page_frame d R t ?t" using p(7) same_nodes_view(1) [OF sn, of d] by (simp add: page_frame_def)
  moreover have "tree_inv d b ?t h' R'" using p(2) tree_inv_same [OF sn] by blast
  moreover have "length (inorder R') \<le> length (inorder R)"
    using ins_item_length(2) nw it p(4) by simp
  ultimately show ?thesis
    using True fc p(3,4,8-10) hs same_nodes_view(3,4) [OF sn] it ins_item_find by (intro exI [of _ ?t] exI [of _ R'] exI [of _ h']) simp
qed

end
