(* ===== verification/New_Collection.thy ===== *)
theory New_Collection
  imports Db_Store
begin

text \<open>
  No operation changes the capacity of an array, and the arrays stay: an empty slice without capacity keeps
  none, whatever the transaction does in between, so an append to it always makes a new array. The new collection of
  \<open>CreateCollection\<close> has such slices, and its first \<open>Put\<close> comes after one into the root collection.
\<close>

section \<open>Capacities are kept\<close>

definition cap_ext :: "'a arrays \<Rightarrow> 'a arrays \<Rightarrow> bool" where
  "cap_ext h h' \<longleftrightarrow> length h \<le> length h' \<and> (\<forall>i < length h. acap (h' ! i) = acap (h ! i))"

definition caps :: "(tx, 'a) m \<Rightarrow> bool" where
  "caps f \<longleftrightarrow> (\<forall>t r t'. f t = Some (r, t') \<longrightarrow> cap_ext (itemArrays (mem t)) (itemArrays (mem t')))"

named_theorems caps_intros

lemma cap_ext_refl [simp]: "cap_ext h h"
  by (simp add: cap_ext_def)

lemma cap_ext_trans: "cap_ext h h' \<Longrightarrow> cap_ext h' h'' \<Longrightarrow> cap_ext h h''"
  by (auto simp: cap_ext_def)

lemma cap_ext_alloc: "salloc h xs c = (h', s) \<Longrightarrow> cap_ext h h'"
  by (auto simp: salloc_def cap_ext_def nth_append)

lemma cap_ext_update: "cap_ext h (h[i := swrite (h ! i) p xs])"
  by (cases "i < length h") (auto simp: cap_ext_def nth_list_update)

lemma cap_ext_append: "sappend g h s xs = (h', s') \<Longrightarrow> cap_ext h h'"
  by (auto simp: sappend_def Let_def cap_ext_update split: if_splits intro: cap_ext_alloc)

lemma caps_same: "(\<And>t r t'. f t = Some (r, t') \<Longrightarrow> itemArrays (mem t') = itemArrays (mem t)) \<Longrightarrow> caps f"
  by (simp add: caps_def)

lemma caps_bindM [caps_intros]:
  assumes "caps f" and "\<And>x. caps (g x)"
  shows "caps (bindM f g)"
  unfolding caps_def
proof (intro allI impI)
  fix t r t' assume e: "bindM f g t = Some (r, t')"
  then obtain q t1 where f: "f t = Some (q, t1)" by (cases "f t") (auto simp: bindM_def)
  then have c: "cap_ext (itemArrays (mem t)) (itemArrays (mem t1))" using assms(1) by (simp add: caps_def)
  show "cap_ext (itemArrays (mem t)) (itemArrays (mem t'))"
  proof (cases q)
    case (Inl x)
    then show ?thesis using c e f by (simp add: bindM_def)
  next
    case (Inr x)
    then have "g x t1 = Some (r, t')" using e f by (simp add: bindM_def)
    then have "cap_ext (itemArrays (mem t1)) (itemArrays (mem t'))" using assms(2) unfolding caps_def by blast
    then show ?thesis by (rule cap_ext_trans [OF c])
  qed
qed

lemma caps_basic [caps_intros]:
  "caps (returnM x)" "caps (failM e)" "caps (liftM y)" "caps (literal_pgs ps)" "caps (append_pgs s ps)" "caps (set_pg s i p)"
  "caps (get_item s i)" "caps (get_pg s i)" "caps (items_of s)" "caps (pgs_of s)" "caps (content_of n)"
  "caps (tx_newNode a b)" "caps (tx_writeNode n)" "caps (trackCollection c)"
  by (rule caps_same; auto simp: returnM_def failM_def liftM_def literal_pgs_def append_pgs_def set_pg_def get_item_def get_pg_def
      items_of_def pgs_of_def content_of_def tx_newNode_def tx_writeNode_def trackCollection_def
      split: prod.splits option.splits if_splits)+

lemma caps_value [caps_intros]: "caps (\<lambda>t. Some (x, t))"
  by (rule caps_same) simp

lemma caps_arrays [caps_intros]: "caps (literal_items xs)" "caps (append_items s xs)" "caps (set_item s i x)"
  by (auto simp: caps_def literal_items_def sliteral_def append_items_def set_item_def sset_def cap_ext_update
      split: prod.splits option.splits if_splits intro: cap_ext_alloc cap_ext_append)

lemma caps_if [caps_intros]: "(b \<Longrightarrow> caps f) \<Longrightarrow> (\<not> b \<Longrightarrow> caps g) \<Longrightarrow> caps (if b then f else g)"
  by simp

lemma caps_option [caps_intros]: "caps f \<Longrightarrow> (\<And>x. caps (g x)) \<Longrightarrow> caps (case y of None \<Rightarrow> f | Some x \<Rightarrow> g x)"
  by (simp split: option.split)

lemma caps_prod [caps_intros]: "(\<And>a b. caps (f a b)) \<Longrightarrow> caps (case p of (a, b) \<Rightarrow> f a b)"
  by (simp split: prod.split)

section \<open>The operations behind Put\<close>

lemma caps_each [caps_intros]: "caps (append_each_item s xs)" "caps (append_each_pg s ps)"
proof -
  show "caps (append_each_item s xs)" by (induction xs arbitrary: s) (auto intro!: caps_intros)
  show "caps (append_each_pg s ps)" by (induction ps arbitrary: s) (auto intro!: caps_intros)
qed

lemma caps_getNode [caps_intros]: "caps (tx_getNode d p)"
proof -
  have "caps (bindM (liftM (dal_getNode d p)) (\<lambda>c. bindM (literal_items []) (\<lambda>s0. bindM (append_each_item s0 (n_items c)) (\<lambda>its.
    bindM (literal_pgs []) (\<lambda>c0. bindM (append_each_pg c0 (n_children c)) (\<lambda>cs.
    returnM \<lparr>pageNum = p, items = its, childNodes = cs\<rparr>))))))" (is "caps ?f")
    by (intro caps_intros)
  then have "cap_ext (itemArrays (mem t)) (itemArrays (mem t'))" if "?f t = Some (r, t')" for t r t'
    using that unfolding caps_def by blast
  then show ?thesis by (auto simp: caps_def tx_getNode_def split: option.splits)
qed

lemma caps_findKey [caps_intros]: "caps (findKey d n k exact)"
proof -
  have "cap_ext (itemArrays (mem t)) (itemArrays (mem (snd y)))" if e: "findKeyHelper d n k exact anc t = Some y" for anc t y
  proof (rule findKeyHelper.raw_induct [where P = "\<lambda>d n k exact anc t y. cap_ext (itemArrays (mem t)) (itemArrays (mem (snd y)))", OF _ e])
    fix f :: "dal \<Rightarrow> gonode \<Rightarrow> bytes \<Rightarrow> bool \<Rightarrow> nat list \<Rightarrow> tx \<Rightarrow> ((nat \<times> gonode option \<times> nat list) res \<times> tx) option"
    fix d :: dal and n :: gonode and k :: bytes and exact :: bool and anc :: "nat list" and t :: tx and y
    assume ih: "\<And>d n k exact anc t y. f d n k exact anc t = Some y \<Longrightarrow> cap_ext (itemArrays (mem t)) (itemArrays (mem (snd y)))"
    let ?step = "\<lambda>i. bindM (get_pg (childNodes n) i) (\<lambda>p. tx_getNode d p)"
    assume s: "(let c = contents (mem t) n; (wasFound, index) = findKeyInNode c k in
      if wasFound then Some (Inr (index, Some n, anc), t)
      else if isLeaf c then (if exact then Some (Inr (0, None, anc), t) else Some (Inr (index, Some n, anc), t))
      else (case ?step index t of None \<Rightarrow> None | Some (Inl e, t) \<Rightarrow> Some (Inl e, t)
         | Some (Inr nextChild, t) \<Rightarrow> f d nextChild k exact (anc @ [index]) t)) = Some y"
    have "caps (?step i)" for i by (intro caps_intros)
    then have g: "?step i t = Some (q, t1) \<Longrightarrow> cap_ext (itemArrays (mem t)) (itemArrays (mem t1))" for i q t1
      unfolding caps_def by blast
    obtain found i where fi: "findKeyInNode (contents (mem t) n) k = (found, i)" by fastforce
    show "cap_ext (itemArrays (mem t)) (itemArrays (mem (snd y)))"
    proof (cases "found \<or> isLeaf (contents (mem t) n)")
      case True
      then show ?thesis using s fi by (auto simp: Let_def split: if_splits)
    next
      case False
      then obtain q t1 where q: "?step i t = Some (q, t1)" using s fi by (cases "?step i t") auto
      show ?thesis
      proof (cases q)
        case (Inl x)
        then show ?thesis using s fi q False g [OF q] by auto
      next
        case (Inr m)
        then have "f d m k exact (anc @ [i]) t1 = Some y" using s fi q False by simp
        from ih [OF this] show ?thesis by (rule cap_ext_trans [OF g [OF q]])
      qed
    qed
  qed
  then show ?thesis by (fastforce simp: caps_def findKey_def)
qed

lemma caps_addItem [caps_intros]: "caps (addItem n it i)"
  unfolding addItem_def by (intro caps_intros)

lemma caps_insertChild [caps_intros]: "caps (insertChild n i p)"
  unfolding insertChild_def by (intro caps_intros)

lemma caps_split [caps_intros]: "caps (split_node d n m i)"
  unfolding split_node_def Let_def by (intro caps_intros)

lemma caps_setRoot [caps_intros]: "caps (setRoot c p)"
  by (rule caps_same)
    (auto simp: setRoot_def markMetadataDirty_def trackCollection_def returnM_def bindM_def Let_def split: if_splits)

lemma caps_storeItem [caps_intros]: "caps (storeItem n i k it)"
  unfolding storeItem_def by (intro caps_intros)

lemma caps_getNodes [caps_intros]: "caps (getNodes d c is)"
proof -
  have "caps (getNodes_loop d n is)" for n "is"
    by (induction d n "is" rule: getNodes_loop.induct) (auto intro!: caps_intros)
  then show ?thesis unfolding getNodes_def by (intro caps_intros)
qed

lemma caps_splitAncestors [caps_intros]: "caps (splitAncestors d n below)"
  by (induction d n below rule: splitAncestors.induct) (auto intro!: caps_intros)

lemma caps_splitRoot [caps_intros]: "caps (splitRoot d c n)"
  unfolding splitRoot_def by (intro caps_intros)

lemma caps_Put [caps_intros]: "caps (Put d c k v)"
proof -
  have "caps (bindM (liftM (item_validate (pageSize d) i)) (\<lambda>_.
      if c_root c = 0 then
        bindM (literal_items [i]) (\<lambda>its. bindM (literal_pgs []) (\<lambda>cs. bindM (tx_newNode its cs) (\<lambda>n.
        bindM (tx_writeNode n) (\<lambda>root. setRoot c (pageNum root)))))
      else
        bindM (tx_getNode d (c_root c)) (\<lambda>root.
        bindM (findKey d root k False) (\<lambda>(insertionIndex, nodeToInsertIn, ancestorsIndexes).
        case nodeToInsertIn of None \<Rightarrow> failM Panic | Some node \<Rightarrow>
        bindM (storeItem node insertionIndex k i) (\<lambda>_.
        bindM (getNodes d c ancestorsIndexes) (\<lambda>ancestors.
        bindM (splitAncestors d (hd ancestors) (zip (drop 1 ancestorsIndexes) (tl ancestors))) (\<lambda>rootNode.
        splitRoot d c rootNode)))))))" (is "caps (?f i)") for i
    by (intro caps_intros)
  then have c: "?f (newItem k v) t = Some (r, t') \<Longrightarrow> cap_ext (itemArrays (mem t)) (itemArrays (mem t'))" for t r t'
    unfolding caps_def by blast
  show ?thesis
    unfolding caps_def Put_def Let_def
  proof (intro allI impI)
    show "cap_ext (itemArrays (mem t)) (itemArrays (mem t'))"
      if "(if \<not> tx_write t then Some (Inl ErrWriteInsideReadTx, t) else ?f (newItem k v) t) = Some (r, t')" for t r t'
    proof (cases "tx_write t")
      case True
      then show ?thesis using that by (intro c) (simp only: not_True_eq_False if_False)
    next
      case False
      then show ?thesis using that by simp
    qed
  qed
qed


section \<open>Put into an empty leaf without capacity\<close>

lemma put_empty_leaf:
  assumes ok: "tx_ok t" and n: "dirtyNodes t q = Some n" "contents (mem t) n = \<lparr>n_items = [], n_children = []\<rparr>"
    and cap: "scap (itemArrays (mem t)) (items n) = 0" and rt: "c_root c = q" and wr: "tx_write t" and fl: "fill d a b"
    and va: "item_validate (pageSize d) (newItem k v) = Inr ()"
  shows "\<exists>t'. Put d c k v t = Some (Inr c, t') \<and> tx_ok t' \<and> t' = t\<lparr>mem := mem t', dirtyNodes := dirtyNodes t'\<rparr>
    \<and> tx_view d t' = (tx_view d t)(q \<mapsto> \<lparr>n_items = [newItem k v], n_children = []\<rparr>)
    \<and> (\<forall>p. p \<noteq> q \<longrightarrow> dirtyNodes t' p = dirtyNodes t p)"
proof -
  let ?it = "newItem k v" and ?h = "itemArrays (mem t)"
  have q: "q \<in> tx_used t" "pageNum n = q" "gvalid (mem t) n" using ok n(1) by (auto simp: tx_ok_def)
  have q0: "c_root c \<noteq> 0" using q(1) rt tx_used_ne_0 [of t] by auto
  have sv: "svalid ?h (items n)" "scontent ?h (items n) = []" "scontent (pgArrays (mem t)) (childNodes n) = []"
    using q(3) n(2) by (simp_all add: gvalid_def contents_def)
  have sl: "slen (items n) = 0" using length_scontent [OF sv(1)] sv(2) by simp
  obtain h s where a: "sappend (grow (mem t)) ?h (items n) [?it] = (h, s)" by fastforce
  note ac = sappend_content [OF sv(1) a]
  have al: "salloc ?h [?it] (max 1 (grow (mem t) 0 1)) = (h, s)"
    using a cap sl sv(2) by (simp add: sappend_def Let_def)
  have ext: "mem_ext ?h h" by (rule mem_ext_alloc [OF al])
  let ?n = "n\<lparr>items := s\<rparr>" and ?m = "(mem t)\<lparr>itemArrays := h\<rparr>"
  let ?t = "t\<lparr>mem := ?m, dirtyNodes := (dirtyNodes t)(q \<mapsto> ?n)\<rparr>"
  have gext: "gmem_ext (mem t) ?m" using ext by (simp add: gmem_ext_def)
  have cn: "contents ?m ?n = \<lparr>n_items = [?it], n_children = []\<rparr>" "gvalid ?m ?n"
    using ac sv(2,3) q(3) by (simp_all add: contents_def gvalid_def)
  have old: "pageNum x = p \<and> gvalid ?m x \<and> p \<in> tx_used t \<and> contents ?m x = contents (mem t) x" if "dirtyNodes t p = Some x" for p x
    using ok that gmem_ext_node [OF gext] by (simp add: tx_ok_def)
  have fk: "findKey d n k False t = Some (Inr (0, Some n, [0]), t)"
    using n(2) by (simp add: findKey_def findKeyHelper.simps findKeyInNode_def sort_Search_def sort_Search_loop.simps isLeaf_def)
  have st: "storeItem n 0 k ?it t = Some (Inr ?n, ?t)"
    using n(2) sl a q(2) by (simp add: storeItem_def content_of_def bindM_def addItem_def append_items_def tx_writeNode_def)
  have gn: "getNodes d c [0] ?t = Some (Inr [?n], ?t)"
    using rt by (simp add: getNodes_def bindM_def tx_getNode_def)
  have sr: "splitRoot d c ?n ?t = Some (Inr c, ?t)"
    using cn(1) small_item_fits(2) [OF va fl] by (simp add: splitRoot_def content_of_def bindM_def)
  have "Put d c k v t = Some (Inr c, ?t)"
    using wr va q0 rt n(1) fk st gn sr by (simp add: Put_def bindM_def tx_getNode_def)
  moreover have "tx_ok ?t" using old cn(2) q by (auto simp: tx_ok_def tx_used_def)
  moreover have "tx_view d ?t = (tx_view d t)(q \<mapsto> \<lparr>n_items = [?it], n_children = []\<rparr>)"
  proof
    show "tx_view d ?t p = ((tx_view d t)(q \<mapsto> \<lparr>n_items = [?it], n_children = []\<rparr>)) p" for p
      using old cn(1) by (auto simp: tx_view_def split: option.split)
  qed
  ultimately show ?thesis by (intro exI [of _ ?t]) simp
qed


section \<open>A new collection and its first item\<close>

lemma put_safe_clean_pages:
  assumes "tree_inv d b t h T" and "\<forall>p \<in> set (page_list T). dirtyNodes t p = None"
  shows "put_safe t T k"
proof -
  have "path_owned t (set (path_pages path T))" if "valid_path path T" for path
    using assms(2) path_pages_subset [OF that] by (auto simp: path_owned_def)
  moreover have "valid_path path T" if "search T k = (f, j, u, path)" for f j u path
    using search_path [OF _ _ that] assms(1) by (auto simp: tree_inv_def)
  ultimately show ?thesis by (auto simp: put_safe_def split: prod.split)
qed

text \<open>
  What the transaction \<open>t\<close> has become when it has a new collection: the page \<open>q\<close> was free, the tree \<open>R\<close> of the
  root collection has become \<open>R'\<close> with the new metadata, and all other pages are as they were.
\<close>

definition created :: "dal \<Rightarrow> rat \<Rightarrow> bytes \<Rightarrow> pgnum \<Rightarrow> tx \<Rightarrow> nat \<Rightarrow> btree \<Rightarrow> tx \<Rightarrow> nat \<Rightarrow> btree \<Rightarrow> bool" where
  "created d b name q t h R t' h' R' \<longleftrightarrow> q \<notin> tx_used t \<and> tree_inv d b t' h' R' \<and> h' \<le> h + 1
    \<and> inorder R' = ins_item (collection_serialize (metadata name q 0)) (inorder R) \<and> tx_root t' = bpage R' \<and> tx_write t'
    \<and> collections t' = Map.empty(name \<mapsto> metadata name q 0) \<and> deletedCollections t' = {} \<and> pagesToDelete t' = pagesToDelete t
    \<and> (\<forall>p \<in> tx_used t. p \<notin> set (page_list R) \<longrightarrow> tx_view d t' p = tx_view d t p \<and> dirtyNodes t' p = None)
    \<and> set (page_list R') \<inter> tx_used t = set (page_list R) \<and> q \<notin> set (page_list R')
    \<and> tx_used t' = insert q (tx_used t \<union> set (page_list R'))"

lemma create_collection:
  assumes cf: "db_config d a b m" and inv: "tree_inv d b t h R" and rt: "tx_root t = bpage R" and wr: "tx_write t"
    and clean: "dirtyNodes t = Map.empty" and del: "deletedCollections t = {}" and cs: "collections t = Map.empty"
    and nm: "length name \<le> 255" and al: "alloc_ok L M t (Suc (h + 2 + r))"
  shows "\<exists>q n t' R' h'. CreateCollection d name t = Some (Inr (metadata name q 0), t') \<and> created d b name q t h R t' h' R'
    \<and> alloc_ok L M t' r \<and> dirtyNodes t' q = Some n \<and> contents (mem t') n = \<lparr>n_items = [], n_children = []\<rparr>
    \<and> scap (itemArrays (mem t')) (items n) = 0"
proof -
  have fl: "fill d a b" using cf by (simp add: db_config_def)
  have i: "tx_ok t" "set (page_list R) \<subseteq> tx_used t" using inv by (simp_all add: tree_inv_def)
  obtain q n t1 where l: "\<And>f :: gonode \<Rightarrow> (tx, collection) m. bindM (literal_items []) (\<lambda>i. bindM (literal_pgs []) (\<lambda>cs.
      bindM (tx_newNode i cs) (\<lambda>n. bindM (tx_writeNode n) f))) t = f n t1"
    and q: "pageNum n = q" "q \<notin> tx_used t" "tx_used t1 = insert q (tx_used t)" "alloc_ok L M t1 (h + 2 + r)" "tx_ok t1"
      "tx_view d t1 = (tx_view d t)(q \<mapsto> \<lparr>n_items = [], n_children = []\<rparr>)" "same_rest t t1"
      "dirtyNodes t1 = (dirtyNodes t)(q \<mapsto> n)" "scap (itemArrays (mem t1)) (items n) = length ([] :: item list)"
    by (rule new_leaf_spec [OF i(1) al, where its = "[]" and d = d and 'b = collection]) blast
  note f1 = same_rest_fields [OF q(7)]
  have qR: "q \<notin> set (page_list R)" using q(2) i(2) by blast
  let ?c = "metadata name q 0" and ?rc = "getRootCollection t1"
  let ?it = "collection_serialize ?c"
  have "tx_view d t1 p = tx_view d t p" if "p \<in> set (page_list R)" for p using q(6) qR that by auto
  then have "tree_at (tx_view d t1) R" using inv tree_at_frame [of "tx_view d t" R] by (simp add: tree_inv_def)
  then have inv1: "tree_inv d b t1 h R" using inv q(3,5) by (auto simp: tree_inv_def)
  have ps: "put_safe t1 R name" by (rule put_safe_clean_pages [OF inv1]) (use qR q(8) clean in auto)
  have root: "c_root ?rc = bpage R" "c_rootCollection ?rc \<Longrightarrow> tx_root t1 = c_root ?rc" "tx_write t1" using f1 rt wr by simp_all
  have vm: "item_validate (pageSize d) (newItem name (item_value ?it)) = Inr ()"
    using metadata_item_ok [OF cf, of ?c] nm by simp
  have it: "newItem name (item_value ?it) = ?it" by (simp add: collection_serialize_def newItem_def)
  obtain rc t2 R' h' where p: "Put d ?rc name (item_value ?it) t1 = Some (Inr rc, t2)"
    "tree_inv d b t2 h' R'" "h' \<le> h + 1" "inorder R' = ins_item ?it (inorder R)" "c_root rc = bpage R'"
    "handle_step ?rc t1 rc t2" "page_frame d R t1 t2" "set (page_list R') \<inter> tx_used t1 = set (page_list R)"
    "tx_used t2 = tx_used t1 \<union> set (page_list R')" "alloc_ok L M t2 r"
    using put_tree [OF fl inv1 root vm q(4) ps] unfolding it by blast
  have f2: "tx_root t2 = bpage R'" "tx_write t2" "deletedCollections t2 = {}" "pagesToDelete t2 = pagesToDelete t" "collections t2 = Map.empty"
    using p(5,6) f1 wr del cs by (simp_all add: handle_step_def)
  let ?t = "t2\<lparr>collections := Map.empty(name \<mapsto> ?c)\<rparr>"
  have cc: "CreateCollection d name t = Some (Inr ?c, ?t)"
  proof -
    have m: "newEmptyCollection\<lparr>c_name := name, c_root := pageNum n\<rparr> = ?c" using q(1) by (simp add: newEmptyCollection_def metadata_def)
    have "createCollection d ?c t1 = Some (Inr ?c, ?t)"
      using p(1) f2 by (simp add: createCollection_def bindM_def trackCollection_def)
    then show ?thesis using wr l [of "\<lambda>n. createCollection d (newEmptyCollection\<lparr>c_name := name, c_root := pageNum n\<rparr>)"] m
      by (simp add: CreateCollection_def)
  qed
  have sn: "same_nodes t2 ?t" by (simp add: same_nodes_def)
  note sv = same_nodes_view [OF sn]
  have qR': "q \<notin> set (page_list R')" using p(8) q(3) qR by blast
  have keep: "tx_view d t2 p = tx_view d t1 p \<and> dirtyNodes t2 p = dirtyNodes t1 p" if "p \<in> tx_used t1" "p \<notin> set (page_list R)" for p
    using p(7) that unfolding page_frame_def by blast
  have n2: "dirtyNodes t2 q = Some n" "tx_view d t2 q = Some \<lparr>n_items = [], n_children = []\<rparr>"
    using keep [of q] q(3,6,8) qR by simp_all
  have cap: "scap (itemArrays (mem t2)) (items n) = 0"
  proof -
    have "cap_ext (itemArrays (mem t1)) (itemArrays (mem t2))" using caps_Put [of d ?rc] p(1) unfolding caps_def by blast
    moreover have "sarr (items n) < length (itemArrays (mem t1))"
      using q(5,8) by (auto simp: tx_ok_def gvalid_def svalid_def split: if_split_asm)
    ultimately show ?thesis using q(9) by (simp add: cap_ext_def scap_def)
  qed
  have fr: "\<forall>p \<in> tx_used t. p \<notin> set (page_list R) \<longrightarrow> tx_view d ?t p = tx_view d t p \<and> dirtyNodes ?t p = None"
  proof (intro ballI impI)
    fix p assume p': "p \<in> tx_used t" "p \<notin> set (page_list R)"
    then have "p \<noteq> q" "p \<in> tx_used t1" using q(2,3) by auto
    then show "tx_view d ?t p = tx_view d t p \<and> dirtyNodes ?t p = None" using keep [of p] p'(2) sv(1) q(6,8) clean by simp
  qed
  have pg: "set (page_list R') \<inter> tx_used t = set (page_list R)" "tx_used ?t = insert q (tx_used t \<union> set (page_list R'))"
    using p(8,9) q(3) qR' sv(3) by auto
  have "tree_inv d b ?t h' R'" using p(2) tree_inv_same [OF sn] by simp
  then have "created d b name q t h R ?t h' R'" using q(2) p(3,4) f2 fr qR' pg by (simp add: created_def)
  then show ?thesis
    using cc p(10) sv(4) n2 cap
    by (intro exI [of _ q] exI [of _ n] exI [of _ ?t] exI [of _ R'] exI [of _ h']) (simp add: tx_view_def)
qed

lemma new_collection_put:
  assumes cf: "db_config d a b m" and inv: "tree_inv d b t h R" and rt: "tx_root t = bpage R" and wr: "tx_write t"
    and clean: "dirtyNodes t = Map.empty" and del: "deletedCollections t = {}" and cs: "collections t = Map.empty"
    and va: "item_validate (pageSize d) (newItem k v) = Inr ()" and nm: "length name \<le> 255" and al: "alloc_ok L M t (Suc (h + 2 + r))"
  shows "\<exists>q t' R' h'. bindM (CreateCollection d name) (\<lambda>c. Put d c k v) t = Some (Inr (metadata name q 0), t')
    \<and> created d b name q t h R t' h' R' \<and> tree_inv d b t' 0 (BNode q [newItem k v] []) \<and> alloc_ok L M t' r"
proof -
  have fl: "fill d a b" using cf by (simp add: db_config_def)
  obtain q n t2 R' h' where c: "CreateCollection d name t = Some (Inr (metadata name q 0), t2)" "created d b name q t h R t2 h' R'"
    "alloc_ok L M t2 r" "dirtyNodes t2 q = Some n" "contents (mem t2) n = \<lparr>n_items = [], n_children = []\<rparr>"
    "scap (itemArrays (mem t2)) (items n) = 0"
    using create_collection [OF cf inv rt wr clean del cs nm al] by blast
  let ?c = "metadata name q 0"
  have d: "q \<notin> tx_used t" "q \<notin> set (page_list R')" "tree_inv d b t2 h' R'" "tx_write t2" "q \<in> tx_used t2"
    using c(2) by (simp_all add: created_def)
  then have ok: "tx_ok t2" by (simp add: tree_inv_def)
  have cr: "c_root ?c = q" by simp
  obtain t' where e: "Put d ?c k v t2 = Some (Inr ?c, t')" "tx_ok t'" "t' = t2\<lparr>mem := mem t', dirtyNodes := dirtyNodes t'\<rparr>"
    "tx_view d t' = (tx_view d t2)(q \<mapsto> \<lparr>n_items = [newItem k v], n_children = []\<rparr>)"
    "\<forall>p. p \<noteq> q \<longrightarrow> dirtyNodes t' p = dirtyNodes t2 p"
    using put_empty_leaf [OF ok c(4,5,6) cr d(4) fl va] by blast
  have f: "tx_freelist t' = tx_freelist t2" "tx_write t' = tx_write t2" "tx_root t' = tx_root t2" "pagesToDelete t' = pagesToDelete t2"
    "deletedCollections t' = deletedCollections t2" "collections t' = collections t2"
    using arg_cong [OF e(3), of tx_freelist] arg_cong [OF e(3), of tx_write] arg_cong [OF e(3), of tx_root]
      arg_cong [OF e(3), of pagesToDelete] arg_cong [OF e(3), of deletedCollections] arg_cong [OF e(3), of collections] by simp_all
  have u: "tx_used t' = tx_used t2" by (simp add: tx_used_def f(1))
  have leaf: "tree_inv d b t' 0 (BNode q [newItem k v] [])"
    using e(2,4) u d(5) small_item_fits(1) [OF va fl] by (simp add: tree_inv_def tree_fits_def bcontent_def)
  have "tx_view d t' p = tx_view d t2 p" if "p \<in> set (page_list R')" for p using e(4) d(2) that by auto
  then have "tree_at (tx_view d t') R'" using d(3) tree_at_frame [of "tx_view d t2" R'] by (simp add: tree_inv_def)
  then have "tree_inv d b t' h' R'" using d(3) e(2) u by (simp add: tree_inv_def)
  moreover have "tx_view d t' p = tx_view d t2 p \<and> dirtyNodes t' p = dirtyNodes t2 p" if "p \<in> tx_used t" for p
    using d(1) e(4,5) that by auto
  ultimately have "created d b name q t h R t' h' R'" using c(2) f u by (simp add: created_def)
  moreover have "bindM (CreateCollection d name) (\<lambda>c. Put d c k v) t = Some (Inr ?c, t')" using c(1) e(1) by (simp add: bindM_def)
  moreover have "alloc_ok L M t' r" using c(3) f(1) by (simp add: alloc_ok_def)
  ultimately show ?thesis using leaf by blast
qed

end
