(* ===== verification/Kv_Database.thy ===== *)
theory Kv_Database
  imports New_Collection
begin

text \<open>
  What a whole write transaction that puts one item and commits does to a database, for a collection that
  exists and for a new one, and what a read transaction then returns.
\<close>

section \<open>The transaction up to the commit\<close>

definition coll_items :: "(bytes \<rightharpoonup> btree) \<Rightarrow> bytes \<Rightarrow> item list" where
  "coll_items F name = (case F name of None \<Rightarrow> [] | Some T \<Rightarrow> inorder T)"

definition coll_pages :: "(bytes \<rightharpoonup> btree) \<Rightarrow> bytes \<Rightarrow> pgnum set" where
  "coll_pages F name = (case F name of None \<Rightarrow> {} | Some T \<Rightarrow> set (page_list T))"

text \<open>
  The pages of the collection that are no longer in its tree \<open>T\<close>: some of them are given up, the list of released pages has room for
  them, and the changed nodes among them fit their pages, as the commit writes them too.
\<close>

definition gone_ok :: "dal \<Rightarrow> (bytes \<rightharpoonup> btree) \<Rightarrow> bytes \<Rightarrow> tx \<Rightarrow> btree \<Rightarrow> bool" where
  "gone_ok d F name t T \<longleftrightarrow> distinct (pagesToDelete t) \<and> set (pagesToDelete t) \<subseteq> coll_pages F name - set (page_list T)
     \<and> 10 + 8 * (length (releasedPages (d_freelist d)) + length (pagesToDelete t)) \<le> pageSize d
     \<and> (\<forall>p \<in> coll_pages F name - set (page_list T). dirtyNodes t p \<noteq> None \<longrightarrow>
          (\<exists>e. tx_view d t p = Some e \<and> node_validate (pageSize d) e = Inr () \<and> encodedSize e \<le> pageSize d))"

text \<open>
  The collection \<open>c\<close> has been changed: it has the tree \<open>T\<close> with the items \<open>its\<close>, the root collection has the tree \<open>S\<close>; the rest of the
  database is as it was. \<open>k\<close> bounds heights and numbers of items before.
\<close>

definition coll_changed ::
  "dal \<Rightarrow> rat \<Rightarrow> nat \<Rightarrow> btree \<Rightarrow> (bytes \<rightharpoonup> btree) \<Rightarrow> item list \<Rightarrow> collection \<Rightarrow> tx \<Rightarrow> btree \<Rightarrow> btree \<Rightarrow> nat \<Rightarrow> nat \<Rightarrow> bool" where
  "coll_changed d b k R F its c t T S h s \<longleftrightarrow> tree_inv d b t h T \<and> h \<le> k + 1 \<and> inorder T = its \<and> length its \<le> k + 1
    \<and> tree_inv d b t s S \<and> s \<le> (if c_dirtyMeta c then k else k + 1) \<and> length (inorder S) \<le> k + 1 \<and> tx_root t = bpage S
    \<and> length (c_name c) \<le> 255 \<and> collections t = Map.empty(c_name c \<mapsto> c)
    \<and> (\<exists>n. collection_serialize c = collection_serialize (metadata (c_name c) (bpage T) n))
    \<and> (\<forall>x. x \<noteq> c_name c \<longrightarrow> find_item x (inorder S) = find_item x (inorder R)) \<and> find_item (c_name c) (inorder S) \<noteq> None
    \<and> (if c_dirtyMeta c then put_safe t S (c_name c) else find_item (c_name c) (inorder S) = Some (collection_serialize c))
    \<and> tx_write t \<and> deletedCollections t = {} \<and> gone_ok d F (c_name c) t T
    \<and> set (page_list T) \<inter> freelist_used (d_freelist d) \<subseteq> coll_pages F (c_name c) \<and> coll_pages F (c_name c) \<subseteq> freelist_used (d_freelist d)
    \<and> set (page_list S) \<inter> freelist_used (d_freelist d) = set (page_list R) \<and> set (page_list T) \<inter> set (page_list S) = {}
    \<and> tx_used t = freelist_used (d_freelist d) \<union> set (page_list T) \<union> set (page_list S)
    \<and> (\<forall>p \<in> freelist_used (d_freelist d). p \<notin> coll_pages F (c_name c) \<and> p \<notin> set (page_list S)
         \<longrightarrow> tx_view d t p = stored d p \<and> dirtyNodes t p = None)
    \<and> alloc_ok (page_limit d k) (length (releasedPages (d_freelist d))) t (if c_dirtyMeta c then s + 2 else 0)"

lemma db_inv_tree:
  assumes "db_inv d b k R F" and "F x = Some S"
  shows "\<exists>h. db_tree d b k h S" and "\<exists>n. find_item x (inorder R) = Some (collection_serialize (metadata x (bpage S) n))"
    and "set (page_list S) \<inter> set (page_list R) = {}" and "m_freelistPage (d_meta d) \<notin> set (page_list S)"
  using assms by (simp_all add: db_inv_def)

lemma db_inv_root:
  assumes "db_inv d b k R F"
  shows "\<exists>h. db_tree d b k h R" and "bpage R = m_root (d_meta d)" and "freelist_inv (d_freelist d)"
    and "F x = None \<Longrightarrow> find_item x (inorder R) = None" and "m_freelistPage (d_meta d) \<in> freelist_used (d_freelist d)"
    and "m_freelistPage (d_meta d) \<notin> set (page_list R)" and "10 + 8 * length (releasedPages (d_freelist d)) \<le> pageSize d"
    and "fileOpen d" and "\<exists>f. d_disk d = \<lparr>dbfile = Some f, walfile = None\<rparr>"
  using assms by (simp_all add: db_inv_def)

lemma db_inv_disjoint:
  "db_inv d b k R F \<Longrightarrow> F x = Some S \<Longrightarrow> F y = Some T \<Longrightarrow> x \<noteq> y \<Longrightarrow> set (page_list S) \<inter> set (page_list T) = {}"
  by (simp add: db_inv_def)

lemma gone_ok_none:
  assumes "db_inv d b k R F" and "pagesToDelete t = []" and "coll_pages F name \<subseteq> set (page_list T)"
  shows "gone_ok d F name t T"
proof -
  have e: "coll_pages F name - set (page_list T) = {}" using assms(3) by blast
  show ?thesis unfolding gone_ok_def e using assms(2) db_inv_root(7) [OF assms(1)] by simp
qed

lemma coll_pages_old:
  assumes "db_inv d b k R F"
  shows "coll_pages F name \<subseteq> freelist_used (d_freelist d)" and "coll_pages F name \<inter> set (page_list R) = {}"
    and "m_freelistPage (d_meta d) \<notin> coll_pages F name"
  using db_inv_tree [OF assms] by (auto simp: coll_pages_def db_tree_def split: option.split)

lemma coll_items_length: "db_inv d b k R F \<Longrightarrow> length (coll_items F name) \<le> k"
  using db_inv_tree(1) [of d b k R F name] by (auto simp: coll_items_def db_tree_def split: option.split)

text \<open>The lookup of the collection in a write transaction that has just begun.\<close>

lemma begin_tx:
  assumes inv: "db_inv d b k R F" and room: "db_room d k"
  obtains hR t where "db_tree d b k hR R" and "reads (newTx g d True) t" and "tree_inv d b t hR R" and "tx_root t = bpage R"
    and "dirtyNodes t = Map.empty" and "tx_write t" and "deletedCollections t = {}" and "pagesToDelete t = []"
    and "collections t = Map.empty" and "tx_used t = freelist_used (d_freelist d)" and "tx_view d t = stored d"
    and "alloc_ok (page_limit d k) (length (releasedPages (d_freelist d))) t (2 * k + 5)"
    and "F name = None \<Longrightarrow> GetCollection d name (newTx g d True) = Some (Inr None, t)"
    and "\<And>p n. find_item name (inorder R) = Some (collection_serialize (metadata name p n)) \<Longrightarrow>
      GetCollection d name (newTx g d True) = Some (Inr (Some (metadata name p n)), t\<lparr>collections := Map.empty(name \<mapsto> metadata name p n)\<rparr>)"
proof -
  let ?new = "newTx g d True" and ?L = "page_limit d k" and ?M = "length (releasedPages (d_freelist d))"
  obtain hR where R: "db_tree d b k hR R" "bpage R = m_root (d_meta d)" using db_inv_root(1,2) [OF inv] by blast
  have al0: "alloc_ok ?L ?M ?new (2 * k + 5)"
    by (rule newTx_alloc [OF db_inv_root(3) [OF inv]]) (use room in \<open>simp_all add: page_limit_def db_room_def\<close>)
  have r0: "bal hR R" "sorted_items (inorder R)" "tree_at (tx_view d ?new) R" "tx_ok ?new" "tx_root ?new = bpage R"
    "deletedCollections ?new = {}" "collections ?new = Map.empty"
    using R by (simp_all add: db_tree_def)
  obtain t where g: "reads ?new t" "find_item name (inorder R) = None \<longrightarrow> GetCollection d name ?new = Some (Inr None, t)"
    "\<forall>p n. find_item name (inorder R) = Some (collection_serialize (metadata name p n)) \<longrightarrow>
      GetCollection d name ?new = Some (Inr (Some (metadata name p n)),
        if tx_write ?new then t\<lparr>collections := Map.empty(name \<mapsto> metadata name p n)\<rparr> else t)"
    by (rule GetCollection_spec [OF r0, of name])
  note rf = reads_fields [OF g(1)]
  show thesis
  proof (rule that [OF R(1) g(1) tree_inv_reads [OF newTx_inv [OF R(1)] g(1)]])
    show "tx_used t = freelist_used (d_freelist d)" using rf(2) newTx_simps(9) [of g d] by (simp add: tx_used_def)
    show "alloc_ok ?L ?M t (2 * k + 5)" using al0 rf(2) by (simp add: alloc_ok_def)
    show "tx_view d t = stored d" using reads_view [OF g(1)] by simp
    show "F name = None \<Longrightarrow> GetCollection d name ?new = Some (Inr None, t)" using g(2) db_inv_root(4) [OF inv, of name] by simp
    show "find_item name (inorder R) = Some (collection_serialize (metadata name p n)) \<Longrightarrow>
      GetCollection d name ?new = Some (Inr (Some (metadata name p n)), t\<lparr>collections := Map.empty(name \<mapsto> metadata name p n)\<rparr>)" for p n
      using g(3) by simp
  qed (use rf R(2) in simp_all)
qed

lemma put_in_tx_new:
  assumes cf: "db_config d a b m" and inv: "db_inv d b k R F" and F: "F name = None" and nm: "length name \<le> 255"
    and va: "item_validate (pageSize d) (newItem key v) = Inr ()" and room: "db_room d k"
  shows "\<exists>c t T S h s. bindM (GetOrCreateCollection d name) (\<lambda>c. Put d c key v) (newTx g d True) = Some (Inr c, t)
    \<and> c_name c = name \<and> coll_changed d b k R F (ins_item (newItem key v) (coll_items F name)) c t T S h s \<and> (F name = None \<longrightarrow> bsubs T = [])"
proof -
  let ?new = "newTx g d True" and ?U = "freelist_used (d_freelist d)"
  obtain hR t where R: "db_tree d b k hR R" and iR: "tree_inv d b t hR R" and rt: "tx_root t = bpage R"
    and f: "dirtyNodes t = Map.empty" "tx_write t" "deletedCollections t = {}" "pagesToDelete t = []" "collections t = Map.empty"
      "tx_used t = ?U" "tx_view d t = stored d"
    and al: "alloc_ok (page_limit d k) (length (releasedPages (d_freelist d))) t (2 * k + 5)"
    and g: "GetCollection d name ?new = Some (Inr None, t)"
    using begin_tx [OF inv room, of g name thesis] F by blast
  have hk: "hR \<le> k" "length (inorder R) \<le> k" using R by (simp_all add: db_tree_def)
  have al1: "alloc_ok (page_limit d k) (length (releasedPages (d_freelist d))) t (Suc (hR + 2 + 0))"
    by (rule alloc_ok_mono [OF al]) (use hk in simp)
  obtain q t' S s where c: "bindM (CreateCollection d name) (\<lambda>c. Put d c key v) t = Some (Inr (metadata name q 0), t')"
    "created d b name q t hR R t' s S" "tree_inv d b t' 0 (BNode q [newItem key v] [])"
    "alloc_ok (page_limit d k) (length (releasedPages (d_freelist d))) t' 0"
    using new_collection_put [OF cf iR rt f(2,1,3,5) va nm al1] by blast
  have cr: "q \<notin> ?U" "tree_inv d b t' s S" "s \<le> hR + 1" "inorder S = ins_item (collection_serialize (metadata name q 0)) (inorder R)"
    "tx_root t' = bpage S" "tx_write t'" "collections t' = Map.empty(name \<mapsto> metadata name q 0)" "deletedCollections t' = {}"
    "pagesToDelete t' = []" "\<forall>p \<in> ?U. p \<notin> set (page_list R) \<longrightarrow> tx_view d t' p = stored d p \<and> dirtyNodes t' p = None"
    "set (page_list S) \<inter> ?U = set (page_list R)" "q \<notin> set (page_list S)" "tx_used t' = insert q (?U \<union> set (page_list S))"
    using c(2) f by (simp_all add: created_def)
  have key: "item_key (collection_serialize (metadata name q 0)) = name" by (simp add: collection_serialize_def newItem_def)
  have "length (inorder S) \<le> k + 1" using ins_item_length(1) [of "collection_serialize (metadata name q 0)" "inorder R"] cr(4) hk by simp
  moreover have "ins_item (newItem key v) [] = [newItem key v]" by (simp add: ins_item_def)
  moreover have "set (page_list R) \<subseteq> set (page_list S)" using cr(11) by blast
  moreover have "gone_ok d F name t' (BNode q [newItem key v] [])"
    by (rule gone_ok_none [OF inv cr(9)]) (simp add: coll_pages_def F)
  ultimately have "coll_changed d b k R F (ins_item (newItem key v) (coll_items F name)) (metadata name q 0) t' (BNode q [newItem key v] []) S 0 s"
    using c(3,4) cr hk nm F key by (auto simp: coll_changed_def coll_items_def coll_pages_def ins_item_find)
  moreover have "bindM (GetOrCreateCollection d name) (\<lambda>c. Put d c key v) ?new = Some (Inr (metadata name q 0), t')"
    using g c(1) by (auto simp: GetOrCreateCollection_def bindM_def)
  ultimately show ?thesis by (intro exI [of _ "metadata name q 0"] exI [of _ t'] exI [of _ "BNode q [newItem key v] []"] exI) simp
qed

lemma put_in_tx_existing:
  assumes cf: "db_config d a b m" and inv: "db_inv d b k R F" and F: "F name = Some T0"
    and va: "item_validate (pageSize d) (newItem key v) = Inr ()" and room: "db_room d k"
  shows "\<exists>c t T S h s. bindM (GetOrCreateCollection d name) (\<lambda>c. Put d c key v) (newTx g d True) = Some (Inr c, t)
    \<and> c_name c = name \<and> coll_changed d b k R F (ins_item (newItem key v) (coll_items F name)) c t T S h s \<and> (F name = None \<longrightarrow> bsubs T = [])"
proof -
  let ?new = "newTx g d True" and ?U = "freelist_used (d_freelist d)"
  obtain h0 n where T: "db_tree d b k h0 T0" "set (page_list T0) \<inter> set (page_list R) = {}"
    and n: "find_item name (inorder R) = Some (collection_serialize (metadata name (bpage T0) n))"
    using db_inv_tree [OF inv F] by blast
  let ?c = "metadata name (bpage T0) n"
  obtain hR t where R: "db_tree d b k hR R" and rd: "reads ?new t" and iR: "tree_inv d b t hR R" and rt: "tx_root t = bpage R"
    and f: "dirtyNodes t = Map.empty" "tx_write t" "deletedCollections t = {}" "pagesToDelete t = []"
      "tx_used t = ?U" "tx_view d t = stored d"
    and al: "alloc_ok (page_limit d k) (length (releasedPages (d_freelist d))) t (2 * k + 5)"
    and g: "GetCollection d name ?new = Some (Inr (Some ?c), t\<lparr>collections := Map.empty(name \<mapsto> ?c)\<rparr>)"
    using begin_tx [OF inv room, of g name thesis] n by blast
  let ?t = "t\<lparr>collections := Map.empty(name \<mapsto> ?c)\<rparr>"
  have sn: "same_nodes t ?t" by (simp add: same_nodes_def)
  note sv = same_nodes_view [OF sn]
  have hk: "h0 \<le> k" "hR \<le> k" "length (inorder R) \<le> k" using R T(1) by (simp_all add: db_tree_def)
  have fl: "fill d a b" using cf by (simp add: db_config_def)
  have i1: "tree_inv d b ?t h0 T0" "tree_inv d b ?t hR R"
    using tree_inv_reads [OF newTx_inv [OF T(1)] rd] iR tree_inv_same [OF sn] by blast+
  have al1: "alloc_ok (page_limit d k) (length (releasedPages (d_freelist d))) ?t (h0 + 2 + (hR + 2))"
    using alloc_ok_mono [OF al, of "h0 + 2 + (hR + 2)"] hk sv(4) by simp
  have pre: "c_root ?c = bpage T0" "c_rootCollection ?c \<Longrightarrow> tx_root ?t = c_root ?c" "tx_write ?t" "dirtyNodes ?t = Map.empty"
    using f by simp_all
  obtain c t' T h where p: "Put d ?c key v ?t = Some (Inr c, t')" "tree_inv d b t' h T" "h \<le> h0 + 1"
    "inorder T = ins_item (newItem key v) (inorder T0)" "c_root c = bpage T" "handle_step ?c ?t c t'" "page_frame d T0 ?t t'"
    "set (page_list T) \<inter> tx_used ?t = set (page_list T0)" "tx_used t' = tx_used ?t \<union> set (page_list T)"
    "alloc_ok (page_limit d k) (length (releasedPages (d_freelist d))) t' (hR + 2)"
    using put_tree [OF fl i1(1) pre(1,2,3) va al1 put_safe_clean [OF pre(4)]] by auto
  have hs: "c_name c = name" "c_counter c = n" "tx_root t' = bpage R" "tx_write t'" "deletedCollections t' = {}" "pagesToDelete t' = []"
    "collections t' = Map.empty(name \<mapsto> c)" "\<not> c_dirtyMeta c \<Longrightarrow> c = ?c"
    using p(6) f rt by (auto simp: handle_step_def split: if_split_asm)
  have ok: "tx_ok t'" using p(2) by (simp add: tree_inv_def)
  have iR': "tree_inv d b t' hR R"
    by (rule tree_inv_frame [OF i1(2) ok p(7)]) (use T(2) p(9) in auto)
  have RU: "set (page_list R) \<subseteq> ?U" using R by (simp add: db_tree_def)
  have u: "set (page_list T) \<inter> ?U = set (page_list T0)" "tx_used t' = ?U \<union> set (page_list T)"
    using p(8,9) f(5) sv(3) by simp_all
  have pg: "tx_view d t' p = stored d p \<and> dirtyNodes t' p = None" if "p \<in> ?U" "p \<notin> set (page_list T0)" for p
    using p(7) f(1,5,6) sv(1,3) that by (simp add: page_frame_def)
  have ps: "put_safe t' R name"
    by (rule put_safe_clean_pages [OF iR']) (use pg RU T(2) in blast)
  have cs: "collection_serialize c = collection_serialize (metadata name (bpage T) n)"
    using hs(1,2) p(5) by (simp add: collection_serialize_def)
  have "\<not> c_dirtyMeta c \<longrightarrow> find_item name (inorder R) = Some (collection_serialize c)" using hs(8) n by auto
  moreover have "set (page_list R) \<inter> ?U = set (page_list R)" "set (page_list T) \<inter> set (page_list R) = {}" using RU u(1) T(2) by blast+
  moreover have "coll_pages F name = set (page_list T0)" "set (page_list T0) \<subseteq> set (page_list T)" "set (page_list T0) \<subseteq> ?U"
    using u(1) F by (auto simp: coll_pages_def)
  moreover from this have "gone_ok d F name t' T" using gone_ok_none [OF inv hs(6)] by simp
  moreover have "length (ins_item (newItem key v) (coll_items F name)) \<le> k + 1"
    using ins_item_length(1) [of "newItem key v" "coll_items F name"] coll_items_length [OF inv, of name] by simp
  moreover have "alloc_ok (page_limit d k) (length (releasedPages (d_freelist d))) t' (if c_dirtyMeta c then hR + 2 else 0)"
    using alloc_ok_mono [OF p(10), of 0] p(10) by simp
  ultimately have "coll_changed d b k R F (ins_item (newItem key v) (coll_items F name)) c t' T R h hR"
    unfolding coll_changed_def hs(1)
    using p(2-4) hs(3-7) iR' cs hk n u pg ps F RU metadata_name_small [OF _ n] R
    by (auto simp: coll_items_def db_tree_def)
  moreover have "bindM (GetOrCreateCollection d name) (\<lambda>c. Put d c key v) ?new = Some (Inr c, t')"
    using g p(1) by (simp add: GetOrCreateCollection_def bindM_def)
  ultimately show ?thesis using hs(1) F by (intro exI [of _ c] exI [of _ t'] exI [of _ T] exI [of _ R] exI [of _ h] exI [of _ hR]) simp
qed

section \<open>The commit\<close>

text \<open>
  The transaction after the flush of the metadata: the collection \<open>name\<close> has the tree \<open>T\<close> with the items \<open>its\<close>, the root
  collection has the tree \<open>S\<close>.
\<close>

definition tx_flushed ::
  "dal \<Rightarrow> rat \<Rightarrow> nat \<Rightarrow> btree \<Rightarrow> (bytes \<rightharpoonup> btree) \<Rightarrow> bytes \<Rightarrow> item list \<Rightarrow> tx \<Rightarrow> btree \<Rightarrow> btree \<Rightarrow> nat \<Rightarrow> nat \<Rightarrow> bool" where
  "tx_flushed d b k R F name its t T S h s \<longleftrightarrow> tree_inv d b t h T \<and> h \<le> k + 1 \<and> length (inorder T) \<le> k + 1
    \<and> inorder T = its
    \<and> tree_inv d b t s S \<and> s \<le> k + 1 \<and> length (inorder S) \<le> k + 1 \<and> tx_root t = bpage S
    \<and> (\<exists>n. find_item name (inorder S) = Some (collection_serialize (metadata name (bpage T) n)))
    \<and> (\<forall>x. x \<noteq> name \<longrightarrow> find_item x (inorder S) = find_item x (inorder R)) \<and> gone_ok d F name t T
    \<and> set (page_list T) \<inter> freelist_used (d_freelist d) \<subseteq> coll_pages F name \<and> coll_pages F name \<subseteq> freelist_used (d_freelist d)
    \<and> set (page_list S) \<inter> freelist_used (d_freelist d) = set (page_list R) \<and> set (page_list T) \<inter> set (page_list S) = {}
    \<and> tx_used t = freelist_used (d_freelist d) \<union> set (page_list T) \<union> set (page_list S)
    \<and> (\<forall>p \<in> freelist_used (d_freelist d). p \<notin> coll_pages F name \<and> p \<notin> set (page_list S)
         \<longrightarrow> tx_view d t p = stored d p \<and> dirtyNodes t p = None)
    \<and> alloc_ok (page_limit d k) (length (releasedPages (d_freelist d))) t 0"

lemma gone_ok_frame:
  assumes "gone_ok d F name t T" and "page_frame d S t t'" and "coll_pages F name \<subseteq> tx_used t" and "coll_pages F name \<inter> set (page_list S) = {}"
    and "pagesToDelete t' = pagesToDelete t"
  shows "gone_ok d F name t' T"
proof -
  have "tx_view d t' p = tx_view d t p \<and> dirtyNodes t' p = dirtyNodes t p" if "p \<in> coll_pages F name" for p
    using assms(2-4) that unfolding page_frame_def by blast
  then show ?thesis using assms(1,5) by (simp add: gone_ok_def)
qed

lemma flush_changed:
  assumes inv: "db_inv d b k R F" and cf: "db_config d a b m" and ip: "coll_changed d b k R F its c t T S h s" and co: "c_name c \<in> set co"
  shows "\<exists>t' S' s'. flushCollectionMetadata d co t = Some (Inr (), t') \<and> tx_flushed d b k R F (c_name c) its t' T S' h s'"
proof -
  let ?U = "freelist_used (d_freelist d)" and ?L = "page_limit d k" and ?M = "length (releasedPages (d_freelist d))" and ?O = "coll_pages F (c_name c)"
  have p: "tree_inv d b t h T" "h \<le> k + 1" "inorder T = its" "tree_inv d b t s S"
    "s \<le> (if c_dirtyMeta c then k else k + 1)" "length (inorder S) \<le> k + 1" "tx_root t = bpage S" "length (c_name c) \<le> 255"
    "collections t = Map.empty(c_name c \<mapsto> c)"
    "\<exists>n. collection_serialize c = collection_serialize (metadata (c_name c) (bpage T) n)"
    "\<forall>x. x \<noteq> c_name c \<longrightarrow> find_item x (inorder S) = find_item x (inorder R)" "find_item (c_name c) (inorder S) \<noteq> None"
    "c_dirtyMeta c \<Longrightarrow> put_safe t S (c_name c)" "\<not> c_dirtyMeta c \<Longrightarrow> find_item (c_name c) (inorder S) = Some (collection_serialize c)"
    "tx_write t" "deletedCollections t = {}" "gone_ok d F (c_name c) t T" "set (page_list T) \<inter> ?U \<subseteq> ?O" "?O \<subseteq> ?U"
    "set (page_list S) \<inter> ?U = set (page_list R)" "set (page_list T) \<inter> set (page_list S) = {}"
    "tx_used t = ?U \<union> set (page_list T) \<union> set (page_list S)" "alloc_ok ?L ?M t (if c_dirtyMeta c then s + 2 else 0)"
    "length its \<le> k + 1"
    using ip unfolding coll_changed_def by simp_all
  have pg: "\<forall>p \<in> ?U. p \<notin> ?O \<and> p \<notin> set (page_list S) \<longrightarrow> tx_view d t p = stored d p \<and> dirtyNodes t p = None"
    using ip unfolding coll_changed_def by blast
  obtain t' S' s' where f: "flushCollectionMetadata d co t = Some (Inr (), t')" "tree_inv d b t' s' S'"
    "s' \<le> (if c_dirtyMeta c then s + 1 else s)" "length (inorder S') \<le> length (inorder S)" "tx_root t' = bpage S'"
    "\<forall>x. find_item x (inorder S') = (if x = c_name c then Some (collection_serialize c) else find_item x (inorder S))"
    "page_frame d S t t'" "set (page_list S') \<inter> tx_used t = set (page_list S)" "tx_used t' = tx_used t \<union> set (page_list S')"
    "alloc_ok ?L ?M t' 0" "pagesToDelete t' = pagesToDelete t"
    using flush_tree [OF cf p(4,7,15,16,13,23,8) co p(9,12,14)] by blast
  have SS: "set (page_list S) \<subseteq> set (page_list S')" using f(8) by blast
  have TS: "set (page_list T) \<inter> set (page_list S') = {}" using f(8) p(21,22) by blast
  have OS: "?O \<inter> set (page_list S) = {}" using coll_pages_old(2) [OF inv, of "c_name c"] p(19,20) by blast
  have go: "gone_ok d F (c_name c) t' T" by (rule gone_ok_frame [OF p(17) f(7) _ OS f(11)]) (use p(19,22) in blast)
  have iT: "tree_inv d b t' h T" by (rule tree_inv_frame [OF p(1) _ f(7) p(21)]) (use f(2,9) in \<open>auto simp: tree_inv_def\<close>)
  have s': "s' \<le> k + 1" using f(3) p(5) by (cases "c_dirtyMeta c") simp_all
  have lS: "length (inorder S') \<le> k + 1" using f(4) p(6) by simp
  have US: "set (page_list S') \<inter> ?U = set (page_list R)" using f(8) p(20,22) by blast
  have ut: "tx_used t' = ?U \<union> set (page_list T) \<union> set (page_list S')" using f(9) p(22) SS by blast
  have "\<forall>p \<in> ?U. p \<notin> ?O \<and> p \<notin> set (page_list S') \<longrightarrow> tx_view d t' p = stored d p \<and> dirtyNodes t' p = None"
  proof (intro ballI impI)
    fix p assume q: "p \<in> ?U" "p \<notin> ?O \<and> p \<notin> set (page_list S')"
    then have "p \<in> tx_used t" "p \<notin> set (page_list S)" using p(22) SS by auto
    then have "tx_view d t' p = tx_view d t p" "dirtyNodes t' p = dirtyNodes t p" using f(7) unfolding page_frame_def by blast+
    then show "tx_view d t' p = stored d p \<and> dirtyNodes t' p = None" using pg q SS by auto
  qed
  then have "tx_flushed d b k R F (c_name c) its t' T S' h s'"
    unfolding tx_flushed_def using iT p(2,3,10,11,18,19,24) go f(2,5,6,10) s' lS US TS ut by simp
  then show ?thesis using f(1) by blast
qed

lemma flushed_pages:
  assumes pf: "tx_flushed d b k R F name its t T S h s" and cf: "db_config d a b (k + 1)" and m: "dirtyNodes t p = Some m"
  shows "p \<in> coll_pages F name \<union> set (page_list T) \<union> set (page_list S)" and "node_validate (pageSize d) (contents (mem t) m) = Inr ()"
    and "encodedSize (contents (mem t) m) \<le> pageSize d"
proof -
  have f: "tree_inv d b t h T" "tree_inv d b t s S" "length (inorder T) \<le> k + 1" "length (inorder S) \<le> k + 1"
    "tx_used t = freelist_used (d_freelist d) \<union> set (page_list T) \<union> set (page_list S)" "gone_ok d F name t T"
    using pf unfolding tx_flushed_def by blast+
  have c: "dirtyNodes t q = None" if "q \<in> freelist_used (d_freelist d)" "q \<notin> coll_pages F name" "q \<notin> set (page_list S)" for q
    using pf that unfolding tx_flushed_def by blast
  have "p \<in> tx_used t" using f(1) m by (simp add: tree_inv_def tx_ok_def)
  then show p: "p \<in> coll_pages F name \<union> set (page_list T) \<union> set (page_list S)" using c [of p] m f(5) by auto
  have "\<exists>e. tx_view d t p = Some e \<and> node_validate (pageSize d) e = Inr () \<and> encodedSize e \<le> pageSize d"
  proof -
    consider "p \<in> set (page_list T)" | "p \<in> set (page_list S)" | "p \<in> coll_pages F name - set (page_list T)" using p by blast
    then show ?thesis
    proof cases
      case 1
      then show ?thesis using tree_inv_page [OF f(1) cf _ f(3), of p thesis for thesis] by auto
    next
      case 2
      then show ?thesis using tree_inv_page [OF f(2) cf _ f(4), of p thesis for thesis] by auto
    next
      case 3
      then show ?thesis using f(6) m unfolding gone_ok_def by blast
    qed
  qed
  then show "node_validate (pageSize d) (contents (mem t) m) = Inr ()" "encodedSize (contents (mem t) m) \<le> pageSize d"
    using m by (simp_all add: tx_view_def)
qed

lemma db_tree_mono: "db_tree d b k h T \<Longrightarrow> k \<le> m \<Longrightarrow> db_tree d b m h T"
  by (simp add: db_tree_def)

text \<open>A tree of another collection is still there after the commit.\<close>

lemma other_tree:
  assumes inv: "db_inv d b k R F" and pf: "tx_flushed d b k R F name its t T S h s" and X: "F x = Some X" "x \<noteq> name"
    and us: "freelist_used (d_freelist d') = tx_used t - set (pagesToDelete t)"
    and st: "\<forall>p \<in> tx_used t. p \<noteq> m_freelistPage (d_meta d) \<longrightarrow> tx_view d t p \<noteq> None \<longrightarrow> stored d' p = tx_view d t p"
  shows "\<exists>h. db_tree d' b (k + 1) h X" and "set (page_list X) \<inter> set (page_list T) = {}" and "set (page_list X) \<inter> set (page_list S) = {}"
proof -
  let ?U = "freelist_used (d_freelist d)"
  note dX = db_inv_tree [OF inv X(1)]
  obtain g where g: "db_tree d b k g X" using dX(1) by blast
  have f: "tree_inv d b t h T" "set (page_list T) \<inter> ?U \<subseteq> coll_pages F name" "set (page_list S) \<inter> ?U = set (page_list R)"
    "tx_used t = ?U \<union> set (page_list T) \<union> set (page_list S)" "gone_ok d F name t T"
    using pf unfolding tx_flushed_def by blast+
  have XU: "set (page_list X) \<subseteq> ?U" using g by (simp add: db_tree_def)
  have XP: "set (page_list X) \<inter> coll_pages F name = {}"
    using db_inv_disjoint [OF inv X(1) _ X(2)] by (auto simp: coll_pages_def split: option.split)
  show d: "set (page_list X) \<inter> set (page_list T) = {}" "set (page_list X) \<inter> set (page_list S) = {}"
    using XU XP f(2,3) dX(3) by blast+
  have "tx_view d t p = stored d p" if "p \<in> set (page_list X)" for p
  proof -
    have "p \<in> ?U" "p \<notin> coll_pages F name \<and> p \<notin> set (page_list S)" using that XU XP d by auto
    then show ?thesis using pf unfolding tx_flushed_def by blast
  qed
  then have "tree_at (tx_view d t) X" using g tree_at_frame [of "stored d" X] by (simp add: db_tree_def)
  moreover have "tx_ok t" "set (page_list X) \<subseteq> tx_used t" using f(1,4) XU by (auto simp: tree_inv_def)
  ultimately have i: "tree_inv d b t g X" using g by (simp add: tree_inv_def db_tree_def)
  have "set (page_list X) \<subseteq> freelist_used (d_freelist d')" using XU XP f(4,5) us by (auto simp: gone_ok_def)
  from committed_tree [OF i this st dX(4), of k] g have "db_tree d' b k g X" unfolding db_tree_def [of d] by blast
  then show "\<exists>h. db_tree d' b (k + 1) h X" using db_tree_mono [of d' b k g X "k + 1"] by auto
qed

lemma committed_inv:
  assumes inv: "db_inv d b k R F" and pf: "tx_flushed d b k R F name its t T S h s"
    and us: "freelist_used (d_freelist d') = tx_used t - set (pagesToDelete t)"
    and fi: "freelist_inv (d_freelist d')" "10 + 8 * length (releasedPages (d_freelist d')) \<le> pageSize d'"
    and st: "\<forall>p \<in> tx_used t. p \<noteq> m_freelistPage (d_meta d) \<longrightarrow> tx_view d t p \<noteq> None \<longrightarrow> stored d' p = tx_view d t p"
    and d': "pageSize d' = pageSize d" "fileOpen d'" "d_disk d' = \<lparr>dbfile = Some f, walfile = None\<rparr>"
      "m_freelistPage (d_meta d') = m_freelistPage (d_meta d)" "m_root (d_meta d') = tx_root t"
  shows "db_inv d' b (k + 1) S (F(name \<mapsto> T))"
proof -
  let ?U = "freelist_used (d_freelist d)" and ?fp = "m_freelistPage (d_meta d)" and ?F = "F(name \<mapsto> T)"
  note root = db_inv_root [OF inv]
  have f: "tree_inv d b t h T" "tree_inv d b t s S" "h \<le> k + 1" "s \<le> k + 1" "length (inorder T) \<le> k + 1" "length (inorder S) \<le> k + 1"
    "tx_root t = bpage S" "\<exists>n. find_item name (inorder S) = Some (collection_serialize (metadata name (bpage T) n))"
    "\<forall>x. x \<noteq> name \<longrightarrow> find_item x (inorder S) = find_item x (inorder R)"
    "set (page_list T) \<inter> ?U \<subseteq> coll_pages F name" "set (page_list S) \<inter> ?U = set (page_list R)" "set (page_list T) \<inter> set (page_list S) = {}"
    "tx_used t = ?U \<union> set (page_list T) \<union> set (page_list S)" "gone_ok d F name t T"
    using pf unfolding tx_flushed_def by blast+
  note old = coll_pages_old [OF inv, of name]
  have gone: "set (pagesToDelete t) \<subseteq> coll_pages F name - set (page_list T)" using f(14) by (simp add: gone_ok_def)
  then have fp: "?fp \<notin> set (page_list T)" "?fp \<notin> set (page_list S)" "?fp \<in> freelist_used (d_freelist d')"
    using f(10,11,13) root(5,6) old us by blast+
  have u: "set (page_list T) \<subseteq> freelist_used (d_freelist d')" "set (page_list S) \<subseteq> freelist_used (d_freelist d')"
    using gone us f(11,13) old by blast+
  have new: "db_tree d' b (k + 1) h T" "db_tree d' b (k + 1) s S"
    using committed_tree [OF f(1) u(1) st fp(1) f(3,5)] committed_tree [OF f(2) u(2) st fp(2) f(4,6)] by blast+
  note other = other_tree [OF inv pf _ _ us st]
  have coll: "(\<exists>h. db_tree d' b (k + 1) h X) \<and> (\<exists>n. find_item x (inorder S) = Some (collection_serialize (metadata x (bpage X) n)))
      \<and> set (page_list X) \<inter> set (page_list S) = {} \<and> m_freelistPage (d_meta d') \<notin> set (page_list X)" if x: "?F x = Some X" for x X
  proof (cases "x = name")
    case True
    then have "X = T" using x by simp
    then show ?thesis using True new(1) f(8,12) fp(1) d'(4) by auto
  next
    case False
    then have X: "F x = Some X" using x by simp
    have "find_item x (inorder S) = find_item x (inorder R)" using f(9) False by simp
    then show ?thesis using other [OF X False] db_inv_tree [OF inv X] d'(4) by simp
  qed
  have disjoint: "set (page_list X) \<inter> set (page_list Y) = {}" if "?F x = Some X \<and> ?F y = Some Y \<and> x \<noteq> y" for x y X Y
  proof (cases "x = name")
    case True
    then have y: "y \<noteq> name" and "X = T" using that by auto
    then have "F y = Some Y" using that by simp
    then show ?thesis using other(2) [OF _ y] \<open>X = T\<close> by (simp add: Int_commute)
  next
    case False
    then have x: "F x = Some X" using that by simp
    show ?thesis
    proof (cases "y = name")
      case True
      then have "Y = T" using that by simp
      then show ?thesis using other(2) [OF x False] by simp
    next
      case False
      then have "F y = Some Y" using that by simp
      then show ?thesis using db_inv_disjoint [OF inv x] that by blast
    qed
  qed
  have none: "find_item x (inorder S) = None" if "?F x = None" for x
    using that f(9) root(4) [of x] by (auto split: if_split_asm)
  have "m_freelistPage (d_meta d') \<in> freelist_used (d_freelist d')" "m_freelistPage (d_meta d') \<notin> set (page_list S)"
    using fp(2,3) d'(4) by simp_all
  moreover have "bpage S = m_root (d_meta d')" using f(7) d'(5) by simp
  ultimately show ?thesis
    unfolding db_inv_def using new(2) none coll disjoint fi d'(2,3) by blast
qed

text \<open>The commit of a flushed transaction: the database holds its trees, all other collections as before.\<close>

lemma flushed_commit:
  assumes cf: "db_config d a b (k + 1)" and inv: "db_inv d b k R F" and room: "db_room d k" and no: "map_order no" and wr: "tx_write t"
    and fl: "flushCollectionMetadata d co t = Some (Inr (), t')" and tf: "tx_flushed d b k R F name its t' T S h s"
  shows "\<exists>d'. Commit no_faults co no d t = Some (Inr (), d') \<and> db_inv d' b (k + 1) S (F(name \<mapsto> T)) \<and> db_synced d'
    \<and> pageSize d' = pageSize d \<and> minFillPercent d' = minFillPercent d \<and> maxFillPercent d' = maxFillPercent d
    \<and> unat (maxPage (d_freelist d')) < page_limit d k"
proof -
  note root = db_inv_root [OF inv]
  have g: "tree_inv d b t' s S" "gone_ok d F name t' T"
    "alloc_ok (page_limit d k) (length (releasedPages (d_freelist d))) t' 0"
    "tx_used t' = freelist_used (d_freelist d) \<union> set (page_list T) \<union> set (page_list S)"
    "set (page_list T) \<inter> freelist_used (d_freelist d) \<subseteq> coll_pages F name" "set (page_list S) \<inter> freelist_used (d_freelist d) = set (page_list R)"
    using tf unfolding tx_flushed_def by blast+
  note old = coll_pages_old [OF inv, of name]
  have ok: "tx_ok t'" using g(1) by (simp add: tree_inv_def)
  note pg = flushed_pages [OF tf cf]
  let ?fp = "m_freelistPage (d_meta d)"
  have "?fp \<notin> coll_pages F name \<union> set (page_list T) \<union> set (page_list S)" using g(5,6) root(5,6) old(3) by blast
  then have fpd: "dirtyNodes t' ?fp = None" using pg(1) by (cases "dirtyNodes t' ?fp") auto
  have fpu: "?fp \<in> tx_used t'" using g(4) root(5) by simp
  have dn: "\<forall>p n. dirtyNodes t' p = Some n \<longrightarrow> node_validate (pageSize d) (contents (mem t') n) = Inr ()
      \<and> encodedSize (contents (mem t') n) \<le> pageSize d"
    using pg(2,3) by blast
  have lim: "walHeaderSize + (page_limit d k + 2) * (8 + pageSize d) < 2 ^ 63" using room by (simp add: db_room_def)
  obtain old where dk: "d_disk d = \<lparr>dbfile = Some old, walfile = None\<rparr>" using root(9) by blast
  have del: "distinct (pagesToDelete t')" "set (pagesToDelete t') \<subseteq> tx_used t'"
    "10 + 8 * (length (releasedPages (d_freelist d)) + length (pagesToDelete t')) \<le> pageSize d"
    using g(2,4) old(1) by (auto simp: gone_ok_def)
  obtain d' f' where k: "Commit no_faults co no d t = Some (Inr (), d')" "d_disk d' = \<lparr>dbfile = Some f', walfile = None\<rparr>"
    "pageSize d' = pageSize d" "fileOpen d'" "minFillPercent d' = minFillPercent d" "maxFillPercent d' = maxFillPercent d"
    "m_freelistPage (d_meta d') = ?fp" "m_root (d_meta d') = tx_root t'" "db_synced d'"
    "freelist_used (d_freelist d') = tx_used t' - set (pagesToDelete t')" "freelist_inv (d_freelist d')"
    "length (releasedPages (d_freelist d')) \<le> length (releasedPages (d_freelist d)) + length (pagesToDelete t')" "unat (maxPage (d_freelist d')) < page_limit d k"
    "\<forall>p \<in> tx_used t'. p \<noteq> ?fp \<longrightarrow> tx_view d t' p \<noteq> None \<longrightarrow> stored d' p = tx_view d t' p"
    using commit_trees [OF fl ok no wr root(8) dk cf g(3) del(3) lim del(1,2) fpu fpd dn] by blast
  have "10 + 8 * length (releasedPages (d_freelist d')) \<le> pageSize d'" unfolding k(3) by (rule order_trans [OF _ del(3)]) (use k(12) in simp)
  from committed_inv [OF inv tf k(10,11) this k(14,3,4,2,7,8)] have "db_inv d' b (k + 1) S (F(name \<mapsto> T))" .
  then show ?thesis using k(1,3,5,6,9,13) by blast
qed

text \<open>
  The whole transaction: it returns, and the database holds the collection with the item, all other
  collections as before.
\<close>

lemma put_commit:
  assumes cf: "db_config d a b (k + 1)" and inv: "db_inv d b k R F" and nm: "length name \<le> 255"
    and va: "item_validate (pageSize d) (newItem key v) = Inr ()" and room: "db_room d k" and co: "name \<in> set co" and no: "map_order no"
  shows "\<exists>d' S T. cli_put no_faults co no g d name key v = Some (Inr NoOutput, d') \<and> db_inv d' b (k + 1) S (F(name \<mapsto> T))
    \<and> inorder T = ins_item (newItem key v) (coll_items F name) \<and> db_synced d' \<and> pageSize d' = pageSize d
    \<and> minFillPercent d' = minFillPercent d \<and> maxFillPercent d' = maxFillPercent d \<and> unat (maxPage (d_freelist d')) < page_limit d k
    \<and> (F name = None \<longrightarrow> bsubs T = [])"
proof -
  have "\<exists>c t T S h s. bindM (GetOrCreateCollection d name) (\<lambda>c. Put d c key v) (newTx g d True) = Some (Inr c, t)
    \<and> c_name c = name \<and> coll_changed d b k R F (ins_item (newItem key v) (coll_items F name)) c t T S h s \<and> (F name = None \<longrightarrow> bsubs T = [])"
    using put_in_tx_new [OF cf inv _ nm va room] put_in_tx_existing [OF cf inv _ va room] by (cases "F name") blast+
  then obtain c t T S1 h s1 where p: "bindM (GetOrCreateCollection d name) (\<lambda>c. Put d c key v) (newTx g d True) = Some (Inr c, t)"
    "c_name c = name" "coll_changed d b k R F (ins_item (newItem key v) (coll_items F name)) c t T S1 h s1" "F name = None \<longrightarrow> bsubs T = []"
    by (elim exE conjE) (rule that)
  have co': "c_name c \<in> set co" using co p(2) by simp
  let ?its = "ins_item (newItem key v) (coll_items F name)"
  obtain t' S s where f: "flushCollectionMetadata d co t = Some (Inr (), t')" "tx_flushed d b k R F name ?its t' T S h s"
    using flush_changed [OF inv cf p(3) co'] p(2) by blast
  have wr: "tx_write t" using p(3) unfolding coll_changed_def by blast
  have its: "inorder T = ?its" using f(2) unfolding tx_flushed_def by blast
  obtain d' where k: "Commit no_faults co no d t = Some (Inr (), d')" "db_inv d' b (k + 1) S (F(name \<mapsto> T))" "db_synced d'"
    "pageSize d' = pageSize d" "minFillPercent d' = minFillPercent d" "maxFillPercent d' = maxFillPercent d"
    "unat (maxPage (d_freelist d')) < page_limit d k"
    using flushed_commit [OF cf inv room no wr f] by blast
  have "cli_put no_faults co no g d name key v = Some (Inr NoOutput, d')" using p(1) k(1) by (simp add: cli_put_def)
  then show ?thesis using k(2-7) its p(4) by (intro exI [of _ d'] exI [of _ S] exI [of _ T]) simp
qed

section \<open>A read transaction\<close>

lemma cli_get_spec:
  assumes inv: "db_inv d b k R F"
  shows "cli_get g d name key = Some (Inr (case F name of None \<Rightarrow> CollectionNotFound
    | Some T \<Rightarrow> (case kv_map (inorder T) key of None \<Rightarrow> KeyNotFound | Some v \<Rightarrow> Found v)), d)"
proof -
  let ?new = "newTx g d False"
  obtain hR where R: "db_tree d b k hR R" "bpage R = m_root (d_meta d)" using db_inv_root(1,2) [OF inv] by blast
  have r0: "bal hR R" "sorted_items (inorder R)" "tree_at (tx_view d ?new) R" "tx_ok ?new" "tx_root ?new = bpage R"
    "deletedCollections ?new = {}" "collections ?new = Map.empty"
    using R by (simp_all add: db_tree_def)
  obtain t where g: "reads ?new t" "find_item name (inorder R) = None \<longrightarrow> GetCollection d name ?new = Some (Inr None, t)"
    "\<forall>p n. find_item name (inorder R) = Some (collection_serialize (metadata name p n)) \<longrightarrow>
      GetCollection d name ?new = Some (Inr (Some (metadata name p n)),
        if tx_write ?new then t\<lparr>collections := Map.empty(name \<mapsto> metadata name p n)\<rparr> else t)"
    by (rule GetCollection_spec [OF r0, of name])
  show ?thesis
  proof (cases "F name")
    case None
    then have "GetCollection d name ?new = Some (Inr None, t)" using g(2) db_inv_root(4) [OF inv, of name] by simp
    then show ?thesis using None by (simp add: cli_get_def bindM_def)
  next
    case (Some T)
    obtain h n where T: "db_tree d b k h T" and n: "find_item name (inorder R) = Some (collection_serialize (metadata name (bpage T) n))"
      using db_inv_tree(1,2) [OF inv Some] by blast
    have c: "GetCollection d name ?new = Some (Inr (Some (metadata name (bpage T) n)), t)" using g(3) n by simp
    have "bal h T" "sorted_items (inorder T)" "tree_at (tx_view d t) T" "tx_ok t"
      using T reads_view [OF g(1) r0(4), of d] reads_ok [OF g(1) r0(4)] by (simp_all add: db_tree_def)
    from find_tree [OF this, of "metadata name (bpage T) n" key]
    obtain t' where f: "Find d (metadata name (bpage T) n) key t = Some (Inr (find_item key (inorder T)), t')" by auto
    show ?thesis
      using Some c f by (cases "find_item key (inorder T)") (simp_all add: cli_get_def bindM_def kv_map_def)
  qed
qed

end
