(* ===== verification/Kv_Cli.thy ===== *)
theory Kv_Cli
  imports Kv_Database
begin

text \<open>
  The command-line tool from one process to the next: a database that is created, a database that is opened again, and
  the interface \<open>kv_store\<close> on database files, where a key is a collection and a key in it. The properties of
  whole transactions and of sequences of commands stand here.
\<close>

section \<open>Opening a database\<close>

text \<open>\<open>newDal\<close> with these options made the record.\<close>

definition opened_with :: "Options \<Rightarrow> dal \<Rightarrow> bool" where
  "opened_with opt d \<longleftrightarrow> pageSize d = nat (o_pageSize opt) \<and> minFillPercent d = MinFillPercent opt
     \<and> maxFillPercent d = MaxFillPercent opt \<and> fileOpen d"

lemma readMeta_cong:
  assumes "db_bytes d = db_bytes d'" and "pageSize d = pageSize d'"
  shows "readMeta d = readMeta d'" and "m_freelistPage (d_meta d) = m_freelistPage (d_meta d') \<Longrightarrow> readFreelist d = readFreelist d'"
  using assms by (simp_all add: readMeta_def readFreelist_def readPage_def allocateEmptyPage_def)

lemma reopen:
  assumes "db_synced d" and "opened_with opt d" and "d_disk d = \<lparr>dbfile = Some f, walfile = None\<rparr>"
  shows "newDal no_faults opt (d_disk d) = (Inr d, d_disk d)"
proof -
  let ?d = "\<lparr>pageSize = nat (o_pageSize opt), minFillPercent = MinFillPercent opt, maxFillPercent = MaxFillPercent opt,
    fileOpen = True, d_disk = d_disk d, d_meta = newEmptyMeta, d_freelist = newFreelist\<rparr>"
  have o: "pageSize d = nat (o_pageSize opt)" "minFillPercent d = MinFillPercent opt" "maxFillPercent d = MaxFillPercent opt" "fileOpen d"
    using assms(2) by (simp_all add: opened_with_def)
  have e: "?d\<lparr>d_meta := d_meta d, d_freelist := d_freelist d\<rparr> = d" using o by (cases d) simp
  have w: "recoverWAL no_faults ?d = (Inr (), ?d)" using assms(3) by (simp add: recoverWAL_def readWAL_def)
  have b: "db_bytes ?d = db_bytes d" "db_bytes (?d\<lparr>d_meta := m\<rparr>) = db_bytes d" for m using o(4) by (simp_all add: db_bytes_def)
  have m: "readMeta ?d = Inr (d_meta d)"
    using readMeta_cong(1) [of ?d d] b o(1) assms(1) by (simp add: db_synced_def)
  have fr: "readFreelist (?d\<lparr>d_meta := d_meta d\<rparr>) = Inr (d_freelist d)"
    using readMeta_cong(2) [of "?d\<lparr>d_meta := d_meta d\<rparr>" d] b o(1) assms(1) by (simp add: db_synced_def)
  have "openExisting no_faults (?d\<lparr>fileOpen := False\<rparr>) = (Inr d, d_disk d)"
    using w m fr e by (simp add: openExisting_def Let_def)
  then show ?thesis using assms(3) by (simp add: newDal_def Let_def)
qed

lemma create:
  assumes "24 \<le> nat (o_pageSize opt)" and "nat (o_pageSize opt) \<le> 2 ^ 16" and "(11 :: rat) \<le> b"
  obtains d where "newDal no_faults opt \<lparr>dbfile = None, walfile = None\<rparr> = (Inr d, d_disk d)" and "opened_with opt d"
    and "d_freelist d = \<lparr>maxPage = 2, releasedPages = []\<rparr>" and "db_inv d b 0 (BNode 2 [] []) Map.empty"
proof -
  let ?ps = "nat (o_pageSize opt)"
  let ?d0 = "\<lparr>pageSize = ?ps, minFillPercent = MinFillPercent opt, maxFillPercent = MaxFillPercent opt,
    fileOpen = False, d_disk = \<lparr>dbfile = None, walfile = None\<rparr>, d_meta = newEmptyMeta, d_freelist = newFreelist\<rparr>"
  have ps: "pageSize ?d0 = ?ps" by simp
  obtain f rb where c: "createNew no_faults ?d0 = (Inr (?d0\<lparr>fileOpen := True, d_disk := (d_disk ?d0)\<lparr>dbfile := Some f\<rparr>,
       d_freelist := \<lparr>maxPage = 2, releasedPages = []\<rparr>, d_meta := \<lparr>m_root = 2, m_freelistPage = 1\<rparr>\<rparr>),
       (d_disk ?d0)\<lparr>dbfile := Some f\<rparr>)"
    and r: "file_page ?ps f 2 = Some rb" "node_deserialize rb = Some (NewNodeForSerialization [] [])"
    by (rule createNew_pages [OF assms(1,2) ps]) blast
  let ?d = "?d0\<lparr>fileOpen := True, d_disk := \<lparr>dbfile = Some f, walfile = None\<rparr>,
       d_freelist := \<lparr>maxPage = 2, releasedPages = []\<rparr>, d_meta := \<lparr>m_root = 2, m_freelistPage = 1\<rparr>\<rparr>"
  have b: "db_bytes ?d = Inr f" by (simp add: db_bytes_def)
  have rf: "file_page (pageSize ?d) f 2 = Some rb" using r(1) by simp
  have v: "node_validate (pageSize ?d) (NewNodeForSerialization [] []) = Inr ()"
    using assms(1) by (simp add: node_validate_Inr isLeaf_def NewNodeForSerialization_def nodeSize_eq small_items_def)
  have "stored ?d 2 = Some (bcontent (BNode 2 [] []))"
    using dal_getNode_page [OF b rf r(2) v] by (simp add: stored_def NewNodeForSerialization_def bcontent_def)
  then have "db_tree ?d b 0 0 (BNode 2 [] [])"
    using assms(3)
    by (simp add: db_tree_def freelist_used_def tree_fits_def node_fits_def nodeSize_esum bcontent_def small_items_def)
  then have "db_inv ?d b 0 (BNode 2 [] []) Map.empty"
    using assms(1) unfolding db_inv_def by (auto simp: freelist_used_def freelist_inv_def)
  moreover have "newDal no_faults opt \<lparr>dbfile = None, walfile = None\<rparr> = (Inr ?d, d_disk ?d)" using c by (simp add: newDal_def Let_def)
  moreover have "opened_with opt ?d" by (simp add: opened_with_def)
  ultimately show thesis using that [of ?d] by simp
qed

section \<open>The default options\<close>

definition cli_options :: Options where
  "cli_options = withDefaults 4096 DefaultOptions"

lemma cli_options: "o_pageSize cli_options = 4096" "MinFillPercent cli_options = MinFillPercent DefaultOptions"
    "MaxFillPercent cli_options = MaxFillPercent DefaultOptions" "options_validate cli_options = Inr ()"
  using default_fill_percents
  by (simp_all add: cli_options_def withDefaults_def DefaultOptions_def options_validate_def metaHeaderSize_def)

lemma cli_Open: "Open no_faults 4096 (Some DefaultOptions) dk = newDal no_faults cli_options dk"
  using cli_options(4) by (simp add: Open_def cli_options_def)

lemma cli_config:
  assumes "opened_with cli_options d" and "n \<le> 50"
  shows "db_config d 2048 (15938355 / 4096) n"
proof -
  have o: "pageSize d = 4096" "minFillPercent d = MinFillPercent DefaultOptions" "maxFillPercent d = MaxFillPercent DefaultOptions"
    using assms(1) by (simp_all add: opened_with_def cli_options)
  have "(of_nat n :: rat) \<le> of_nat 50" using assms(2) by (simp only: of_nat_le_iff)
  then show ?thesis using default_fill [OF o] o(1) by (simp add: db_config_def)
qed

section \<open>Commands on a database file\<close>

text \<open>
  A file, and the number of items put so far: with the default options and pages of 4096 bytes, fifty puts are safe.
  Keys are a collection with a key in it.
\<close>

definition cli_map :: "(bytes \<rightharpoonup> btree) \<Rightarrow> bytes \<times> bytes \<rightharpoonup> bytes" where
  "cli_map F ck = kv_map (coll_items F (fst ck)) (snd ck)"

definition cli_rep :: "(tx \<Rightarrow> pgnum list) \<Rightarrow> disk \<times> nat \<Rightarrow> (bytes \<times> bytes \<rightharpoonup> bytes) \<Rightarrow> bool" where
  "cli_rep no s m \<longleftrightarrow> map_order no \<and> snd s \<le> 50
     \<and> (\<exists>d R F. d_disk d = fst s \<and> opened_with cli_options d \<and> db_synced d \<and> db_inv d (15938355 / 4096) (snd s) R F
         \<and> unat (maxPage (d_freelist d)) \<le> 2 + 106 * snd s \<and> m = cli_map F \<and> (\<forall>c. F c \<noteq> None \<longrightarrow> (\<exists>k. m (c, k) \<noteq> None)))"

text \<open>What \<open>get\<close> prints.\<close>

definition cli_answer :: "(bytes \<times> bytes \<rightharpoonup> bytes) \<Rightarrow> bytes \<Rightarrow> bytes \<Rightarrow> cli_output" where
  "cli_answer m c k = (case m (c, k) of Some v \<Rightarrow> Found v
     | None \<Rightarrow> if \<exists>k'. m (c, k') \<noteq> None then KeyNotFound else CollectionNotFound)"

definition cli_get_cmd ::
  "(tx \<Rightarrow> pgnum list) \<Rightarrow> (nat \<Rightarrow> nat \<Rightarrow> nat) \<Rightarrow> disk \<times> nat \<Rightarrow> bytes \<times> bytes \<Rightarrow> (bytes option \<times> disk \<times> nat) option" where
  "cli_get_cmd no g s ck = (case cli_main no_faults [] no g 4096 (fst s) OpGet (fst ck) (snd ck) [] of
     Some (Inr out, dk) \<Rightarrow> Some (case out of Found v \<Rightarrow> Some v | _ \<Rightarrow> None, dk, snd s) | _ \<Rightarrow> None)"

definition cli_put_cmd ::
  "(tx \<Rightarrow> pgnum list) \<Rightarrow> (nat \<Rightarrow> nat \<Rightarrow> nat) \<Rightarrow> disk \<times> nat \<Rightarrow> bytes \<times> bytes \<Rightarrow> bytes \<Rightarrow> (disk \<times> nat) option" where
  "cli_put_cmd no g s ck v = (case cli_main no_faults [fst ck] no g 4096 (fst s) OpPut (fst ck) (snd ck) v of
     Some (Inr out, dk) \<Rightarrow> Some (dk, snd s + 1) | _ \<Rightarrow> None)"

definition cli_can_put :: "disk \<times> nat \<Rightarrow> bytes \<times> bytes \<Rightarrow> bytes \<Rightarrow> bool" where
  "cli_can_put s ck v \<longleftrightarrow> snd s < 50 \<and> length (fst ck) \<le> 255 \<and> length (snd ck) \<le> 255 \<and> length v \<le> 255"

lemma cli_rep_open:
  assumes "cli_rep no s m"
  obtains d R F where "Open no_faults 4096 (Some DefaultOptions) (fst s) = (Inr d, fst s)" and "d_disk d = fst s"
    and "opened_with cli_options d" and "db_inv d (15938355 / 4096) (snd s) R F" and "unat (maxPage (d_freelist d)) \<le> 2 + 106 * snd s"
    and "m = cli_map F" and "\<And>c. F c \<noteq> None \<Longrightarrow> \<exists>k. m (c, k) \<noteq> None" and "db_synced d"
proof -
  obtain d R F where d: "d_disk d = fst s" "opened_with cli_options d" "db_synced d" "db_inv d (15938355 / 4096) (snd s) R F"
    "unat (maxPage (d_freelist d)) \<le> 2 + 106 * snd s" "m = cli_map F" "\<forall>c. F c \<noteq> None \<longrightarrow> (\<exists>k. m (c, k) \<noteq> None)"
    using assms unfolding cli_rep_def by blast
  obtain f where "d_disk d = \<lparr>dbfile = Some f, walfile = None\<rparr>" using db_inv_root(9) [OF d(4)] by blast
  from reopen [OF d(3,2) this] show thesis using that [of d R F] d unfolding cli_Open by auto
qed

lemma cli_get_rep:
  assumes "cli_rep no s m"
  shows "cli_main no_faults co no' g 4096 (fst s) OpGet c k v = Some (Inr (cli_answer m c k), fst s)"
proof -
  obtain d R F where d: "Open no_faults 4096 (Some DefaultOptions) (fst s) = (Inr d, fst s)" "d_disk d = fst s"
    "db_inv d (15938355 / 4096) (snd s) R F" "m = cli_map F" "\<And>c. F c \<noteq> None \<Longrightarrow> \<exists>k. m (c, k) \<noteq> None"
    by (rule cli_rep_open [OF assms]) blast
  have "(case F c of None \<Rightarrow> CollectionNotFound | Some T \<Rightarrow> (case kv_map (inorder T) k of None \<Rightarrow> KeyNotFound | Some v \<Rightarrow> Found v))
      = cli_answer m c k"
    using d(5) [of c] by (auto simp: cli_answer_def d(4) cli_map_def coll_items_def kv_map_def split: option.split)
  then show ?thesis using d(1,2) cli_get_spec [OF d(3), of g c k] by (simp add: cli_main_def)
qed

text \<open>One \<open>put\<close> on a database that has just been opened or created.\<close>

lemma cli_put_opened:
  assumes op: "Open no_faults 4096 (Some DefaultOptions) dk = (Inr d, dk')" and o: "opened_with cli_options d"
    and inv: "db_inv d (15938355 / 4096) n R F" and mp: "unat (maxPage (d_freelist d)) \<le> 2 + 106 * n"
    and ne: "\<And>c. F c \<noteq> None \<Longrightarrow> \<exists>k. cli_map F (c, k) \<noteq> None" and no: "map_order no"
    and cp: "cli_can_put (dk, n) ck v"
  shows "\<exists>s'. cli_put_cmd no g (dk, n) ck v = Some s' \<and> cli_rep no s' ((cli_map F)(ck \<mapsto> v))"
proof -
  obtain c k where ck: "ck = (c, k)" by fastforce
  have sz: "n < 50" "length c \<le> 255" "length k \<le> 255" "length v \<le> 255" using cp by (simp_all add: cli_can_put_def ck)
  have cf: "db_config d 2048 (15938355 / 4096) (n + 1)" by (rule cli_config [OF o]) (use sz in simp)
  have ps: "pageSize d = 4096" using o by (simp add: opened_with_def cli_options)
  have va: "item_validate (pageSize d) (newItem k v) = Inr ()"
    using sz ps by (simp add: item_validate_def node_validate_Inr NewNodeForSerialization_def isLeaf_def newItem_def nodeSize_eq small_items_def)
  have pl: "page_limit d n \<le> 2 + 106 * n + 106" using mp sz(1) by (simp add: page_limit_def)
  have room: "db_room d n" using pl sz(1) ps by (simp add: db_room_def walHeaderSize_def)
  obtain d' S T where p: "cli_put no_faults [c] no g d c k v = Some (Inr NoOutput, d')" "db_inv d' (15938355 / 4096) (n + 1) S (F(c \<mapsto> T))"
    "inorder T = ins_item (newItem k v) (coll_items F c)" "db_synced d'" "pageSize d' = pageSize d"
    "minFillPercent d' = minFillPercent d" "maxFillPercent d' = maxFillPercent d" "unat (maxPage (d_freelist d')) < page_limit d n"
    using put_commit [OF cf inv sz(2) va room _ no, of "[c]" g] by auto
  have o': "opened_with cli_options d'" using o p(5-7) db_inv_root(8) [OF p(2)] by (simp add: opened_with_def)
  have m: "cli_map (F(c \<mapsto> T)) = (cli_map F)(ck \<mapsto> v)"
  proof
    fix x :: "bytes \<times> bytes"
    obtain y j where x: "x = (y, j)" by fastforce
    have "coll_items (F(c \<mapsto> T)) y = (if y = c then ins_item (newItem k v) (coll_items F c) else coll_items F y)"
      using p(3) by (simp add: coll_items_def [of "F(c \<mapsto> T)"]) (simp add: coll_items_def)
    then show "cli_map (F(c \<mapsto> T)) x = ((cli_map F)(ck \<mapsto> v)) x" by (simp add: cli_map_def ck x kv_map_ins)
  qed
  have ne': "\<exists>j. cli_map (F(c \<mapsto> T)) (x, j) \<noteq> None" if "(F(c \<mapsto> T)) x \<noteq> None" for x
  proof (cases "x = c")
    case True
    then show ?thesis by (intro exI [of _ k]) (simp add: m ck)
  next
    case False
    then have "F x \<noteq> None" using that by simp
    then obtain j where "cli_map F (x, j) \<noteq> None" using ne [of x] by blast
    then show ?thesis using False by (intro exI [of _ j]) (simp add: m ck)
  qed
  have "cli_rep no (d_disk d', n + 1) ((cli_map F)(ck \<mapsto> v))"
    unfolding cli_rep_def
  proof (intro conjI exI [of _ d'] exI [of _ S] exI [of _ "F(c \<mapsto> T)"])
    show "\<forall>x. (F(c \<mapsto> T)) x \<noteq> None \<longrightarrow> (\<exists>j. ((cli_map F)(ck \<mapsto> v)) (x, j) \<noteq> None)" using ne' unfolding m by blast
  qed (use no sz o' p(2,4,8) pl m in simp_all)
  moreover have "cli_put_cmd no g (dk, n) ck v = Some (d_disk d', n + 1)"
    using op p(1) by (simp add: cli_put_cmd_def cli_main_def ck)
  ultimately show ?thesis by blast
qed

interpretation cli: kv_store "cli_rep no" "cli_get_cmd no g" "cli_put_cmd no g" cli_can_put for no g
proof
  fix s :: "disk \<times> nat" and m ck v
  assume r: "cli_rep no s m"
  show "\<exists>s'. cli_get_cmd no g s ck = Some (m ck, s') \<and> cli_rep no s' m"
    using r cli_get_rep [OF r, of "[]" no g "fst ck" "snd ck" "[]"]
    by (intro exI [of _ s]) (simp add: cli_get_cmd_def cli_answer_def split: option.split)
  assume cp: "cli_can_put s ck v"
  obtain d R F where d: "Open no_faults 4096 (Some DefaultOptions) (fst s) = (Inr d, fst s)" "opened_with cli_options d"
    "db_inv d (15938355 / 4096) (snd s) R F" "unat (maxPage (d_freelist d)) \<le> 2 + 106 * snd s"
    "m = cli_map F" "\<And>c. F c \<noteq> None \<Longrightarrow> \<exists>k. m (c, k) \<noteq> None"
    by (rule cli_rep_open [OF r]) blast
  have no: "map_order no" using r by (simp add: cli_rep_def)
  show "\<exists>s'. cli_put_cmd no g s ck v = Some s' \<and> cli_rep no s' (m(ck \<mapsto> v))"
    using cli_put_opened [OF d(1,2,3,4) _ no, of ck v g] d(5,6) cp by (cases s) auto
qed

section \<open>Sequences of commands\<close>

text \<open>One process after the other runs \<open>mykv -o put\<close>; \<open>None\<close> when one of them fails.\<close>

primrec mykv_puts ::
  "(tx \<Rightarrow> pgnum list) \<Rightarrow> (nat \<Rightarrow> nat \<Rightarrow> nat) \<Rightarrow> ((bytes \<times> bytes) \<times> bytes) list \<Rightarrow> disk \<Rightarrow> disk option" where
  "mykv_puts no g [] dk = Some dk"
| "mykv_puts no g (x # xs) dk =
     (case cli_main no_faults [fst (fst x)] no g 4096 dk OpPut (fst (fst x)) (snd (fst x)) (snd x) of
        Some (Inr out, dk) \<Rightarrow> mykv_puts no g xs dk | _ \<Rightarrow> None)"

definition cli_small :: "(bytes \<times> bytes) \<times> bytes \<Rightarrow> bool" where
  "cli_small x \<longleftrightarrow> length (fst (fst x)) \<le> 255 \<and> length (snd (fst x)) \<le> 255 \<and> length (snd x) \<le> 255"

lemma mykv_puts_eq: "mykv_puts no g xs dk = map_option fst (cli.puts no g xs (dk, n))"
proof (induction xs arbitrary: dk n)
  case (Cons x xs)
  then show ?case
    by (simp add: cli_put_cmd_def [of no g "(dk, n)" "fst x" "snd x"] split: option.split sum.split)
qed simp

lemma cli_can_puts: "n + length xs \<le> 50 \<Longrightarrow> list_all cli_small xs \<Longrightarrow> cli.can_puts no g xs (dk, n)"
proof (induction xs arbitrary: dk n)
  case (Cons x xs)
  have "cli.can_puts no g xs s'" if "cli_put_cmd no g (dk, n) (fst x) (snd x) = Some s'" for s'
  proof -
    have "s' = (fst s', n + 1)"
      using that by (auto simp: cli_put_cmd_def [of no g "(dk, n)" "fst x" "snd x"] split: option.splits sum.splits)
    then show ?thesis using Cons.IH [of "n + 1" "fst s'"] Cons.prems by simp
  qed
  moreover have "cli_can_put (dk, n) (fst x) (snd x)" using Cons.prems by (simp add: cli_can_put_def cli_small_def)
  ultimately show ?case by simp
qed simp

lemma kv_map_Nil [simp]: "kv_map [] = Map.empty"
  by (rule ext) (simp add: kv_map_def)

definition ex_order :: "tx \<Rightarrow> pgnum list" where
  "ex_order t = sorted_list_of_set (dom (dirtyNodes t))"

lemma ex_order: "map_order ex_order"
  by (simp add: map_order_def ex_order_def)

section \<open>Properties\<close>

text \<open>
  C1: the tool keeps a map from collections and keys to values across processes. With the default options and pages of
  4096 bytes, after up to fifty \<open>put\<close> commands with names, keys and values of at most 255 bytes, the first of which creates the
  file, all have succeeded, and \<open>get\<close> prints for every collection and key the value last put, or which of the two is missing.
\<close>

theorem commands_keep_every_value:
  assumes "map_order no" and "length xs < 50" and "list_all cli_small (x # xs)"
  shows "\<exists>dk. mykv_puts no g (x # xs) \<lparr>dbfile = None, walfile = None\<rparr> = Some dk
    \<and> (\<forall>co no' g' c k v. cli_main no_faults co no' g' 4096 dk OpGet c k v
         = Some (Inr (cli_answer (map_of (rev (x # xs))) c k), dk))"
proof -
  let ?dk = "\<lparr>dbfile = None, walfile = None\<rparr>"
  obtain d where d: "newDal no_faults cli_options ?dk = (Inr d, d_disk d)" "opened_with cli_options d"
    "d_freelist d = \<lparr>maxPage = 2, releasedPages = []\<rparr>" "db_inv d (15938355 / 4096) 0 (BNode 2 [] []) Map.empty"
    by (rule create [of cli_options "15938355 / 4096"]) (simp_all add: cli_options)
  have cp: "cli_can_put (?dk, 0) (fst x) (snd x)" using assms(3) by (simp add: cli_can_put_def cli_small_def)
  have m0: "cli_map Map.empty = Map.empty" by (rule ext) (simp add: cli_map_def coll_items_def kv_map_def)
  obtain s1 where s1: "cli_put_cmd no g (?dk, 0) (fst x) (snd x) = Some s1" "cli_rep no s1 [fst x \<mapsto> snd x]"
    using cli_put_opened [OF _ d(2,4) _ _ assms(1) cp, of "d_disk d" g] d(1,3) cli_Open m0 by auto
  have n1: "s1 = (fst s1, 1)" using s1(1) by (auto simp: cli_put_cmd_def split: option.splits sum.splits)
  have "cli.can_puts no g xs (fst s1, 1)" by (rule cli_can_puts) (use assms(2,3) in simp_all)
  then obtain s2 where s2: "cli.puts no g xs s1 = Some s2" "cli_rep no s2 ([fst x \<mapsto> snd x] ++ map_of (rev xs))"
    using cli.puts_rep [OF s1(2)] n1 by metis
  have "[fst x \<mapsto> snd x] ++ map_of (rev xs) = map_of (rev (x # xs))" by (cases x) (simp add: map_of_append)
  moreover have "mykv_puts no g (x # xs) ?dk = Some (fst s2)"
    unfolding mykv_puts_eq [of _ _ _ _ 0] using s1(1) s2(1) by simp
  ultimately show ?thesis using cli_get_rep [OF s2(2)] by auto
qed

lemma commands_keep_every_value_witness:
  "\<exists>dk. mykv_puts ex_order (\<lambda>_ n. 2 * n) [(([1], [2]), [3]), (([1], [4]), [5]), (([1], [2]), [6])]
      \<lparr>dbfile = None, walfile = None\<rparr> = Some dk
    \<and> cli_main no_faults [] ex_order (\<lambda>_ n. 2 * n) 4096 dk OpGet [1] [2] [] = Some (Inr (Found [6]), dk)"
proof -
  have "length [(([1], [4]), [5]), (([1], [2]), [6 :: byte])] < 50"
    "list_all cli_small [(([1], [2]), [3]), (([1], [4]), [5]), (([1], [2]), [6])]" by (simp_all add: cli_small_def)
  from commands_keep_every_value [OF ex_order this, of "\<lambda>_ n. 2 * n"] show ?thesis by (auto simp: cli_answer_def)
qed



text \<open>
  C11: a read transaction prints the value the database holds for the collection and the key, or which of the two is missing.
\<close>

theorem get_transaction:
  assumes "db_inv d b k R F"
  shows "cli_get g d name key = Some (Inr (case F name of None \<Rightarrow> CollectionNotFound
    | Some T \<Rightarrow> (case kv_map (inorder T) key of None \<Rightarrow> KeyNotFound | Some v \<Rightarrow> Found v)), d)"
  by (rule cli_get_spec [OF assms])

lemma get_transaction_witness:
  "\<exists>d. newDal no_faults cli_options \<lparr>dbfile = None, walfile = None\<rparr> = (Inr d, d_disk d)
    \<and> cli_get (\<lambda>_ n. n) d [1] [2] = Some (Inr CollectionNotFound, d)"
proof -
  obtain d where "newDal no_faults cli_options \<lparr>dbfile = None, walfile = None\<rparr> = (Inr d, d_disk d)"
    "db_inv d (15938355 / 4096) 0 (BNode 2 [] []) Map.empty"
    by (rule create [of cli_options "15938355 / 4096"]) (simp_all add: cli_options)
  then show ?thesis using get_transaction [of d "15938355 / 4096" 0 "BNode 2 [] []" Map.empty "\<lambda>_ n. n" "[1]" "[2]"] by auto
qed

text \<open>
  C12: a database file that holds the header and the free list of a database in memory, as every commit leaves it, opens as that
  database again, and opening does not change the file.
\<close>

theorem database_reopens:
  assumes "readMeta d = Inr (d_meta d)" and "readFreelist d = Inr (d_freelist d)" and "opened_with opt d"
    and "d_disk d = \<lparr>dbfile = Some f, walfile = None\<rparr>"
  shows "newDal no_faults opt (d_disk d) = (Inr d, d_disk d)"
  by (rule reopen) (use assms in \<open>simp_all add: db_synced_def\<close>)

lemma database_reopens_witness:
  "\<exists>dk d. mykv_puts ex_order (\<lambda>_ n. n) [(([1], [2]), [3])] \<lparr>dbfile = None, walfile = None\<rparr> = Some dk
    \<and> newDal no_faults cli_options dk = (Inr d, dk)"
proof -
  let ?dk = "\<lparr>dbfile = None, walfile = None\<rparr>"
  obtain d where d: "newDal no_faults cli_options ?dk = (Inr d, d_disk d)" "opened_with cli_options d"
    "d_freelist d = \<lparr>maxPage = 2, releasedPages = []\<rparr>" "db_inv d (15938355 / 4096) 0 (BNode 2 [] []) Map.empty"
    by (rule create [of cli_options "15938355 / 4096"]) (simp_all add: cli_options)
  have cp: "cli_can_put (?dk, 0) ([1], [2]) [3]" by (simp add: cli_can_put_def)
  obtain s where s: "cli_put_cmd ex_order (\<lambda>_ n. n) (?dk, 0) ([1], [2]) [3] = Some s" "\<exists>m. cli_rep ex_order s m"
    using cli_put_opened [OF _ d(2,4) _ _ ex_order cp, of "d_disk d" "\<lambda>_ n. n"] d(1,3) cli_Open by auto
  have p: "mykv_puts ex_order (\<lambda>_ n. n) [(([1], [2]), [3])] ?dk = Some (fst s)"
    unfolding mykv_puts_eq [of _ _ _ _ 0] using s(1) by simp
  obtain m where "cli_rep ex_order s m" using s(2) by blast
  then obtain e R F where e: "d_disk e = fst s" "opened_with cli_options e" "db_inv e (15938355 / 4096) (snd s) R F" "db_synced e"
    by (rule cli_rep_open)
  obtain f where "d_disk e = \<lparr>dbfile = Some f, walfile = None\<rparr>" using db_inv_root(9) [OF e(3)] by blast
  then have "newDal no_faults cli_options (d_disk e) = (Inr e, d_disk e)"
    using database_reopens [OF _ _ e(2)] e(4) by (simp add: db_synced_def)
  then show ?thesis using p e(1) by auto
qed

text \<open>
  C13: creating a database gives one that holds no collection: an empty root collection on page 2, the free list on page 1, and
  no other page in use.
\<close>

theorem created_database_is_empty:
  assumes "24 \<le> o_pageSize opt" and "o_pageSize opt \<le> 2 ^ 16" and "(11 :: rat) \<le> b"
  shows "\<exists>d. newDal no_faults opt \<lparr>dbfile = None, walfile = None\<rparr> = (Inr d, d_disk d) \<and> pageSize d = nat (o_pageSize opt)
    \<and> freelist_used (d_freelist d) = {1, 2} \<and> db_inv d b 0 (BNode 2 [] []) Map.empty"
proof -
  obtain d where d: "newDal no_faults opt \<lparr>dbfile = None, walfile = None\<rparr> = (Inr d, d_disk d)" "opened_with opt d"
    "d_freelist d = \<lparr>maxPage = 2, releasedPages = []\<rparr>" "db_inv d b 0 (BNode 2 [] []) Map.empty"
    by (rule create [of opt b]) (use assms in simp_all)
  have "p = 1 \<or> p = 2" if "unat p \<le> 2" "p \<noteq> 0" for p :: pgnum
  proof -
    have "unat p \<noteq> 0" using that(2) by (simp add: unat_eq_zero)
    then have "unat p = 1 \<or> unat p = 2" using that(1) by linarith
    then show ?thesis by (simp add: word_unat_eq_iff)
  qed
  then have "freelist_used (d_freelist d) = {1, 2}" by (auto simp: freelist_used_def d(3) unat_gt_0)
  then show ?thesis using d(1,2,4) by (auto simp: opened_with_def)
qed

lemma created_database_is_empty_witness:
  "\<exists>d. newDal no_faults cli_options \<lparr>dbfile = None, walfile = None\<rparr> = (Inr d, d_disk d) \<and> pageSize d = 4096"
  using created_database_is_empty [of cli_options 11] by (auto simp: cli_options)

end
