(* ===== verification/Tree_Delete.thy ===== *)
theory Tree_Delete
  imports Btree_Put
begin

text \<open>
  What a removal that needs no rebalancing means on a tree of pages: the item leaves its leaf, or the last item of the
  leaf before it, at the end of the rightmost path of its left child, takes its place. Both delete the key from the items in order.
\<close>

section \<open>Deletion from ordered items\<close>

definition del_item :: "bytes \<Rightarrow> item list \<Rightarrow> item list" where
  "del_item k its = filter (\<lambda>x. item_key x \<noteq> k) its"

lemma del_item_find: "find_item k' (del_item k its) = (if k' = k then None else find_item k' its)"
  by (induction its) (auto simp: del_item_def)

lemma del_item_missing: "find_item k its = None \<Longrightarrow> del_item k its = its"
  by (induction its) (auto simp: del_item_def split: if_split_asm)

lemma del_item_sorted: "sorted_items its \<Longrightarrow> sorted_items (del_item k its)"
  by (simp add: del_item_def sorted_wrt_map sorted_wrt_filter)

lemma del_item_context:
  assumes "\<And>x. x \<in> set pre \<Longrightarrow> item_key x < k" and "\<And>x. x \<in> set post \<Longrightarrow> k < item_key x"
  shows "del_item k (pre @ xs @ post) = pre @ del_item k xs @ post"
proof -
  have "filter (\<lambda>x. item_key x \<noteq> k) pre = pre" "filter (\<lambda>x. item_key x \<noteq> k) post = post"
    using assms by (auto intro!: filter_True)
  then show ?thesis by (simp add: del_item_def)
qed

lemma del_item_mid:
  assumes "sorted_items (l @ x # r)"
  shows "del_item (item_key x) (l @ x # r) = l @ r"
proof -
  have "\<And>y. y \<in> set l \<Longrightarrow> item_key y < item_key x" "\<And>y. y \<in> set r \<Longrightarrow> item_key x < item_key y"
    using assms by (simp_all add: sorted_wrt_append)
  from del_item_context [where k = "item_key x" and xs = "[x]", OF this] show ?thesis by (simp add: del_item_def)
qed

section \<open>Replacing the node at the end of a path\<close>

fun replace_at :: "nat list \<Rightarrow> btree \<Rightarrow> btree \<Rightarrow> btree" where
  "replace_at [] U T = U"
| "replace_at (i # rest) U T = set_sub i (replace_at rest U (bsubs T ! i)) T"

lemma store_at_replace: "store_at (path @ q) its T = replace_at path (store_at q its (path_sub path T)) T"
  by (induction path arbitrary: T) simp_all

lemma replace_at_twice [simp]:
  "valid_path path T \<Longrightarrow> replace_at path U (replace_at path V T) = replace_at path U T"
  "valid_path path T \<Longrightarrow> path_sub path (replace_at path V T) = V"
  by (induction path arbitrary: T) (simp_all add: set_sub_def)

lemma valid_path_append: "valid_path (path @ q) T \<longleftrightarrow> valid_path path T \<and> valid_path q (path_sub path T)"
  and path_sub_append: "path_sub (path @ q) T = path_sub q (path_sub path T)"
  by (induction path arbitrary: T) auto

lemma path_sub_store: "valid_path path T \<Longrightarrow> path_sub path (store_at path its T) = store_at [] its (path_sub path T)"
  using store_at_replace [of path "[]" its T] by simp

lemma path_pages_append: "path_pages (path @ j # q) T = path_pages path T @ path_pages q (bsubs (path_sub path T) ! j)"
  by (induction path arbitrary: T) simp_all

lemma path_pages_stores:
  assumes "valid_path p T" and "path_sub p T = u" and "valid_path (j # q) u"
  shows "path_pages (p @ j # q) (store_at (p @ j # q) its' (store_at p its T)) = path_pages (p @ j # q) T"
proof -
  have "valid_path (p @ j # q) (store_at p its T)" using assms by (simp add: valid_path_append path_sub_store)
  then have "path_pages (p @ j # q) (store_at (p @ j # q) its' (store_at p its T)) = path_pages (p @ j # q) (store_at p its T)" by simp
  also have "\<dots> = path_pages (p @ j # q) T" using assms by (simp add: path_pages_append path_sub_store)
  finally show ?thesis .
qed

lemma path_sub_distinct: "valid_path path T \<Longrightarrow> distinct (page_list T) \<Longrightarrow> distinct (page_list (path_sub path T))"
  by (induction path arbitrary: T) (simp_all add: distinct_sub_pages(1))

lemma path_sub_tree_at: "valid_path path T \<Longrightarrow> tree_at v T \<Longrightarrow> tree_at v (path_sub path T)"
  by (induction path arbitrary: T) (simp_all add: tree_at_child(1))

text \<open>A deletion in the node where the search met the key is a deletion in the tree.\<close>

lemma search_found_node:
  assumes "bal h T" and "sorted_items (inorder T)" and "search T k = (True, j, u, path)"
  obtains h' where "bal h' u" and "sorted_items (inorder u)" and "findKeyInNode (bcontent u) k = (True, j)"
    and "\<forall>U. inorder U = del_item k (inorder u) \<longrightarrow> inorder (replace_at path U T) = del_item k (inorder T)"
  using assms
proof (induction h arbitrary: T path thesis)
  case (0 T path)
  obtain found i where fi: "findKeyInNode (bcontent T) k = (found, i)" by fastforce
  have "found" using search_leaf [of T k i] fi 0(2,4) by (cases found) auto
  then have "j = i" "u = T" "path = []" using search_found [of T k i] fi 0(4) by simp_all
  then show thesis using 0(1) [of 0] 0(2,3) fi \<open>found\<close> by simp
next
  case (Suc h T path)
  obtain found i where fi: "findKeyInNode (bcontent T) k = (found, i)" by fastforce
  show thesis
  proof (cases found)
    case True
    then have "j = i" "u = T" "path = []" using search_found [of T k i] fi Suc.prems(4) by simp_all
    then show thesis using Suc.prems(1) [of "Suc h"] Suc.prems(2,3) fi True by simp
  next
    case False
    then have fi': "findKeyInNode (bcontent T) k = (False, i)" using fi by simp
    note c = child_bounds [OF Suc.prems(2,3) fi']
    obtain f' j' u' path' where r: "search (bsubs T ! i) k = (f', j', u', path')" by (rule prod_cases4)
    have eq: "f'" "j' = j" "u' = u" "path = i # path'" using search_child [OF fi' c(1) r] Suc.prems(4) by auto
    then have s: "search (bsubs T ! i) k = (True, j, u, path')" using r by simp
    show thesis
    proof (rule Suc.IH [OF _ c(2,3) s])
      fix h' assume h': "bal h' u" "sorted_items (inorder u)" "findKeyInNode (bcontent u) k = (True, j)"
        "\<forall>U. inorder U = del_item k (inorder u) \<longrightarrow>
          inorder (replace_at path' U (bsubs T ! i)) = del_item k (inorder (bsubs T ! i))"
      have len: "length (map inorder (bsubs T)) = length (bitems T) + 1" "i \<le> length (bitems T)"
        using Suc.prems(2) c(1) by simp_all
      have "inorder (replace_at path U T) = del_item k (inorder T)" if U: "inorder U = del_item k (inorder u)" for U
      proof -
        have "inorder (replace_at path U T) = weave (bitems T) ((map inorder (bsubs T))[i := del_item k (inorder (bsubs T ! i))])"
          using eq(4) h'(4) U by (simp add: set_sub_def map_update)
        also have "\<dots> = del_item k (inorder T)"
          unfolding weave_update [OF len] c(4) by (rule del_item_context [OF c(5,6), symmetric])
        finally show ?thesis .
      qed
      then show thesis using Suc.prems(1) h' by blast
    qed
  qed
qed

section \<open>The two removals\<close>

text \<open>From a leaf; and from an inner node, into which the last item of the leaf before the key moves up.\<close>

lemma inorder_delete_leaf:
  assumes "bal h u" and "sorted_items (inorder u)" and "findKeyInNode (bcontent u) k = (True, j)" and "bsubs u = []"
  shows "inorder (store_at [] (delete_at j (bitems u)) u) = del_item k (inorder u)"
proof -
  note n = node_search_found [OF assms(1-3)]
  have c: "bitems u = take j (bitems u) @ bitems u ! j # drop (Suc j) (bitems u)" using n(1) by (rule id_take_nth_drop)
  have "sorted_items (bitems u)" using assms(2,4) by (simp add: inorder_eq)
  then have "del_item k (bitems u) = delete_at j (bitems u)"
    using del_item_mid [of "take j (bitems u)" "bitems u ! j" "drop (Suc j) (bitems u)"] c n(2) by (simp add: delete_at_def)
  then show ?thesis using assms(4) by (simp add: inorder_eq)
qed

text \<open>The path to the last leaf of a tree.\<close>

fun right_spine :: "btree \<Rightarrow> nat list" where
  "right_spine (BNode p its subs) = (if subs = [] then [] else (length subs - 1) # last (map right_spine subs))"

lemma right_spine_eq: "right_spine T = (if bsubs T = [] then [] else (length (bsubs T) - 1) # right_spine (last (bsubs T)))"
  by (cases T) (simp add: last_map)

lemma right_spine_tree:
  assumes "bal h T"
  shows "valid_path (right_spine T) T \<and> bsubs (path_sub (right_spine T) T) = []
    \<and> (\<exists>xs. inorder T = xs @ bitems (path_sub (right_spine T) T) \<and> (\<forall>its. inorder (store_at (right_spine T) its T) = xs @ its))"
  using assms
proof (induction h arbitrary: T)
  case 0
  then have "bsubs T = []" by simp
  moreover from this have "right_spine T = []" by (simp add: right_spine_eq [of T])
  ultimately show ?case by (simp add: inorder_eq [of T])
next
  case (Suc h)
  let ?n = "length (bsubs T) - 1" and ?xs = "map inorder (bsubs T)"
  have n: "?n = length (bitems T)" "?n < length (bsubs T)" "bsubs T \<noteq> []" using Suc.prems by auto
  let ?S = "bsubs T ! ?n"
  have q: "right_spine T = ?n # right_spine ?S" using n(3) by (simp add: right_spine_eq [of T] last_conv_nth)
  have "bal h ?S" using Suc.prems n(2) by (simp add: list_all_length)
  from Suc.IH [OF this] obtain xs where S: "valid_path (right_spine ?S) ?S" "bsubs (path_sub (right_spine ?S) ?S) = []"
    "inorder ?S = xs @ bitems (path_sub (right_spine ?S) ?S)" "\<And>its. inorder (store_at (right_spine ?S) its ?S) = xs @ its"
    by blast
  have len: "length ?xs = length (bitems T) + 1" "length (bitems T) \<le> length (bitems T)" using Suc.prems by simp_all
  have w: "weave (bitems T) (?xs[?n := y]) = before_sub (bitems T) ?xs ?n @ y" for y
    using weave_update [OF len, of y] n(1) by (simp add: after_sub_def)
  have "inorder T = before_sub (bitems T) ?xs ?n @ inorder ?S"
    using w [of "inorder ?S"] n(2) by (simp add: inorder_eq [of T] list_update_same_conv [THEN iffD2])
  moreover have "inorder (store_at (right_spine T) its T) = before_sub (bitems T) ?xs ?n @ xs @ its" for its
    unfolding q using w [of "xs @ its"] S(4) by (simp add: set_sub_def map_update)
  ultimately show ?case using S(1-3) n(2) unfolding q by (intro conjI exI [of _ "before_sub (bitems T) ?xs ?n @ xs"]) simp_all
qed

lemma bal_sub: "bal h T \<Longrightarrow> i < length (bsubs T) \<Longrightarrow> \<exists>g. bal g (bsubs T ! i)"
  by (cases h) (auto simp: list_all_length)

text \<open>The path from a node to the leaf before its item \<open>j\<close>, and that leaf.\<close>

definition pred_path :: "nat \<Rightarrow> btree \<Rightarrow> nat list" where
  "pred_path j u = j # right_spine (bsubs u ! j)"

definition pull_up :: "nat \<Rightarrow> btree \<Rightarrow> btree" where
  "pull_up j u = (let l = bitems (path_sub (pred_path j u) u) in
     store_at (pred_path j u) (butlast l) (store_at [] ((bitems u)[j := last l]) u))"

lemma inorder_pull_up:
  assumes "bal h u" and "sorted_items (inorder u)" and "findKeyInNode (bcontent u) k = (True, j)"
    and "bsubs u \<noteq> []" and "bitems (path_sub (pred_path j u) u) \<noteq> []"
  shows "inorder (pull_up j u) = del_item k (inorder u)"
proof -
  note n = node_search_found [OF assms(1-3)]
  let ?xs = "map inorder (bsubs u)" and ?l = "bitems (path_sub (pred_path j u) u)" and ?as = "bitems u" and ?q = "right_spine (bsubs u ! j)"
  let ?R = "weave (drop (Suc j) ?as) (drop (Suc j) ?xs)"
  have len: "length (bsubs u) = length ?as + 1" using bal_cases [OF assms(1)] assms(4) by simp
  obtain g where "bal g (bsubs u ! j)" using bal_sub [OF assms(1)] n(1) len by fastforce
  from right_spine_tree [OF this] obtain X where X: "inorder (bsubs u ! j) = X @ ?l" "\<And>its. inorder (store_at ?q its (bsubs u ! j)) = X @ its"
    by (auto simp: pred_path_def)
  have j: "?xs ! j = X @ ?l" using n(1) len X(1) by simp
  have part: "length (take (Suc j) ?xs) = length (take j ?as) + 1" "j \<le> length (take j ?as)" using n(1) len by simp_all
  obtain B where B: "weave (take j ?as) ((take (Suc j) ?xs)[j := y]) = B @ y" for y
    using weave_update [OF part] part(2) by (fastforce simp: after_sub_def)
  have "(take (Suc j) ?xs)[j := X @ ?l] = take (Suc j) ?xs" using j n(1) len by (intro list_update_same_conv [THEN iffD2]) simp_all
  then have old: "inorder u = (B @ X @ ?l) @ ?as ! j # ?R" using n(3) B [of "X @ ?l"] by simp
  have "length (?xs[j := X @ butlast ?l]) = length (?as[j := last ?l]) + 1 \<or> ?xs[j := X @ butlast ?l] = []" using len by simp
  from weave_cut [OF _ this] n(1)
  have new: "weave (?as[j := last ?l]) (?xs[j := X @ butlast ?l]) = (B @ X @ butlast ?l) @ last ?l # ?R"
    using B [of "X @ butlast ?l"] by (simp add: take_update_swap take_update_cancel drop_update_cancel list_update_beyond)
  have "inorder (pull_up j u) = weave (?as[j := last ?l]) (?xs[j := X @ butlast ?l])"
    by (simp add: pull_up_def Let_def set_sub_def map_update X(2)) (simp add: pred_path_def set_sub_def map_update X(2))
  also have "\<dots> = (B @ X @ ?l) @ ?R" using new assms(5) by simp
  also have "\<dots> = del_item k (inorder u)"
    using del_item_mid [of "B @ X @ ?l" "?as ! j" ?R] assms(2) n(2) old by simp
  finally show ?thesis .
qed

section \<open>The tree after a removal\<close>

text \<open>
  The tree that removing \<open>k\<close> leaves, and the path from the root to the lowest node that has changed. It is \<open>None\<close> when the key is
  missing, when the leaf before it has no item, and when the code would not find that leaf: it takes the index of the last child of
  the node it starts from at every level, whatever the number of children there.
\<close>

definition remove_plan :: "btree \<Rightarrow> bytes \<Rightarrow> (btree \<times> nat list) option" where
  "remove_plan T k = (case search T k of (f, j, u, path) \<Rightarrow>
     if \<not> f then None
     else if bsubs u = [] then Some (store_at path (delete_at j (bitems u)) T, path)
     else let l = bitems (path_sub (pred_path j u) u) in
       if list_all (\<lambda>i. i = length (bsubs u) - 1) (tl (pred_path j u)) \<and> l \<noteq> []
       then Some (store_at (path @ pred_path j u) (butlast l) (store_at path ((bitems u)[j := last l]) T), path @ pred_path j u)
       else None)"

text \<open>The two cases, with the nodes they change.\<close>

lemma remove_plan_cases:
  assumes b: "bal h T" and so: "sorted_items (inorder T)" and rp: "remove_plan T k = Some (T', path')"
  obtains (leaf) j u path where "search T k = (True, j, u, path)" and "valid_path path T" and "path_sub path T = u" and "j < length (bitems u)"
      and "bsubs u = []" and "T' = store_at path (delete_at j (bitems u)) T" and "path' = path"
    | (inner) j u path q v where "search T k = (True, j, u, path)" and "valid_path path T" and "path_sub path T = u" and "j < length (bitems u)"
      and "j < length (bsubs u)" and "pred_path j u = j # q" and "q = right_spine (bsubs u ! j)" and "valid_path (j # q) u"
      and "path_sub (j # q) u = v" and "bsubs v = []" and "bitems v \<noteq> []" and "list_all (\<lambda>i. i = length (bsubs u) - 1) q"
      and "T' = store_at (path @ j # q) (butlast (bitems v)) (store_at path ((bitems u)[j := last (bitems v)]) T)" and "path' = path @ j # q"
proof -
  obtain f j u path where s0: "search T k = (f, j, u, path)" by (rule prod_cases4)
  have "f" using rp s0 by (auto simp: remove_plan_def split: if_split_asm)
  then have s: "search T k = (True, j, u, path)" using s0 by simp
  have v: "valid_path path T" "path_sub path T = u" "j < length (bitems u)" using search_path [OF b so s] by simp_all
  show thesis
  proof (cases "bsubs u = []")
    case True
    then have "T' = store_at path (delete_at j (bitems u)) T" "path' = path" using rp s by (auto simp: remove_plan_def)
    then show thesis by (rule leaf [OF s v True])
  next
    case False
    obtain h' where u: "bal h' u" by (rule search_found_node [OF b so s])
    then have ju: "j < length (bsubs u)" using bal_cases False v(3) by fastforce
    obtain g where "bal g (bsubs u ! j)" using bal_sub [OF u ju] by blast
    from right_spine_tree [OF this] have r: "valid_path (pred_path j u) u" "bsubs (path_sub (pred_path j u) u) = []"
      using ju by (simp_all add: pred_path_def)
    have p: "pred_path j u = j # right_spine (bsubs u ! j)" by (simp add: pred_path_def)
    show thesis
      by (rule inner [OF s v ju p refl _ refl]) (use r rp s False p in \<open>auto simp: remove_plan_def Let_def split: if_split_asm\<close>)
  qed
qed

lemma remove_plan_inorder:
  assumes "bal h T" and "sorted_items (inorder T)" and "remove_plan T k = Some (T', path')"
  shows "inorder T' = del_item k (inorder T)"
  using assms
proof (cases rule: remove_plan_cases)
  case (leaf j u path)
  obtain h' where n: "bal h' u" "sorted_items (inorder u)" "findKeyInNode (bcontent u) k = (True, j)"
    and r: "\<forall>U. inorder U = del_item k (inorder u) \<longrightarrow> inorder (replace_at path U T) = del_item k (inorder T)"
    by (rule search_found_node [OF assms(1,2) leaf(1)])
  have "T' = replace_at path (store_at [] (delete_at j (bitems u)) u) T"
    using leaf store_at_replace [of path "[]"] by simp
  then show ?thesis using r inorder_delete_leaf [OF n leaf(5)] by simp
next
  case (inner j u path q v)
  obtain h' where n: "bal h' u" "sorted_items (inorder u)" "findKeyInNode (bcontent u) k = (True, j)"
    and r: "\<forall>U. inorder U = del_item k (inorder u) \<longrightarrow> inorder (replace_at path U T) = del_item k (inorder T)"
    by (rule search_found_node [OF assms(1,2) inner(1)])
  have "T' = replace_at path (store_at (j # q) (butlast (bitems v)) (store_at [] ((bitems u)[j := last (bitems v)]) u)) T"
    unfolding inner(13) store_at_replace [of path "j # q"] path_sub_store [OF inner(2)]
    using store_at_replace [of path "[]"] inner(2,3) by simp
  also have "\<dots> = replace_at path (pull_up j u) T" using inner(6,9) by (simp add: pull_up_def Let_def)
  finally show ?thesis using r inorder_pull_up [OF n] inner(5,6,9,11) by fastforce
qed

lemma remove_plan_shape:
  assumes "bal h T" and "sorted_items (inorder T)" and "remove_plan T k = Some (T', path')"
  shows "bal h T'" and "bpage T' = bpage T" and "page_list T' = page_list T" and "valid_path path' T'" and "path' = [] \<longrightarrow> bsubs T = []"
proof -
  have "bal h T' \<and> bpage T' = bpage T \<and> page_list T' = page_list T \<and> valid_path path' T' \<and> (path' = [] \<longrightarrow> bsubs T = [])"
    using assms
  proof (cases rule: remove_plan_cases)
    case (leaf j u path)
    have "bal h (store_at path (delete_at j (bitems u)) T)" using bal_store_at [OF assms(1) leaf(2)] leaf(3,5) by simp
    then show ?thesis using leaf by auto
  next
    case (inner j u path q v)
    let ?T1 = "store_at path ((bitems u)[j := last (bitems v)]) T"
    have b1: "bal h ?T1" using bal_store_at [OF assms(1) inner(2)] inner(3) by simp
    have p: "valid_path (path @ j # q) ?T1" "path_sub (path @ j # q) ?T1 = v"
      using inner(2,3,8,9) by (simp_all add: valid_path_append path_sub_append path_sub_store)
    then show ?thesis using bal_store_at [OF b1 p(1)] inner(10,13,14) by simp
  qed
  then show "bal h T'" "bpage T' = bpage T" "page_list T' = page_list T" "valid_path path' T'" "path' = [] \<longrightarrow> bsubs T = []" by simp_all
qed

text \<open>
  No node below the root on the path is under-populated, so that nothing is rebalanced, and the root keeps an item or is a leaf. An
  item that moves up must not make its node too large: \<open>Remove\<close> never splits.
\<close>

fun calm_path :: "dal \<Rightarrow> nat list \<Rightarrow> btree \<Rightarrow> bool" where
  "calm_path d [] T = True"
| "calm_path d (i # rest) T = (\<not> isUnderPopulated d (bcontent (bsubs T ! i)) \<and> calm_path d rest (bsubs T ! i))"

definition calm :: "dal \<Rightarrow> nat list \<Rightarrow> btree \<Rightarrow> bool" where
  "calm d path T \<longleftrightarrow> calm_path d path T \<and> (bitems T = [] \<longrightarrow> bsubs T = [])"

definition from_leaf :: "btree \<Rightarrow> bytes \<Rightarrow> bool" where
  "from_leaf T k = (case search T k of (_, _, u, _) \<Rightarrow> bsubs u = [])"

definition remove_ok :: "dal \<Rightarrow> rat \<Rightarrow> btree \<Rightarrow> bytes \<Rightarrow> bool" where
  "remove_ok d b T k = (case remove_plan T k of None \<Rightarrow> False
     | Some (T', path) \<Rightarrow> calm d path T' \<and> (from_leaf T k \<or> tree_fits b 0 T'))"

text \<open>A leaf that loses an item still fits.\<close>

lemma tree_fits_store:
  assumes "tree_fits b 0 T" and "valid_path path T" and "node_fits b 0 \<lparr>n_items = its, n_children = map bpage (bsubs (path_sub path T))\<rparr>"
  shows "tree_fits b 0 (store_at path its T)"
  using assms unfolding tree_fits_0
proof (induction path arbitrary: T)
  case Nil
  then show ?case by (simp add: all_nodes_iff [of _ T] all_nodes_iff [of _ "BNode _ _ _"] bcontent_def)
next
  case (Cons i rest)
  have i: "i < length (bsubs T)" using Cons.prems(2) by simp
  have a: "node_fits b 0 (bcontent T)" "list_all (all_nodes (node_fits b 0)) (bsubs T)"
    using Cons.prems(1) all_nodes_iff [of _ T] by simp_all
  have "all_nodes (node_fits b 0) (store_at rest its (bsubs T ! i))"
    using Cons i a(2) by (simp add: list_all_length)
  then show ?case
    using a i bcontent_set_sub [OF i, of "store_at rest its (bsubs T ! i)"] all_nodes_iff [of _ "set_sub i _ T"]
    by (simp add: list_all_update)
qed

lemma esum_delete_at: "esum (delete_at i xs) \<le> esum xs"
proof -
  have "esum xs = esum (take i xs) + esum (drop i xs)" by (metis append_take_drop_id esum_simps(3))
  moreover have "esum (tl (drop i xs)) \<le> esum (drop i xs)" by (cases "drop i xs") simp_all
  ultimately show ?thesis by (simp add: delete_at_def drop_Suc tl_drop)
qed

lemma small_delete_at: "small_items xs \<Longrightarrow> small_items (delete_at i xs)"
  by (auto simp: small_items_def delete_at_def list_all_iff dest: in_set_takeD in_set_dropD)

lemma node_fits_delete:
  assumes "node_fits b x c"
  shows "node_fits b x \<lparr>n_items = delete_at i (n_items c), n_children = cs\<rparr>"
proof -
  have "(of_nat (esum (delete_at i (n_items c))) :: rat) \<le> of_nat (esum (n_items c))" using esum_delete_at by (simp only: of_nat_le_iff)
  then show ?thesis using assms by (simp add: node_fits_def nodeSize_esum small_delete_at)
qed

lemma remove_ok_fits:
  assumes "bal h T" and "sorted_items (inorder T)" and "tree_fits b 0 T" and "remove_ok d b T k" and "remove_plan T k = Some (T', path)"
  shows "tree_fits b 0 T'"
proof (cases "from_leaf T k")
  case False
  then show ?thesis using assms(4,5) by (simp add: remove_ok_def)
next
  case True
  obtain j u p where v: "valid_path p T" "path_sub p T = u" and T': "T' = store_at p (delete_at j (bitems u)) T"
    using assms(1,2,5)
  proof (cases rule: remove_plan_cases)
    case (inner j u path q v)
    then show thesis using True by (simp add: from_leaf_def)
  qed
  have "node_fits b 0 (bcontent u)" using path_sub_fits [OF assms(3) v(1)] v(2) by (simp add: tree_fits_def)
  then show ?thesis unfolding T' using node_fits_delete [of b 0 "bcontent u" j] v(2) by (intro tree_fits_store [OF assms(3) v(1)]) simp
qed

end
