(* ===== verification/Tree_Rebalance.thy ===== *)
theory Tree_Rebalance
  imports Tree_Delete
begin

text \<open>
  Rotations and merges on trees of pages. Two neighbouring children and the item between them are replaced: the items in
  order, the balance and, but for the page that a merge gives up, the pages stay the same.
\<close>

section \<open>Two neighbours in a weave\<close>

lemma weave_pair:
  assumes "length xs = length as + 1" and "k < length as"
  shows "weave as xs = before_sub as xs k @ (xs ! k @ as ! k # xs ! Suc k) @ after_sub as xs (Suc k)"
proof -
  have "after_sub as xs k = as ! k # xs ! Suc k @ after_sub as xs (Suc k)"
    using assms Cons_nth_drop_Suc [of k as] Cons_nth_drop_Suc [of "Suc k" xs] by (simp add: after_sub_def flip: Cons_nth_drop_Suc)
  then show ?thesis using weave_at_sub [OF assms(1), of k] assms(2) by simp
qed

lemma weave_pair_update:
  assumes "length xs = length as + 1" and "k < length as"
  shows "weave (as[k := s]) (xs[k := y, Suc k := z]) = before_sub as xs k @ (y @ s # z) @ after_sub as xs (Suc k)"
proof -
  have "before_sub (as[k := s]) (xs[k := y, Suc k := z]) k = before_sub as xs k"
    "after_sub (as[k := s]) (xs[k := y, Suc k := z]) (Suc k) = after_sub as xs (Suc k)"
    by (simp_all add: before_sub_def after_sub_def)
  then show ?thesis using weave_pair [of "xs[k := y, Suc k := z]" "as[k := s]" k] assms by simp
qed

lemma weave_pair_merge:
  assumes "length xs = length as + 1" and "k < length as"
  shows "weave (delete_at k as) (delete_at (Suc k) (xs[k := y])) = before_sub as xs k @ y @ after_sub as xs (Suc k)"
proof -
  let ?as = "delete_at k as" and ?xs = "delete_at (Suc k) (xs[k := y])"
  have len: "length ?xs = length ?as + 1" "k \<le> length ?as" using assms by simp_all
  have x: "?xs = take k xs @ y # drop (Suc (Suc k)) xs"
    using assms by (simp add: delete_at_def take_Suc_conv_app_nth)
  have "before_sub ?as ?xs k = before_sub as xs k" "after_sub ?as ?xs k = after_sub as xs (Suc k)" "?xs ! k = y"
    using assms unfolding x by (simp_all add: before_sub_def after_sub_def delete_at_def nth_append)
  then show ?thesis using weave_at_sub [OF len] by simp
qed

lemma weave_append:
  assumes "length xs = length as + 1"
  shows "weave (as @ s # bs) (xs @ ys) = weave as xs @ s # weave bs ys"
  using assms by (induction as xs rule: weave.induct) auto

section \<open>Rotations and merges\<close>

text \<open>Child \<open>k\<close>, the item after it and the next child; a leaf has no child to move.\<close>

definition take_last :: "btree \<Rightarrow> btree" where
  "take_last A = BNode (bpage A) (butlast (bitems A)) (butlast (bsubs A))"

definition put_first :: "item \<Rightarrow> btree \<Rightarrow> btree \<Rightarrow> btree" where
  "put_first s A B = BNode (bpage B) (s # bitems B) (if bsubs A = [] then bsubs B else last (bsubs A) # bsubs B)"

definition put_last :: "item \<Rightarrow> btree \<Rightarrow> btree \<Rightarrow> btree" where
  "put_last s A B = BNode (bpage A) (bitems A @ [s]) (if bsubs B = [] then bsubs A else bsubs A @ [hd (bsubs B)])"

definition take_first :: "btree \<Rightarrow> btree" where
  "take_first B = BNode (bpage B) (tl (bitems B)) (tl (bsubs B))"

definition join :: "item \<Rightarrow> btree \<Rightarrow> btree \<Rightarrow> btree" where
  "join s A B = BNode (bpage A) (bitems A @ s # bitems B) (if bsubs A = [] then bsubs A else bsubs A @ bsubs B)"

definition set_pair :: "nat \<Rightarrow> item \<Rightarrow> btree \<Rightarrow> btree \<Rightarrow> btree \<Rightarrow> btree" where
  "set_pair k s A B T = BNode (bpage T) ((bitems T)[k := s]) ((bsubs T)[k := A, Suc k := B])"

definition rot_right :: "nat \<Rightarrow> btree \<Rightarrow> btree" where
  "rot_right k T = (let A = bsubs T ! k; B = bsubs T ! Suc k in
     set_pair k (last (bitems A)) (take_last A) (put_first (bitems T ! k) A B) T)"

definition rot_left :: "nat \<Rightarrow> btree \<Rightarrow> btree" where
  "rot_left k T = (let A = bsubs T ! k; B = bsubs T ! Suc k in
     set_pair k (hd (bitems B)) (put_last (bitems T ! k) A B) (take_first B) T)"

definition merge_sub :: "nat \<Rightarrow> btree \<Rightarrow> btree" where
  "merge_sub k T = BNode (bpage T) (delete_at k (bitems T))
     (delete_at (Suc k) ((bsubs T)[k := join (bitems T ! k) (bsubs T ! k) (bsubs T ! Suc k)]))"

lemma bpage_rebalance [simp]:
  "bpage (take_last A) = bpage A" "bpage (put_first s A B) = bpage B" "bpage (put_last s A B) = bpage A"
  "bpage (take_first B) = bpage B" "bpage (join s A B) = bpage A" "bpage (set_pair k s A B T) = bpage T"
  "bpage (rot_right k T) = bpage T" "bpage (rot_left k T) = bpage T" "bpage (merge_sub k T) = bpage T"
  by (simp_all add: take_last_def put_first_def put_last_def take_first_def join_def set_pair_def rot_right_def rot_left_def
      merge_sub_def Let_def)

text \<open>The items in order.\<close>

lemma inorder_take_last_put_first:
  assumes "bal h A" and "bal h B" and "bitems A \<noteq> []"
  shows "inorder (take_last A) @ last (bitems A) # inorder (put_first s A B) = inorder A @ s # inorder B"
proof (cases "bsubs A = []")
  case True
  then have "bsubs B = []" using assms(1,2) by (cases h) auto
  then show ?thesis using True assms(3) by (simp add: take_last_def put_first_def inorder_eq [of A] inorder_eq [of B])
next
  case False
  let ?xs = "map inorder (bsubs A)"
  have len: "length (butlast ?xs) = length (butlast (bitems A)) + 1" using bal_cases [OF assms(1)] False assms(3) by simp
  have "bitems A = butlast (bitems A) @ [last (bitems A)]" "?xs = butlast ?xs @ [last ?xs]" using False assms(3) by simp_all
  then have "inorder A = weave (butlast (bitems A)) (butlast ?xs) @ last (bitems A) # weave [] [last ?xs]"
    using weave_append [OF len, of "last (bitems A)" "[]" "[last ?xs]"] by (simp add: inorder_eq [of A])
  moreover have "inorder (put_first s A B) = last ?xs @ s # inorder B"
    using False by (simp add: put_first_def inorder_eq [of B] last_map)
  ultimately show ?thesis by (simp add: take_last_def map_butlast)
qed

lemma inorder_put_last_take_first:
  assumes "bal h A" and "bal h B" and "bitems B \<noteq> []"
  shows "inorder (put_last s A B) @ hd (bitems B) # inorder (take_first B) = inorder A @ s # inorder B"
proof (cases "bsubs B = []")
  case True
  then have "bsubs A = []" using assms(1,2) by (cases h) auto
  then show ?thesis using True assms(3) by (simp add: put_last_def take_first_def inorder_eq [of A] inorder_eq [of B])
next
  case False
  then have nA: "bsubs A \<noteq> []" using assms(1,2) by (cases h) auto
  have "length (map inorder (bsubs A)) = length (bitems A) + 1" using bal_cases [OF assms(1)] nA by simp
  from weave_append [OF this, of s "[]" "[inorder (hd (bsubs B))]"]
  have 1: "inorder (put_last s A B) = inorder A @ s # inorder (hd (bsubs B))" using False by (simp add: put_last_def inorder_eq [of A])
  obtain b bs where b: "bitems B = b # bs" using assms(3) by (cases "bitems B") auto
  obtain x xs where x: "bsubs B = x # xs" using False by (cases "bsubs B") auto
  have "inorder B = inorder x @ b # inorder (take_first B)" by (simp add: inorder_eq [of B] take_first_def b x)
  then show ?thesis using 1 b x by simp
qed

lemma inorder_join:
  assumes "bal h A" and "bal h B"
  shows "inorder (join s A B) = inorder A @ s # inorder B"
proof (cases "bsubs A = []")
  case True
  then have "bsubs B = []" using assms by (cases h) auto
  then show ?thesis using True by (simp add: join_def inorder_eq [of A] inorder_eq [of B])
next
  case False
  have "length (map inorder (bsubs A)) = length (bitems A) + 1" using bal_cases [OF assms(1)] False by simp
  from weave_append [OF this] show ?thesis using False by (simp add: join_def inorder_eq [of A] inorder_eq [of B])
qed

lemma bal_child: "bal (Suc h) T \<Longrightarrow> k < length (bsubs T) \<Longrightarrow> bal h (bsubs T ! k)"
  by (simp add: list_all_length)

lemma inorder_set_pair:
  assumes "length (bsubs T) = length (bitems T) + 1" and "k < length (bitems T)"
    and "inorder A @ s # inorder B = inorder (bsubs T ! k) @ bitems T ! k # inorder (bsubs T ! Suc k)"
  shows "inorder (set_pair k s A B T) = inorder T"
  using weave_pair_update [of "map inorder (bsubs T)" "bitems T" k s "inorder A" "inorder B"]
    weave_pair [of "map inorder (bsubs T)" "bitems T" k] assms by (simp add: set_pair_def map_update inorder_eq [of T])

lemma inorder_rebalance:
  assumes "bal (Suc h) T" and "k < length (bitems T)"
  shows "bitems (bsubs T ! k) \<noteq> [] \<Longrightarrow> inorder (rot_right k T) = inorder T"
    and "bitems (bsubs T ! Suc k) \<noteq> [] \<Longrightarrow> inorder (rot_left k T) = inorder T"
    and "inorder (merge_sub k T) = inorder T"
proof -
  have len: "length (bsubs T) = length (bitems T) + 1" using assms(1) by simp
  then have b: "bal h (bsubs T ! k)" "bal h (bsubs T ! Suc k)" using bal_child [OF assms(1)] assms(2) by simp_all
  show "inorder (rot_right k T) = inorder T" if "bitems (bsubs T ! k) \<noteq> []"
    unfolding rot_right_def Let_def by (rule inorder_set_pair [OF len assms(2) inorder_take_last_put_first [OF b that]])
  show "inorder (rot_left k T) = inorder T" if "bitems (bsubs T ! Suc k) \<noteq> []"
    unfolding rot_left_def Let_def by (rule inorder_set_pair [OF len assms(2) inorder_put_last_take_first [OF b that]])
  have "inorder (merge_sub k T) = weave (delete_at k (bitems T)) (delete_at (Suc k)
      ((map inorder (bsubs T))[k := inorder (join (bitems T ! k) (bsubs T ! k) (bsubs T ! Suc k))]))"
    by (simp add: merge_sub_def delete_at_def map_update flip: take_map drop_map)
  also have "\<dots> = inorder T"
    unfolding inorder_join [OF b] using weave_pair_merge [of "map inorder (bsubs T)" "bitems T" k]
      weave_pair [of "map inorder (bsubs T)" "bitems T" k] len assms(2) by (simp add: inorder_eq [of T])
  finally show "inorder (merge_sub k T) = inorder T" .
qed

text \<open>The balance.\<close>

lemma bal_set_pair:
  assumes "bal (Suc h) T" and "bal h A" and "bal h B"
  shows "bal (Suc h) (set_pair k s A B T)"
  using assms by (simp add: set_pair_def list_all_update)

lemma list_all_delete_at: "list_all P xs \<Longrightarrow> list_all P (delete_at i xs)"
  by (auto simp: delete_at_def list_all_iff dest: in_set_takeD in_set_dropD)

lemma bal_rebalance:
  assumes "bal (Suc h) T" and "k < length (bitems T)"
  shows "bitems (bsubs T ! k) \<noteq> [] \<Longrightarrow> bal (Suc h) (rot_right k T)"
    and "bitems (bsubs T ! Suc k) \<noteq> [] \<Longrightarrow> bal (Suc h) (rot_left k T)"
    and "bal (Suc h) (merge_sub k T)"
proof -
  let ?A = "bsubs T ! k" and ?B = "bsubs T ! Suc k"
  have len: "length (bsubs T) = length (bitems T) + 1" using assms(1) by simp
  then have b: "bal h ?A" "bal h ?B" using bal_child [OF assms(1)] assms(2) by simp_all
  have sub: "list_all P (butlast xs)" "list_all P (tl xs)" if "list_all P xs" for P :: "btree \<Rightarrow> bool" and xs
    using that by (auto simp: list_all_iff dest: in_set_butlastD) (cases xs, auto)
  have ends: "P (last xs)" "P (hd xs)" if "list_all P xs" "xs \<noteq> []" for P :: "btree \<Rightarrow> bool" and xs
    using that by (auto simp: list_all_iff)
  show "bal (Suc h) (rot_right k T)" if "bitems ?A \<noteq> []"
    unfolding rot_right_def Let_def
    by (rule bal_set_pair [OF assms(1)]; use b that in \<open>cases h\<close>) (auto simp: take_last_def put_first_def sub ends)
  show "bal (Suc h) (rot_left k T)" if "bitems ?B \<noteq> []"
    unfolding rot_left_def Let_def
    by (rule bal_set_pair [OF assms(1)]; use b that in \<open>cases h\<close>) (auto simp: take_first_def put_last_def sub ends)
  have "bal h (join (bitems T ! k) ?A ?B)" using b by (cases h) (auto simp: join_def)
  then have "list_all (bal h) ((bsubs T)[k := join (bitems T ! k) ?A ?B])" using assms(1) by (simp add: list_all_update)
  then have "list_all (bal h) (delete_at (Suc k) ((bsubs T)[k := join (bitems T ! k) ?A ?B]))" by (rule list_all_delete_at)
  then show "bal (Suc h) (merge_sub k T)" using len assms(2) by (simp add: merge_sub_def)
qed

text \<open>The pages.\<close>

abbreviation pages_of :: "btree list \<Rightarrow> pgnum multiset" where
  "pages_of xs \<equiv> \<Sum>s \<in># mset xs. pages_mset s"

lemma pages_mset_node: "pages_mset T = add_mset (bpage T) (pages_of (bsubs T))"
  by (cases T) (simp add: pages_mset_eq)

lemma list_pair:
  "Suc k < length xs \<Longrightarrow> xs[k := a, Suc k := b] = take k xs @ a # b # drop (Suc (Suc k)) xs"
  "Suc k < length xs \<Longrightarrow> xs = take k xs @ xs ! k # xs ! Suc k # drop (Suc (Suc k)) xs"
proof (induction xs arbitrary: k)
  case (Cons x xs)
  {
    case 1
    then show ?case using Cons.IH(1) by (cases k; cases xs) auto
  next
    case 2
    then show ?case using Cons.IH(2) by (cases k; cases xs) auto
  }
qed simp_all

lemma pages_set_pair:
  assumes "Suc k < length (bsubs T)" and "pages_mset A + pages_mset B = pages_mset (bsubs T ! k) + pages_mset (bsubs T ! Suc k)"
  shows "pages_mset (set_pair k s A B T) = pages_mset T"
proof -
  let ?xs = "bsubs T"
  note list_pair(1) [OF assms(1), of A B]
  then have "pages_of (?xs[k := A, Suc k := B]) = pages_of (take k ?xs) + (pages_mset A + pages_mset B) + pages_of (drop (Suc (Suc k)) ?xs)"
    by (simp add: ac_simps)
  also have "\<dots> = pages_of (take k ?xs @ ?xs ! k # ?xs ! Suc k # drop (Suc (Suc k)) ?xs)" by (simp add: assms(2) ac_simps)
  also have "\<dots> = pages_of ?xs" by (simp only: list_pair(2) [OF assms(1), symmetric])
  finally show ?thesis by (simp add: set_pair_def pages_mset_node [of T] pages_mset_node [of "BNode _ _ _"])
qed

lemma pages_butlast: "xs \<noteq> [] \<Longrightarrow> pages_of (butlast xs) + pages_mset (last xs) = pages_of xs"
  by (subst (3) append_butlast_last_id [symmetric]) (simp_all del: append_butlast_last_id)

lemma pages_rebalance:
  assumes "bal (Suc h) T" and "k < length (bitems T)"
  shows "pages_mset (rot_right k T) = pages_mset T" and "pages_mset (rot_left k T) = pages_mset T"
    and "add_mset (bpage (bsubs T ! Suc k)) (pages_mset (merge_sub k T)) = pages_mset T"
proof -
  let ?A = "bsubs T ! k" and ?B = "bsubs T ! Suc k" and ?s = "bitems T ! k"
  have len: "Suc k < length (bsubs T)" "length (bsubs T) = length (bitems T) + 1" using assms by simp_all
  have "bal h ?A" "bal h ?B" using bal_child [OF assms(1)] len(1) by simp_all
  then have same: "bsubs ?A = [] \<longleftrightarrow> bsubs ?B = []" by (cases h) auto
  show "pages_mset (rot_right k T) = pages_mset T"
    unfolding rot_right_def Let_def
    by (rule pages_set_pair [OF len(1)])
      (use pages_butlast [of "bsubs ?A"] in \<open>auto simp: pages_mset_node [of ?A] pages_mset_node [of ?B] pages_mset_node [of "BNode _ _ _"]
        take_last_def put_first_def ac_simps\<close>)
  have "pages_of (tl xs) + pages_mset (hd xs) = pages_of xs" if "xs \<noteq> []" for xs using that by (cases xs) simp_all
  then show "pages_mset (rot_left k T) = pages_mset T"
    unfolding rot_left_def Let_def
    by (intro pages_set_pair [OF len(1)]) (auto simp: pages_mset_node [of ?A] pages_mset_node [of ?B] pages_mset_node [of "BNode _ _ _"]
        take_first_def put_last_def ac_simps)
  let ?xs = "bsubs T" and ?J = "join ?s ?A ?B"
  have J: "add_mset (bpage ?B) (pages_mset ?J) = pages_mset ?A + pages_mset ?B"
    using same by (simp add: pages_mset_node [of ?A] pages_mset_node [of ?B] pages_mset_node [of "BNode _ _ _"] join_def)
  have "delete_at (Suc k) (?xs[k := ?J]) = take k ?xs @ ?J # drop (Suc (Suc k)) ?xs"
    using len(1) by (simp add: delete_at_def take_Suc_conv_app_nth)
  then have "add_mset (bpage ?B) (pages_of (delete_at (Suc k) (?xs[k := ?J])))
      = pages_of (take k ?xs) + add_mset (bpage ?B) (pages_mset ?J) + pages_of (drop (Suc (Suc k)) ?xs)"
    by (simp add: ac_simps)
  also have "\<dots> = pages_of (take k ?xs @ ?A # ?B # drop (Suc (Suc k)) ?xs)" by (simp add: J ac_simps)
  also have "\<dots> = pages_of ?xs" by (simp only: list_pair(2) [OF len(1), symmetric])
  finally show "add_mset (bpage ?B) (pages_mset (merge_sub k T)) = pages_mset T"
    by (simp add: merge_sub_def pages_mset_node [of T] pages_mset_node [of "BNode _ _ _"])
qed

section \<open>The pages hold the new tree\<close>

text \<open>Only the node itself and the two children have other contents.\<close>

lemma tree_at_pair:
  assumes at: "tree_at v T" and dist: "distinct (page_list T)" and k: "Suc k < length (bsubs T)" and w: "w (bpage T') = Some (bcontent T')"
    and other: "\<And>q. q \<noteq> bpage T \<Longrightarrow> q \<noteq> bpage (bsubs T ! k) \<Longrightarrow> q \<noteq> bpage (bsubs T ! Suc k) \<Longrightarrow> w q = v q"
    and subs: "\<And>S. S \<in> set (bsubs T') \<Longrightarrow> (\<exists>j < length (bsubs T). j \<noteq> k \<and> j \<noteq> Suc k \<and> S = bsubs T ! j)
      \<or> w (bpage S) = Some (bcontent S) \<and> set (bsubs S) \<subseteq> set (bsubs (bsubs T ! k)) \<union> set (bsubs (bsubs T ! Suc k))"
  shows "tree_at w T'"
proof -
  let ?A = "bsubs T ! k" and ?B = "bsubs T ! Suc k"
  have k': "k < length (bsubs T)" using k by simp
  note dA = distinct_sub_pages [OF dist k'] and dB = distinct_sub_pages [OF dist k]
  have pA: "bpage ?A \<in> set (page_list ?A)" "bpage ?B \<in> set (page_list ?B)" by (simp_all add: page_list_eq [of ?A] page_list_eq [of ?B])
  have AB: "set (page_list ?A) \<inter> set (page_list ?B) = {}" using dB(4) [OF k'] by simp
  have sub: "tree_at w S" if XAB: "X = ?A \<or> X = ?B" and SX: "S \<in> set (bsubs X)" for X S
  proof -
    obtain l where l: "l < length (bsubs X)" "S = bsubs X ! l" using SX by (auto simp: in_set_conv_nth)
    have X: "tree_at v X" "distinct (page_list X)" "bpage T \<notin> set (page_list X)"
      using XAB tree_at_child(1) [OF at] k k' dA(1,2) dB(1,2) by auto
    note dl = distinct_sub_pages [OF X(2) l(1)]
    have fr: "w q = v q" if q: "q \<in> set (page_list S)" for q
    proof (rule other)
      have "q \<in> set (page_list X)" "q \<noteq> bpage X" using q dl(2,3) l(2) by auto
      then show "q \<noteq> bpage T" "q \<noteq> bpage ?A" "q \<noteq> bpage ?B"
        using X(3) XAB AB pA by auto
    qed
    have "tree_at v S" using tree_at_child(1) [OF X(1) l(1)] l(2) by simp
    then show ?thesis by (rule tree_at_frame) (rule fr)
  qed
  have "tree_at w S" if S: "S \<in> set (bsubs T')" for S
    using subs [OF S]
  proof
    assume "\<exists>j < length (bsubs T). j \<noteq> k \<and> j \<noteq> Suc k \<and> S = bsubs T ! j"
    then obtain j where j: "j < length (bsubs T)" "j \<noteq> k" "j \<noteq> Suc k" "S = bsubs T ! j" by blast
    note dj = distinct_sub_pages [OF dist j(1)]
    have "set (page_list ?A) \<inter> set (page_list S) = {}" "set (page_list ?B) \<inter> set (page_list S) = {}" "bpage T \<notin> set (page_list S)"
      using dj(2) dj(4) [OF k'] dj(4) [OF k] j by simp_all
    then have "bpage ?A \<notin> set (page_list S)" "bpage ?B \<notin> set (page_list S)" "bpage T \<notin> set (page_list S)" using pA by blast+
    then have fr: "w q = v q" if "q \<in> set (page_list S)" for q using that other [of q] by metis
    have "tree_at v S" using tree_at_child(1) [OF at j(1)] j(4) by simp
    then show ?thesis by (rule tree_at_frame) (rule fr)
  next
    assume "w (bpage S) = Some (bcontent S) \<and> set (bsubs S) \<subseteq> set (bsubs ?A) \<union> set (bsubs ?B)"
    moreover have "\<forall>x \<in> set (bsubs ?A) \<union> set (bsubs ?B). tree_at w x" using sub by blast
    ultimately show ?thesis unfolding tree_at_iff [of w S] list_all_iff by blast
  qed
  then show ?thesis using w by (simp add: tree_at_iff [of w T'] list_all_iff)
qed

lemma in_set_pair: "S \<in> set (xs[k := a, Suc k := b]) \<Longrightarrow> Suc k < length xs \<Longrightarrow>
    S = a \<or> S = b \<or> (\<exists>j < length xs. j \<noteq> k \<and> j \<noteq> Suc k \<and> S = xs ! j)"
  by (auto simp: in_set_conv_nth nth_list_update split: if_split_asm)

lemma in_set_merged:
  assumes "S \<in> set (delete_at (Suc k) (xs[k := a]))" and "Suc k < length xs"
  shows "S = a \<or> (\<exists>j < length xs. j \<noteq> k \<and> j \<noteq> Suc k \<and> S = xs ! j)"
proof -
  have "delete_at (Suc k) (xs[k := a]) = take k xs @ a # drop (Suc (Suc k)) xs"
    using assms(2) by (simp add: delete_at_def take_Suc_conv_app_nth)
  then consider "S = a" | "S \<in> set (take k xs)" | "S \<in> set (drop (Suc (Suc k)) xs)" using assms(1) by auto
  then show ?thesis
  proof cases
    case 2
    then obtain j where "j < k" "S = xs ! j" using assms(2) by (auto simp: in_set_conv_nth)
    then show ?thesis using assms(2) by (intro disjI2 exI [of _ j]) simp
  next
    case 3
    then obtain j where "j < length xs - Suc (Suc k)" "S = xs ! (Suc (Suc k) + j)" by (auto simp: in_set_conv_nth)
    then show ?thesis by (intro disjI2 exI [of _ "Suc (Suc k) + j"]) simp
  qed simp
qed

lemma tree_at_set_pair:
  assumes "tree_at v T" and "distinct (page_list T)" and "Suc k < length (bsubs T)"
    and "bpage A = bpage (bsubs T ! k)" and "bpage B = bpage (bsubs T ! Suc k)"
    and "set (bsubs A) \<subseteq> set (bsubs (bsubs T ! k)) \<union> set (bsubs (bsubs T ! Suc k))"
    and "set (bsubs B) \<subseteq> set (bsubs (bsubs T ! k)) \<union> set (bsubs (bsubs T ! Suc k))"
    and "w = v(bpage T \<mapsto> bcontent (set_pair k s A B T), bpage A \<mapsto> bcontent A, bpage B \<mapsto> bcontent B)"
  shows "tree_at w (set_pair k s A B T)"
proof -
  let ?A = "bsubs T ! k" and ?B = "bsubs T ! Suc k"
  have k': "k < length (bsubs T)" using assms(3) by simp
  note dA = distinct_sub_pages [OF assms(2) k'] and dB = distinct_sub_pages [OF assms(2,3)]
  have p: "bpage ?A \<in> set (page_list ?A)" "bpage ?B \<in> set (page_list ?B)" by (simp_all add: page_list_eq [of ?A] page_list_eq [of ?B])
  then have ne: "bpage T \<noteq> bpage ?A" "bpage T \<noteq> bpage ?B" "bpage ?A \<noteq> bpage ?B"
    using dA(2) dB(2) dB(4) [OF k'] by auto
  show ?thesis
  proof (rule tree_at_pair [OF assms(1-3)])
    fix S assume "S \<in> set (bsubs (set_pair k s A B T))"
    then have "S = A \<or> S = B \<or> (\<exists>j < length (bsubs T). j \<noteq> k \<and> j \<noteq> Suc k \<and> S = bsubs T ! j)"
      using in_set_pair [OF _ assms(3)] by (simp add: set_pair_def)
    then show "(\<exists>j < length (bsubs T). j \<noteq> k \<and> j \<noteq> Suc k \<and> S = bsubs T ! j)
      \<or> w (bpage S) = Some (bcontent S) \<and> set (bsubs S) \<subseteq> set (bsubs ?A) \<union> set (bsubs ?B)"
      using assms(4-8) ne by auto
  qed (use assms(4,5,8) ne in auto)
qed

lemma tree_at_merge_sub:
  assumes "tree_at v T" and "distinct (page_list T)" and "Suc k < length (bsubs T)"
    and "w = v(bpage (bsubs T ! k) \<mapsto> bcontent (join (bitems T ! k) (bsubs T ! k) (bsubs T ! Suc k)), bpage T \<mapsto> bcontent (merge_sub k T))"
  shows "tree_at w (merge_sub k T)"
proof -
  let ?A = "bsubs T ! k" and ?B = "bsubs T ! Suc k"
  let ?J = "join (bitems T ! k) ?A ?B"
  have k': "k < length (bsubs T)" using assms(3) by simp
  have "bpage ?A \<in> set (page_list ?A)" by (simp add: page_list_eq [of ?A])
  then have ne: "bpage T \<noteq> bpage ?A" using distinct_sub_pages(2) [OF assms(2) k'] by auto
  show ?thesis
  proof (rule tree_at_pair [OF assms(1-3)])
    fix S assume "S \<in> set (bsubs (merge_sub k T))"
    then have "S = ?J \<or> (\<exists>j < length (bsubs T). j \<noteq> k \<and> j \<noteq> Suc k \<and> S = bsubs T ! j)"
      using in_set_merged [OF _ assms(3)] by (simp add: merge_sub_def)
    moreover have "set (bsubs ?J) \<subseteq> set (bsubs ?A) \<union> set (bsubs ?B)" by (simp add: join_def)
    ultimately show "(\<exists>j < length (bsubs T). j \<noteq> k \<and> j \<noteq> Suc k \<and> S = bsubs T ! j)
      \<or> w (bpage S) = Some (bcontent S) \<and> set (bsubs S) \<subseteq> set (bsubs ?A) \<union> set (bsubs ?B)"
      using assms(4) ne by auto
  qed (use assms(4) ne in auto)
qed

section \<open>What rebalancing may do\<close>

text \<open>Child \<open>i\<close> takes an item from a sibling that has two, or is merged with one; the node given up is in the last argument.\<close>

inductive rebalance :: "nat \<Rightarrow> btree \<Rightarrow> btree \<Rightarrow> btree list \<Rightarrow> bool" where
  from_left: "Suc k < length (bsubs T) \<Longrightarrow> 2 \<le> length (bitems (bsubs T ! k)) \<Longrightarrow> rebalance (Suc k) T (rot_right k T) []"
| from_right: "Suc k < length (bsubs T) \<Longrightarrow> 2 \<le> length (bitems (bsubs T ! Suc k)) \<Longrightarrow> rebalance k T (rot_left k T) []"
| into_left: "Suc k < length (bsubs T) \<Longrightarrow> rebalance (Suc k) T (merge_sub k T) [bsubs T ! Suc k]"
| into_first: "Suc 0 < length (bsubs T) \<Longrightarrow> rebalance 0 T (merge_sub 0 T) [bsubs T ! Suc 0]"

lemma rebalance_sub_bsubs [simp]:
  "bsubs (set_pair k s A B T) = (bsubs T)[k := A, Suc k := B]" "bitems (set_pair k s A B T) = (bitems T)[k := s]"
  "bitems (rot_right k T) = (bitems T)[k := last (bitems (bsubs T ! k))]"
  "bitems (rot_left k T) = (bitems T)[k := hd (bitems (bsubs T ! Suc k))]"
  "bitems (merge_sub k T) = delete_at k (bitems T)"
  by (simp_all add: set_pair_def rot_right_def rot_left_def merge_sub_def Let_def)

lemma rebalance_tree:
  assumes "rebalance i T T' D" and "bal (Suc h) T"
  shows "inorder T' = inorder T" and "bal (Suc h) T'" and "pages_mset T = pages_mset T' + mset (map bpage D)" and "bpage T' = bpage T"
    and "length (bitems T) \<le> Suc (length (bitems T'))"
proof -
  have k: "k < length (bitems T)" if "Suc k < length (bsubs T)" for k using assms(2) that by simp
  note r = inorder_rebalance [OF assms(2) k] bal_rebalance [OF assms(2) k] pages_rebalance [OF assms(2) k]
  have ne: "xs \<noteq> []" if "2 \<le> length xs" for xs :: "item list" using that by auto
  have "inorder T' = inorder T \<and> bal (Suc h) T' \<and> pages_mset T = pages_mset T' + mset (map bpage D) \<and> bpage T' = bpage T
    \<and> length (bitems T) \<le> Suc (length (bitems T'))"
    using assms(1)
  proof cases
    case (from_left k)
    then show ?thesis using r(1,4,7) [of k] ne by simp
  next
    case from_right
    then show ?thesis using r(2,5,8) [of i] ne by simp
  next
    case (into_left k)
    then show ?thesis using r(3,6,9) [of k] k [of k] by (simp del: bal.simps)
  next
    case into_first
    then show ?thesis using r(3,6,9) [of 0] k [of 0] by (simp del: bal.simps)
  qed
  then show "inorder T' = inorder T" "bal (Suc h) T'" "pages_mset T = pages_mset T' + mset (map bpage D)" "bpage T' = bpage T"
    "length (bitems T) \<le> Suc (length (bitems T'))" by simp_all
qed

text \<open>Every node above the leaves has an item.\<close>

definition thick :: "btree \<Rightarrow> bool" where
  "thick = all_nodes (\<lambda>c. n_children c \<noteq> [] \<longrightarrow> n_items c \<noteq> [])"

lemma thick_iff: "thick T \<longleftrightarrow> (bsubs T \<noteq> [] \<longrightarrow> bitems T \<noteq> []) \<and> list_all thick (bsubs T)"
  by (simp add: thick_def all_nodes_iff [of _ T])

lemma thick_node: "thick (BNode p its xs) \<longleftrightarrow> (xs \<noteq> [] \<longrightarrow> its \<noteq> []) \<and> list_all thick xs"
  by (simp add: thick_iff [of "BNode _ _ _"])

lemma thick_pair:
  assumes "\<And>j. j < length xs \<Longrightarrow> j \<noteq> k \<Longrightarrow> j \<noteq> Suc k \<Longrightarrow> thick (xs ! j)" and "Suc k < length xs" and "thick A"
  shows "thick B \<Longrightarrow> list_all thick (xs[k := A, Suc k := B])" and "list_all thick (delete_at (Suc k) (xs[k := A]))"
  using in_set_pair [of _ xs k A B] in_set_merged [of _ k xs A] assms by (fastforce simp: list_all_iff)+

lemma thick_moves:
  assumes "list_all thick (bsubs A)" and "list_all thick (bsubs B)"
  shows "thick (put_first s A B)" and "thick (put_last s A B)" and "thick (join s A B)"
    and "2 \<le> length (bitems A) \<Longrightarrow> thick (take_last A)" and "2 \<le> length (bitems B) \<Longrightarrow> thick (take_first B)"
proof -
  show "thick (put_first s A B)" "thick (put_last s A B)" "thick (join s A B)"
    using assms by (auto simp: thick_node put_first_def put_last_def join_def list_all_iff)
  show "thick (take_last A)" if "2 \<le> length (bitems A)"
    using assms that by (cases "bitems A") (auto simp: thick_node take_last_def list_all_iff dest: in_set_butlastD)
  show "thick (take_first B)" if "2 \<le> length (bitems B)"
    using assms that by (cases "bitems B"; cases "bsubs B") (auto simp: thick_node take_first_def)
qed

lemma rebalance_thick:
  assumes "rebalance i T T' D" and other: "\<And>j. j < length (bsubs T) \<Longrightarrow> j \<noteq> i \<Longrightarrow> thick (bsubs T ! j)"
    and below: "list_all thick (bsubs (bsubs T ! i))"
  shows "list_all thick (bsubs T')"
proof -
  have sub: "list_all thick (bsubs (bsubs T ! j))" if "j < length (bsubs T)" for j
    using other [OF that] below thick_iff [of "bsubs T ! j"] by (cases "j = i") auto
  show ?thesis
    using assms(1)
  proof cases
    case (from_left k)
    note m = thick_moves [OF sub sub]
    show ?thesis unfolding from_left rot_right_def Let_def rebalance_sub_bsubs
      by (rule thick_pair(1)) (use from_left other m in auto)
  next
    case from_right
    note m = thick_moves [OF sub sub]
    show ?thesis unfolding from_right rot_left_def Let_def rebalance_sub_bsubs
      by (rule thick_pair(1)) (use from_right other m in auto)
  next
    case (into_left k)
    note m = thick_moves(3) [OF sub sub]
    show ?thesis unfolding into_left merge_sub_def btree.sel
      by (rule thick_pair(2)) (use into_left other m in auto)
  next
    case into_first
    note m = thick_moves(3) [OF sub sub]
    have "bsubs T \<noteq> []" using into_first by auto
    then show ?thesis unfolding into_first merge_sub_def btree.sel
      by (intro thick_pair(2)) (use into_first other m [of 0 1] in auto)
  qed
qed

text \<open>
  What the code decides: a left sibling with two items first, then a right one, else a merge, with the left sibling where there
  is one. The walk up starts at the lowest node of the path.
\<close>

definition spare :: "dal \<Rightarrow> btree \<Rightarrow> bool" where
  "spare d S \<longleftrightarrow> getSplitIndex d (bcontent S) \<noteq> - 1"

definition merge_at :: "nat \<Rightarrow> btree \<Rightarrow> btree \<times> btree list" where
  "merge_at i T = (if i = 0 then (merge_sub 0 T, [bsubs T ! Suc 0]) else (merge_sub (i - 1) T, [bsubs T ! i]))"

definition take_right_at :: "dal \<Rightarrow> nat \<Rightarrow> btree \<Rightarrow> btree \<times> btree list" where
  "take_right_at d i T = (if Suc i < length (bsubs T) \<and> spare d (bsubs T ! Suc i) then (rot_left i T, []) else merge_at i T)"

definition rebalance_at :: "dal \<Rightarrow> nat \<Rightarrow> btree \<Rightarrow> btree \<times> btree list" where
  "rebalance_at d i T = (if i \<noteq> 0 \<and> spare d (bsubs T ! (i - 1)) then (rot_right (i - 1) T, []) else take_right_at d i T)"

fun rebalance_path :: "dal \<Rightarrow> nat list \<Rightarrow> btree \<Rightarrow> btree \<times> btree list" where
  "rebalance_path d [] T = (T, [])"
| "rebalance_path d (i # rest) T =
     (let (S, D) = rebalance_path d rest (bsubs T ! i); T1 = set_sub i S T in
      if isUnderPopulated d (bcontent S) then (let (T2, D2) = rebalance_at d i T1 in (T2, D @ D2)) else (T1, D))"

lemma spare_two: "spare d S \<Longrightarrow> 2 \<le> length (bitems S)"
  by (cases d "bcontent S" rule: getSplitIndex_cases) (auto simp: spare_def)

lemma rebalance_at_rebalance:
  assumes "rebalance_at d i T = (T', D)" and "i < length (bsubs T)" and "1 < length (bsubs T)"
  shows "rebalance i T T' D"
proof (cases i)
  case 0
  then show ?thesis
    using assms spare_two rebalance.from_right [of 0 T] rebalance.into_first [of T]
    by (auto simp: rebalance_at_def take_right_at_def merge_at_def split: if_split_asm)
next
  case (Suc k)
  then show ?thesis
    using assms spare_two rebalance.from_left [of k T] rebalance.from_right [of i T] rebalance.into_left [of k T]
    by (auto simp: rebalance_at_def take_right_at_def merge_at_def split: if_split_asm)
qed

text \<open>
  The first child stays first. A node that loses its only item was merged from two children; the page given up is that of the
  second, which is child \<open>i\<close> unless \<open>i\<close> is 0.
\<close>

lemma rebalance_first:
  assumes "rebalance i T T' D" and "bal (Suc h) T"
  shows "bsubs T' \<noteq> [] \<and> bpage (hd (bsubs T')) = bpage (hd (bsubs T))"
    and "bitems T' = [] \<Longrightarrow> bitems T \<noteq> [] \<Longrightarrow> i = 0 \<or> D = [bsubs T ! i]"
proof -
  have up: "bpage (hd (xs[k := a, Suc k := b])) = bpage (hd xs)" if "bpage a = bpage (xs ! k)" "Suc k < length xs" for xs k a b
    using that by (cases xs; cases k) auto
  have del: "bpage (hd (delete_at (Suc k) (xs[k := a]))) = bpage (hd xs)" if "bpage a = bpage (xs ! k)" "Suc k < length xs" for xs k a
    using that by (cases xs; cases k) (auto simp: delete_at_def)
  have ne: "delete_at (Suc k) (xs[k := a]) \<noteq> []" if "Suc k < length xs" for xs :: "btree list" and k a
    using that by (cases xs; cases k) (auto simp: delete_at_def)
  have "bsubs T' \<noteq> [] \<and> bpage (hd (bsubs T')) = bpage (hd (bsubs T))
    \<and> (bitems T' = [] \<and> bitems T \<noteq> [] \<longrightarrow> i = 0 \<or> D = [bsubs T ! i])"
    using assms(1)
  proof cases
    case (from_left k)
    then show ?thesis using up by (auto simp: rot_right_def Let_def)
  next
    case from_right
    then show ?thesis using up by (auto simp: rot_left_def Let_def)
  qed (use del ne in \<open>auto simp: merge_sub_def\<close>)
  then show "bsubs T' \<noteq> [] \<and> bpage (hd (bsubs T')) = bpage (hd (bsubs T))"
    "bitems T' = [] \<Longrightarrow> bitems T \<noteq> [] \<Longrightarrow> i = 0 \<or> D = [bsubs T ! i]" by blast+
qed

text \<open>A node without items is under-populated.\<close>

definition empty_low :: "dal \<Rightarrow> bool" where
  "empty_low d \<longleftrightarrow> (\<forall>cs. isUnderPopulated d \<lparr>n_items = [], n_children = cs\<rparr>)"

lemma fill_empty_low: "fill d a b \<Longrightarrow> empty_low d"
  using f32_of_int_exact [of 11] by (simp add: empty_low_def isUnderPopulated_def fill_def nodeSize_esum)

lemma rebalance_path_tree:
  assumes "empty_low d" and "bal h T" and "thick T" and "valid_path path T" and "rebalance_path d path T = (T', D)"
  shows "inorder T' = inorder T \<and> bal h T' \<and> pages_mset T = pages_mset T' + mset (map bpage D) \<and> bpage T' = bpage T
    \<and> list_all thick (bsubs T') \<and> length (bitems T) \<le> Suc (length (bitems T'))
    \<and> (bsubs T \<noteq> [] \<longrightarrow> bsubs T' \<noteq> [] \<and> bpage (hd (bsubs T')) = bpage (hd (bsubs T))
      \<and> (bitems T' = [] \<longrightarrow> path \<noteq> [] \<and> (hd path = 0 \<or> bpage (bsubs T ! hd path) \<in> bpage ` set D)))"
  using assms(2-)
proof (induction path arbitrary: h T T' D)
  case Nil
  then show ?case using thick_iff [of T] by auto
next
  case (Cons i rest)
  let ?S = "bsubs T ! i"
  have i: "i < length (bsubs T)" "valid_path rest ?S" using Cons.prems(3) by simp_all
  obtain h' where h: "h = Suc h'" using Cons.prems(1) i(1) by (cases h) auto
  have bS: "bal h' ?S" using Cons.prems(1) h i(1) by (simp add: list_all_length)
  have tT: "bitems T \<noteq> []" "list_all thick (bsubs T)" using Cons.prems(2) thick_iff [of T] i(1) by auto
  then have tS: "thick ?S" using i(1) by (simp add: list_all_length)
  obtain S1 D1 where r1: "rebalance_path d rest ?S = (S1, D1)" by fastforce
  have s1: "inorder S1 = inorder ?S" "bal h' S1" "pages_mset ?S = pages_mset S1 + mset (map bpage D1)" "bpage S1 = bpage ?S" "list_all thick (bsubs S1)"
    using Cons.IH [OF bS tS i(2) r1] by blast+
  let ?T1 = "set_sub i S1 T"
  have bT1: "bal (Suc h') ?T1" using bal_set_sub [OF _ s1(2)] Cons.prems(1) h by simp
  have in1: "inorder ?T1 = inorder T" by (rule inorder_set_sub_same [OF s1(1)])
  have "set_sub i ?S ?T1 = T" by (cases T) (simp add: set_sub_def)
  then have pm: "pages_mset T = pages_mset ?T1 + mset (map bpage D1)" using pages_set_sub [of i ?T1 ?S "mset (map bpage D1)"] i s1(3) by simp
  have first1: "bpage (hd (bsubs ?T1)) = bpage (hd (bsubs T))" "bpage (bsubs ?T1 ! i) = bpage ?S"
    using i(1) s1(4) by (cases "bsubs T"; cases i; simp)+
  show ?case
  proof (cases "isUnderPopulated d (bcontent S1)")
    case False
    have e: "T' = ?T1" "D = D1" using Cons.prems(4) r1 False by simp_all
    have "bitems S1 = [] \<Longrightarrow> isUnderPopulated d (bcontent S1)" using assms(1) by (simp add: empty_low_def bcontent_def)
    then have "thick S1" using False s1(5) thick_iff [of S1] by blast
    then have "list_all thick (bsubs ?T1)" using tT(2) by (simp add: list_all_update)
    then show ?thesis using bT1 h in1 tT(1) first1(1) i(1) pm unfolding e by auto
  next
    case True
    obtain T2 D2 where r2: "rebalance_at d i ?T1 = (T2, D2)" by fastforce
    have e: "T' = T2" "D = D1 @ D2" using Cons.prems(4) r1 r2 True by simp_all
    have "1 < length (bsubs ?T1)" using bT1 tT(1) by (cases "bitems T") simp_all
    then have rb: "rebalance i ?T1 T2 D2" using rebalance_at_rebalance [OF r2] i(1) by simp
    note r = rebalance_tree [OF rb bT1] and f = rebalance_first [OF rb bT1]
    have "list_all thick (bsubs T2)"
      by (rule rebalance_thick [OF rb]) (use tT(2) s1(5) i(1) in \<open>auto simp: list_all_length\<close>)
    then show ?thesis
      using r h in1 f first1 tT(1) i(1) pm unfolding e by (auto simp del: bal.simps)
  qed
qed

lemma thick_store:
  assumes "thick T" and "valid_path path T" and "bsubs (path_sub path T) = [] \<or> its \<noteq> []"
  shows "thick (store_at path its T)"
  using assms
proof (induction path arbitrary: T)
  case Nil
  then show ?case using thick_iff [of T] by (auto simp: thick_node)
next
  case (Cons i rest)
  then have "i < length (bsubs T)" "thick (bsubs T ! i)" using thick_iff [of T] by (simp_all add: list_all_length)
  then show ?case using Cons thick_iff [of T] thick_iff [of "set_sub i _ T"] by (simp add: list_all_update)
qed

text \<open>The tree between the removal from its node and the walk up.\<close>

lemma remove_plan_thick:
  assumes "bal h T" and "sorted_items (inorder T)" and "thick T" and "remove_plan T k = Some (T', path)"
  shows "thick T'" and "path \<noteq> [] \<Longrightarrow> length (bitems T') = length (bitems T)"
proof -
  have len: "length (bitems (store_at q xs S)) = (if q = [] then length xs else length (bitems S))" for q xs S by (cases q) simp_all
  from assms(1,2,4) have "thick T' \<and> (path \<noteq> [] \<longrightarrow> length (bitems T') = length (bitems T))"
  proof (cases rule: remove_plan_cases)
    case (leaf j u p)
    then show ?thesis using thick_store [OF assms(3) leaf(2)] len by simp
  next
    case (inner j u p q v)
    let ?T1 = "store_at p ((bitems u)[j := last (bitems v)]) T"
    have t1: "thick ?T1" using inner(3,4) by (intro thick_store [OF assms(3) inner(2)]) auto
    have "valid_path (p @ j # q) ?T1" "path_sub (p @ j # q) ?T1 = v"
      using inner(2,3,8,9) by (simp_all add: valid_path_append path_sub_append path_sub_store)
    then have "thick T'" unfolding inner(13) using inner(10) by (intro thick_store [OF t1]) simp_all
    moreover have "length (bitems ?T1) = length (bitems T)" using len [of p] inner(3) by (cases p) simp_all
    ultimately show ?thesis unfolding inner(13) len by simp
  qed
  then show "thick T'" "path \<noteq> [] \<Longrightarrow> length (bitems T') = length (bitems T)" by simp_all
qed

section \<open>The tree after a removal\<close>

text \<open>A root without items gives way to its only child.\<close>

definition new_root :: "btree \<Rightarrow> btree" where
  "new_root T = (if bitems T = [] \<and> bsubs T \<noteq> [] then hd (bsubs T) else T)"

text \<open>The tree that a removal leaves, the nodes given up, and the path to the lowest changed node.\<close>

definition removal :: "dal \<Rightarrow> btree \<Rightarrow> bytes \<Rightarrow> (btree \<times> btree list \<times> nat list) option" where
  "removal d T k = (case remove_plan T k of None \<Rightarrow> None
     | Some (T1, path) \<Rightarrow> let (T2, D) = rebalance_path d path T1 in Some (T2, D, path))"

text \<open>
  Where the root loses its last item after a removal below its second child, the page that was given up last is the second child, and
  the code takes it as the new root.
\<close>

definition wrong_root :: "btree \<Rightarrow> nat list \<Rightarrow> bool" where
  "wrong_root T path \<longleftrightarrow> bitems T = [] \<and> bsubs T \<noteq> [] \<and> hd path \<noteq> 0"

lemma removal_tree:
  assumes el: "empty_low d" and b: "bal h T" and so: "sorted_items (inorder T)" and th: "thick T" and rm: "removal d T k = Some (T', D, path)"
  obtains T1 where "remove_plan T k = Some (T1, path)" and "rebalance_path d path T1 = (T', D)" and "thick T1"
    and "inorder T' = del_item k (inorder T)" and "bal h T'" and "pages_mset T = pages_mset T' + mset (map bpage D)" and "bpage T' = bpage T"
    and "list_all thick (bsubs T')"
    and "bitems T' = [] \<and> bsubs T' \<noteq> [] \<longrightarrow> path \<noteq> [] \<and> (\<exists>S. bsubs T' = [S] \<and> (hd path = 0 \<longrightarrow> bpage S = bpage (bsubs T1 ! 0)))
      \<and> (hd path \<noteq> 0 \<longrightarrow> bpage (bsubs T1 ! hd path) \<in> bpage ` set D)"
proof -
  obtain T1 where p: "remove_plan T k = Some (T1, path)" "rebalance_path d path T1 = (T', D)"
    using rm by (auto simp: removal_def split: option.splits prod.splits)
  note sh = remove_plan_shape [OF b so p(1)] and tk = remove_plan_thick [OF b so th p(1)]
  note r = rebalance_path_tree [OF el sh(1) tk(1) sh(4) p(2)]
  show thesis
  proof (rule that [OF p tk(1)])
    show "inorder T' = del_item k (inorder T)" using r remove_plan_inorder [OF b so p(1)] by simp
    show "pages_mset T = pages_mset T' + mset (map bpage D)" "bpage T' = bpage T" using r sh(2,3) by (simp_all add: pages_mset_def)
    show "bitems T' = [] \<and> bsubs T' \<noteq> [] \<longrightarrow> path \<noteq> [] \<and> (\<exists>S. bsubs T' = [S] \<and> (hd path = 0 \<longrightarrow> bpage S = bpage (bsubs T1 ! 0)))
      \<and> (hd path \<noteq> 0 \<longrightarrow> bpage (bsubs T1 ! hd path) \<in> bpage ` set D)"
    proof
      assume e: "bitems T' = [] \<and> bsubs T' \<noteq> []"
      then obtain h' where h: "h = Suc h'" using r by (cases h) auto
      then have ne: "bsubs T1 \<noteq> []" using sh(1) by auto
      obtain S where S: "bsubs T' = [S]" using r e h by (auto simp: length_Suc_conv)
      then show "path \<noteq> [] \<and> (\<exists>S. bsubs T' = [S] \<and> (hd path = 0 \<longrightarrow> bpage S = bpage (bsubs T1 ! 0)))
        \<and> (hd path \<noteq> 0 \<longrightarrow> bpage (bsubs T1 ! hd path) \<in> bpage ` set D)"
        using r e ne by (auto simp: hd_conv_nth)
    qed
  qed (use r in simp_all)
qed

end
