(* ===== verification/Btree_Remove.thy ===== *)
theory Btree_Remove
  imports Tree_Delete Kv_Store
begin

text \<open>
  \<open>Remove\<close> where no rebalancing is needed: the search, the descent to the item before the key where the key is
  in an inner node, the change of one node or two, and the walk up that changes nothing.
\<close>

section \<open>The changes inside the nodes\<close>

lemma delete_item_spec:
  assumes "gvalid (mem t) n" and "j < length (n_items (contents (mem t) n))"
  obtains m' n' where "delete_item n j t = Some (Inr n', t\<lparr>mem := m'\<rparr>)" and "gupd (mem t) n m' n'"
    and "contents m' n' = (contents (mem t) n)\<lparr>n_items := delete_at j (n_items (contents (mem t) n))\<rparr>"
proof -
  note obt = that
  let ?h = "itemArrays (mem t)" and ?s = "items n"
  have v: "svalid ?h ?s" "svalid (pgArrays (mem t)) (childNodes n)" using assms(1) by (simp_all add: gvalid_def)
  have j: "j < slen ?s" using assms(2) v(1) by (simp add: contents_def)
  obtain l where l: "slice_to ?s j = Some l" using j by (simp add: slice_to_def)
  obtain r where r: "slice_from ?s (j + 1) = Some r" using j by (simp add: slice_from_def)
  obtain h1 s1 where a: "sappend (grow (mem t)) ?h l (scontent ?h r) = (h1, s1)" by fastforce
  note d = delete_idiom [OF v(1) l r a]
  have "delete_item n j t = Some (Inr (n\<lparr>items := s1\<rparr>), t\<lparr>mem := (mem t)\<lparr>itemArrays := h1\<rparr>\<rparr>)"
    using l r a by (simp add: delete_item_def append_items_def items_of_def bindM_def)
  then show thesis by (rule obt) (use d v in \<open>auto simp: gupd_def contents_def supd_refl\<close>)
qed

lemma removeItemFromLeaf_spec:
  assumes "gvalid (mem t) n" and "j < length (n_items (contents (mem t) n))"
  obtains m' n' where "removeItemFromLeaf n j t = Some (Inr n', t\<lparr>mem := m', dirtyNodes := (dirtyNodes t)(pageNum n \<mapsto> n')\<rparr>)"
    and "gupd (mem t) n m' n'"
    and "contents m' n' = (contents (mem t) n)\<lparr>n_items := delete_at j (n_items (contents (mem t) n))\<rparr>"
proof -
  obtain m' n' where r: "delete_item n j t = Some (Inr n', t\<lparr>mem := m'\<rparr>)" "gupd (mem t) n m' n'"
    "contents m' n' = (contents (mem t) n)\<lparr>n_items := delete_at j (n_items (contents (mem t) n))\<rparr>"
    by (rule delete_item_spec [OF assms])
  show thesis by (rule that) (use r in \<open>simp_all add: removeItemFromLeaf_def bindM_def tx_writeNode_def gupd_def\<close>)
qed

lemma slice_to_gupd:
  assumes "gvalid m n" and "i \<le> length (n_items (contents m n))"
  obtains s where "slice_to (items n) i = Some s" and "gupd m n m (n\<lparr>items := s\<rparr>)"
    and "contents m (n\<lparr>items := s\<rparr>) = (contents m n)\<lparr>n_items := take i (n_items (contents m n))\<rparr>"
proof -
  note obt = that
  have v: "svalid (itemArrays m) (items n)" "svalid (pgArrays m) (childNodes n)" using assms(1) by (simp_all add: gvalid_def)
  then obtain s where s: "slice_to (items n) i = Some s" using assms(2) by (simp add: slice_to_def contents_def)
  show thesis
    by (rule obt [OF s]) (use slice_to_supd [OF v(1) s] slice_to_content [OF v(1) s] supd_refl [OF v(2)] in
        \<open>simp_all add: gupd_def contents_def\<close>)
qed

lemma writable_other:
  assumes "tx_ok t" and "writable t P m" and "gvalid (mem t) m" and "gapart n m" and "pageNum m \<noteq> pageNum n"
    and "gupd (mem t) n m' n'" and "t' = t\<lparr>mem := m', dirtyNodes := (dirtyNodes t)(pageNum n \<mapsto> n')\<rparr>"
  shows "writable t' P m" and "gvalid (mem t') m" and "contents (mem t') m = contents (mem t) m"
proof -
  have b: "gbefore m n" by (rule gapart_before [OF gapart_sym [OF assms(4)]])
  show "gvalid (mem t') m" "contents (mem t') m = contents (mem t) m"
    using gupd_other [OF assms(6,3) b] assms(7) by simp_all
  have ap: "gapart m n'" using gupd_apart [OF assms(6,3)] gapart_sym [OF assms(4)] by blast
  have "gbefore n' m" by (rule gapart_before [OF gapart_sym [OF ap]])
  then show "writable t' P m"
    using assms(2,5,7) ap by (auto simp: writable_def owns_def)
qed

section \<open>The walk up\<close>

lemma rebalanceAncestors_calm:
  "list_all (\<lambda>(i, m). \<not> isUnderPopulated d (contents (mem t) m)) below \<Longrightarrow>
   rebalanceAncestors d n below t = Some (Inr n, t)"
  by (induction d n below rule: rebalanceAncestors.induct) (auto simp: bindM_def content_of_def returnM_def)

lemma calm_nodes:
  assumes "tree_at v T" and "valid_path path T" and "length ns = length path" and "on_path T (zip path ns)" and "calm_path d path T"
    and "\<forall>m \<in> set ns. v (pageNum m) = Some (contents M m)"
  shows "list_all (\<lambda>(i, m). \<not> isUnderPopulated d (contents M m)) (zip path ns)"
  using assms
proof (induction path arbitrary: T ns)
  case (Cons i rest)
  then obtain m ms where ns: "ns = m # ms" by (cases ns) auto
  have i: "i < length (bsubs T)" using Cons.prems(2) by simp
  note c = tree_at_child [OF Cons.prems(1) i]
  have "contents M m = bcontent (bsubs T ! i)" using Cons.prems(4,6) c(2) ns by simp
  moreover have "list_all (\<lambda>(i, m). \<not> isUnderPopulated d (contents M m)) (zip rest ms)"
    using Cons.IH [OF c(1)] Cons.prems ns by simp
  ultimately show ?case using Cons.prems(5) ns by simp
qed simp

lemma remove_finish:
  assumes "valid_path path T" and "tree_at (tx_view d t) T" and "distinct (page_list T)" and "tx_ok t"
    and "path_owned t (set (path_pages path T))" and "c_root c = bpage T" and "calm d path T"
  obtains n ns t' where "getNodes d c (0 # path) t = Some (Inr (n # ns), t')" and "reads t t'"
    and "rebalanceAncestors d n (zip path ns) t' = Some (Inr n, t')" and "slen (items n) = 0 \<longrightarrow> slen (childNodes n) = 0"
proof -
  obtain n ns t' where g: "getNodes d c (0 # path) t = Some (Inr (n # ns), t')" "reads t t'" "length ns = length path"
    "on_path T (zip path ns)" "sorted_wrt gapart (n # ns)" "pageNum n = bpage T" "\<forall>m \<in> set (n # ns). held d t' m \<and> owns t' m \<and> got t m"
    by (rule getNodes_spec [OF assms(1-6)])
  have at: "tree_at (tx_view d t') T" using assms(2) reads_view [OF g(2) assms(4)] by simp
  have h: "\<forall>m \<in> set ns. tx_view d t' (pageNum m) = Some (contents (mem t') m)" using g(7) by (simp add: held_def)
  have "list_all (\<lambda>(i, m). \<not> isUnderPopulated d (contents (mem t') m)) (zip path ns)"
    by (rule calm_nodes [OF at assms(1) g(3,4) _ h]) (use assms(7) in \<open>simp add: calm_def\<close>)
  note rb = rebalanceAncestors_calm [OF this]
  have "gvalid (mem t') n" "contents (mem t') n = bcontent T"
    using g(6,7) tree_at_root [OF at] by (simp_all add: held_def)
  from node_lengths [OF this] show thesis using that [OF g(1,2) rb] assms(7) by (auto simp: calm_def)
qed


section \<open>Remove\<close>

lemma remove_missing:
  assumes "tree_inv d b t h T" and "c_root c = bpage T" and "tx_write t" and "find_item k (inorder T) = None"
  shows "\<exists>t'. Remove d c k t = Some (Inr c, t') \<and> reads t t'"
proof -
  have i: "bal h T" "sorted_items (inorder T)" using assms(1) by (simp_all add: tree_inv_def)
  obtain f j u path where s: "search T k = (f, j, u, path)" by (rule prod_cases4)
  have f: "\<not> f" using search_find_item [OF i s] assms(4) by (auto split: if_split_asm)
  obtain root t0 n t1 where g: "tx_getNode d (c_root c) t = Some (Inr root, t0)" "reads t t1"
    "findKey d root k True t0 = Some (Inr (if f \<or> \<not> True then (j, Some n, 0 # path) else (0, None, 0 # path)), t1)"
    by (rule findKey_got [OF tree_inv_ok [OF assms(1)] assms(2) s])
  have "Remove d c k t = Some (Inr c, t1)" using assms(3) g(1,3) f by (simp add: Remove_def bindM_def returnM_def)
  then show ?thesis using g(2) by blast
qed

text \<open>The state between the change of the nodes and the walk up.\<close>

definition removed :: "dal \<Rightarrow> pgnum set \<Rightarrow> tx \<Rightarrow> btree \<Rightarrow> tx \<Rightarrow> btree \<Rightarrow> bool" where
  "removed d P t T t' T' \<longleftrightarrow> tx_ok t' \<and> tree_at (tx_view d t') T' \<and> path_owned t' P \<and> page_frame d T t t'
     \<and> t' = t\<lparr>mem := mem t', dirtyNodes := dirtyNodes t'\<rparr>"

lemma reads_rest: "reads t t1 \<Longrightarrow> t1 = t\<lparr>mem := mem t1, dirtyNodes := dirtyNodes t1\<rparr>"
  by (cases t; cases t1) (simp add: reads_def)

lemma reads_removed:
  assumes "tx_ok t" and "reads t t1" and "removed d P t1 T t2 T'"
  shows "removed d P t T t2 T'"
  using assms(3) page_frame_reads [OF assms(1,2)] reads_rest [OF assms(2)] unfolding removed_def
  by (cases t; cases t1; cases t2) simp

lemma leaf_removed:
  assumes inv: "tree_ok d t h T" and v: "valid_path path T" "path_sub path T = u" and u: "bsubs u = []" "j < length (bitems u)"
    and n: "gvalid (mem t) n" "contents (mem t) n = bcontent u" "pageNum n = bpage u"
    and w: "writable t P n" and po: "path_owned t P" and P: "set (path_pages path T) \<subseteq> P"
  shows "\<exists>n' t'. removeItemFromLeaf n j t = Some (Inr n', t') \<and> removed d P t T t' (store_at path (delete_at j (bitems u)) T)"
proof -
  have i: "tx_ok t" "tree_at (tx_view d t) T" "distinct (page_list T)" "set (page_list T) \<subseteq> tx_used t"
    using inv by (simp_all add: tree_ok_def)
  obtain m' n' where r: "removeItemFromLeaf n j t = Some (Inr n', t\<lparr>mem := m', dirtyNodes := (dirtyNodes t)(pageNum n \<mapsto> n')\<rparr>)"
    "gupd (mem t) n m' n'" "contents m' n' = (contents (mem t) n)\<lparr>n_items := delete_at j (n_items (contents (mem t) n))\<rparr>"
    by (rule removeItemFromLeaf_spec [OF n(1)]) (use u n(2) in auto)
  let ?t' = "t\<lparr>mem := m', dirtyNodes := (dirtyNodes t)(bpage u \<mapsto> n')\<rparr>"
  have c: "contents m' n' = \<lparr>n_items = delete_at j (bitems u), n_children = map bpage (bsubs u)\<rparr>"
    using r(3) n(2) by (simp add: bcontent_def)
  have "bpage u \<in> P" using path_pages_last v P by blast
  note st = store_tree [OF i v w n(3) this r(2) c po refl]
  have "removed d P t T ?t' (store_at path (delete_at j (bitems u)) T)"
    unfolding removed_def using st(1-4) by simp
  then show ?thesis using r(1) n(3) by auto
qed

lemma tree_ok_reads: "tree_ok d t h T \<Longrightarrow> reads t t' \<Longrightarrow> tree_ok d t' h T"
  by (simp add: tree_ok_def tx_used_def reads_ok reads_view reads_fields(2))

text \<open>The descent to the leaf before the item takes the same index at every level; every node it meets is read only.\<close>

lemma removal_descent_spec:
  assumes "valid_path q S" and "list_all (\<lambda>i. i = m) q" and "bsubs (path_sub q S) = []"
    and "tx_ok t" and "tree_at (tx_view d t) S" and "reads t0 t"
    and "gvalid (mem t) a" and "contents (mem t) a = bcontent S" and "pageNum a = bpage S" and "got t0 a"
  obtains a' t' where "removal_descent d m a aff t = Some (Inr (a', aff @ q), t')" and "reads t t'" and "gvalid (mem t') a'"
    and "contents (mem t') a' = bcontent (path_sub q S)" and "pageNum a' = bpage (path_sub q S)" and "got t0 a'"
  using assms
proof (induction q arbitrary: S t a aff thesis)
  case Nil
  have "removal_descent d m a aff t = Some (Inr (a, aff @ []), t)"
    using Nil.prems(4,9) by (subst removal_descent.simps) simp
  then show thesis using Nil.prems(1) [of a t] Nil.prems(8-11) by simp
next
  case (Cons i q S t a aff)
  have i: "i = m" "m < length (bsubs S)" "valid_path q (bsubs S ! m)" "list_all (\<lambda>i. i = m) q" "bsubs (path_sub q (bsubs S ! m)) = []"
    using Cons.prems(2-4) by auto
  note c = tree_at_child [OF Cons.prems(6) i(2)]
  obtain a1 t1 where a: "tx_getNode d (bpage (bsubs S ! m)) t = Some (Inr a1, t1)" "reads t t1" "gvalid (mem t1) a1"
    "contents (mem t1) a1 = bcontent (bsubs S ! m)" "pageNum a1 = bpage (bsubs S ! m)"
    "dirtyNodes t (bpage (bsubs S ! m)) = Some a1 \<and> t1 = t \<or> dirtyNodes t (bpage (bsubs S ! m)) = None
      \<and> length (itemArrays (mem t)) \<le> sarr (items a1) \<and> length (pgArrays (mem t)) \<le> sarr (childNodes a1)"
    by (rule tx_getNode_view [OF Cons.prems(5) c(2)])
  have "got t a1" using a(5,6) by (auto simp: got_def fresh_in_def)
  then have ga: "got t0 a1" by (rule got_reads [OF _ Cons.prems(7)])
  have at: "tree_at (tx_view d t1) (bsubs S ! m)" using c(1) reads_view [OF a(2) Cons.prems(5)] by simp
  obtain a' t' where r: "removal_descent d m a1 (aff @ [m]) t1 = Some (Inr (a', (aff @ [m]) @ q), t')" "reads t1 t'" "gvalid (mem t') a'"
    "contents (mem t') a' = bcontent (path_sub q (bsubs S ! m))" "pageNum a' = bpage (path_sub q (bsubs S ! m))" "got t0 a'"
    by (rule Cons.IH [OF _ i(3-5) reads_ok [OF a(2) Cons.prems(5)] at reads_trans [OF Cons.prems(7) a(2)] a(3-5) ga])
  have "get_pg (childNodes a) m t = Some (Inr (bpage (bsubs S ! m)), t)"
    using get_pg_eq [OF Cons.prems(8), of m] Cons.prems(9) i(2) by simp
  moreover have "\<not> isLeaf (contents (mem t) a)" using Cons.prems(9) i(2) by auto
  ultimately have "removal_descent d m a aff t = Some (Inr (a', aff @ i # q), t')"
    using a(1) r(1) i(1) by (subst removal_descent.simps) (simp add: bindM_def)
  then show thesis using Cons.prems(1) r reads_trans [OF a(2) r(2)] i(1) by simp
qed

text \<open>The two writes: the item moves up, and the leaf loses it.\<close>

lemma item_moves_up:
  assumes inv: "tree_ok d t h T" and v: "valid_path p T" "path_sub p T = u" "valid_path (j # q) u" "path_sub (j # q) u = v"
    and u: "j < length (bitems u)" "bitems v \<noteq> []"
    and n: "gvalid (mem t) n" "contents (mem t) n = bcontent u" "pageNum n = bpage u"
    and a: "gvalid (mem t) a" "contents (mem t) a = bcontent v" "pageNum a = bpage v"
    and w: "writable t P n" "writable t P a" "path_owned t P" "gapart n a" "bpage u \<in> P" "bpage v \<in> P" "bpage v \<noteq> bpage u"
  shows "\<exists>m s t'. last_item a t = Some (Inr (last (bitems v)), t) \<and> set_item (items n) j (last (bitems v)) t = Some (Inr (), t\<lparr>mem := m\<rparr>)
    \<and> slice_to (items a) (slen (items a) - 1) = Some s
    \<and> t' = t\<lparr>mem := m, dirtyNodes := (dirtyNodes t)(bpage u \<mapsto> n, bpage v \<mapsto> a\<lparr>items := s\<rparr>)\<rparr>
    \<and> removed d P t T t' (store_at (p @ j # q) (butlast (bitems v)) (store_at p ((bitems u)[j := last (bitems v)]) T))"
proof -
  let ?its = "(bitems u)[j := last (bitems v)]"
  let ?T1 = "store_at p ?its T"
  have i: "tx_ok t" "tree_at (tx_view d t) T" "distinct (page_list T)" "set (page_list T) \<subseteq> tx_used t"
    using inv by (simp_all add: tree_ok_def)
  obtain m2 where s: "set_item (items n) j (last (bitems v)) t = Some (Inr (), t\<lparr>mem := m2\<rparr>)" "gupd (mem t) n m2 n"
    "contents m2 n = (contents (mem t) n)\<lparr>n_items := (n_items (contents (mem t) n))[j := last (bitems v)]\<rparr>"
    by (rule set_item_gupd [OF n(1)]) (use n(2) u(1) in auto)
  let ?t2 = "t\<lparr>mem := m2, dirtyNodes := (dirtyNodes t)(bpage u \<mapsto> n)\<rparr>"
  have c2: "contents m2 n = \<lparr>n_items = ?its, n_children = map bpage (bsubs u)\<rparr>" using s(3) n(2) by (simp add: bcontent_def)
  note st = store_tree [OF i v(1,2) w(1) n(3) w(5) s(2) c2 w(3) refl]
  note oa = writable_other [OF i(1) w(2) a(1) w(4) _ s(2) refl, unfolded n(3)]
  have ne: "pageNum a \<noteq> bpage u" using a(3) w(7) by simp
  have a2: "writable ?t2 P a" "gvalid (mem ?t2) a" "contents (mem ?t2) a = bcontent v" using oa [OF ne] a(2) by simp_all
  obtain s3 where sl: "slice_to (items a) (length (bitems v) - 1) = Some s3" "gupd (mem ?t2) a (mem ?t2) (a\<lparr>items := s3\<rparr>)"
    "contents (mem ?t2) (a\<lparr>items := s3\<rparr>) = (contents (mem ?t2) a)\<lparr>n_items := take (length (bitems v) - 1) (n_items (contents (mem ?t2) a))\<rparr>"
    by (rule slice_to_gupd [OF a2(2), of "length (bitems v) - 1"]) (use a2(3) in auto)
  let ?t3 = "?t2\<lparr>mem := mem ?t2, dirtyNodes := (dirtyNodes ?t2)(bpage v \<mapsto> a\<lparr>items := s3\<rparr>)\<rparr>"
  have c3: "contents (mem ?t2) (a\<lparr>items := s3\<rparr>) = \<lparr>n_items = butlast (bitems v), n_children = map bpage (bsubs v)\<rparr>"
    using sl(3) a2(3) by (simp add: bcontent_def butlast_conv_take)
  have v1: "valid_path (p @ j # q) ?T1" "path_sub (p @ j # q) ?T1 = v"
    using v by (simp_all add: valid_path_append path_sub_append path_sub_store)
  have i2: "distinct (page_list ?T1)" "set (page_list ?T1) \<subseteq> tx_used ?t2" using i(3,4) st(5) by simp_all
  note st3 = store_tree [OF st(1,2) i2 v1 a2(1) a(3) w(6) sl(2) c3 st(3) refl]
  note len = node_lengths(1) [OF a(1,2)]
  have la: "last_item a t = Some (Inr (last (bitems v)), t)"
    using get_item_eq [OF a(1), of "length (bitems v) - 1"] a(2) u(2) len by (simp add: last_item_def last_conv_nth)
  have "page_frame d T t ?t3" by (rule page_frame_trans [OF st(4) st3(4)]) (use st(5) in simp_all)
  then have "removed d P t T ?t3 (store_at (p @ j # q) (butlast (bitems v)) ?T1)"
    unfolding removed_def using st3(1-3) by simp
  then show ?thesis using la s(1) sl(1) len by (intro exI [of _ m2] exI [of _ s3] exI [of _ ?t3]) simp
qed

lemma inner_removed:
  assumes inv: "tree_ok d t h T" and v: "valid_path p T" "path_sub p T = u" "valid_path (j # q) u" "path_sub (j # q) u = v"
    and u: "j < length (bitems u)" "list_all (\<lambda>i. i = length (bsubs u) - 1) q" "bsubs v = []" "bitems v \<noteq> []"
    and n: "gvalid (mem t) n" "contents (mem t) n = bcontent u" "pageNum n = bpage u"
    and P: "set (path_pages (p @ j # q) T) \<subseteq> P" and g: "tx_ok t0" "path_owned t0 P" "got t0 n" "reads t0 t"
  shows "\<exists>t'. removeItemFromInternal d n j t = Some (Inr (j # q), t') \<and> removed d P t T t' (store_at (p @ j # q) (butlast (bitems v))
    (store_at p ((bitems u)[j := last (bitems v)]) T))"
proof -
  let ?S = "bsubs u ! j"
  have i: "tx_ok t" "tree_at (tx_view d t) T" "distinct (page_list T)" using inv by (simp_all add: tree_ok_def)
  have j: "j < length (bsubs u)" "valid_path q ?S" "path_sub q ?S = v" using v(3,4) by simp_all
  have at: "tree_at (tx_view d t) ?S" "tx_view d t (bpage ?S) = Some (bcontent ?S)"
    using tree_at_child [OF path_sub_tree_at [OF v(1) i(2), unfolded v(2)] j(1)] by simp_all
  obtain b tb where b: "tx_getNode d (bpage ?S) t = Some (Inr b, tb)" "reads t tb" "gvalid (mem tb) b"
    "contents (mem tb) b = bcontent ?S" "pageNum b = bpage ?S"
    "dirtyNodes t (bpage ?S) = Some b \<and> tb = t \<or> dirtyNodes t (bpage ?S) = None
      \<and> length (itemArrays (mem t)) \<le> sarr (items b) \<and> length (pgArrays (mem t)) \<le> sarr (childNodes b)"
    by (rule tx_getNode_view [OF i(1) at(2)])
  have gb: "got t b" using b(5,6) by (auto simp: got_def fresh_in_def)
  have atb: "tree_at (tx_view d tb) ?S" using at(1) reads_view [OF b(2) i(1)] by simp
  obtain a t1 where a: "removal_descent d (length (bsubs u) - 1) b [j] tb = Some (Inr (a, [j] @ q), t1)" "reads tb t1"
    "gvalid (mem t1) a" "contents (mem t1) a = bcontent v" "pageNum a = bpage v" "got t a"
    by (rule removal_descent_spec [OF j(2) u(2) _ reads_ok [OF b(2) i(1)] atb b(2-5) gb, unfolded j(3)]) (use u(3) in blast)+
  note rd = reads_trans [OF b(2) a(2)]
  have pages: "bpage u \<in> P" "bpage v \<in> P" "bpage v \<noteq> bpage u"
    using path_pages_last [OF v(1)] path_pages_last [OF j(2)] v(2) P path_pages_append [of p j q T]
      distinct_sub_pages(2) [OF path_sub_distinct [OF v(1) i(3)], of j] path_pages_subset [OF j(2)] j(1,3) by auto
  have po: "path_owned t P" by (rule path_owned_reads [OF g(4,2)])
  have w: "writable t1 P n" "writable t1 P a" "path_owned t1 P"
    using writable_reads [OF reads_trans [OF g(4) rd] got_writable [OF g(1,2) _ g(3)]] n(3) pages(1)
      writable_reads [OF rd got_writable [OF i(1) po _ a(6)]] a(5) pages(2) path_owned_reads [OF rd po] by simp_all
  have ap: "gapart n a"
    by (rule got_apart [OF g(1,2) _ g(3,4) n(1) _ a(6)]) (use n(3) a(5) pages in auto)
  have n1: "gvalid (mem t1) n" "contents (mem t1) n = bcontent u"
    using gmem_ext_node [OF reads_fields(8) [OF rd] n(1)] n(2) by simp_all
  obtain m s t' where e: "last_item a t1 = Some (Inr (last (bitems v)), t1)"
      "set_item (items n) j (last (bitems v)) t1 = Some (Inr (), t1\<lparr>mem := m\<rparr>)" "slice_to (items a) (slen (items a) - 1) = Some s"
      "t' = t1\<lparr>mem := m, dirtyNodes := (dirtyNodes t1)(bpage u \<mapsto> n, bpage v \<mapsto> a\<lparr>items := s\<rparr>)\<rparr>"
    and r: "removed d P t1 T t' (store_at (p @ j # q) (butlast (bitems v)) (store_at p ((bitems u)[j := last (bitems v)]) T))"
    using item_moves_up [OF tree_ok_reads [OF inv rd] v u(1,4) n1 n(3) a(3-5) w ap pages] by blast
  have pg: "get_pg (childNodes n) j t = Some (Inr (bpage ?S), t)" using get_pg_eq [OF n(1), of j] n(2) j(1) by simp
  have "removeItemFromInternal d n j t = Some (Inr (j # q), t')"
    using pg b(1) a(1,5) e n(3) node_lengths(2) [OF n(1,2)] by (simp add: removeItemFromInternal_def bindM_def tx_writeNode_def)
  then show ?thesis using reads_removed [OF i(1) rd r] by blast
qed

text \<open>The walk up: the nodes on the path are fetched again, and rebalanced from the lowest to the root.\<close>

definition remove_up :: "dal \<Rightarrow> collection \<Rightarrow> nat list \<Rightarrow> (tx, collection) m" where
  "remove_up d c path = bindM (getNodes d c (0 # path)) (\<lambda>ancestors.
     bindM (rebalanceAncestors d (hd ancestors) (zip path (tl ancestors))) (\<lambda>rootNode.
     if slen (items rootNode) = 0 \<and> slen (childNodes rootNode) > 0 then
       (if length ancestors < 2 then failM Panic else setRoot c (pageNum (ancestors ! 1)))
     else returnM c))"

lemma remove_nodes:
  assumes inv: "tree_ok d t h T" and rt: "c_root c = bpage T" and wr: "tx_write t"
    and plan: "remove_plan T k = Some (T', path)" and po: "path_owned t P" and P: "set (path_pages path T') \<subseteq> P"
  shows "\<exists>t'. removed d P t T t' T' \<and> Remove d c k t = remove_up d c path t'"
proof -
  have i: "bal h T" "sorted_items (inorder T)" and ok: "tx_ok t" using inv by (simp_all add: tree_ok_def)
  from i plan show ?thesis
  proof (cases rule: remove_plan_cases)
    case (leaf j u p)
    obtain root t0 n t1 where g: "tx_getNode d (c_root c) t = Some (Inr root, t0)"
      "findKey d root k True t0 = Some (Inr (if True \<or> \<not> True then (j, Some n, 0 # p) else (0, None, 0 # p)), t1)"
      "reads t t1" "gvalid (mem t1) n" "contents (mem t1) n = bcontent u" "pageNum n = bpage u" "got t n"
      by (rule findKey_got [OF inv rt leaf(1)])
    have P': "set (path_pages p T) \<subseteq> P" using P leaf(2,6,7) by simp
    then have "bpage u \<in> P" using path_pages_last leaf(2,3) by blast
    then have w: "writable t1 P n" using writable_reads [OF g(3) got_writable [OF ok po _ g(7)]] g(6) by simp
    obtain n' t2 where r: "removeItemFromLeaf n j t1 = Some (Inr n', t2)" "removed d P t1 T t2 T'"
      using leaf_removed [OF tree_ok_reads [OF inv g(3)] leaf(2,3,5,4) g(4-6) w path_owned_reads [OF g(3) po] P'] leaf(6) by blast
    have "Remove d c k t = remove_up d c path t2"
      using wr g(1,2) r(1) node_lengths(2) [OF g(4,5)] leaf(5,7) by (simp add: Remove_def remove_up_def bindM_def)
    then show ?thesis using reads_removed [OF ok g(3) r(2)] by blast
  next
    case (inner j u p q v)
    obtain root t0 n t1 where g: "tx_getNode d (c_root c) t = Some (Inr root, t0)"
      "findKey d root k True t0 = Some (Inr (if True \<or> \<not> True then (j, Some n, 0 # p) else (0, None, 0 # p)), t1)"
      "reads t t1" "gvalid (mem t1) n" "contents (mem t1) n = bcontent u" "pageNum n = bpage u" "got t n"
      by (rule findKey_got [OF inv rt inner(1)])
    have "path_pages (p @ j # q) T' = path_pages (p @ j # q) T"
      unfolding inner(13) by (rule path_pages_stores [OF inner(2,3,8)])
    then have P': "set (path_pages (p @ j # q) T) \<subseteq> P" using P inner(14) by simp
    obtain t2 where r: "removeItemFromInternal d n j t1 = Some (Inr (j # q), t2)" "removed d P t1 T t2 T'"
      using inner_removed [OF tree_ok_reads [OF inv g(3)] inner(2,3,8,9,4,12,10,11) g(4-6) P' ok po g(7,3)] inner(13) by blast
    have "Remove d c k t = remove_up d c path t2"
      using wr g(1,2) r(1) node_lengths(2) [OF g(4,5)] inner(5,14) by (auto simp: Remove_def remove_up_def bindM_def)
    then show ?thesis using reads_removed [OF ok g(3) r(2)] by blast
  qed
qed

lemma remove_tree:
  assumes inv: "tree_inv d b t h T" and rt: "c_root c = bpage T" and wr: "tx_write t"
    and plan: "remove_plan T k = Some (T', path)" and po: "path_owned t (set (path_pages path T'))" and calm: "calm d path T'"
    and fits: "tree_fits b 0 T'"
  shows "\<exists>t'. Remove d c k t = Some (Inr c, t') \<and> tree_inv d b t' h T' \<and> page_frame d T t t'
    \<and> t' = t\<lparr>mem := mem t', dirtyNodes := dirtyNodes t'\<rparr>"
proof -
  have i: "bal h T" "sorted_items (inorder T)" using inv by (simp_all add: tree_inv_def)
  note sh = remove_plan_shape [OF i plan]
  obtain t2 where nd: "removed d (set (path_pages path T')) t T t2 T'" and e: "Remove d c k t = remove_up d c path t2"
    using remove_nodes [OF tree_inv_ok [OF inv] rt wr plan po] by blast
  have r: "tx_ok t2" "tree_at (tx_view d t2) T'" "path_owned t2 (set (path_pages path T'))" "page_frame d T t t2"
    "t2 = t\<lparr>mem := mem t2, dirtyNodes := dirtyNodes t2\<rparr>"
    using nd by (simp_all add: removed_def)
  have dst: "distinct (page_list T')" "c_root c = bpage T'" using inv sh rt by (simp_all add: tree_inv_def)
  obtain n ns t3 where g: "getNodes d c (0 # path) t2 = Some (Inr (n # ns), t3)" "reads t2 t3"
    "rebalanceAncestors d n (zip path ns) t3 = Some (Inr n, t3)" "slen (items n) = 0 \<longrightarrow> slen (childNodes n) = 0"
    by (rule remove_finish [OF sh(4) r(2) dst(1) r(1,3) dst(2) calm])
  have "Remove d c k t = Some (Inr c, t3)" using e g(1,3,4) by (auto simp: remove_up_def bindM_def returnM_def)
  moreover have rest: "t3 = t\<lparr>mem := mem t3, dirtyNodes := dirtyNodes t3\<rparr>"
    using r(5) reads_rest [OF g(2)] by (cases t; cases t2; cases t3) simp
  moreover have fl: "tx_used t3 = tx_used t" by (subst rest) (simp add: tx_used_def)
  have "tree_inv d b t3 h T'"
    using inv sh(1-3) fits r(2) reads_ok [OF g(2) r(1)] reads_view [OF g(2) r(1)] remove_plan_inorder [OF i plan] fl
      del_item_sorted [OF i(2)] by (simp add: tree_inv_def)
  moreover have "page_frame d T t t3" by (rule page_frame_then_reads [OF r(4,1) g(2)])
  ultimately show ?thesis by blast
qed

text \<open>The nodes that a removal writes own their memory.\<close>

definition remove_safe :: "tx \<Rightarrow> btree \<Rightarrow> bytes \<Rightarrow> bool" where
  "remove_safe t T k = (case remove_plan T k of None \<Rightarrow> False | Some (T', path) \<Rightarrow> path_owned t (set (path_pages path T')))"

lemma remove_safe_clean: "dirtyNodes t = Map.empty \<Longrightarrow> remove_ok d b T k \<Longrightarrow> remove_safe t T k"
  by (auto simp: remove_safe_def remove_ok_def path_owned_def split: option.splits)

lemma kv_map_None: "kv_map its k = None \<longleftrightarrow> find_item k its = None"
  by (simp add: kv_map_def)

lemma kv_map_del: "kv_map (del_item k its) = (kv_map its)(k := None)"
  by (rule ext) (simp add: kv_map_def del_item_find)

lemma remove_spec:
  assumes "tree_inv d b t h T" and "c_root c = bpage T" and "tx_write t"
    and "kv_map (inorder T) k = None \<or> remove_ok d b T k \<and> remove_safe t T k"
  shows "\<exists>t' T'. Remove d c k t = Some (Inr c, t') \<and> tree_inv d b t' h T' \<and> bpage T' = bpage T \<and> page_list T' = page_list T
    \<and> inorder T' = del_item k (inorder T) \<and> page_frame d T t t' \<and> t' = t\<lparr>mem := mem t', dirtyNodes := dirtyNodes t'\<rparr>"
proof (cases "kv_map (inorder T) k = None")
  case True
  then have m: "find_item k (inorder T) = None" by (simp add: kv_map_None)
  obtain t' where t': "Remove d c k t = Some (Inr c, t')" "reads t t'" using remove_missing [OF assms(1-3) m] by blast
  have "page_frame d T t t'" by (rule page_frame_reads [OF tree_inv_used(1) [OF assms(1)] t'(2)]) simp
  then show ?thesis using t' tree_inv_reads [OF assms(1) t'(2)] reads_rest [OF t'(2)] del_item_missing [OF m]
    by (intro exI [of _ t'] exI [of _ T]) simp
next
  case False
  with assms(4) have "remove_ok d b T k \<and> remove_safe t T k" by blast
  then have ok: "remove_ok d b T k" "remove_safe t T k" by simp_all
  then obtain T' path where p: "remove_plan T k = Some (T', path)" "path_owned t (set (path_pages path T'))" "calm d path T'"
    by (auto simp: remove_ok_def remove_safe_def split: option.splits)
  have i: "bal h T" "sorted_items (inorder T)" "tree_fits b 0 T" using assms(1) by (simp_all add: tree_inv_def)
  have f: "tree_fits b 0 T'" by (rule remove_ok_fits [OF i ok(1) p(1)])
  show ?thesis
    using remove_tree [OF assms(1-3) p f] remove_plan_shape(2,3) [OF i(1,2) p(1)] remove_plan_inorder [OF i(1,2) p(1)] by blast
qed

section \<open>Properties\<close>

lemma kv_tree_remove: "remove_plan kv_tree [1] = Some (BNode 3 [] [], [])" "from_leaf kv_tree [1]"
  "remove_ok kv_db 2048 kv_tree [1]" "remove_safe ex_tx kv_tree [1]"
proof -
  have f: "findKeyInNode (bcontent kv_tree) [1] = (True, 0)" by code_simp
  show p: "remove_plan kv_tree [1] = Some (BNode 3 [] [], [])" "from_leaf kv_tree [1]"
    using search_found [OF f] by (simp_all add: remove_plan_def from_leaf_def delete_at_def)
  show "remove_ok kv_db 2048 kv_tree [1]" using p by (simp add: remove_ok_def calm_def)
  show "remove_safe ex_tx kv_tree [1]" using kv_put_safe [of "[1]"] search_found [OF f] p by (simp add: remove_safe_def put_safe_def)
qed



end
