(* ===== verification/Node_Rebalance.thy ===== *)
theory Node_Rebalance
  imports Tree_Rebalance Btree_Remove
begin

text \<open>
  Rotations and merges inside the nodes: what they write, and what becomes of the contents of the two siblings and their parent.
\<close>

section \<open>One slice of a node\<close>

lemma gupd_items:
  assumes "gvalid m n" and "supd (itemArrays m) (items n) h s"
  shows "gupd m n (m\<lparr>itemArrays := h\<rparr>) (n\<lparr>items := s\<rparr>)"
    and "contents (m\<lparr>itemArrays := h\<rparr>) (n\<lparr>items := s\<rparr>) = (contents m n)\<lparr>n_items := scontent h s\<rparr>"
  using assms by (simp_all add: gupd_def gvalid_def supd_refl contents_def)

lemma gupd_children:
  assumes "gvalid m n" and "supd (pgArrays m) (childNodes n) h s"
  shows "gupd m n (m\<lparr>pgArrays := h\<rparr>) (n\<lparr>childNodes := s\<rparr>)"
    and "contents (m\<lparr>pgArrays := h\<rparr>) (n\<lparr>childNodes := s\<rparr>) = (contents m n)\<lparr>n_children := scontent h s\<rparr>"
  using assms by (simp_all add: gupd_def gvalid_def supd_refl contents_def)

lemma gvalid_slices:
  "gvalid m n \<Longrightarrow> svalid (itemArrays m) (items n)" "gvalid m n \<Longrightarrow> svalid (pgArrays m) (childNodes n)"
  "gvalid m n \<Longrightarrow> slen (items n) = length (n_items (contents m n))"
  "gvalid m n \<Longrightarrow> slen (childNodes n) = length (n_children (contents m n))"
  "scontent (itemArrays m) (items n) = n_items (contents m n)"
  "scontent (pgArrays m) (childNodes n) = n_children (contents m n)"
  by (simp_all add: gvalid_def contents_def)

lemma slice_from_supd:
  assumes "svalid h s" and "slice_from s n = Some s'"
  shows "supd h s h s'"
  using assms slice_from_content(1) [OF assms] before_slice_from [OF assms(2)] before_slice_from_arr [OF assms(2)]
  by (simp add: supd_def)

text \<open>\<open>append([]T{x}, s...)\<close>: a new array.\<close>

lemma prepend_supd:
  assumes "svalid h s" and "sliteral h [x] = (h1, s1)" and "sappend g h1 s1 (scontent h s) = (h2, s2)"
  shows "supd h s h2 s2" and "scontent h2 s2 = x # scontent h s"
proof -
  note v = svalid_alloc [OF assms(2) [unfolded sliteral_def]]
  have e: "mem_ext h h1" using assms(2) mem_ext_alloc by (simp add: sliteral_def)
  have f: "mem_ext h h2 \<and> length h \<le> sarr s2" by (rule mem_ext_append [OF e _ assms(3)]) (use v in simp)
  have c: "svalid h2 s2" "scontent h2 s2 = x # scontent h s" using sappend_content [OF _ assms(3)] v by simp_all
  show "scontent h2 s2 = x # scontent h s" by (rule c(2))
  have "sarr m \<noteq> sarr s2" if "svalid h m" for m using f that by (auto simp: svalid_def)
  then show "supd h s h2 s2"
    using c(1) f by (auto simp: supd_def before_def mem_ext_valid mem_ext_content)
qed

lemma sliteral_content: "sliteral h [x] = (h1, s1) \<Longrightarrow> svalid h s \<Longrightarrow> scontent h1 s = scontent h s"
  using mem_ext_alloc [of h "[x]" 1 h1 s1] by (simp add: sliteral_def mem_ext_content)

section \<open>Operations on one node\<close>

lemma slice_to_items:
  assumes "gvalid m n" and "i \<le> length (n_items (contents m n))"
  shows "\<exists>s. slice_to (items n) i = Some s \<and> gupd m n m (n\<lparr>items := s\<rparr>)
    \<and> contents m (n\<lparr>items := s\<rparr>) = (contents m n)\<lparr>n_items := take i (n_items (contents m n))\<rparr>"
  using slice_to_gupd [OF assms] by metis

lemma slice_from_items:
  assumes "gvalid m n" and "i \<le> length (n_items (contents m n))"
  shows "\<exists>s. slice_from (items n) i = Some s \<and> gupd m n m (n\<lparr>items := s\<rparr>)
    \<and> contents m (n\<lparr>items := s\<rparr>) = (contents m n)\<lparr>n_items := drop i (n_items (contents m n))\<rparr>"
proof -
  obtain s where s: "slice_from (items n) i = Some s" using assms by (simp add: slice_from_def gvalid_slices)
  note g = gupd_items [OF assms(1) slice_from_supd [OF gvalid_slices(1) [OF assms(1)] s]]
  show ?thesis using g s slice_from_content(2) [OF gvalid_slices(1) [OF assms(1)] s] by (simp add: gvalid_slices)
qed

lemma slice_to_children:
  assumes "gvalid m n" and "i \<le> length (n_children (contents m n))"
  shows "\<exists>s. slice_to (childNodes n) i = Some s \<and> gupd m n m (n\<lparr>childNodes := s\<rparr>)
    \<and> contents m (n\<lparr>childNodes := s\<rparr>) = (contents m n)\<lparr>n_children := take i (n_children (contents m n))\<rparr>"
proof -
  obtain s where s: "slice_to (childNodes n) i = Some s" using assms by (simp add: slice_to_def gvalid_slices)
  note g = gupd_children [OF assms(1) slice_to_supd [OF gvalid_slices(2) [OF assms(1)] s]]
  show ?thesis using g s slice_to_content(2) [OF gvalid_slices(2) [OF assms(1)] s] by (simp add: gvalid_slices)
qed

lemma slice_from_children:
  assumes "gvalid m n" and "i \<le> length (n_children (contents m n))"
  shows "\<exists>s. slice_from (childNodes n) i = Some s \<and> gupd m n m (n\<lparr>childNodes := s\<rparr>)
    \<and> contents m (n\<lparr>childNodes := s\<rparr>) = (contents m n)\<lparr>n_children := drop i (n_children (contents m n))\<rparr>"
proof -
  obtain s where s: "slice_from (childNodes n) i = Some s" using assms by (simp add: slice_from_def gvalid_slices)
  note g = gupd_children [OF assms(1) slice_from_supd [OF gvalid_slices(2) [OF assms(1)] s]]
  show ?thesis using g s slice_from_content(2) [OF gvalid_slices(2) [OF assms(1)] s] by (simp add: gvalid_slices)
qed

lemma append_items_spec:
  assumes "gvalid (mem t) n"
  shows "\<exists>m' s. append_items (items n) xs t = Some (Inr s, t\<lparr>mem := m'\<rparr>) \<and> gupd (mem t) n m' (n\<lparr>items := s\<rparr>)
    \<and> contents m' (n\<lparr>items := s\<rparr>) = (contents (mem t) n)\<lparr>n_items := n_items (contents (mem t) n) @ xs\<rparr>"
proof -
  obtain h s where a: "sappend (grow (mem t)) (itemArrays (mem t)) (items n) xs = (h, s)" by fastforce
  note v = gvalid_slices(1) [OF assms]
  show ?thesis using gupd_items [OF assms sappend_supd [OF v a]] sappend_content(2) [OF v a] a
    by (auto simp: append_items_def gvalid_slices)
qed

lemma append_children_spec:
  assumes "gvalid (mem t) n"
  shows "\<exists>m' s. append_pgs (childNodes n) xs t = Some (Inr s, t\<lparr>mem := m'\<rparr>) \<and> gupd (mem t) n m' (n\<lparr>childNodes := s\<rparr>)
    \<and> contents m' (n\<lparr>childNodes := s\<rparr>) = (contents (mem t) n)\<lparr>n_children := n_children (contents (mem t) n) @ xs\<rparr>"
proof -
  obtain h s where a: "sappend (grow (mem t)) (pgArrays (mem t)) (childNodes n) xs = (h, s)" by fastforce
  note v = gvalid_slices(2) [OF assms]
  show ?thesis using gupd_children [OF assms sappend_supd [OF v a]] sappend_content(2) [OF v a] a
    by (auto simp: append_pgs_def gvalid_slices)
qed

lemma prepend_items_spec:
  assumes "gvalid m n"
  obtains s0 m0 s m' where "literal_items [x] (t\<lparr>mem := m\<rparr>) = Some (Inr s0, t\<lparr>mem := m0\<rparr>)"
    and "items_of (items n) (t\<lparr>mem := m0\<rparr>) = Some (Inr (n_items (contents m n)), t\<lparr>mem := m0\<rparr>)"
    and "append_items s0 (n_items (contents m n)) (t\<lparr>mem := m0\<rparr>) = Some (Inr s, t\<lparr>mem := m'\<rparr>)"
    and "gupd m n m' (n\<lparr>items := s\<rparr>)"
    and "contents m' (n\<lparr>items := s\<rparr>) = (contents m n)\<lparr>n_items := x # n_items (contents m n)\<rparr>"
proof -
  let ?h = "itemArrays m"
  note v = gvalid_slices(1) [OF assms]
  obtain h1 s1 where l: "sliteral ?h [x] = (h1, s1)" by fastforce
  obtain h2 s2 where a: "sappend (grow m) h1 s1 (scontent ?h (items n)) = (h2, s2)" by fastforce
  note p = prepend_supd [OF v l a] and e = sliteral_content [OF l v]
  show thesis
    by (rule that [of s1 "m\<lparr>itemArrays := h1\<rparr>" s2 "m\<lparr>itemArrays := h2\<rparr>"])
      (use gupd_items [OF assms p(1)] p(2) l a e in
        \<open>simp_all add: literal_items_def items_of_def append_items_def gvalid_slices(5) [of m]\<close>)
qed

lemma prepend_children_spec:
  assumes "gvalid m n"
  obtains s0 m0 s m' where "literal_pgs [x] (t\<lparr>mem := m\<rparr>) = Some (Inr s0, t\<lparr>mem := m0\<rparr>)"
    and "pgs_of (childNodes n) (t\<lparr>mem := m0\<rparr>) = Some (Inr (n_children (contents m n)), t\<lparr>mem := m0\<rparr>)"
    and "append_pgs s0 (n_children (contents m n)) (t\<lparr>mem := m0\<rparr>) = Some (Inr s, t\<lparr>mem := m'\<rparr>)"
    and "gupd m n m' (n\<lparr>childNodes := s\<rparr>)"
    and "contents m' (n\<lparr>childNodes := s\<rparr>) = (contents m n)\<lparr>n_children := x # n_children (contents m n)\<rparr>"
proof -
  let ?h = "pgArrays m"
  note v = gvalid_slices(2) [OF assms]
  obtain h1 s1 where l: "sliteral ?h [x] = (h1, s1)" by fastforce
  obtain h2 s2 where a: "sappend (grow m) h1 s1 (scontent ?h (childNodes n)) = (h2, s2)" by fastforce
  note p = prepend_supd [OF v l a] and e = sliteral_content [OF l v]
  show thesis
    by (rule that [of s1 "m\<lparr>pgArrays := h1\<rparr>" s2 "m\<lparr>pgArrays := h2\<rparr>"])
      (use gupd_children [OF assms p(1)] p(2) l a e in
        \<open>simp_all add: literal_pgs_def pgs_of_def append_pgs_def gvalid_slices(6) [of m]\<close>)
qed

lemma delete_child_spec:
  assumes "gvalid (mem t) n" and "j < length (n_children (contents (mem t) n))"
  shows "\<exists>m' n'. delete_child n j t = Some (Inr n', t\<lparr>mem := m'\<rparr>) \<and> gupd (mem t) n m' n'
    \<and> contents m' n' = (contents (mem t) n)\<lparr>n_children := delete_at j (n_children (contents (mem t) n))\<rparr>"
proof -
  note v = gvalid_slices(2) [OF assms(1)]
  have j: "j < slen (childNodes n)" using assms by (simp add: gvalid_slices)
  obtain l where l: "slice_to (childNodes n) j = Some l" using j by (simp add: slice_to_def)
  obtain r where r: "slice_from (childNodes n) (j + 1) = Some r" using j by (simp add: slice_from_def)
  obtain h s where a: "sappend (grow (mem t)) (pgArrays (mem t)) l (scontent (pgArrays (mem t)) r) = (h, s)" by fastforce
  note d = delete_idiom [OF v l r a]
  show ?thesis using gupd_children [OF assms(1) d(1)] d(2) l r a
    by (intro exI [of _ "(mem t)\<lparr>pgArrays := h\<rparr>"] exI [of _ "n\<lparr>childNodes := s\<rparr>"])
      (simp add: delete_child_def append_pgs_def pgs_of_def bindM_def gvalid_slices)
qed

section \<open>Several nodes\<close>

definition gset :: "gomem \<Rightarrow> gonode list \<Rightarrow> bool" where
  "gset m ns \<longleftrightarrow> list_all (gvalid m) ns \<and> sorted_wrt gapart ns"

text \<open>The nodes \<open>ns\<close> become \<open>ns'\<close>; what is apart from them stays as it is, and apart.\<close>

definition gstep :: "gomem \<Rightarrow> gonode list \<Rightarrow> gomem \<Rightarrow> gonode list \<Rightarrow> bool" where
  "gstep m ns m' ns' \<longleftrightarrow> map pageNum ns' = map pageNum ns \<and> gset m' ns'
     \<and> (\<forall>y. gvalid m y \<and> list_all (gapart y) ns \<longrightarrow> gvalid m' y \<and> contents m' y = contents m y \<and> list_all (gapart y) ns')"

lemma gstep_trans: "gstep m ns m1 ns1 \<Longrightarrow> gstep m1 ns1 m2 ns2 \<Longrightarrow> gstep m ns m2 ns2"
  by (auto simp: gstep_def)

lemma gstep_gset: "gstep m ns m' ns' \<Longrightarrow> gset m' ns'"
  by (simp add: gstep_def)

lemma gapart_nth:
  assumes "sorted_wrt gapart ns" and "i < length ns" and "j < length ns" and "i \<noteq> j"
  shows "gapart (ns ! i) (ns ! j)"
  using assms sorted_wrt_nth_less [OF assms(1), of i j] sorted_wrt_nth_less [OF assms(1), of j i] gapart_sym
  by (cases "i < j") auto

lemma gstep_one:
  assumes "gset m ns" and "i < length ns" and "gupd m (ns ! i) m' n'"
  shows "gstep m ns m' (ns[i := n'])" and "map (contents m') (ns[i := n']) = (map (contents m) ns)[i := contents m' n']"
proof -
  have v: "gvalid m (ns ! j)" if "j < length ns" for j using assms(1) that by (simp add: gset_def list_all_length)
  have ap: "gapart (ns ! j) (ns ! l)" if "j < length ns" "l < length ns" "j \<noteq> l" for j l
    using gapart_nth that assms(1) by (simp add: gset_def)
  have oth: "gvalid m' y \<and> contents m' y = contents m y \<and> gapart y n'" if "gvalid m y" "gapart y (ns ! i)" for y
    using gupd_other [OF assms(3) that(1) gapart_before [OF that(2)]] gupd_apart [OF assms(3) that] by blast
  have "contents m' (ns ! j) = contents m (ns ! j)" if "j < length ns" "j \<noteq> i" for j
    using oth [OF v [OF that(1)] ap [OF that(1) assms(2) that(2)]] by blast
  then show "map (contents m') (ns[i := n']) = (map (contents m) ns)[i := contents m' n']"
    using assms(2) by (intro nth_equalityI) (auto simp: nth_list_update)
  have "map pageNum (ns[i := n']) = map pageNum ns"
    using assms(2,3) by (simp add: map_update list_update_same_conv gupd_def)
  moreover have "list_all (gvalid m') (ns[i := n'])"
    using oth v ap assms(2) gupd_valid [OF assms(3)] by (auto simp: list_all_length nth_list_update)
  moreover have "sorted_wrt gapart (ns[i := n'])"
    unfolding sorted_wrt_iff_nth_less
  proof (intro allI impI)
    fix j l assume jl: "j < l" "l < length (ns[i := n'])"
    have "gapart (ns ! j) n'" "gapart n' (ns ! j)" if "j < length ns" "j \<noteq> i" for j
      using oth [OF v [OF that(1)] ap [OF that(1) assms(2) that(2)]] gapart_sym by blast+
    then show "gapart (ns[i := n'] ! j) (ns[i := n'] ! l)" using jl ap [of j l] by (cases "j = i"; cases "l = i") simp_all
  qed
  moreover have "gvalid m' y \<and> contents m' y = contents m y \<and> list_all (gapart y) (ns[i := n'])"
    if "gvalid m y" "list_all (gapart y) ns" for y
    using oth [of y] that assms(2) by (auto simp: list_all_length nth_list_update)
  ultimately show "gstep m ns m' (ns[i := n'])" by (simp add: gstep_def gset_def)
qed

text \<open>The three nodes of a rotation, and the two of a merge.\<close>

lemma gset_simps [simp]:
  "gset m [a, p] \<longleftrightarrow> gvalid m a \<and> gvalid m p \<and> gapart a p"
  "gset m [a, p, b] \<longleftrightarrow> gvalid m a \<and> gvalid m p \<and> gvalid m b \<and> gapart a p \<and> gapart a b \<and> gapart p b"
  by (auto simp: gset_def)

lemma gstep_two:
  "gset m [a, p] \<Longrightarrow> gupd m a m' a' \<Longrightarrow> gstep m [a, p] m' [a', p] \<and> contents m' p = contents m p"
  "gset m [a, p] \<Longrightarrow> gupd m p m' p' \<Longrightarrow> gstep m [a, p] m' [a, p'] \<and> contents m' a = contents m a"
  using gstep_one [of m "[a, p]" 0 m' a'] gstep_one [of m "[a, p]" 1 m' p'] by (auto simp del: gset_simps)

lemma gstep_three:
  "gset m [a, p, b] \<Longrightarrow> gupd m a m' a' \<Longrightarrow>
    gstep m [a, p, b] m' [a', p, b] \<and> contents m' p = contents m p \<and> contents m' b = contents m b"
  "gset m [a, p, b] \<Longrightarrow> gupd m p m' p' \<Longrightarrow>
    gstep m [a, p, b] m' [a, p', b] \<and> contents m' a = contents m a \<and> contents m' b = contents m b"
  "gset m [a, p, b] \<Longrightarrow> gupd m b m' b' \<Longrightarrow>
    gstep m [a, p, b] m' [a, p, b'] \<and> contents m' a = contents m a \<and> contents m' p = contents m p"
  using gstep_one [of m "[a, p, b]" 0 m' a'] gstep_one [of m "[a, p, b]" 1 m' p'] gstep_one [of m "[a, p, b]" 2 m' b']
  by (auto simp: numeral_2_eq_2 simp del: gset_simps)

section \<open>Rotations\<close>

lemma rotateRight_spec:
  assumes "gset (mem t) [a, p, b]" and "contents (mem t) a = A" and "contents (mem t) p = P" and "contents (mem t) b = B"
    and "n_items A \<noteq> []" and "k < length (n_items P)"
  obtains m' a' p' b' where "rotateRight a p b (Suc k) t = Some (Inr (a', p', b'), t\<lparr>mem := m'\<rparr>)"
    and "gstep (mem t) [a, p, b] m' [a', p', b']"
    and "contents m' a' = \<lparr>n_items = butlast (n_items A), n_children = butlast (n_children A)\<rparr>"
    and "contents m' p' = P\<lparr>n_items := (n_items P)[k := last (n_items A)]\<rparr>"
    and "contents m' b' = \<lparr>n_items = n_items P ! k # n_items B,
      n_children = if n_children A = [] then n_children B else last (n_children A) # n_children B\<rparr>"
proof -
  note obt = that
  have va: "gvalid (mem t) a" and vp: "gvalid (mem t) p" using assms(1) by simp_all
  let ?i = "length (n_items A) - 1"
  have sl: "slen (items a) = length (n_items A)" "slen (childNodes a) = length (n_children A)" using va assms(2) by (simp_all add: gvalid_slices)
  have r1: "last_item a t = Some (Inr (last (n_items A)), t)"
    using get_item_eq [OF va, of ?i] assms(2,5) sl by (simp add: last_item_def last_conv_nth)
  obtain s1 where s1: "slice_to (items a) (length (n_items A) - Suc 0) = Some s1" "gupd (mem t) a (mem t) (a\<lparr>items := s1\<rparr>)"
    "contents (mem t) (a\<lparr>items := s1\<rparr>) = A\<lparr>n_items := butlast (n_items A)\<rparr>"
    using slice_to_items [OF va, of ?i] assms(2) by (auto simp: butlast_conv_take)
  note g1 = gstep_three(1) [OF assms(1) s1(2)]
  let ?a1 = "a\<lparr>items := s1\<rparr>"
  have r2: "get_item (items p) k t = Some (Inr (n_items P ! k), t)" using get_item_eq [OF vp, of k] assms(3,6) by simp
  obtain m2 where r3: "set_item (items p) k (last (n_items A)) t = Some (Inr (), t\<lparr>mem := m2\<rparr>)" "gupd (mem t) p m2 p"
    "contents m2 p = P\<lparr>n_items := (n_items P)[k := last (n_items A)]\<rparr>"
    using set_item_gupd [OF vp, of k "last (n_items A)"] assms(3,6) by auto
  note g2 = gstep_three(2) [OF gstep_gset [OF conjunct1 [OF g1]] r3(2)]
  let ?t2 = "t\<lparr>mem := m2\<rparr>"
  have v2: "gset m2 [?a1, p, b]" using g2 gstep_gset by blast
  then have vb: "gvalid m2 b" by simp
  obtain s0 m0 s3 m3 where r4: "literal_items [n_items P ! k] ?t2 = Some (Inr s0, t\<lparr>mem := m0\<rparr>)"
    "items_of (items b) (t\<lparr>mem := m0\<rparr>) = Some (Inr (n_items (contents m2 b)), t\<lparr>mem := m0\<rparr>)"
    "append_items s0 (n_items (contents m2 b)) (t\<lparr>mem := m0\<rparr>) = Some (Inr s3, t\<lparr>mem := m3\<rparr>)"
    "gupd m2 b m3 (b\<lparr>items := s3\<rparr>)"
    "contents m3 (b\<lparr>items := s3\<rparr>) = (contents m2 b)\<lparr>n_items := n_items P ! k # n_items (contents m2 b)\<rparr>"
    by (rule prepend_items_spec [OF vb])
  let ?b3 = "b\<lparr>items := s3\<rparr>" and ?t3 = "t\<lparr>mem := m3\<rparr>"
  note g3 = gstep_three(3) [OF v2 r4(4)]
  have st3: "gstep (mem t) [a, p, b] m3 [?a1, p, ?b3]"
    by (rule gstep_trans [OF gstep_trans [OF conjunct1 [OF g1] conjunct1 [OF g2]] conjunct1 [OF g3]])
  have c3: "contents m3 ?a1 = A\<lparr>n_items := butlast (n_items A)\<rparr>" "contents m3 p = P\<lparr>n_items := (n_items P)[k := last (n_items A)]\<rparr>"
    "contents m3 ?b3 = B\<lparr>n_items := n_items P ! k # n_items B\<rparr>"
    using g1 g2 g3 s1(3) r3(3) r4(5) assms(4) by simp_all
  show thesis
  proof (cases "n_children A = []")
    case True
    have "rotateRight a p b (Suc k) t = Some (Inr (?a1, p, ?b3), ?t3)"
      using True r1 r2 r3(1) r4(1-3) sl s1(1) by (simp add: rotateRight_def isFirst_def bindM_def returnM_def)
    from obt [OF this st3] show thesis using c3 True by simp
  next
    case False
    let ?j = "length (n_children A) - 1"
    have v3: "gset m3 [?a1, p, ?b3]" by (rule gstep_gset [OF st3])
    then have va3: "gvalid (mem ?t3) ?a1" by simp
    have r5: "get_pg (childNodes a) ?j ?t3 = Some (Inr (last (n_children A)), ?t3)"
      using get_pg_eq [OF va3, of ?j] c3(1) False by (simp add: last_conv_nth)
    obtain s4 where r6: "slice_to (childNodes a) ?j = Some s4" "gupd m3 ?a1 m3 (?a1\<lparr>childNodes := s4\<rparr>)"
      "contents m3 (?a1\<lparr>childNodes := s4\<rparr>) = \<lparr>n_items = butlast (n_items A), n_children = butlast (n_children A)\<rparr>"
      using slice_to_children [OF va3, of ?j] c3(1) False by (auto simp: butlast_conv_take)
    note g4 = gstep_three(1) [OF v3 r6(2)]
    have v4: "gset m3 [?a1\<lparr>childNodes := s4\<rparr>, p, ?b3]" using g4 gstep_gset by blast
    then have vb: "gvalid m3 ?b3" by simp
    obtain s0' m0' s5 m5 where r7: "literal_pgs [last (n_children A)] ?t3 = Some (Inr s0', t\<lparr>mem := m0'\<rparr>)"
      "pgs_of (childNodes ?b3) (t\<lparr>mem := m0'\<rparr>) = Some (Inr (n_children (contents m3 ?b3)), t\<lparr>mem := m0'\<rparr>)"
      "append_pgs s0' (n_children (contents m3 ?b3)) (t\<lparr>mem := m0'\<rparr>) = Some (Inr s5, t\<lparr>mem := m5\<rparr>)"
      "gupd m3 ?b3 m5 (?b3\<lparr>childNodes := s5\<rparr>)"
      "contents m5 (?b3\<lparr>childNodes := s5\<rparr>) = (contents m3 ?b3)\<lparr>n_children := last (n_children A) # n_children (contents m3 ?b3)\<rparr>"
      by (rule prepend_children_spec [OF vb])
    note g5 = gstep_three(3) [OF v4 r7(4)]
    have st5: "gstep (mem t) [a, p, b] m5 [?a1\<lparr>childNodes := s4\<rparr>, p, ?b3\<lparr>childNodes := s5\<rparr>]"
      by (rule gstep_trans [OF gstep_trans [OF st3 conjunct1 [OF g4]] conjunct1 [OF g5]])
    have "rotateRight a p b (Suc k) t = Some (Inr (?a1\<lparr>childNodes := s4\<rparr>, p, ?b3\<lparr>childNodes := s5\<rparr>), t\<lparr>mem := m5\<rparr>)"
      using False r1 r2 r3(1) r4(1-3) sl s1(1) r5 r6(1) r7(1-3) by (simp add: rotateRight_def isFirst_def bindM_def returnM_def)
    from obt [OF this st5] show thesis using g5 r6(3) r7(5) c3 False g4 by simp
  qed
qed

lemma rotateLeft_spec:
  assumes "gset (mem t) [a, p, b]" and "contents (mem t) a = A" and "contents (mem t) p = P" and "contents (mem t) b = B"
    and "n_items B \<noteq> []" and "k < length (n_items P)"
  obtains m' a' p' b' where "rotateLeft a p b k t = Some (Inr (a', p', b'), t\<lparr>mem := m'\<rparr>)"
    and "gstep (mem t) [a, p, b] m' [a', p', b']"
    and "contents m' a' = \<lparr>n_items = n_items A @ [n_items P ! k],
      n_children = if n_children B = [] then n_children A else n_children A @ [hd (n_children B)]\<rparr>"
    and "contents m' p' = P\<lparr>n_items := (n_items P)[k := hd (n_items B)]\<rparr>"
    and "contents m' b' = \<lparr>n_items = tl (n_items B), n_children = tl (n_children B)\<rparr>"
proof -
  note obt = that
  have vp: "gvalid (mem t) p" and vb: "gvalid (mem t) b" using assms(1) by simp_all
  have sl: "slen (items p) = length (n_items P)" "slen (childNodes b) = length (n_children B)"
    using vp vb assms(3,4) by (simp_all add: gvalid_slices)
  have r1: "get_item (items b) 0 t = Some (Inr (hd (n_items B)), t)"
    using get_item_eq [OF vb, of 0] assms(4,5) by (simp add: hd_conv_nth)
  obtain s1 where s1: "slice_from (items b) (Suc 0) = Some s1" "gupd (mem t) b (mem t) (b\<lparr>items := s1\<rparr>)"
    "contents (mem t) (b\<lparr>items := s1\<rparr>) = B\<lparr>n_items := tl (n_items B)\<rparr>"
    using slice_from_items [OF vb, of 1] assms(4,5) by (cases "n_items B") auto
  note g1 = gstep_three(3) [OF assms(1) s1(2)]
  let ?b1 = "b\<lparr>items := s1\<rparr>"
  have r2: "get_item (items p) k t = Some (Inr (n_items P ! k), t)" using get_item_eq [OF vp, of k] assms(3,6) by simp
  obtain m2 where r3: "set_item (items p) k (hd (n_items B)) t = Some (Inr (), t\<lparr>mem := m2\<rparr>)" "gupd (mem t) p m2 p"
    "contents m2 p = P\<lparr>n_items := (n_items P)[k := hd (n_items B)]\<rparr>"
    using set_item_gupd [OF vp, of k "hd (n_items B)"] assms(3,6) by auto
  note g2 = gstep_three(2) [OF gstep_gset [OF conjunct1 [OF g1]] r3(2)]
  let ?t2 = "t\<lparr>mem := m2\<rparr>"
  have v2: "gset m2 [a, p, ?b1]" by (rule gstep_gset [OF conjunct1 [OF g2]])
  then have "gvalid (mem ?t2) a" by simp
  from append_items_spec [OF this, of "[n_items P ! k]"]
  obtain m3 s3 where r4: "append_items (items a) [n_items P ! k] ?t2 = Some (Inr s3, t\<lparr>mem := m3\<rparr>)" "gupd m2 a m3 (a\<lparr>items := s3\<rparr>)"
    "contents m3 (a\<lparr>items := s3\<rparr>) = (contents m2 a)\<lparr>n_items := n_items (contents m2 a) @ [n_items P ! k]\<rparr>"
    by auto
  let ?a3 = "a\<lparr>items := s3\<rparr>" and ?t3 = "t\<lparr>mem := m3\<rparr>"
  note g3 = gstep_three(1) [OF v2 r4(2)]
  have st3: "gstep (mem t) [a, p, b] m3 [?a3, p, ?b1]"
    by (rule gstep_trans [OF gstep_trans [OF conjunct1 [OF g1] conjunct1 [OF g2]] conjunct1 [OF g3]])
  have c3: "contents m3 ?b1 = B\<lparr>n_items := tl (n_items B)\<rparr>" "contents m3 p = P\<lparr>n_items := (n_items P)[k := hd (n_items B)]\<rparr>"
    "contents m3 ?a3 = A\<lparr>n_items := n_items A @ [n_items P ! k]\<rparr>"
    using g1 g2 g3 s1(3) r3(3) r4(3) assms(2) by simp_all
  show thesis
  proof (cases "n_children B = []")
    case True
    have "rotateLeft a p b k t = Some (Inr (?a3, p, ?b1), ?t3)"
      using True r1 r2 r3(1) r4(1) sl s1(1) assms(6) by (simp add: rotateLeft_def isLast_def bindM_def returnM_def)
    from obt [OF this st3] show thesis using c3 True by simp
  next
    case False
    have v3: "gset m3 [?a3, p, ?b1]" by (rule gstep_gset [OF st3])
    then have vb3: "gvalid (mem ?t3) ?b1" by simp
    have r5: "get_pg (childNodes b) 0 ?t3 = Some (Inr (hd (n_children B)), ?t3)"
      using get_pg_eq [OF vb3, of 0] c3(1) False by (simp add: hd_conv_nth)
    obtain s4 where r6: "slice_from (childNodes b) (Suc 0) = Some s4" "gupd m3 ?b1 m3 (?b1\<lparr>childNodes := s4\<rparr>)"
      "contents m3 (?b1\<lparr>childNodes := s4\<rparr>) = \<lparr>n_items = tl (n_items B), n_children = tl (n_children B)\<rparr>"
      using slice_from_children [OF vb3, of 1] c3(1) False by (cases "n_children B") auto
    note g4 = gstep_three(3) [OF v3 r6(2)]
    have v4: "gset m3 [?a3, p, ?b1\<lparr>childNodes := s4\<rparr>]" by (rule gstep_gset [OF conjunct1 [OF g4]])
    then have "gvalid (mem ?t3) ?a3" by simp
    from append_children_spec [OF this, of "[hd (n_children B)]"]
    obtain m5 s5 where r7: "append_pgs (childNodes a) [hd (n_children B)] ?t3 = Some (Inr s5, t\<lparr>mem := m5\<rparr>)"
      "gupd m3 ?a3 m5 (?a3\<lparr>childNodes := s5\<rparr>)"
      "contents m5 (?a3\<lparr>childNodes := s5\<rparr>) = (contents m3 ?a3)\<lparr>n_children := n_children (contents m3 ?a3) @ [hd (n_children B)]\<rparr>"
      by auto
    note g5 = gstep_three(1) [OF v4 r7(2)]
    have st5: "gstep (mem t) [a, p, b] m5 [?a3\<lparr>childNodes := s5\<rparr>, p, ?b1\<lparr>childNodes := s4\<rparr>]"
      by (rule gstep_trans [OF gstep_trans [OF st3 conjunct1 [OF g4]] conjunct1 [OF g5]])
    have "rotateLeft a p b k t = Some (Inr (?a3\<lparr>childNodes := s5\<rparr>, p, ?b1\<lparr>childNodes := s4\<rparr>), t\<lparr>mem := m5\<rparr>)"
      using False r1 r2 r3(1) r4(1) sl s1(1) r5 r6(1) r7(1) assms(6) by (simp add: rotateLeft_def isLast_def bindM_def returnM_def)
    from obt [OF this st5] show thesis using g5 r6(3) r7(3) c3 False g4 by simp
  qed
qed

section \<open>Merges\<close>

text \<open>The items and children of the left node \<open>a\<close> grow by the separator and by what the right node \<open>b\<close> has.\<close>

lemma merge_node_spec:
  assumes "gset (mem t) [a, p, b]" and "contents (mem t) a = A" and "contents (mem t) p = P" and "contents (mem t) b = B"
    and "k < length (n_items P)" and "Suc k < length (n_children P)" and "reads t0 t" and "gvalid (mem t0) p"
    and "contents (mem t0) p = P" and "tx_getNode d (n_children P ! k) t0 = Some (Inr a, t)"
  obtains m' a' p' where "merge_node d p b (Suc k) t0 = Some (Inr p', t\<lparr>mem := m',
      dirtyNodes := (dirtyNodes t)(pageNum a \<mapsto> a', pageNum p \<mapsto> p'), pagesToDelete := pagesToDelete t @ [pageNum b]\<rparr>)"
    and "gstep (mem t) [a, p] m' [a', p']"
    and "contents m' a' = \<lparr>n_items = n_items A @ n_items P ! k # n_items B,
      n_children = if n_children A = [] then [] else n_children A @ n_children B\<rparr>"
    and "contents m' p' = \<lparr>n_items = delete_at k (n_items P), n_children = delete_at (Suc k) (n_children P)\<rparr>"
proof -
  note obt = that
  have v: "gvalid (mem t) a" "gvalid (mem t) p" "gvalid (mem t) b" and bap: "list_all (gapart b) [a, p]"
    and v2: "gset (mem t) [a, p]"
    using assms(1) gapart_sym by auto
  have r0: "get_pg (childNodes p) k t0 = Some (Inr (n_children P ! k), t0)"
    using get_pg_eq [OF assms(8), of k] assms(6,9) by simp
  have r1: "get_item (items p) k t = Some (Inr (n_items P ! k), t)" using get_item_eq [OF v(2), of k] assms(3,5) by simp
  obtain m1 p1 where r2: "delete_item p k t = Some (Inr p1, t\<lparr>mem := m1\<rparr>)" "gupd (mem t) p m1 p1"
    "contents m1 p1 = P\<lparr>n_items := delete_at k (n_items P)\<rparr>"
    by (rule delete_item_spec [OF v(2), of k]) (use assms(3,5) in auto)
  note g1 = gstep_two(2) [OF v2 r2(2)]
  let ?t1 = "t\<lparr>mem := m1\<rparr>"
  have v1: "gset m1 [a, p1]" by (rule gstep_gset [OF conjunct1 [OF g1]])
  then have "gvalid (mem ?t1) a" by simp
  from append_items_spec [OF this, of "[n_items P ! k]"]
  obtain m2 s2 where r3: "append_items (items a) [n_items P ! k] ?t1 = Some (Inr s2, t\<lparr>mem := m2\<rparr>)" "gupd m1 a m2 (a\<lparr>items := s2\<rparr>)"
    "contents m2 (a\<lparr>items := s2\<rparr>) = (contents m1 a)\<lparr>n_items := n_items (contents m1 a) @ [n_items P ! k]\<rparr>"
    by auto
  let ?a2 = "a\<lparr>items := s2\<rparr>" and ?t2 = "t\<lparr>mem := m2\<rparr>"
  note g2 = gstep_two(1) [OF v1 r3(2)]
  have st2: "gstep (mem t) [a, p] m2 [?a2, p1]" by (rule gstep_trans [OF conjunct1 [OF g1] conjunct1 [OF g2]])
  have b2: "gvalid m2 b" "contents m2 b = B" "list_all (gapart b) [?a2, p1]"
    using st2 v(3) bap assms(4) unfolding gstep_def by blast+
  have r4: "items_of (items b) ?t2 = Some (Inr (n_items B), ?t2)" using b2(2) by (auto simp: items_of_def contents_def)
  have v2': "gset m2 [?a2, p1]" by (rule gstep_gset [OF st2])
  then have "gvalid (mem ?t2) ?a2" by simp
  from append_items_spec [OF this, of "n_items B"]
  obtain m3 s3 where r5: "append_items s2 (n_items B) ?t2 = Some (Inr s3, t\<lparr>mem := m3\<rparr>)" "gupd m2 ?a2 m3 (a\<lparr>items := s3\<rparr>)"
    "contents m3 (a\<lparr>items := s3\<rparr>) = (contents m2 ?a2)\<lparr>n_items := n_items (contents m2 ?a2) @ n_items B\<rparr>"
    by auto
  let ?a3 = "a\<lparr>items := s3\<rparr>" and ?t3 = "t\<lparr>mem := m3\<rparr>"
  note g3 = gstep_two(1) [OF v2' r5(2)]
  have st3: "gstep (mem t) [a, p] m3 [?a3, p1]" by (rule gstep_trans [OF st2 conjunct1 [OF g3]])
  have v3: "gset m3 [?a3, p1]" by (rule gstep_gset [OF st3])
  have c3: "contents m3 ?a3 = A\<lparr>n_items := n_items A @ n_items P ! k # n_items B\<rparr>" "contents m3 p1 = P\<lparr>n_items := delete_at k (n_items P)\<rparr>"
    using g1 g2 g3 r2(3) r3(3) r5(3) assms(2) by simp_all
  have "gvalid (mem ?t3) p1" "Suc k < length (n_children (contents (mem ?t3) p1))" using v3 c3(2) assms(6) by simp_all
  from delete_child_spec [OF this]
  obtain m4 p4 where r6: "delete_child p1 (Suc k) ?t3 = Some (Inr p4, t\<lparr>mem := m4\<rparr>)" "gupd m3 p1 m4 p4"
    "contents m4 p4 = (contents m3 p1)\<lparr>n_children := delete_at (Suc k) (n_children (contents m3 p1))\<rparr>"
    by auto
  let ?t4 = "t\<lparr>mem := m4\<rparr>"
  note g4 = gstep_two(2) [OF v3 r6(2)]
  have st4: "gstep (mem t) [a, p] m4 [?a3, p4]" by (rule gstep_trans [OF st3 conjunct1 [OF g4]])
  have v4: "gset m4 [?a3, p4]" by (rule gstep_gset [OF st4])
  have c4: "contents m4 ?a3 = A\<lparr>n_items := n_items A @ n_items P ! k # n_items B\<rparr>"
    "contents m4 p4 = \<lparr>n_items = delete_at k (n_items P), n_children = delete_at (Suc k) (n_children P)\<rparr>"
    using g4 r6(3) c3 by simp_all
  have b4: "gvalid m4 b" "contents m4 b = B" using st4 v(3) bap assms(4) unfolding gstep_def by blast+
  have sl: "slen (childNodes a) = length (n_children A)" using v(1) assms(2) by (simp add: gvalid_slices)
  have num: "pageNum p4 = pageNum p" using st4 by (simp add: gstep_def)
  show thesis
  proof (cases "n_children A = []")
    case True
    have "merge_node d p b (Suc k) t0 = Some (Inr p4, t\<lparr>mem := m4, dirtyNodes := (dirtyNodes t)(pageNum a \<mapsto> ?a3, pageNum p \<mapsto> p4),
        pagesToDelete := pagesToDelete t @ [pageNum b]\<rparr>)"
      using True r0 assms(10) r1 r2(1) r3(1) r4 r5(1) r6(1) sl num
      by (simp add: merge_node_def bindM_def returnM_def tx_writeNode_def tx_deleteNode_def)
    from obt [OF this st4] show thesis using c4 True by simp
  next
    case False
    have r7: "pgs_of (childNodes b) ?t4 = Some (Inr (n_children B), ?t4)" using b4(2) by (auto simp: pgs_of_def contents_def)
    have "gvalid (mem ?t4) ?a3" using v4 by simp
    from append_children_spec [OF this, of "n_children B"]
    obtain m5 s5 where r8: "append_pgs (childNodes a) (n_children B) ?t4 = Some (Inr s5, t\<lparr>mem := m5\<rparr>)"
      "gupd m4 ?a3 m5 (?a3\<lparr>childNodes := s5\<rparr>)"
      "contents m5 (?a3\<lparr>childNodes := s5\<rparr>) = (contents m4 ?a3)\<lparr>n_children := n_children (contents m4 ?a3) @ n_children B\<rparr>"
      by auto
    note g5 = gstep_two(1) [OF v4 r8(2)]
    have st5: "gstep (mem t) [a, p] m5 [?a3\<lparr>childNodes := s5\<rparr>, p4]" by (rule gstep_trans [OF st4 conjunct1 [OF g5]])
    have "merge_node d p b (Suc k) t0 = Some (Inr p4, t\<lparr>mem := m5, dirtyNodes := (dirtyNodes t)(pageNum a \<mapsto> ?a3\<lparr>childNodes := s5\<rparr>, pageNum p \<mapsto> p4),
        pagesToDelete := pagesToDelete t @ [pageNum b]\<rparr>)"
      using False r0 assms(10) r1 r2(1) r3(1) r4 r5(1) r6(1) r7 r8(1) sl num
      by (simp add: merge_node_def bindM_def returnM_def tx_writeNode_def tx_deleteNode_def)
    from obt [OF this st5] show thesis using g5 c4 r8(3) False by simp
  qed
qed

end
