(* ===== verification/Tx_Rebalance.thy ===== *)
theory Tx_Rebalance
  imports Node_Rebalance
begin

text \<open>
  Rebalancing in a transaction whose changed nodes share no memory: one step of \<open>rebalanceRemove\<close> is one \<open>rebalance\<close> of the tree.
\<close>

section \<open>Nodes at hand\<close>

text \<open>The node is what the transaction sees of its page, and shares no memory with the changed nodes of other pages.\<close>

definition live :: "dal \<Rightarrow> tx \<Rightarrow> gonode \<Rightarrow> bool" where
  "live d t n \<longleftrightarrow> gvalid (mem t) n \<and> tx_view d t (pageNum n) = Some (contents (mem t) n)
     \<and> (\<forall>q m. dirtyNodes t q = Some m \<longrightarrow> (if q = pageNum n then m = n else gapart m n))"

lemma apart_dirty:
  assumes "tx_ok t" and "path_owned t UNIV" and "dirtyNodes t p = Some n" and "dirtyNodes t q = Some m" and "q \<noteq> p"
  shows "gapart n m"
proof -
  have "pageNum n = p" using assms(1,3) by (simp add: tx_ok_def)
  then show ?thesis using assms(2-5) by (auto simp: path_owned_def writable_def)
qed

lemma apart_dirtyI:
  assumes "tx_ok t" and "\<And>p q n m. dirtyNodes t p = Some n \<Longrightarrow> dirtyNodes t q = Some m \<Longrightarrow> q \<noteq> p \<Longrightarrow> gapart n m"
  shows "path_owned t UNIV"
proof -
  have "pageNum n = p" if "dirtyNodes t p = Some n" for p n using assms(1) that by (simp add: tx_ok_def)
  then show ?thesis using assms(2) by (auto simp: path_owned_def writable_def owns_def intro: gapart_before)
qed

lemma live_reads:
  assumes "tx_ok t" and "reads t t1" and "live d t n"
  shows "live d t1 n" and "contents (mem t1) n = contents (mem t) n"
  using assms(3) gmem_ext_node [OF reads_fields(8) [OF assms(2)]] reads_view [OF assms(2,1)] reads_fields(1) [OF assms(2)]
  by (auto simp: live_def)

lemma got_live:
  assumes "tx_ok t" and "path_owned t UNIV" and "reads t t1" and "gvalid (mem t1) n"
    and "tx_view d t (pageNum n) = Some (contents (mem t1) n)" and "got t n"
  shows "live d t1 n"
proof -
  have w: "writable t UNIV n" using got_writable [OF assms(1,2) _ assms(6)] by simp
  have "gapart m n" if "dirtyNodes t q = Some m" "q \<noteq> pageNum n" for q m
    using w that gapart_sym by (auto simp: writable_def)
  then show ?thesis
    using assms(4-6) reads_view [OF assms(3,1)] reads_fields(1) [OF assms(3)] by (auto simp: live_def got_def)
qed

lemma fetch_live:
  assumes "tx_ok t" and "path_owned t UNIV" and "tx_view d t p = Some c"
  obtains n t1 where "tx_getNode d p t = Some (Inr n, t1)" and "reads t t1" and "live d t1 n" and "contents (mem t1) n = c"
    and "pageNum n = p" and "\<forall>x. live d t x \<and> pageNum x \<noteq> p \<longrightarrow> gapart x n"
proof -
  obtain n t1 where g: "tx_getNode d p t = Some (Inr n, t1)" "reads t t1" "gvalid (mem t1) n" "contents (mem t1) n = c" "pageNum n = p"
    "dirtyNodes t p = Some n \<and> t1 = t \<or> dirtyNodes t p = None
      \<and> length (itemArrays (mem t)) \<le> sarr (items n) \<and> length (pgArrays (mem t)) \<le> sarr (childNodes n)"
    by (rule tx_getNode_view [OF assms(1,3)])
  have got: "got t n" using g(5,6) by (auto simp: got_def fresh_in_def)
  have "live d t1 n" by (rule got_live [OF assms(1,2) g(2,3) _ got]) (use g(4,5) assms(3) in simp)
  moreover have "gapart x n" if "live d t x" "pageNum x \<noteq> p" for x
    using that g(6) gapart_fresh [of "mem t" x n] gapart_sym by (auto simp: live_def)
  ultimately show thesis using that [OF g(1,2) _ g(4,5)] by blast
qed

section \<open>Writing several nodes\<close>

definition dirty_list :: "gonode list \<Rightarrow> pgnum \<rightharpoonup> gonode" where
  "dirty_list ns = map_of (map (\<lambda>n. (pageNum n, n)) ns)"

lemma dirty_list_Some: "distinct (map pageNum ns) \<Longrightarrow> dirty_list ns p = Some n \<longleftrightarrow> n \<in> set ns \<and> pageNum n = p"
  and dirty_list_None: "dirty_list ns p = None \<longleftrightarrow> p \<notin> pageNum ` set ns"
  by (auto simp: dirty_list_def map_of_eq_Some_iff comp_def map_of_eq_None_iff image_image)

lemma write_nodes_ok:
  assumes ok: "tx_ok t" and sep: "path_owned t UNIV" and lv: "\<forall>n \<in> set ns. live d t n" and st: "gstep (mem t) ns (mem t') ns'"
    and di: "distinct (map pageNum ns)" and us: "pageNum ` set ns \<subseteq> tx_used t"
    and dn: "dirtyNodes t' = dirtyNodes t ++ dirty_list ns'" and us': "tx_used t' = tx_used t"
  shows "tx_ok t'" and "path_owned t' UNIV" and "\<forall>n \<in> set ns'. live d t' n"
    and "\<And>p. p \<notin> pageNum ` set ns \<Longrightarrow> tx_view d t' p = tx_view d t p"
    and "\<And>x. live d t x \<Longrightarrow> pageNum x \<notin> pageNum ` set ns \<Longrightarrow> list_all (gapart x) ns \<Longrightarrow>
      live d t' x \<and> contents (mem t') x = contents (mem t) x \<and> list_all (gapart x) ns'"
proof -
  have pg: "map pageNum ns' = map pageNum ns" and gs: "list_all (gvalid (mem t')) ns'" "sorted_wrt gapart ns'"
    using st by (simp_all add: gstep_def gset_def)
  have fr: "gvalid (mem t') y \<and> contents (mem t') y = contents (mem t) y \<and> list_all (gapart y) ns'"
    if "gvalid (mem t) y" "list_all (gapart y) ns" for y
    using st that by (simp add: gstep_def)
  have pgs: "pageNum ` set ns' = pageNum ` set ns" using arg_cong [OF pg, of set] by simp
  have D: "dirtyNodes t' p = Some n \<longleftrightarrow> n \<in> set ns' \<and> pageNum n = p \<or> p \<notin> pageNum ` set ns \<and> dirtyNodes t p = Some n" for p n
    using dirty_list_Some [of ns' p n] dirty_list_None [of ns' p] pg di pgs unfolding dn by (simp add: map_add_Some_iff)
  have old: "gvalid (mem t') y \<and> contents (mem t') y = contents (mem t) y \<and> list_all (gapart y) ns'"
    if "dirtyNodes t p = Some y" "p \<notin> pageNum ` set ns" for p y
  proof (rule fr)
    show "gvalid (mem t) y" using ok that(1) by (simp add: tx_ok_def)
    have "p \<noteq> pageNum x" if "x \<in> set ns" for x using that \<open>p \<notin> pageNum ` set ns\<close> by auto
    then show "list_all (gapart y) ns" using lv that(1) by (fastforce simp: live_def list_all_iff)
  qed
  have new: "gapart n m" if "n \<in> set ns'" "m \<in> set ns'" "pageNum n \<noteq> pageNum m" for n m
    using that gapart_nth [OF gs(2)] by (metis in_set_conv_nth)
  show tok: "tx_ok t'"
    unfolding tx_ok_def us'
  proof (intro allI impI)
    fix p n assume "dirtyNodes t' p = Some n"
    then consider "n \<in> set ns'" "pageNum n = p" | "p \<notin> pageNum ` set ns" "dirtyNodes t p = Some n" using D by blast
    then show "pageNum n = p \<and> gvalid (mem t') n \<and> p \<in> tx_used t"
    proof cases
      case 1
      then have "p \<in> pageNum ` set ns" using pgs by auto
      then show ?thesis using 1 gs(1) us by (auto simp: list_all_iff)
    next
      case 2
      then show ?thesis using old [OF 2(2,1)] ok by (simp add: tx_ok_def)
    qed
  qed
  have pairs: "gapart n m" if "dirtyNodes t' p = Some n" "dirtyNodes t' q = Some m" "q \<noteq> p" for p q n m
    using that old new apart_dirty [OF ok sep] gapart_sym unfolding D by (auto simp: list_all_iff)
  show "path_owned t' UNIV" by (rule apart_dirtyI [OF tok pairs])
  show "\<forall>n \<in> set ns'. live d t' n"
  proof
    fix n assume n: "n \<in> set ns'"
    then have dr: "dirtyNodes t' (pageNum n) = Some n" using D by blast
    moreover have "gvalid (mem t') n" using n gs(1) by (simp add: list_all_iff)
    ultimately show "live d t' n" using pairs [OF _ dr] by (auto simp: live_def tx_view_def)
  qed
  show view: "tx_view d t' p = tx_view d t p" if p: "p \<notin> pageNum ` set ns" for p
  proof -
    have "dirtyNodes t' p = dirtyNodes t p" using p pgs dirty_list_None [of ns' p] by (simp add: dn map_add_def)
    then show ?thesis using old [OF _ p] by (auto simp: tx_view_def split: option.split)
  qed
  show "live d t' x \<and> contents (mem t') x = contents (mem t) x \<and> list_all (gapart x) ns'"
    if x: "live d t x" "pageNum x \<notin> pageNum ` set ns" "list_all (gapart x) ns" for x
  proof -
    have f: "gvalid (mem t') x \<and> contents (mem t') x = contents (mem t) x \<and> list_all (gapart x) ns'"
      using fr x by (simp add: live_def)
    have "pageNum m \<noteq> pageNum x" if "m \<in> set ns'" for m using that pgs x(2) by (metis imageI)
    then have "if q = pageNum x then m = x else gapart m x" if "dirtyNodes t' q = Some m" for q m
      using that x f gapart_sym unfolding D by (auto simp: live_def list_all_iff split: if_splits)
    then show ?thesis using f view [OF x(2)] x(1) by (simp add: live_def)
  qed
qed

section \<open>Steps\<close>

definition tree_live :: "dal \<Rightarrow> tx \<Rightarrow> btree \<Rightarrow> bool" where
  "tree_live d t T \<longleftrightarrow> tx_ok t \<and> path_owned t UNIV \<and> tree_at (tx_view d t) T \<and> distinct (page_list T) \<and> set (page_list T) \<subseteq> tx_used t"

text \<open>
  The tree \<open>T\<close> under the node of its root has become \<open>T'\<close> under \<open>n'\<close>, with the nodes \<open>D\<close> given up, whose pages still hold them; nodes of other pages that were apart
  from \<open>ns\<close> are still there.
\<close>

definition stepped :: "dal \<Rightarrow> gonode list \<Rightarrow> tx \<Rightarrow> btree \<Rightarrow> tx \<Rightarrow> gonode \<Rightarrow> btree \<Rightarrow> btree list \<Rightarrow> bool" where
  "stepped d ns t T t' n' T' D \<longleftrightarrow> tx_ok t' \<and> path_owned t' UNIV \<and> tree_at (tx_view d t') T' \<and> bpage T' = bpage T
     \<and> pages_mset T = pages_mset T' + mset (map bpage D) \<and> live d t' n' \<and> pageNum n' = bpage T \<and> page_frame d T t t'
     \<and> t' = t\<lparr>mem := mem t', dirtyNodes := dirtyNodes t', pagesToDelete := pagesToDelete t @ map bpage D\<rparr>
     \<and> list_all (\<lambda>B. tx_view d t' (bpage B) = Some (bcontent B)) D
     \<and> (\<forall>x. live d t x \<and> pageNum x \<notin> set (page_list T) \<and> list_all (gapart x) ns \<longrightarrow>
          live d t' x \<and> contents (mem t') x = contents (mem t) x \<and> gapart x n')"

lemma stepped_reads:
  assumes "tx_ok t" and "reads t t1" and "stepped d ms t1 T t' n' T' D"
    and "\<And>x. live d t x \<Longrightarrow> pageNum x \<notin> set (page_list T) \<Longrightarrow> list_all (gapart x) ns \<Longrightarrow> list_all (gapart x) ms"
  shows "stepped d ns t T t' n' T' D"
proof -
  have "t' = t\<lparr>mem := mem t', dirtyNodes := dirtyNodes t', pagesToDelete := pagesToDelete t @ map bpage D\<rparr>"
    using assms(3) reads_rest [OF assms(2)] reads_fields(6) [OF assms(2)] by (cases t; cases t1; cases t') (simp add: stepped_def)
  moreover have "page_frame d T t t'" using assms(3) page_frame_reads [OF assms(1,2)] by (simp add: stepped_def)
  ultimately show ?thesis using assms(3,4) live_reads [OF assms(1,2)] unfolding stepped_def by metis
qed

text \<open>Two neighbours and their parent are written.\<close>

lemma pair_written:
  assumes tl: "tree_live d t T" and k: "Suc k < length (bsubs T)"
    and lv: "live d t a" "live d t p" "live d t b" and gs: "gset (mem t) [a, p, b]"
    and num: "pageNum a = bpage (bsubs T ! k)" "pageNum p = bpage T" "pageNum b = bpage (bsubs T ! Suc k)"
    and st: "gstep (mem t) [a, p, b] m' [a', p', b']"
    and c: "contents m' a' = bcontent A'" "contents m' p' = bcontent T'" "contents m' b' = bcontent B'"
    and pg: "bpage A' = bpage (bsubs T ! k)" "bpage B' = bpage (bsubs T ! Suc k)"
    and sub: "set (bsubs A') \<subseteq> set (bsubs (bsubs T ! k)) \<union> set (bsubs (bsubs T ! Suc k))"
      "set (bsubs B') \<subseteq> set (bsubs (bsubs T ! k)) \<union> set (bsubs (bsubs T ! Suc k))"
    and T': "T' = set_pair k s A' B' T" and pm: "pages_mset T' = pages_mset T"
    and t': "t' = t\<lparr>mem := m', dirtyNodes := (dirtyNodes t)(pageNum a' \<mapsto> a', pageNum p' \<mapsto> p', pageNum b' \<mapsto> b')\<rparr>"
  shows "stepped d [a, p, b] t T t' p' T' []"
proof -
  let ?A = "bsubs T ! k" and ?B = "bsubs T ! Suc k"
  have i: "tx_ok t" "path_owned t UNIV" "tree_at (tx_view d t) T" "distinct (page_list T)" "set (page_list T) \<subseteq> tx_used t"
    using tl by (simp_all add: tree_live_def)
  have k': "k < length (bsubs T)" using k by simp
  note dA = distinct_sub_pages [OF i(4) k'] and dB = distinct_sub_pages [OF i(4) k]
  have pl: "bpage ?A \<in> set (page_list ?A)" "bpage ?B \<in> set (page_list ?B)" "bpage T \<in> set (page_list T)"
    by (simp_all add: page_list_eq [of ?A] page_list_eq [of ?B] page_list_eq [of T])
  then have ne: "bpage T \<noteq> bpage ?A" "bpage T \<noteq> bpage ?B" "bpage ?A \<noteq> bpage ?B"
    and mem: "{bpage ?A, bpage T, bpage ?B} \<subseteq> set (page_list T)"
    using dA(2,3) dB(2,3) dB(4) [OF k'] by auto
  have num': "pageNum a' = bpage ?A" "pageNum p' = bpage T" "pageNum b' = bpage ?B" using st num by (simp_all add: gstep_def)
  have dn: "dirtyNodes t' = dirtyNodes t ++ dirty_list [a', p', b']"
    using ne num' by (auto simp: t' dirty_list_def map_add_def fun_eq_iff)
  have m: "mem t' = m'" "tx_used t' = tx_used t" by (simp_all add: t' tx_used_def)
  have ns: "\<forall>n \<in> set [a, p, b]. live d t n" "distinct (map pageNum [a, p, b])" "pageNum ` set [a, p, b] \<subseteq> tx_used t"
    using lv num ne mem i(5) by auto
  have pgs: "pageNum ` set [a, p, b] = {bpage ?A, bpage T, bpage ?B}" using num by simp
  note w = write_nodes_ok [OF i(1,2) ns(1) st [folded m(1)] ns(2,3) dn m(2), unfolded pgs]
  have v: "tx_view d t' (bpage ?A) = Some (bcontent A')" "tx_view d t' (bpage T) = Some (bcontent T')"
    "tx_view d t' (bpage ?B) = Some (bcontent B')"
    using ne num' c m by (simp_all add: tx_view_def t')
  have view: "tx_view d t' = (tx_view d t)(bpage T \<mapsto> bcontent (set_pair k s A' B' T), bpage A' \<mapsto> bcontent A', bpage B' \<mapsto> bcontent B')"
  proof
    fix q show "tx_view d t' q = ((tx_view d t)(bpage T \<mapsto> bcontent (set_pair k s A' B' T), bpage A' \<mapsto> bcontent A', bpage B' \<mapsto> bcontent B')) q"
      using w(4) [of q] v ne pg T' by auto
  qed
  have "tree_at (tx_view d t') T'" unfolding T' by (rule tree_at_set_pair [OF i(3,4) k pg sub view])
  moreover have "page_frame d T t t'"
    unfolding page_frame_def using w(4) mem num' by (auto simp: t')
  moreover have "t' = t\<lparr>mem := mem t', dirtyNodes := dirtyNodes t', pagesToDelete := pagesToDelete t @ map bpage []\<rparr>" by (simp add: t')
  moreover have "live d t' x \<and> contents (mem t') x = contents (mem t) x \<and> gapart x p'"
    if "live d t x" "pageNum x \<notin> set (page_list T)" "list_all (gapart x) [a, p, b]" for x
  proof -
    have "pageNum x \<notin> {bpage ?A, bpage T, bpage ?B}" using that(2) mem by blast
    from w(5) [OF that(1) this that(3)] show ?thesis by simp
  qed
  moreover have "live d t' p'" "bpage T' = bpage T" using w(3) T' by simp_all
  ultimately show ?thesis
    unfolding stepped_def using w(1,2) num' pm T' by (simp only: mset.simps) simp
qed

lemma merge_written:
  assumes tl: "tree_live d t T" and k: "Suc k < length (bsubs T)"
    and lv: "live d t a" "live d t p" and gs: "gset (mem t) [a, p]"
    and num: "pageNum a = bpage (bsubs T ! k)" "pageNum p = bpage T"
    and st: "gstep (mem t) [a, p] m' [a', p']"
    and c: "contents m' a' = bcontent (join (bitems T ! k) (bsubs T ! k) (bsubs T ! Suc k))" "contents m' p' = bcontent (merge_sub k T)"
    and pm: "pages_mset T = pages_mset (merge_sub k T) + mset (map bpage [bsubs T ! Suc k])"
    and t': "t' = t\<lparr>mem := m', dirtyNodes := (dirtyNodes t)(pageNum a \<mapsto> a', pageNum p \<mapsto> p'), pagesToDelete := pagesToDelete t @ [bpage (bsubs T ! Suc k)]\<rparr>"
  shows "stepped d [a, p] t T t' p' (merge_sub k T) [bsubs T ! Suc k]"
proof -
  let ?A = "bsubs T ! k" and ?J = "join (bitems T ! k) (bsubs T ! k) (bsubs T ! Suc k)"
  have i: "tx_ok t" "path_owned t UNIV" "tree_at (tx_view d t) T" "distinct (page_list T)" "set (page_list T) \<subseteq> tx_used t"
    using tl by (simp_all add: tree_live_def)
  have k': "k < length (bsubs T)" using k by simp
  note dA = distinct_sub_pages [OF i(4) k']
  have pl: "bpage ?A \<in> set (page_list ?A)" "bpage T \<in> set (page_list T)"
    by (simp_all add: page_list_eq [of ?A] page_list_eq [of T])
  then have ne: "bpage T \<noteq> bpage ?A" and mem: "{bpage ?A, bpage T} \<subseteq> set (page_list T)" using dA(2,3) by auto
  have neB: "bpage (bsubs T ! Suc k) \<notin> {bpage ?A, bpage T}"
    using distinct_sub_pages(2,4) [OF i(4) k] k' pl(1) by (auto simp: page_list_eq [of "bsubs T ! Suc k"])
  have num': "pageNum a' = bpage ?A" "pageNum p' = bpage T" using st num by (simp_all add: gstep_def)
  have dn: "dirtyNodes t' = dirtyNodes t ++ dirty_list [a', p']"
    using ne num num' by (auto simp: t' dirty_list_def map_add_def fun_eq_iff)
  have m: "mem t' = m'" "tx_used t' = tx_used t" by (simp_all add: t' tx_used_def)
  have ns: "\<forall>n \<in> set [a, p]. live d t n" "distinct (map pageNum [a, p])" "pageNum ` set [a, p] \<subseteq> tx_used t"
    using lv num ne mem i(5) by auto
  have pgs: "pageNum ` set [a, p] = {bpage ?A, bpage T}" using num by simp
  note w = write_nodes_ok [OF i(1,2) ns(1) st [folded m(1)] ns(2,3) dn m(2), unfolded pgs]
  have v: "tx_view d t' (bpage ?A) = Some (bcontent ?J)" "tx_view d t' (bpage T) = Some (bcontent (merge_sub k T))"
    using ne num c m by (simp_all add: tx_view_def t')
  have view: "tx_view d t' = (tx_view d t)(bpage ?A \<mapsto> bcontent ?J, bpage T \<mapsto> bcontent (merge_sub k T))"
  proof
    fix q show "tx_view d t' q = ((tx_view d t)(bpage ?A \<mapsto> bcontent ?J, bpage T \<mapsto> bcontent (merge_sub k T))) q"
      using w(4) [of q] v ne by auto
  qed
  have "tree_at (tx_view d t') (merge_sub k T)" by (rule tree_at_merge_sub [OF i(3,4) k view])
  moreover have "page_frame d T t t'"
    unfolding page_frame_def using w(4) mem num by (auto simp: t')
  moreover have "t' = t\<lparr>mem := mem t', dirtyNodes := dirtyNodes t', pagesToDelete := pagesToDelete t @ map bpage [bsubs T ! Suc k]\<rparr>"
    by (simp add: t')
  moreover have "list_all (\<lambda>B. tx_view d t' (bpage B) = Some (bcontent B)) [bsubs T ! Suc k]"
    using w(4) neB tree_at_child(2) [OF i(3) k] by simp
  moreover have "live d t' x \<and> contents (mem t') x = contents (mem t) x \<and> gapart x p'"
    if "live d t x" "pageNum x \<notin> set (page_list T)" "list_all (gapart x) [a, p]" for x
  proof -
    have "pageNum x \<notin> {bpage ?A, bpage T}" using that(2) mem by blast
    from w(5) [OF that(1) this that(3)] show ?thesis by simp
  qed
  moreover have "live d t' p'" "bpage (merge_sub k T) = bpage T" using w(3)  by simp_all
  ultimately show ?thesis
    unfolding stepped_def using w(1,2) num' pm  by (simp only: mset.simps) simp
qed

section \<open>One step of the walk up\<close>

lemma bcontent_moves:
  "bcontent (take_last A) = \<lparr>n_items = butlast (bitems A), n_children = butlast (map bpage (bsubs A))\<rparr>"
  "bcontent (put_first s A B) = \<lparr>n_items = s # bitems B,
     n_children = if map bpage (bsubs A) = [] then map bpage (bsubs B) else last (map bpage (bsubs A)) # map bpage (bsubs B)\<rparr>"
  "bcontent (put_last s A B) = \<lparr>n_items = bitems A @ [s],
     n_children = if map bpage (bsubs B) = [] then map bpage (bsubs A) else map bpage (bsubs A) @ [hd (map bpage (bsubs B))]\<rparr>"
  "bcontent (take_first B) = \<lparr>n_items = tl (bitems B), n_children = tl (map bpage (bsubs B))\<rparr>"
  "bcontent (join s A B) = \<lparr>n_items = bitems A @ s # bitems B,
     n_children = if map bpage (bsubs A) = [] then [] else map bpage (bsubs A) @ map bpage (bsubs B)\<rparr>"
  by (simp_all add: bcontent_def take_last_def put_first_def put_last_def take_first_def join_def map_butlast map_tl last_map hd_map)

lemma bcontent_set_pair:
  assumes "bpage A = bpage (bsubs T ! k)" and "bpage B = bpage (bsubs T ! Suc k)"
  shows "bcontent (set_pair k s A B T) = (bcontent T)\<lparr>n_items := (bitems T)[k := s]\<rparr>"
  using assms by (simp add: bcontent_def map_update map_same_update)

lemma bcontent_merge_sub:
  "bcontent (merge_sub k T) = \<lparr>n_items = delete_at k (bitems T), n_children = delete_at (Suc k) (map bpage (bsubs T))\<rparr>"
proof -
  have "map bpage (delete_at j xs) = delete_at j (map bpage xs)" for j xs by (simp add: delete_at_def take_map drop_map)
  then show ?thesis by (simp add: bcontent_def merge_sub_def map_update map_same_update)
qed

lemma tree_live_reads: "reads t t1 \<Longrightarrow> tree_live d t T \<Longrightarrow> tree_live d t1 T"
  using reads_ok [of t t1] reads_view [of t t1 d] path_owned_reads [of t t1 UNIV] reads_fields(2) [of t t1]
  by (simp add: tree_live_def tx_used_def)

lemma live_content:
  assumes "tree_live d t T" and "live d t n"
  shows "pageNum n = bpage T \<Longrightarrow> contents (mem t) n = bcontent T"
    and "pageNum n = bpage (bsubs T ! i) \<Longrightarrow> i < length (bsubs T) \<Longrightarrow> contents (mem t) n = bcontent (bsubs T ! i)"
proof -
  have at: "tree_at (tx_view d t) T" using assms(1) by (simp add: tree_live_def)
  show "pageNum n = bpage T \<Longrightarrow> contents (mem t) n = bcontent T"
    using tree_at_root [OF at] assms(2) by (simp add: live_def)
  show "pageNum n = bpage (bsubs T ! i) \<Longrightarrow> i < length (bsubs T) \<Longrightarrow> contents (mem t) n = bcontent (bsubs T ! i)"
    using tree_at_child(2) [OF at] assms(2) by (simp add: live_def)
qed

definition write_three :: "gonode \<times> gonode \<times> gonode \<Rightarrow> (tx, gonode) m" where
  "write_three = (\<lambda>(a, p, b). bindM (tx_writeNode a) (\<lambda>_. bindM (tx_writeNode p) (\<lambda>_. bindM (tx_writeNode b) (\<lambda>_. returnM p))))"

lemma write_three_eq: "write_three (a, p, b) t
    = Some (Inr p, t\<lparr>dirtyNodes := (dirtyNodes t)(pageNum a \<mapsto> a, pageNum p \<mapsto> p, pageNum b \<mapsto> b)\<rparr>)"
  by (simp add: write_three_def bindM_def returnM_def tx_writeNode_def)

lemma rotated:
  assumes tl: "tree_live d t T" and b: "bal (Suc h) T" and k: "Suc k < length (bsubs T)"
    and lv: "live d t a" "live d t p" "live d t n" and gs: "gset (mem t) [a, p, n]"
    and num: "pageNum a = bpage (bsubs T ! k)" "pageNum p = bpage T" "pageNum n = bpage (bsubs T ! Suc k)"
  shows "2 \<le> length (bitems (bsubs T ! k)) \<Longrightarrow>
      \<exists>t' p'. bindM (rotateRight a p n (Suc k)) write_three t = Some (Inr p', t') \<and> stepped d [a, p, n] t T t' p' (rot_right k T) []"
    and "2 \<le> length (bitems (bsubs T ! Suc k)) \<Longrightarrow>
      \<exists>t' p'. bindM (rotateLeft a p n k) write_three t = Some (Inr p', t') \<and> stepped d [a, p, n] t T t' p' (rot_left k T) []"
proof -
  have k': "k < length (bsubs T)" "k < length (bitems T)" using k b by simp_all
  note c = live_content(2) [OF tl lv(1) num(1) k'(1)] live_content(1) [OF tl lv(2) num(2)] live_content(2) [OF tl lv(3) num(3) k]
  have ki: "k < length (n_items (bcontent T))" using k'(2) by simp
  let ?A = "bsubs T ! k" and ?B = "bsubs T ! Suc k"
  have lastin: "set (butlast (bsubs ?A)) \<subseteq> set (bsubs ?A)" "bsubs ?A \<noteq> [] \<Longrightarrow> last (bsubs ?A) \<in> set (bsubs ?A)"
    "set (tl (bsubs ?B)) \<subseteq> set (bsubs ?B)" "bsubs ?B \<noteq> [] \<Longrightarrow> hd (bsubs ?B) \<in> set (bsubs ?B)"
    by (auto dest: in_set_butlastD list.set_sel(2) [rotated]) (cases "bsubs ?B", auto)
  show "\<exists>t' p'. bindM (rotateRight a p n (Suc k)) write_three t = Some (Inr p', t') \<and> stepped d [a, p, n] t T t' p' (rot_right k T) []"
    if two: "2 \<le> length (bitems ?A)"
  proof -
    have ne: "n_items (bcontent ?A) \<noteq> []" using two by auto
    obtain m' a' p' n' where r: "rotateRight a p n (Suc k) t = Some (Inr (a', p', n'), t\<lparr>mem := m'\<rparr>)"
      and st: "gstep (mem t) [a, p, n] m' [a', p', n']"
      and c': "contents m' a' = \<lparr>n_items = butlast (n_items (bcontent ?A)), n_children = butlast (n_children (bcontent ?A))\<rparr>"
        "contents m' p' = (bcontent T)\<lparr>n_items := (n_items (bcontent T))[k := last (n_items (bcontent ?A))]\<rparr>"
        "contents m' n' = \<lparr>n_items = n_items (bcontent T) ! k # n_items (bcontent ?B),
          n_children = if n_children (bcontent ?A) = [] then n_children (bcontent ?B)
            else last (n_children (bcontent ?A)) # n_children (bcontent ?B)\<rparr>"
      by (rule rotateRight_spec [OF gs c ne ki])
    let ?t' = "t\<lparr>mem := m', dirtyNodes := (dirtyNodes t)(pageNum a' \<mapsto> a', pageNum p' \<mapsto> p', pageNum n' \<mapsto> n')\<rparr>"
    have "stepped d [a, p, n] t T ?t' p' (rot_right k T) []"
    proof (rule pair_written [OF tl k lv gs num st])
      show "rot_right k T = set_pair k (last (bitems ?A)) (take_last ?A) (put_first (bitems T ! k) ?A ?B) T"
        by (simp add: rot_right_def Let_def)
      then show "contents m' p' = bcontent (rot_right k T)" using c'(2) by (simp add: bcontent_set_pair)
      show "contents m' a' = bcontent (take_last ?A)" "contents m' n' = bcontent (put_first (bitems T ! k) ?A ?B)"
        using c'(1,3) by (simp_all add: bcontent_moves)
      show "pages_mset (rot_right k T) = pages_mset T" by (rule pages_rebalance(1) [OF b k'(2)])
    qed (use lastin in \<open>auto simp: take_last_def put_first_def\<close>)
    then show ?thesis using r write_three_eq [of a' p' n' "t\<lparr>mem := m'\<rparr>"] by (auto simp: bindM_def)
  qed
  show "\<exists>t' p'. bindM (rotateLeft a p n k) write_three t = Some (Inr p', t') \<and> stepped d [a, p, n] t T t' p' (rot_left k T) []"
    if two: "2 \<le> length (bitems ?B)"
  proof -
    have ne: "n_items (bcontent ?B) \<noteq> []" using two by auto
    obtain m' a' p' n' where r: "rotateLeft a p n k t = Some (Inr (a', p', n'), t\<lparr>mem := m'\<rparr>)"
      and st: "gstep (mem t) [a, p, n] m' [a', p', n']"
      and c': "contents m' a' = \<lparr>n_items = n_items (bcontent ?A) @ [n_items (bcontent T) ! k],
          n_children = if n_children (bcontent ?B) = [] then n_children (bcontent ?A)
            else n_children (bcontent ?A) @ [hd (n_children (bcontent ?B))]\<rparr>"
        "contents m' p' = (bcontent T)\<lparr>n_items := (n_items (bcontent T))[k := hd (n_items (bcontent ?B))]\<rparr>"
        "contents m' n' = \<lparr>n_items = tl (n_items (bcontent ?B)), n_children = tl (n_children (bcontent ?B))\<rparr>"
      by (rule rotateLeft_spec [OF gs c ne ki])
    let ?t' = "t\<lparr>mem := m', dirtyNodes := (dirtyNodes t)(pageNum a' \<mapsto> a', pageNum p' \<mapsto> p', pageNum n' \<mapsto> n')\<rparr>"
    have "stepped d [a, p, n] t T ?t' p' (rot_left k T) []"
    proof (rule pair_written [OF tl k lv gs num st])
      show "rot_left k T = set_pair k (hd (bitems ?B)) (put_last (bitems T ! k) ?A ?B) (take_first ?B) T"
        by (simp add: rot_left_def Let_def)
      then show "contents m' p' = bcontent (rot_left k T)" using c'(2) by (simp add: bcontent_set_pair)
      show "contents m' a' = bcontent (put_last (bitems T ! k) ?A ?B)" "contents m' n' = bcontent (take_first ?B)"
        using c'(1,3) by (simp_all add: bcontent_moves)
      show "pages_mset (rot_left k T) = pages_mset T" by (rule pages_rebalance(2) [OF b k'(2)])
    qed (use lastin in \<open>auto simp: take_first_def put_last_def\<close>)
    then show ?thesis using r write_three_eq [of a' p' n' "t\<lparr>mem := m'\<rparr>"] by (auto simp: bindM_def)
  qed
qed

lemma merged:
  assumes tl: "tree_live d t T" and b: "bal (Suc h) T" and k: "Suc k < length (bsubs T)"
    and lv: "live d t p" "live d t n" and ap: "gapart p n" and num: "pageNum p = bpage T" "pageNum n = bpage (bsubs T ! Suc k)"
  shows "\<exists>t' p'. merge_node d p n (Suc k) t = Some (Inr p', t')
    \<and> stepped d [p, n] t T t' p' (merge_sub k T) [bsubs T ! Suc k]"
proof -
  let ?A = "bsubs T ! k" and ?B = "bsubs T ! Suc k"
  have k': "k < length (bsubs T)" "k < length (bitems T)" using k b by simp_all
  have i: "tx_ok t" "path_owned t UNIV" "tree_at (tx_view d t) T" "distinct (page_list T)" using tl by (simp_all add: tree_live_def)
  note dA = distinct_sub_pages [OF i(4) k'(1)] and dB = distinct_sub_pages [OF i(4) k]
  have pl: "bpage ?A \<in> set (page_list ?A)" "bpage ?B \<in> set (page_list ?B)" by (simp_all add: page_list_eq [of ?A] page_list_eq [of ?B])
  then have ne: "pageNum p \<noteq> bpage ?A" "pageNum n \<noteq> bpage ?A" "bpage ?A \<in> set (page_list T)"
    using dA(2,3) dB(4) [OF k'(1)] num by auto
  obtain a t1 where g: "tx_getNode d (bpage ?A) t = Some (Inr a, t1)" "reads t t1" "live d t1 a" "contents (mem t1) a = bcontent ?A"
    "pageNum a = bpage ?A" and apx: "\<forall>x. live d t x \<and> pageNum x \<noteq> bpage ?A \<longrightarrow> gapart x a"
    by (rule fetch_live [OF i(1,2) tree_at_child(2) [OF i(3) k'(1)]])
  have lv1: "live d t1 p" "live d t1 n" using live_reads(1) [OF i(1) g(2)] lv by simp_all
  note tl1 = tree_live_reads [OF g(2) tl]
  have c: "contents (mem t1) p = bcontent T" "contents (mem t1) n = bcontent ?B"
    using live_content(1) [OF tl1 lv1(1) num(1)] live_content(2) [OF tl1 lv1(2) num(2) k] by simp_all
  have gs: "gset (mem t1) [a, p, n]" using g(3) lv1 ap apx lv ne gapart_sym by (auto simp: live_def)
  have p0: "gvalid (mem t) p" "contents (mem t) p = bcontent T" using lv(1) live_content(1) [OF tl lv(1) num(1)] by (simp_all add: live_def)
  have s: "k < length (n_items (bcontent T))" "Suc k < length (n_children (bcontent T))" using k k' by simp_all
  have g': "tx_getNode d (n_children (bcontent T) ! k) t = Some (Inr a, t1)" using g(1) k' by simp
  obtain m' a' p' where r: "merge_node d p n (Suc k) t = Some (Inr p', t1\<lparr>mem := m',
      dirtyNodes := (dirtyNodes t1)(pageNum a \<mapsto> a', pageNum p \<mapsto> p'), pagesToDelete := pagesToDelete t1 @ [pageNum n]\<rparr>)"
    and st: "gstep (mem t1) [a, p] m' [a', p']"
    and c': "contents m' a' = \<lparr>n_items = n_items (bcontent ?A) @ n_items (bcontent T) ! k # n_items (bcontent ?B),
        n_children = if n_children (bcontent ?A) = [] then [] else n_children (bcontent ?A) @ n_children (bcontent ?B)\<rparr>"
      "contents m' p' = \<lparr>n_items = delete_at k (n_items (bcontent T)), n_children = delete_at (Suc k) (n_children (bcontent T))\<rparr>"
    by (rule merge_node_spec [OF gs g(4) c s g(2) p0 g'])
  have pm: "pages_mset T = pages_mset (merge_sub k T) + mset (map bpage [?B])" using pages_rebalance(3) [OF b k'(2)] by simp
  have gs2: "gset (mem t1) [a, p]" using gs by simp
  let ?t' = "t1\<lparr>mem := m', dirtyNodes := (dirtyNodes t1)(pageNum a \<mapsto> a', pageNum p \<mapsto> p'), pagesToDelete := pagesToDelete t1 @ [pageNum n]\<rparr>"
  have "stepped d [a, p] t1 T ?t' p' (merge_sub k T) [?B]"
    by (rule merge_written [OF tl1 k g(3) lv1(1) gs2 g(5) num(1) st _ _ pm])
      (use c' num(2) in \<open>simp_all add: bcontent_moves bcontent_merge_sub\<close>)
  then have "stepped d [p, n] t T ?t' p' (merge_sub k T) [?B]"
    by (rule stepped_reads [OF i(1) g(2)]) (use apx ne(3) in auto)
  then show ?thesis using r by blast
qed

lemma spare_eq: "canSpareAnElement d n t = Some (Inr (getSplitIndex d (contents (mem t) n) \<noteq> - 1), t)"
  by (simp add: canSpareAnElement_def content_of_def bindM_def returnM_def)

lemma stepped_same:
  assumes "stepped d ms t T t' n' T' D" and "set ms \<subseteq> set ns"
  shows "stepped d ns t T t' n' T' D"
proof -
  have "list_all (gapart x) ms" if "list_all (gapart x) ns" for x using assms(2) that by (auto simp: list_all_iff)
  then show ?thesis using assms(1) unfolding stepped_def by blast
qed

text \<open>The assumptions of a step, for the parent \<open>p\<close> and its child \<open>n\<close> with index \<open>i\<close>.\<close>

definition at_step :: "dal \<Rightarrow> tx \<Rightarrow> btree \<Rightarrow> nat \<Rightarrow> gonode \<Rightarrow> gonode \<Rightarrow> nat \<Rightarrow> bool" where
  "at_step d t T h p n i \<longleftrightarrow> tree_live d t T \<and> bal (Suc h) T \<and> bitems T \<noteq> [] \<and> i < length (bsubs T) \<and> live d t p \<and> live d t n
     \<and> gapart p n \<and> pageNum p = bpage T \<and> pageNum n = bpage (bsubs T ! i)"

text \<open>A sibling is fetched: nothing else changes.\<close>

lemma sibling:
  assumes s: "at_step d t T h p n i" and j: "j < length (bsubs T)" "j \<noteq> i"
  obtains m t1 where "get_pg (childNodes p) j t = Some (Inr (bpage (bsubs T ! j)), t)"
    and "tx_getNode d (bpage (bsubs T ! j)) t = Some (Inr m, t1)" and "reads t t1"
    and "at_step d t1 T h p n i" and "live d t1 m" and "contents (mem t1) m = bcontent (bsubs T ! j)" and "pageNum m = bpage (bsubs T ! j)"
    and "gapart p m" and "gapart n m" and "\<forall>x. live d t x \<and> pageNum x \<notin> set (page_list T) \<longrightarrow> gapart x m"
proof -
  have a: "tree_live d t T" "i < length (bsubs T)" "live d t p" "live d t n" "gapart p n" "pageNum p = bpage T" "pageNum n = bpage (bsubs T ! i)"
    using s by (simp_all add: at_step_def)
  have i: "tx_ok t" "path_owned t UNIV" "tree_at (tx_view d t) T" "distinct (page_list T)" using a(1) by (simp_all add: tree_live_def)
  obtain m t1 where g: "tx_getNode d (bpage (bsubs T ! j)) t = Some (Inr m, t1)" "reads t t1" "live d t1 m"
    "contents (mem t1) m = bcontent (bsubs T ! j)" "pageNum m = bpage (bsubs T ! j)"
    "\<forall>x. live d t x \<and> pageNum x \<noteq> bpage (bsubs T ! j) \<longrightarrow> gapart x m"
    by (rule fetch_live [OF i(1,2) tree_at_child(2) [OF i(3) j(1)]])
  have "bpage (bsubs T ! l) \<in> set (page_list (bsubs T ! l))" for l by (simp add: page_list_eq [of "bsubs T ! l"])
  then have ne: "pageNum p \<noteq> bpage (bsubs T ! j)" "pageNum n \<noteq> bpage (bsubs T ! j)" "bpage (bsubs T ! j) \<in> set (page_list T)"
    using distinct_sub_pages [OF i(4) j(1)] distinct_sub_pages(4) [OF i(4) a(2) j] a(6,7) by (metis, metis disjoint_iff, blast)
  have pg: "get_pg (childNodes p) j t = Some (Inr (bpage (bsubs T ! j)), t)"
    using get_pg_eq [of t p j] a(3) live_content(1) [OF a(1,3,6)] j(1) by (simp add: live_def)
  have "at_step d t1 T h p n i"
    using s tree_live_reads [OF g(2)] live_reads(1) [OF i(1) g(2)] by (simp add: at_step_def)
  then show thesis using that [OF pg g(1,2) _ g(3-5)] g(6) a(3,4) ne by metis
qed

lemma rebalance_merge_step:
  assumes s: "at_step d t T h p n i"
  shows "\<exists>t' p'. rebalance_merge d p n i t = Some (Inr p', t') \<and> stepped d [p, n] t T t' p' (fst (merge_at i T)) (snd (merge_at i T))"
proof -
  have a: "tree_live d t T" "bal (Suc h) T" "bitems T \<noteq> []" "i < length (bsubs T)" "live d t p" "live d t n" "gapart p n"
    "pageNum p = bpage T" "pageNum n = bpage (bsubs T ! i)"
    using s by (simp_all add: at_step_def)
  show ?thesis
  proof (cases i)
    case (Suc k)
    then have k: "Suc k < length (bsubs T)" "pageNum n = bpage (bsubs T ! Suc k)" using a(4,9) by simp_all
    obtain t' p' where "merge_node d p n (Suc k) t = Some (Inr p', t')" "stepped d [p, n] t T t' p' (merge_sub k T) [bsubs T ! Suc k]"
      using merged [OF a(1,2) k(1) a(5-8) k(2)] by blast
    then show ?thesis using Suc by (auto simp: rebalance_merge_def merge_at_def)
  next
    case 0
    have k: "Suc 0 < length (bsubs T)" "Suc 0 \<noteq> i" using a(2,3) 0 by auto
    obtain m t1 where g: "get_pg (childNodes p) (Suc 0) t = Some (Inr (bpage (bsubs T ! Suc 0)), t)"
      "tx_getNode d (bpage (bsubs T ! Suc 0)) t = Some (Inr m, t1)" "reads t t1" "at_step d t1 T h p n i" "live d t1 m"
      "contents (mem t1) m = bcontent (bsubs T ! Suc 0)" "pageNum m = bpage (bsubs T ! Suc 0)" "gapart p m" "gapart n m"
      and x: "\<forall>x. live d t x \<and> pageNum x \<notin> set (page_list T) \<longrightarrow> gapart x m"
      by (rule sibling [OF s k])
    have a1: "tree_live d t1 T" "live d t1 p" using g(4) by (simp_all add: at_step_def)
    obtain t' p' where m: "merge_node d p m (Suc 0) t1 = Some (Inr p', t')"
      "stepped d [p, m] t1 T t' p' (merge_sub 0 T) [bsubs T ! Suc 0]"
      using merged [OF a1(1) a(2) k(1) a1(2) g(5,8) a(8) g(7)] by blast
    have "tx_ok t" using a(1) by (simp add: tree_live_def)
    then have "stepped d [p, n] t T t' p' (merge_sub 0 T) [bsubs T ! Suc 0]"
      by (rule stepped_reads [OF _ g(3) m(2)]) (use x in auto)
    then show ?thesis using m(1) 0 g(1,2) by (auto simp: rebalance_merge_def bindM_def merge_at_def)
  qed
qed

lemma rebalance_left_step:
  assumes s: "at_step d t T h p n i"
  shows "\<exists>t' p'. rebalance_left d p n i t = Some (Inr p', t')
    \<and> stepped d [p, n] t T t' p' (fst (take_right_at d i T)) (snd (take_right_at d i T))"
proof -
  have a: "tree_live d t T" "bal (Suc h) T" "i < length (bsubs T)" "live d t p" "live d t n" "gapart p n"
    "pageNum p = bpage T" "pageNum n = bpage (bsubs T ! i)" and ok: "tx_ok t"
    using s by (simp_all add: at_step_def tree_live_def)
  have sl: "slen (childNodes p) = length (bsubs T)"
    using a(4) node_lengths(2) [OF _ live_content(1) [OF a(1,4,7)]] by (simp add: live_def)
  show ?thesis
  proof (cases "Suc i < length (bsubs T)")
    case False
    then have "int i = int (slen (childNodes p)) - 1" using a(3) sl by simp
    then have "rebalance_left d p n i t = rebalance_merge d p n i t" by (simp add: rebalance_left_def)
    then show ?thesis using rebalance_merge_step [OF s] False by (simp add: take_right_at_def)
  next
    case True
    then have k: "int i \<noteq> int (slen (childNodes p)) - 1" "Suc i \<noteq> i" using sl by simp_all
    obtain m t1 where g: "get_pg (childNodes p) (Suc i) t = Some (Inr (bpage (bsubs T ! Suc i)), t)"
      "tx_getNode d (bpage (bsubs T ! Suc i)) t = Some (Inr m, t1)" "reads t t1" "at_step d t1 T h p n i" "live d t1 m"
      "contents (mem t1) m = bcontent (bsubs T ! Suc i)" "pageNum m = bpage (bsubs T ! Suc i)" "gapart p m" "gapart n m"
      and x: "\<forall>x. live d t x \<and> pageNum x \<notin> set (page_list T) \<longrightarrow> gapart x m"
      by (rule sibling [OF s True k(2)])
    show ?thesis
    proof (cases "getSplitIndex d (bcontent (bsubs T ! Suc i)) = - 1")
      case no: True
      obtain t' p' where r: "rebalance_merge d p n i t1 = Some (Inr p', t')"
        "stepped d [p, n] t1 T t' p' (fst (merge_at i T)) (snd (merge_at i T))"
        using rebalance_merge_step [OF g(4)] by blast
      have "rebalance_left d p n i t = Some (Inr p', t')"
        using k(1) g(1,2,6) no r(1) by (simp add: rebalance_left_def bindM_def spare_eq)
      moreover have "stepped d [p, n] t T t' p' (fst (merge_at i T)) (snd (merge_at i T))" by (rule stepped_reads [OF ok g(3) r(2)])
      ultimately show ?thesis using no by (simp add: take_right_at_def spare_def)
    next
      case False
      then have two: "2 \<le> length (bitems (bsubs T ! Suc i))" by (intro spare_two [of d]) (simp add: spare_def)
      have a1: "tree_live d t1 T" "live d t1 p" "live d t1 n" using g(4) by (simp_all add: at_step_def)
      have gs: "gset (mem t1) [n, p, m]" using a1(2,3) g(5,8,9) a(6) gapart_sym by (auto simp: live_def)
      obtain t' p' where r: "bindM (rotateLeft n p m i) write_three t1 = Some (Inr p', t')" "stepped d [n, p, m] t1 T t' p' (rot_left i T) []"
        using rotated(2) [OF a1(1) a(2) True a1(3,2) g(5) gs a(8,7) g(7) two] by blast
      have "rebalance_left d p n i t = Some (Inr p', t')"
        using k(1) g(1,2,6) False r(1) by (simp add: rebalance_left_def bindM_Inr bindM_def [of "get_pg _ _"] bindM_def [of "tx_getNode _ _"]
            bindM_def [of "canSpareAnElement _ _"] spare_eq write_three_def)
      moreover have "stepped d [p, n] t T t' p' (rot_left i T) []" by (rule stepped_reads [OF ok g(3) r(2)]) (use x in auto)
      ultimately show ?thesis using True False by (auto simp: take_right_at_def spare_def)
    qed
  qed
qed

text \<open>\<open>rebalanceRemove\<close> returns and does what \<open>rebalance_at\<close> says.\<close>

lemma rebalanceRemove_step:
  assumes s: "at_step d t T h p n i"
  shows "\<exists>t' p'. rebalanceRemove d p n i t = Some (Inr p', t')
    \<and> stepped d [p, n] t T t' p' (fst (rebalance_at d i T)) (snd (rebalance_at d i T))"
proof -
  have a: "tree_live d t T" "bal (Suc h) T" "i < length (bsubs T)" "live d t p" "live d t n" "gapart p n"
    "pageNum p = bpage T" "pageNum n = bpage (bsubs T ! i)" and ok: "tx_ok t"
    using s by (simp_all add: at_step_def tree_live_def)
  show ?thesis
  proof (cases i)
    case 0
    then have "rebalanceRemove d p n i t = rebalance_left d p n i t" by (simp add: rebalanceRemove_def)
    then show ?thesis using rebalance_left_step [OF s] 0 by (simp add: rebalance_at_def)
  next
    case (Suc k)
    then have k: "k < length (bsubs T)" "k \<noteq> i" "Suc k < length (bsubs T)" "pageNum n = bpage (bsubs T ! Suc k)" using a(3,8) by simp_all
    obtain m t1 where g: "get_pg (childNodes p) k t = Some (Inr (bpage (bsubs T ! k)), t)"
      "tx_getNode d (bpage (bsubs T ! k)) t = Some (Inr m, t1)" "reads t t1" "at_step d t1 T h p n i" "live d t1 m"
      "contents (mem t1) m = bcontent (bsubs T ! k)" "pageNum m = bpage (bsubs T ! k)" "gapart p m" "gapart n m"
      and x: "\<forall>x. live d t x \<and> pageNum x \<notin> set (page_list T) \<longrightarrow> gapart x m"
      by (rule sibling [OF s k(1,2)])
    show ?thesis
    proof (cases "getSplitIndex d (bcontent (bsubs T ! k)) = - 1")
      case no: True
      obtain t' p' where r: "rebalance_left d p n i t1 = Some (Inr p', t')"
        "stepped d [p, n] t1 T t' p' (fst (take_right_at d i T)) (snd (take_right_at d i T))"
        using rebalance_left_step [OF g(4)] by blast
      have "rebalanceRemove d p n i t = Some (Inr p', t')"
        using Suc g(1,2,6) no r(1) by (simp add: rebalanceRemove_def bindM_def spare_eq)
      moreover have "stepped d [p, n] t T t' p' (fst (take_right_at d i T)) (snd (take_right_at d i T))"
        by (rule stepped_reads [OF ok g(3) r(2)])
      ultimately show ?thesis using no Suc by (simp add: rebalance_at_def spare_def)
    next
      case False
      then have two: "2 \<le> length (bitems (bsubs T ! k))" by (intro spare_two [of d]) (simp add: spare_def)
      have a1: "tree_live d t1 T" "live d t1 p" "live d t1 n" using g(4) by (simp_all add: at_step_def)
      have gs: "gset (mem t1) [m, p, n]" using a1(2,3) g(5,8,9) a(6) gapart_sym by (auto simp: live_def)
      obtain t' p' where r: "bindM (rotateRight m p n (Suc k)) write_three t1 = Some (Inr p', t')" "stepped d [m, p, n] t1 T t' p' (rot_right k T) []"
        using rotated(1) [OF a1(1) a(2) k(3) g(5) a1(2,3) gs g(7) a(7) k(4) two] by blast
      have "rebalanceRemove d p n i t = Some (Inr p', t')"
        using Suc g(1,2,6) False r(1) by (simp add: rebalanceRemove_def bindM_def [of "get_pg _ _"] bindM_def [of "tx_getNode _ _"]
            bindM_def [of "canSpareAnElement _ _"] spare_eq write_three_def)
      moreover have "stepped d [p, n] t T t' p' (rot_right k T) []" by (rule stepped_reads [OF ok g(3) r(2)]) (use x in auto)
      ultimately show ?thesis using False Suc by (auto simp: rebalance_at_def spare_def)
    qed
  qed
qed

end
