(* ===== verification/Remove_Rebalance.thy ===== *)
theory Remove_Rebalance
  imports Tx_Rebalance
begin

text \<open>
  \<open>Remove\<close> with rotations and merges: the walk up from the lowest changed node to the root, the new root, and what is left of the
  tree and of its pages.
\<close>

section \<open>The walk up\<close>

lemma stepped_trans:
  assumes "tree_live d t T" and "stepped d ns t T t1 n1 T1 D1" and "stepped d ms t1 T1 t2 n2 T2 D2"
    and "\<And>x. live d t x \<Longrightarrow> pageNum x \<notin> set (page_list T) \<Longrightarrow> list_all (gapart x) ns \<Longrightarrow> list_all (gapart x) ms"
  shows "stepped d ns t T t2 n2 T2 (D1 @ D2)"
proof -
  have e1: "t1 = t\<lparr>mem := mem t1, dirtyNodes := dirtyNodes t1, pagesToDelete := pagesToDelete t @ map bpage D1\<rparr>"
    and e2: "t2 = t1\<lparr>mem := mem t2, dirtyNodes := dirtyNodes t2, pagesToDelete := pagesToDelete t1 @ map bpage D2\<rparr>"
    and p1: "pages_mset T = pages_mset T1 + mset (map bpage D1)" and p2: "pages_mset T1 = pages_mset T2 + mset (map bpage D2)"
    using assms(2,3) by (simp_all add: stepped_def)
  have e: "t2 = t\<lparr>mem := mem t2, dirtyNodes := dirtyNodes t2, pagesToDelete := pagesToDelete t @ map bpage (D1 @ D2)\<rparr>"
    using e1 e2 by (cases t; cases t1; cases t2) simp
  have us: "tx_used t1 = tx_used t" by (subst e1) (simp add: tx_used_def)
  have sub: "set (page_list T1) \<subseteq> set (page_list T)" using arg_cong [OF p1, of set_mset] by (simp add: pages_set)
  have "page_frame d T t t2"
    by (rule page_frame_trans [of d T t t1 T1]) (use assms(2,3) us sub in \<open>auto simp: stepped_def\<close>)
  moreover have "pages_mset T = pages_mset T2 + mset (map bpage (D1 @ D2))" using p1 p2 by simp
  moreover have "list_all (\<lambda>B. tx_view d t2 (bpage B) = Some (bcontent B)) (D1 @ D2)"
  proof -
    have tl: "distinct (page_list T)" "set (page_list T) \<subseteq> tx_used t1" using assms(1) us by (simp_all add: tree_live_def)
    have ms: "mset (page_list T) = mset (page_list T1 @ map bpage D1)" using p1 by (simp add: pages_mset_def)
    have "tx_view d t2 (bpage B) = tx_view d t1 (bpage B)" if "B \<in> set D1" for B
    proof -
      have "bpage B \<in> set (page_list T)" "bpage B \<notin> set (page_list T1)"
        using mset_eq_setD [OF ms] mset_eq_imp_distinct_iff [OF ms] tl(1) that by auto
      then show ?thesis using assms(3) tl(2) by (auto simp: stepped_def page_frame_def)
    qed
    then have "list_all (\<lambda>B. tx_view d t2 (bpage B) = Some (bcontent B)) D1"
      using assms(2) by (simp add: stepped_def list_all_iff)
    moreover have "list_all (\<lambda>B. tx_view d t2 (bpage B) = Some (bcontent B)) D2" using assms(3) by (simp add: stepped_def)
    ultimately show ?thesis by simp
  qed
  moreover have "live d t2 x \<and> contents (mem t2) x = contents (mem t) x \<and> gapart x n2"
    if x: "live d t x" "pageNum x \<notin> set (page_list T)" "list_all (gapart x) ns" for x
  proof -
    have "live d t1 x" "contents (mem t1) x = contents (mem t) x" using assms(2) x by (simp_all add: stepped_def)
    then show ?thesis using assms(3) assms(4) [OF x] x(2) sub by (auto simp: stepped_def)
  qed
  ultimately show ?thesis using assms(2,3) e unfolding stepped_def by simp
qed

lemma on_path_valid: "on_path T below \<Longrightarrow> valid_path (map fst below) T"
  by (induction T below rule: on_path.induct) auto

lemma stepped_used: "stepped d ns t T t' n' T' D \<Longrightarrow> tx_used t' = tx_used t"
  by (cases t; cases t') (simp add: stepped_def tx_used_def)

text \<open>A step of a subtree is a step of the tree, whose own node stays.\<close>

lemma stepped_sub:
  assumes st: "stepped d ns t (bsubs T ! i) t1 n1 S1 D" and tl: "tree_live d t T" and i: "i < length (bsubs T)"
    and pn: "live d t pn" "pageNum pn = bpage T" "list_all (gapart pn) ns"
  shows "stepped d (pn # ns) t T t1 pn (set_sub i S1 T) D" and "tree_live d t1 (set_sub i S1 T)"
proof -
  let ?S = "bsubs T ! i" and ?T1 = "set_sub i S1 T"
  have a: "tree_at (tx_view d t) T" "distinct (page_list T)" "set (page_list T) \<subseteq> tx_used t" using tl by (simp_all add: tree_live_def)
  have s: "tx_ok t1" "path_owned t1 UNIV" "tree_at (tx_view d t1) S1" "bpage S1 = bpage ?S" "pages_mset ?S = pages_mset S1 + mset (map bpage D)"
    "page_frame d ?S t t1" "t1 = t\<lparr>mem := mem t1, dirtyNodes := dirtyNodes t1, pagesToDelete := pagesToDelete t @ map bpage D\<rparr>"
    "list_all (\<lambda>B. tx_view d t1 (bpage B) = Some (bcontent B)) D"
    and x: "\<And>x. live d t x \<Longrightarrow> pageNum x \<notin> set (page_list ?S) \<Longrightarrow> list_all (gapart x) ns \<Longrightarrow>
      live d t1 x \<and> contents (mem t1) x = contents (mem t) x \<and> gapart x n1"
    using st by (simp_all add: stepped_def)
  note dk = distinct_sub_pages [OF a(2) i]
  have at: "tree_at (tx_view d t1) ?T1"
    by (rule tree_at_set_sub [OF a(1,2) i s(4,3)]) (use s(6) a(3) in \<open>auto simp: page_frame_def\<close>)
  have "set_sub i ?S ?T1 = T" by (cases T) (simp add: set_sub_def)
  then have pm: "pages_mset T = pages_mset ?T1 + mset (map bpage D)" using pages_set_sub [of i ?T1 ?S "mset (map bpage D)"] i s(5) by simp
  then have ms: "mset (page_list T) = mset (page_list ?T1 @ map bpage D)" by (simp add: pages_mset_def)
  have pf: "page_frame d T t t1" by (rule page_frame_sub [OF s(6) a(2) i])
  have "live d t1 y \<and> contents (mem t1) y = contents (mem t) y \<and> gapart y pn"
    if "live d t y" "pageNum y \<notin> set (page_list T)" "list_all (gapart y) (pn # ns)" for y
    using x [of y] that dk(3) by auto
  moreover have "live d t1 pn" using x [OF pn(1) _ pn(3)] pn(2) dk(2) by simp
  ultimately show "stepped d (pn # ns) t T t1 pn ?T1 D"
    using s at pm pf pn(2) unfolding stepped_def by simp
  have "set (page_list ?T1) \<subseteq> set (page_list T)" "distinct (page_list ?T1)"
    using mset_eq_setD [OF ms] mset_eq_imp_distinct_iff [OF ms] a(2) by auto
  then show "tree_live d t1 ?T1" using s(1,2) at a(3) stepped_used [OF st] by (auto simp: tree_live_def)
qed

lemma rebalanceAncestors_spec:
  assumes "empty_low d" and "bal h T" and "tree_live d t T" and "on_path T below" and "thick T"
    and "\<forall>n \<in> set (pn # map snd below). live d t n" and "pageNum pn = bpage T" and "sorted_wrt gapart (pn # map snd below)"
    and "rebalance_path d (map fst below) T = (T', D)"
  shows "\<exists>t' pn'. rebalanceAncestors d pn below t = Some (Inr pn', t') \<and> stepped d (pn # map snd below) t T t' pn' T' D"
  using assms(2-)
proof (induction below arbitrary: h T pn t T' D)
  case Nil
  then show ?case by (intro exI [of _ t] exI [of _ pn]) (auto simp: stepped_def tree_live_def)
next
  case (Cons x rest)
  obtain i node where x: "x = (i, node)" by fastforce
  let ?S = "bsubs T ! i" and ?ns = "node # map snd rest"
  have i: "i < length (bsubs T)" "pageNum node = bpage ?S" "on_path ?S rest" using Cons.prems(3) x by simp_all
  obtain h' where h: "h = Suc h'" using Cons.prems(1) i(1) by (cases h) auto
  have bS: "bal h' ?S" using Cons.prems(1) h i(1) by (simp add: list_all_length)
  have tT: "bitems T \<noteq> []" "thick ?S" using Cons.prems(4) thick_iff [of T] i(1) by (auto simp: list_all_length)
  have a: "tx_ok t" "path_owned t UNIV" "tree_at (tx_view d t) T" "distinct (page_list T)" "set (page_list T) \<subseteq> tx_used t"
    using Cons.prems(2) by (simp_all add: tree_live_def)
  note ds = distinct_sub_pages [OF a(4) i(1)]
  have lS: "tree_live d t ?S" using a tree_at_child(1) [OF a(3) i(1)] ds by (auto simp: tree_live_def)
  have hd: "\<forall>n \<in> set ?ns. live d t n" "sorted_wrt gapart ?ns" and pn: "live d t pn" "list_all (gapart pn) ?ns"
    using Cons.prems(5,7) x by (auto simp: list_all_iff)
  obtain S1 D1 where r1: "rebalance_path d (map fst rest) ?S = (S1, D1)" by fastforce
  have "valid_path (map fst rest) ?S" using i(3) by (rule on_path_valid)
  from rebalance_path_tree [OF assms(1) bS tT(2) this r1] have bS1: "bal h' S1" by blast
  obtain t1 node1 where s1: "rebalanceAncestors d node rest t = Some (Inr node1, t1)" "stepped d ?ns t ?S t1 node1 S1 D1"
    using Cons.IH [OF bS lS i(3) tT(2) hd(1) i(2) hd(2) r1] by blast
  let ?T1 = "set_sub i S1 T"
  note st1 = stepped_sub [OF s1(2) Cons.prems(2) i(1) pn(1) Cons.prems(6) pn(2)]
  have all: "pn # map snd (x # rest) = pn # ?ns" using x by simp
  have node1: "live d t1 node1" "pageNum node1 = bpage ?S" "bpage S1 = bpage ?S" and tS1: "tree_at (tx_view d t1) S1"
    using s1(2) by (simp_all add: stepped_def)
  have c1: "contents (mem t1) node1 = bcontent S1"
    using tree_at_root [OF tS1] node1 by (simp add: live_def)
  have ap: "gapart pn node1" using s1(2) pn Cons.prems(6) ds(2) by (simp add: stepped_def)
  show ?case
  proof (cases "isUnderPopulated d (bcontent S1)")
    case False
    have "rebalanceAncestors d pn (x # rest) t = Some (Inr pn, t1)"
      using False s1(1) c1 by (simp add: x bindM_def content_of_def returnM_def)
    moreover have "T' = ?T1" "D = D1" using Cons.prems(8) r1 False x by simp_all
    ultimately show ?thesis using st1(1) unfolding all by blast
  next
    case True
    obtain T2 D2 where r2: "rebalance_at d i ?T1 = (T2, D2)" by fastforce
    have eq: "T' = T2" "D = D1 @ D2" using Cons.prems(8) r1 r2 True x by simp_all
    have "live d t1 pn" using st1(1) by (simp add: stepped_def)
    moreover have "bal (Suc h') ?T1" using bal_set_sub [OF _ bS1] Cons.prems(1) h by simp
    ultimately have "at_step d t1 ?T1 h' pn node1 i"
      using st1(2) tT(1) i(1) node1 ap Cons.prems(6) by (simp add: at_step_def)
    then obtain t2 pn2 where s2: "rebalanceRemove d pn node1 i t1 = Some (Inr pn2, t2)" "stepped d [pn, node1] t1 ?T1 t2 pn2 T2 D2"
      using rebalanceRemove_step r2 by fastforce
    have e: "rebalanceAncestors d pn (x # rest) t = Some (Inr pn2, t2)"
      using True s1(1) c1 s2(1) by (simp add: x bindM_def content_of_def)
    have "stepped d (pn # ?ns) t T t2 pn2 T2 (D1 @ D2)"
    proof (rule stepped_trans [OF Cons.prems(2) st1(1) s2(2)])
      fix y assume y: "live d t y" "pageNum y \<notin> set (page_list T)" "list_all (gapart y) (pn # ?ns)"
      then have "gapart y node1" using s1(2) ds(3) by (auto simp: stepped_def)
      then show "list_all (gapart y) [pn, node1]" using y(3) by simp
    qed
    then show ?thesis using e unfolding all eq by blast
  qed
qed

section \<open>Remove\<close>

lemma path_owned_mono: "path_owned t P \<Longrightarrow> Q \<subseteq> P \<Longrightarrow> path_owned t Q"
  unfolding path_owned_def writable_def by blast

text \<open>The nodes on the path are fetched and the walk is made; \<open>n\<close> is the root node, before and after.\<close>

lemma walk_up:
  assumes el: "empty_low d" and tl: "tree_live d t T" and b: "bal h T" and th: "thick T" and v: "valid_path path T" and rt: "c_root c = bpage T"
    and rp: "rebalance_path d path T = (T', D)"
  obtains n ns t1 n' t' where "getNodes d c (0 # path) t = Some (Inr (n # ns), t1)"
    and "rebalanceAncestors d n (zip path ns) t1 = Some (Inr n', t')" and "stepped d (n # ns) t T t' n' T' D"
    and "length ns = length path" and "path \<noteq> [] \<longrightarrow> pageNum (hd ns) = bpage (bsubs T ! hd path)"
proof -
  note obt = that
  have i: "tx_ok t" "path_owned t UNIV" "tree_at (tx_view d t) T" "distinct (page_list T)" using tl by (simp_all add: tree_live_def)
  have po: "path_owned t (set (path_pages path T))" by (rule path_owned_mono [OF i(2)]) simp
  obtain n ns t1 where g: "getNodes d c (0 # path) t = Some (Inr (n # ns), t1)" "reads t t1" "length ns = length path"
    "on_path T (zip path ns)" "sorted_wrt gapart (n # ns)" "pageNum n = bpage T"
    "\<forall>m \<in> set (n # ns). held d t1 m \<and> owns t1 m \<and> got t m"
    by (rule getNodes_spec [OF v i(3,4,1) po rt])
  have lv: "\<forall>m \<in> set (n # ns). live d t1 m"
  proof
    fix m assume "m \<in> set (n # ns)"
    then have "held d t1 m" "got t m" using g(7) by blast+
    then show "live d t1 m"
      using reads_view [OF g(2) i(1)] by (intro got_live [OF i(1,2) g(2)]) (simp_all add: held_def)
  qed
  have z: "map snd (zip path ns) = ns" "map fst (zip path ns) = path" using g(3) by simp_all
  obtain t' n' where r: "rebalanceAncestors d n (zip path ns) t1 = Some (Inr n', t')" "stepped d (n # ns) t1 T t' n' T' D"
    using rebalanceAncestors_spec [OF el b tree_live_reads [OF g(2) tl] g(4) th, of n, unfolded z, OF lv g(6,5) rp] by blast
  show thesis
  proof (rule obt [OF g(1) r(1) stepped_reads [OF i(1) g(2) r(2)] g(3)])
    show "path \<noteq> [] \<longrightarrow> pageNum (hd ns) = bpage (bsubs T ! hd path)"
      using g(3,4) by (cases path; cases ns) simp_all
  qed
qed

text \<open>What \<open>Remove\<close> leaves of the tree \<open>T\<close> of height \<open>h\<close>: \<open>D\<close> are the nodes given up, and a root that lost its last item is left out.\<close>

definition shrunk :: "dal \<Rightarrow> tx \<Rightarrow> nat \<Rightarrow> btree \<Rightarrow> tx \<Rightarrow> nat \<Rightarrow> btree \<Rightarrow> btree list \<Rightarrow> bool" where
  "shrunk d t h T t' h' T' D \<longleftrightarrow> tree_ok d t' h' T' \<and> thick T' \<and> path_owned t' UNIV \<and> page_frame d T t t'
     \<and> pagesToDelete t' = pagesToDelete t @ map bpage D \<and> tx_freelist t' = tx_freelist t
     \<and> list_all (\<lambda>B. tx_view d t' (bpage B) = Some (bcontent B)) D
     \<and> (h = h' \<and> pages_mset T = pages_mset T' + mset (map bpage D)
       \<or> h = Suc h' \<and> pages_mset T = add_mset (bpage T) (pages_mset T' + mset (map bpage D))
         \<and> tx_view d t' (bpage T) = Some \<lparr>n_items = [], n_children = [bpage T']\<rparr>)"

lemma remove_walk:
  assumes el: "empty_low d" and ok: "tree_ok d t h T" and th: "thick T" and po: "path_owned t UNIV" and rt: "c_root c = bpage T"
    and wr: "tx_write t" and rc: "c_rootCollection c \<Longrightarrow> tx_root t = c_root c" and rm: "removal d T k = Some (T', D, path)"
  shows "\<exists>c' t' h'. Remove d c k t = Some (Inr c', t') \<and> shrunk d t h T t' h' (new_root T') D \<and> inorder (new_root T') = del_item k (inorder T)
    \<and> (if wrong_root T' path then c_root c' \<in> bpage ` set D else c_root c' = bpage (new_root T'))
    \<and> handle_step c (t\<lparr>pagesToDelete := pagesToDelete t'\<rparr>) c' t'"
proof -
  have i: "bal h T" "sorted_items (inorder T)" "distinct (page_list T)" "set (page_list T) \<subseteq> tx_used t" using ok by (simp_all add: tree_ok_def)
  obtain T1 where p: "remove_plan T k = Some (T1, path)" "rebalance_path d path T1 = (T', D)" "thick T1"
    "inorder T' = del_item k (inorder T)" "bal h T'" "pages_mset T = pages_mset T' + mset (map bpage D)" "bpage T' = bpage T" "list_all thick (bsubs T')"
    "bitems T' = [] \<and> bsubs T' \<noteq> [] \<longrightarrow> path \<noteq> [] \<and> (\<exists>S. bsubs T' = [S] \<and> (hd path = 0 \<longrightarrow> bpage S = bpage (bsubs T1 ! 0)))
      \<and> (hd path \<noteq> 0 \<longrightarrow> bpage (bsubs T1 ! hd path) \<in> bpage ` set D)"
    by (rule removal_tree [OF el i(1,2) th rm])
  note sh = remove_plan_shape [OF i(1,2) p(1)]
  obtain t2 where nd: "removed d UNIV t T t2 T1" and e: "Remove d c k t = remove_up d c path t2"
    using remove_nodes [OF ok rt wr p(1) po] by blast
  have r: "tx_ok t2" "tree_at (tx_view d t2) T1" "path_owned t2 UNIV" "page_frame d T t t2"
    "t2 = t\<lparr>mem := mem t2, dirtyNodes := dirtyNodes t2\<rparr>"
    using nd by (simp_all add: removed_def)
  have us2: "tx_used t2 = tx_used t" by (subst r(5)) (simp add: tx_used_def)
  have tl: "tree_live d t2 T1" using r sh(3) i us2 by (simp add: tree_live_def)
  have rt1: "c_root c = bpage T1" using rt sh(2) by simp
  obtain n ns t3 n' t4 where w: "getNodes d c (0 # path) t2 = Some (Inr (n # ns), t3)"
    "rebalanceAncestors d n (zip path ns) t3 = Some (Inr n', t4)" "stepped d (n # ns) t2 T1 t4 n' T' D"
    "length ns = length path" "path \<noteq> [] \<longrightarrow> pageNum (hd ns) = bpage (bsubs T1 ! hd path)"
    by (rule walk_up [OF el tl sh(1) p(3) sh(4) rt1 p(2)])
  have s: "tx_ok t4" "path_owned t4 UNIV" "tree_at (tx_view d t4) T'" "page_frame d T1 t2 t4" "live d t4 n'" "pageNum n' = bpage T1"
    and gv: "list_all (\<lambda>B. tx_view d t4 (bpage B) = Some (bcontent B)) D"
    and e4: "t4 = t2\<lparr>mem := mem t4, dirtyNodes := dirtyNodes t4, pagesToDelete := pagesToDelete t2 @ map bpage D\<rparr>"
    using w(3) by (simp_all add: stepped_def)
  have rest: "t4 = t\<lparr>mem := mem t4, dirtyNodes := dirtyNodes t4, pagesToDelete := pagesToDelete t @ map bpage D\<rparr>"
    using e4 r(5) by (cases t; cases t2; cases t4) simp
  have fl: "tx_used t4 = tx_used t" "tx_write t4 = tx_write t" "tx_root t4 = tx_root t" "pagesToDelete t4 = pagesToDelete t @ map bpage D"
    "collections t4 = collections t" "deletedCollections t4 = deletedCollections t" "tx_freelist t4 = tx_freelist t"
    by (subst rest, simp add: tx_used_def)+
  have pf: "page_frame d T t t4"
    by (rule page_frame_trans [OF r(4) s(4)]) (use us2 sh(3) in auto)
  have so: "sorted_items (inorder T')" using p(4) del_item_sorted [OF i(2)] by simp
  have ms: "mset (page_list T) = mset (page_list T' @ map bpage D)" using p(6) by (simp add: pages_mset_def)
  have di: "distinct (page_list T')" "set (page_list T') \<subseteq> tx_used t4"
    using mset_eq_imp_distinct_iff [OF ms] mset_eq_setD [OF ms] i(3,4) fl(1) by auto
  have c4: "contents (mem t4) n' = bcontent T'" "gvalid (mem t4) n'"
    using s(5,6) tree_at_root [OF s(3)] p(7) sh(2) by (simp_all add: live_def)
  note len = node_lengths [OF c4(2,1)]
  show ?thesis
  proof (cases "bitems T' = [] \<and> bsubs T' \<noteq> []")
    case False
    have "remove_up d c path t2 = Some (Inr c, t4)"
      using False w(1,2) len by (auto simp: remove_up_def bindM_def returnM_def)
    moreover have nr: "new_root T' = T'" "\<not> wrong_root T' path" using False by (auto simp: new_root_def wrong_root_def)
    moreover have "thick T'" using False p(8) thick_iff [of T'] by blast
    then have "shrunk d t h T t4 h T' D"
      using s(1-3) p(5,6) so di pf fl(4,7) gv unfolding shrunk_def tree_ok_def by simp
    moreover have "handle_step c (t\<lparr>pagesToDelete := pagesToDelete t4\<rparr>) c t4"
      using rc fl by (auto simp: handle_step_def)
    ultimately show ?thesis using e p(4,7) rt unfolding nr(1) by (intro exI [of _ c] exI [of _ t4] exI [of _ h]) simp
  next
    case True
    then obtain S where S: "bsubs T' = [S]" "path \<noteq> []" "hd path = 0 \<longrightarrow> bpage S = bpage (bsubs T1 ! 0)"
      "hd path \<noteq> 0 \<longrightarrow> bpage (bsubs T1 ! hd path) \<in> bpage ` set D"
      using mp [OF p(9) True] by (elim conjE exE) simp
    obtain h' where h: "h = Suc h'" using p(5) S(1) by (cases h) auto
    have nr: "new_root T' = S" "wrong_root T' path \<longleftrightarrow> hd path \<noteq> 0" using True S(1) by (auto simp: new_root_def wrong_root_def)
    have nsne: "ns \<noteq> []" using w(4) S(2) by auto
    then have pn: "pageNum ((n # ns) ! 1) = bpage (bsubs T1 ! hd path)" using w(5) S(2) by (simp add: hd_conv_nth)
    obtain c' t5 where sr: "setRoot c (bpage (bsubs T1 ! hd path)) t4 = Some (Inr c', t5)" "same_nodes t4 t5"
      "c_root c' = bpage (bsubs T1 ! hd path)" "handle_step c t4 c' t5"
      by (rule setRoot_spec [of t4 c "bpage (bsubs T1 ! hd path)"]) (use wr rc fl in auto)
    have ru: "remove_up d c path t2 = Some (Inr c', t5)"
      using True w(1,2) len nsne pn sr(1) by (cases ns) (auto simp: remove_up_def bindM_def)
    note sv = same_nodes_view [OF sr(2)]
    have sn: "mem t5 = mem t4" "dirtyNodes t5 = dirtyNodes t4" "pagesToDelete t5 = pagesToDelete t4" "tx_freelist t5 = tx_freelist t4"
      using sr(2) by (simp_all add: same_nodes_def)
    have po5: "path_owned t5 UNIV" using s(2) by (simp add: path_owned_def writable_def owns_def sn(2))
    have pS: "page_list T' = bpage T # page_list S" using S(1) p(7) by (simp add: page_list_eq [of T'])
    have ino: "inorder S = inorder T'" using S(1) True by (simp add: inorder_eq [of T'])
    have "tree_at (tx_view d t5) S" "bal h' S" "thick S"
      using tree_at_child(1) [OF s(3), of 0] S(1) p(5,8) h sv(1) by simp_all
    moreover have "list_all (\<lambda>B. tx_view d t5 (bpage B) = Some (bcontent B)) D" using gv sv(1) by simp
    moreover have "tx_view d t5 (bpage T) = Some \<lparr>n_items = [], n_children = [bpage S]\<rparr>"
      using tree_at_root [OF s(3)] sv(1) p(7) True S(1) by (simp add: bcontent_def)
    moreover have "page_frame d T t t5" using pf sv(1) sn(2) by (simp add: page_frame_def)
    moreover have "pages_mset T = add_mset (bpage T) (pages_mset S + mset (map bpage D))" using p(6) pS by (simp add: pages_mset_def)
    ultimately have sk: "shrunk d t h T t5 h' S D"
      using s(1) sv(2,3) po5 so di pS fl(4,7) sn(3,4) h ino unfolding shrunk_def tree_ok_def by auto
    have "if wrong_root T' path then c_root c' \<in> bpage ` set D else c_root c' = bpage S"
      using S(3,4) sr(3) nr(2) by auto
    moreover have "handle_step c (t\<lparr>pagesToDelete := pagesToDelete t5\<rparr>) c' t5"
      using sr(4) fl sn(3) by (simp add: handle_step_def)
    ultimately show ?thesis using e ru sk ino p(4) nr(1) by metis
  qed
qed

end
