(* ===== verification/Kv_Erase.thy ===== *)
theory Kv_Erase
  imports Remove_Rebalance
begin

text \<open>
  Stores with deletion, interpreted on \<open>Find\<close>, \<open>Put\<close> and \<open>Remove\<close>, rotations and merges included.
\<close>

section \<open>Remove as a deletion\<close>

lemma tree_ok_inv: "tree_ok d t h T \<Longrightarrow> tree_fits b 0 T \<Longrightarrow> tree_inv d b t h T"
  by (simp add: tree_inv_def tree_ok_def)

text \<open>
  A removal that rebalances keeps the collection usable when the root it takes is a page of the tree and no node it grew is too large:
  neither is checked by the code.
\<close>

definition rebalance_ok :: "dal \<Rightarrow> rat \<Rightarrow> btree \<Rightarrow> bytes \<Rightarrow> bool" where
  "rebalance_ok d b T k \<longleftrightarrow> thick T \<and> (case removal d T k of None \<Rightarrow> False
     | Some (T', D, path) \<Rightarrow> \<not> wrong_root T' path \<and> tree_fits b 0 (new_root T'))"

lemma remove_rebalance_inv:
  assumes "fill d a b" and "tree_inv d b t h T" and "path_owned t UNIV" and "c_root c = bpage T" and "tx_write t"
    and "c_rootCollection c \<Longrightarrow> tx_root t = c_root c" and "rebalance_ok d b T k"
  obtains c' t' h' T' where "Remove d c k t = Some (Inr c', t')" and "tree_inv d b t' h' T'" and "c_root c' = bpage T'"
    and "kv_map (inorder T') = (kv_map (inorder T))(k := None)" and "handle_step c (t\<lparr>pagesToDelete := pagesToDelete t'\<rparr>) c' t'"
proof -
  obtain T1 D path where r: "removal d T k = Some (T1, D, path)" "\<not> wrong_root T1 path" "tree_fits b 0 (new_root T1)" "thick T"
    using assms(7) by (auto simp: rebalance_ok_def split: option.splits)
  obtain c' t' h' where w: "Remove d c k t = Some (Inr c', t')" "shrunk d t h T t' h' (new_root T1) D"
    "inorder (new_root T1) = del_item k (inorder T)" "c_root c' = bpage (new_root T1)"
    "handle_step c (t\<lparr>pagesToDelete := pagesToDelete t'\<rparr>) c' t'"
    using remove_walk [OF fill_empty_low [OF assms(1)] tree_inv_ok [OF assms(2)] r(4) assms(3,4,5,6) r(1)] r(2) by auto
  have "tree_inv d b t' h' (new_root T1)" by (rule tree_ok_inv [OF _ r(3)]) (use w(2) in \<open>simp add: shrunk_def\<close>)
  then show thesis using that w kv_map_del by metis
qed

section \<open>Stores with deletion\<close>

locale kv_erase_store = kv_store rep get put can_put
  for rep :: "'s \<Rightarrow> ('k \<rightharpoonup> bytes) \<Rightarrow> bool"
    and get :: "'s \<Rightarrow> 'k \<Rightarrow> (bytes option \<times> 's) option"
    and put :: "'s \<Rightarrow> 'k \<Rightarrow> bytes \<Rightarrow> 's option"
    and can_put :: "'s \<Rightarrow> 'k \<Rightarrow> bytes \<Rightarrow> bool" +
  fixes erase :: "'s \<Rightarrow> 'k \<Rightarrow> 's option"
    and can_erase :: "'s \<Rightarrow> 'k \<Rightarrow> bool"
  assumes erase_rep: "rep s m \<Longrightarrow> can_erase s k \<Longrightarrow> \<exists>s'. erase s k = Some s' \<and> rep s' (m(k := None))"
begin

text \<open>An update sets the value of a key, or deletes the key; a sequence of them, each allowed where it is made.\<close>

definition update :: "'k \<times> bytes option \<Rightarrow> 's \<Rightarrow> 's option" where
  "update kv s = (case snd kv of Some v \<Rightarrow> put s (fst kv) v | None \<Rightarrow> erase s (fst kv))"

primrec updates :: "('k \<times> bytes option) list \<Rightarrow> 's \<Rightarrow> 's option" where
  "updates [] s = Some s"
| "updates (kv # kvs) s = Option.bind (update kv s) (updates kvs)"

primrec can_updates :: "('k \<times> bytes option) list \<Rightarrow> 's \<Rightarrow> bool" where
  "can_updates [] s = True"
| "can_updates (kv # kvs) s = ((case snd kv of Some v \<Rightarrow> can_put s (fst kv) v | None \<Rightarrow> can_erase s (fst kv))
     \<and> (\<forall>s'. update kv s = Some s' \<longrightarrow> can_updates kvs s'))"

lemma updates_rep:
  "rep s m \<Longrightarrow> can_updates kvs s \<Longrightarrow> \<exists>s'. updates kvs s = Some s' \<and> rep s' (fold (\<lambda>(k, v) m. m(k := v)) kvs m)"
proof (induction kvs arbitrary: s m)
  case (Cons kv kvs)
  obtain k v where kv: "kv = (k, v)" by fastforce
  have "\<exists>s1. update kv s = Some s1 \<and> rep s1 (m(k := v))"
    using put_rep [OF Cons.prems(1)] erase_rep [OF Cons.prems(1)] Cons.prems(2) by (cases v) (simp_all add: update_def kv)
  then obtain s1 where s1: "update kv s = Some s1" "rep s1 (m(k := v))" by blast
  then show ?case using Cons.IH [OF s1(2)] Cons.prems(2) by (simp add: kv)
qed simp

end

definition kv_remove :: "dal \<Rightarrow> collection \<times> tx \<Rightarrow> bytes \<Rightarrow> (collection \<times> tx) option" where
  "kv_remove d s k = (case Remove d (fst s) k (snd s) of Some (Inr c, t) \<Rightarrow> Some (c, t) | _ \<Rightarrow> None)"

definition kv_can_remove :: "dal \<Rightarrow> rat \<Rightarrow> collection \<times> tx \<Rightarrow> bytes \<Rightarrow> bool" where
  "kv_can_remove d b s k \<longleftrightarrow> (\<exists>h T. tree_inv d b (snd s) h T \<and> c_root (fst s) = bpage T
     \<and> (kv_map (inorder T) k = None \<or> remove_ok d b T k \<and> remove_safe (snd s) T k \<or> rebalance_ok d b T k \<and> path_owned (snd s) UNIV))"

lemma kv_remove_rep:
  assumes "fill d a b" and "tree_inv d b t h T" and "c_root c = bpage T" and "tx_write t" and "c_rootCollection c \<longrightarrow> tx_root t = c_root c"
    and "kv_map (inorder T) k = None \<or> remove_ok d b T k \<and> remove_safe t T k \<or> rebalance_ok d b T k \<and> path_owned t UNIV"
  shows "\<exists>c' t'. Remove d c k t = Some (Inr c', t') \<and> kv_rep d a b (c', t') ((kv_map (inorder T))(k := None))"
proof (cases "rebalance_ok d b T k \<and> path_owned t UNIV")
  case True
  then obtain c' t' h' T' where r: "Remove d c k t = Some (Inr c', t')" "tree_inv d b t' h' T'" "c_root c' = bpage T'"
    "kv_map (inorder T') = (kv_map (inorder T))(k := None)" "handle_step c (t\<lparr>pagesToDelete := pagesToDelete t'\<rparr>) c' t'"
    using remove_rebalance_inv [OF assms(1,2) _ assms(3,4)] assms(5) by blast
  have "tx_write t'" "c_rootCollection c' \<longrightarrow> tx_root t' = c_root c'" using r(5) assms(4) by (auto simp: handle_step_def)
  then have "kv_rep d a b (c', t') ((kv_map (inorder T))(k := None))"
    unfolding kv_rep_def by (intro conjI exI [of _ h'] exI [of _ T']) (use assms(1) r(2-4) in simp_all)
  then show ?thesis using r(1) by blast
next
  case False
  then have "kv_map (inorder T) k = None \<or> remove_ok d b T k \<and> remove_safe t T k" using assms(6) by blast
  then obtain t' T' where p: "Remove d c k t = Some (Inr c, t')" "tree_inv d b t' h T'" "bpage T' = bpage T"
    "inorder T' = del_item k (inorder T)" "t' = t\<lparr>mem := mem t', dirtyNodes := dirtyNodes t'\<rparr>"
    using remove_spec [OF assms(2,3,4)] by blast
  have w: "tx_write t' = tx_write t" "tx_root t' = tx_root t" by (subst p(5), simp)+
  have "kv_rep d a b (c, t') ((kv_map (inorder T))(k := None))"
    unfolding kv_rep_def
    by (intro conjI exI [of _ h] exI [of _ T']) (use assms(1,3-5) w p(2-4) kv_map_del in simp_all)
  then show ?thesis using p(1) by blast
qed

interpretation kve: kv_erase_store "kv_rep d a b" "kv_get d" "kv_put d" "kv_can_put d b" "kv_remove d" "kv_can_remove d b" for d a b
proof
  fix s :: "collection \<times> tx" and m :: "bytes \<rightharpoonup> bytes" and k
  assume r: "kv_rep d a b s m" and ce: "kv_can_remove d b s k"
  obtain c t where s: "s = (c, t)" by fastforce
  obtain h1 T1 where T1: "fill d a b" "tree_inv d b t h1 T1" "c_root c = bpage T1" "m = kv_map (inorder T1)" "tx_write t"
    "c_rootCollection c \<longrightarrow> tx_root t = c_root c"
    using r s by (auto simp: kv_rep_def)
  obtain h T where T: "tree_inv d b t h T" "c_root c = bpage T"
    "kv_map (inorder T) k = None \<or> remove_ok d b T k \<and> remove_safe t T k \<or> rebalance_ok d b T k \<and> path_owned t UNIV"
    using ce s by (auto simp: kv_can_remove_def)
  have "m = kv_map (inorder T)" using kv_map_unique [OF T1(2) T(1)] T1(3,4) T(2) by simp
  then show "\<exists>s'. kv_remove d s k = Some s' \<and> kv_rep d a b s' (m(k := None))"
    using kv_remove_rep [OF T1(1) T(1,2) T1(5,6) T(3)] s by (auto simp: kv_remove_def)
qed

section \<open>Three nodes that become one\<close>

definition ex_node :: "pgnum \<Rightarrow> nat \<Rightarrow> nat \<Rightarrow> gonode" where
  "ex_node p i cs = \<lparr>pageNum = p, items = Slice i 0 1, childNodes = Slice i 0 cs\<rparr>"

definition ex3_tx :: tx where
  "ex3_tx = (newTx (\<lambda>_ n. n) ex_db True)\<lparr>
     mem := \<lparr>grow = \<lambda>_ n. n, itemArrays = [GArray [newItem [10] [1]] 1, GArray [newItem [20] [2]] 1, GArray [newItem [30] [3]] 1],
       pgArrays = [GArray [] 0, GArray [3, 4] 2, GArray [] 0]\<rparr>,
     dirtyNodes := Map.empty(3 \<mapsto> ex_node 3 0 0, 5 \<mapsto> ex_node 5 1 2, 4 \<mapsto> ex_node 4 2 0),
     tx_freelist := Some \<lparr>maxPage = 5, releasedPages = []\<rparr>\<rparr>"

definition ex3_tree :: btree where
  "ex3_tree = BNode 5 [newItem [20] [2]] [BNode 3 [newItem [10] [1]] [], BNode 4 [newItem [30] [3]] []]"

lemma ex3_removal:
  "removal kv_db ex3_tree [10] = Some (BNode 5 [] [BNode 3 [newItem [20] [2], newItem [30] [3]] []], [BNode 4 [newItem [30] [3]] []], [0])"
  by code_simp

lemma ex3_inv: "tree_inv kv_db 2048 ex3_tx 1 ex3_tree" "thick ex3_tree" "path_owned ex3_tx UNIV" "tx_write ex3_tx"
  subgoal by (auto simp: tree_inv_def tx_ok_def gvalid_def svalid_def ex3_tx_def ex3_tree_def ex_node_def tx_view_def contents_def
      scontent_def newTx_def tx_used_def freelist_used_def tree_fits_def node_fits_def nodeSize_esum newItem_def bcontent_def
      split: if_split_asm)
  subgoal by (simp add: ex3_tree_def thick_iff)
  subgoal by (auto simp: path_owned_def writable_def owns_def gbefore_def before_def gapart_def ex3_tx_def ex_node_def split: if_split_asm)
  subgoal by (simp add: ex3_tx_def newTx_def)
  done

section \<open>Three levels\<close>

text \<open>
  The key \<open>40\<close> of the root: its predecessor \<open>30\<close> is two levels below. It moves up, its leaf goes, then an inner node, then the root.
\<close>

definition ex7_tx :: tx where
  "ex7_tx = (newTx (\<lambda>_ n. n) ex_db True)\<lparr>
     mem := \<lparr>grow = \<lambda>_ n. n, itemArrays = map (\<lambda>k. GArray [newItem [k] [k]] 1) [10, 30, 50, 70, 20, 60, 40],
       pgArrays = [GArray [] 0, GArray [] 0, GArray [] 0, GArray [] 0, GArray [3, 4] 2, GArray [5, 6] 2, GArray [7, 8] 2]\<rparr>,
     dirtyNodes := Map.empty(3 \<mapsto> ex_node 3 0 0, 4 \<mapsto> ex_node 4 1 0, 5 \<mapsto> ex_node 5 2 0, 6 \<mapsto> ex_node 6 3 0,
       7 \<mapsto> ex_node 7 4 2, 8 \<mapsto> ex_node 8 5 2, 9 \<mapsto> ex_node 9 6 2),
     tx_freelist := Some \<lparr>maxPage = 9, releasedPages = []\<rparr>\<rparr>"

definition ex7_tree :: btree where
  "ex7_tree = (let leaf = \<lambda>p k. BNode p [newItem [k] [k]] [] in BNode 9 [newItem [40] [40]]
     [BNode 7 [newItem [20] [20]] [leaf 3 10, leaf 4 30], BNode 8 [newItem [60] [60]] [leaf 5 50, leaf 6 70]])"

lemma ex7_removal:
  "removal kv_db ex7_tree [40] = Some (BNode 9 [] [BNode 7 [newItem [30] [30], newItem [60] [60]]
       [BNode 3 [newItem [10] [10], newItem [20] [20]] [], BNode 5 [newItem [50] [50]] [], BNode 6 [newItem [70] [70]] []]],
     [BNode 4 [] [], BNode 8 [newItem [60] [60]] [BNode 5 [newItem [50] [50]] [], BNode 6 [newItem [70] [70]] []]], [0, 1])"
  by code_simp

lemma ex7_inv: "tree_inv kv_db 2048 ex7_tx (Suc (Suc 0)) ex7_tree" "thick ex7_tree" "path_owned ex7_tx UNIV" "tx_write ex7_tx"
  subgoal by (auto simp: tree_inv_def tx_ok_def gvalid_def svalid_def ex7_tx_def ex7_tree_def ex_node_def tx_view_def contents_def
      scontent_def newTx_def tx_used_def freelist_used_def tree_fits_def node_fits_def nodeSize_esum newItem_def bcontent_def
      split: if_split_asm)
  subgoal by (simp add: ex7_tree_def thick_iff)
  subgoal by (auto simp: path_owned_def writable_def owns_def gbefore_def before_def gapart_def ex7_tx_def ex_node_def split: if_split_asm)
  subgoal by (simp add: ex7_tx_def newTx_def)
  done

section \<open>Properties\<close>

text \<open>
  C6: \<open>Remove\<close> with rotations and merges, on trees where every inner node has an item. Where the item is in a leaf, or the descent
  to its predecessor ends in the leaf before it, and the changed nodes of the transaction share no memory, \<open>Remove\<close> returns: the walk up does on the pages what \<open>rebalance_path\<close>
  does on the tree, the key is gone and every other key keeps its value, the tree is balanced and ordered, and no other page has changed. The
  pages given up by merges are recorded for release; the page of a root that lost its last item is not. The root of the collection is that of
  the tree, unless such a root went after a removal below its second child: then it is a page that was given up.
\<close>

theorem remove_rebalances:
  assumes "fill d a b" and "tree_ok d t h T" and "thick T" and "path_owned t UNIV" and "c_root c = bpage T" and "tx_write t"
    and "c_rootCollection c \<longrightarrow> tx_root t = c_root c" and "removal d T k = Some (T', D, path)"
  shows "\<exists>c' t' h'. Remove d c k t = Some (Inr c', t') \<and> tree_ok d t' h' (new_root T') \<and> thick (new_root T') \<and> path_owned t' UNIV
    \<and> kv_map (inorder (new_root T')) = (kv_map (inorder T))(k := None)
    \<and> (\<forall>p \<in> tx_used t. p \<notin> set (page_list T) \<longrightarrow> tx_view d t' p = tx_view d t p)
    \<and> pagesToDelete t' = pagesToDelete t @ map bpage D
    \<and> (h = h' \<and> pages_mset T = pages_mset (new_root T') + mset (map bpage D)
      \<or> h = Suc h' \<and> pages_mset T = add_mset (bpage T) (pages_mset (new_root T') + mset (map bpage D)))
    \<and> (if wrong_root T' path then c_root c' \<in> bpage ` set D else c_root c' = bpage (new_root T'))"
proof -
  obtain c' t' h' where w: "Remove d c k t = Some (Inr c', t')" "shrunk d t h T t' h' (new_root T') D"
    "inorder (new_root T') = del_item k (inorder T)"
    "if wrong_root T' path then c_root c' \<in> bpage ` set D else c_root c' = bpage (new_root T')"
    using remove_walk [OF fill_empty_low [OF assms(1)] assms(2-6) _ assms(8)] assms(7) by blast
  show ?thesis
    by (intro exI [of _ c'] exI [of _ t'] exI [of _ h'] conjI w(1,4))
      (use w(2) kv_map_del in \<open>auto simp add: w(3) shrunk_def page_frame_def\<close>)
qed

lemma remove_rebalances_witness:
  "\<exists>c' t' h'. Remove kv_db (newCollection [9] 9) [40] ex7_tx = Some (Inr c', t') \<and> c_root c' = 7 \<and> pagesToDelete t' = [4, 8]
    \<and> tree_ok kv_db t' h' (BNode 7 [newItem [30] [30], newItem [60] [60]]
      [BNode 3 [newItem [10] [10], newItem [20] [20]] [], BNode 5 [newItem [50] [50]] [], BNode 6 [newItem [70] [70]] []])"
proof -
  have c: "c_root (newCollection [9] 9) = bpage ex7_tree" "c_rootCollection (newCollection [9] 9) \<longrightarrow> tx_root ex7_tx = 9"
    by (simp_all add: newCollection_def ex7_tree_def)
  have "pagesToDelete ex7_tx = []" by (simp add: ex7_tx_def newTx_def)
  then show ?thesis
    using remove_rebalances [OF kv_fill tree_inv_ok [OF ex7_inv(1)] ex7_inv(2,3) c(1) ex7_inv(4) _ ex7_removal] c(2)
    by (force simp: new_root_def wrong_root_def newCollection_def)
qed

text \<open>
  C8: after any sequence of \<open>Put\<close>s and \<open>Remove\<close>s, each allowed where it is made, \<open>Find\<close> returns for every key what the last
  of them on that key says, the value put or nothing, and for the others what it returned before.
\<close>

theorem updates_then_find:
  assumes "kv_rep d a b s m" and "kve.can_updates d b kvs s"
  shows "\<exists>s'. kve.updates d kvs s = Some s' \<and> (\<forall>k. \<exists>s''. kv_get d s' k = Some (fold (\<lambda>(k, v) m. m(k := v)) kvs m k, s''))"
proof -
  obtain s' where "kve.updates d kvs s = Some s'" "kv_rep d a b s' (fold (\<lambda>(k, v) m. m(k := v)) kvs m)"
    using kve.updates_rep [OF assms] by blast
  then show ?thesis using kv.get_rep by blast
qed

lemma ex3_rebalance_ok: "rebalance_ok kv_db 2048 ex3_tree [10]"
proof -
  have "tree_fits 2048 0 (BNode 3 [newItem [20] [2], newItem [30] [3]] [])"
    by (auto simp: tree_fits_def node_fits_def nodeSize_esum newItem_def bcontent_def)
  then show ?thesis by (simp add: rebalance_ok_def ex3_inv(2) ex3_removal wrong_root_def new_root_def)
qed

lemma updates_then_find_witness:
  "\<exists>s' s1 s2. kve.updates kv_db [([10], None)] (newCollection [9] 5, ex3_tx) = Some s'
    \<and> kv_get kv_db s' [10] = Some (None, s1) \<and> kv_get kv_db s' [20] = Some (Some [2], s2)"
proof -
  let ?s = "(newCollection [9] 5, ex3_tx)"
  have c: "c_root (newCollection [9] 5) = bpage ex3_tree" by (simp add: newCollection_def ex3_tree_def)
  have r: "kv_rep kv_db 1024 2048 ?s (kv_map (inorder ex3_tree))"
    unfolding kv_rep_def
    by (intro conjI exI [of _ 1] exI [of _ ex3_tree]) (use kv_fill ex3_inv c in \<open>simp_all add: newCollection_def\<close>)
  have "kv_can_remove kv_db 2048 ?s [10]"
    unfolding kv_can_remove_def
    by (intro exI [of _ 1] exI [of _ ex3_tree] conjI disjI2) (use ex3_inv c ex3_rebalance_ok in simp_all)
  then have "kve.can_updates kv_db 2048 [([10], None)] ?s" by simp
  then obtain s' where u: "kve.updates kv_db [([10], None)] ?s = Some s'"
    and g: "\<forall>k. \<exists>s2. kv_get kv_db s' k = Some (fold (\<lambda>(k, v) m. m(k := v)) [([10], None)] (kv_map (inorder ex3_tree)) k, s2)"
    using updates_then_find [OF r, of "[([10], None)]"] by blast
  have "\<exists>s1. kv_get kv_db s' [10] = Some (None, s1)" "\<exists>s2. kv_get kv_db s' [20] = Some (Some [2], s2)"
    using g [rule_format, of "[10]"] g [rule_format, of "[20]"] by (simp_all add: ex3_tree_def kv_map_def newItem_def)
  then show ?thesis using u by blast
qed

end
