(* ===== verification/Given_Up.thy ===== *)
theory Given_Up
  imports Tree_Rebalance Db_Store
begin

text \<open>
  The nodes that merges give up. They are still among the changed nodes of the transaction when it commits, so they have to fit their
  pages: a node on the path is given up only when it is under-populated, and its siblings are as they were.
\<close>

section \<open>Under-populated nodes\<close>

lemma f32_round_large:
  assumes "2 ^ 24 \<le> n"
  shows "2 ^ 23 \<le> f32_round_abs (of_nat n)"
proof -
  define N where "N = n * 2 ^ 149"
  define k where "k = floorlog 2 N - 24"
  have N: "0 < N" "2 ^ 173 \<le> N" using assms unfolding N_def by simp_all
  have y: "of_nat n * 2 ^ 149 = (of_nat N :: rat)" by (simp add: N_def)
  have lo: "2 ^ (floorlog 2 N - 1) \<le> N" using floorlog_bounds [of N 2] N(1) by auto
  have "\<not> floorlog 2 N < 174" using floorlog_bounds [of N 2] N power_increasing [of "floorlog 2 N" 173 "2 :: nat"] by fastforce
  then have fl: "floorlog 2 N - 1 = k + 23" "150 \<le> k" by (simp_all add: k_def)
  have "2 ^ 23 * 2 ^ k \<le> N" using lo unfolding fl(1) power_add by (simp only: mult.commute)
  then have "(of_nat (2 ^ 23 * 2 ^ k) :: rat) \<le> of_nat N" by (simp only: of_nat_le_iff)
  then have "2 ^ 23 \<le> (of_nat N :: rat) / 2 ^ k" by (simp add: le_divide_eq)
  then have "2 ^ 23 \<le> \<lfloor>(of_nat N :: rat) / 2 ^ k\<rfloor>" by (simp add: le_floor_iff)
  also have "\<lfloor>q\<rfloor> \<le> round_even q" for q by (simp add: round_even_def Let_def)
  finally have "(of_int (2 ^ 23) :: rat) \<le> of_int (round_even (of_nat N / 2 ^ k))" by (simp only: of_int_le_iff)
  then have r: "(2 ^ 23 :: rat) \<le> of_int (round_even (of_nat N / 2 ^ k))" by simp
  have p: "(2 ^ 149 :: rat) \<le> 2 ^ k" using fl(2) by (intro power_increasing) simp_all
  have "(2 ^ 23 * 2 ^ 149 :: rat) \<le> of_int (round_even (of_nat N / 2 ^ k)) * 2 ^ k"
    by (rule mult_mono [OF r p]) (use r in \<open>simp_all add: order_trans [OF _ r]\<close>)
  then have "2 ^ 23 \<le> of_int (round_even (of_nat N / 2 ^ k)) * 2 ^ k / (2 ^ 149 :: rat)" by (simp add: le_divide_eq)
  moreover have "nat \<lfloor>of_nat n * 2 ^ 149 :: rat\<rfloor> = N" unfolding y by simp
  then have "f32_round_abs (of_nat n) = of_int (round_even (of_nat N / 2 ^ k)) * 2 ^ k / 2 ^ 149"
    unfolding f32_round_abs_def Let_def k_def by (simp only: y)
  ultimately show ?thesis by (simp only:)
qed

lemma underpopulated_fits:
  assumes "fill d a b" and "small_items (n_items c)" and "isUnderPopulated d c"
  shows "node_fits b 0 c"
proof -
  have f: "minThreshold d = Fin a" "a < b" "b < 2 ^ 23" using assms(1) by (simp_all add: fill_def)
  have u: "f32_less (f32_of_int (int (nodeSize c))) (Fin a)" using assms(3) f(1) by (simp add: isUnderPopulated_def)
  have "nodeSize c < 2 ^ 24"
  proof (rule ccontr)
    assume "\<not> nodeSize c < 2 ^ 24"
    then have "2 ^ 23 \<le> f32_round_abs (of_nat (nodeSize c))" by (intro f32_round_large) simp
    then show False using u f(2,3) by (simp add: f32_of_int_def f32_of_rat_def Let_def split: if_split_asm)
  qed
  then have "of_nat (nodeSize c) < a" using u by (simp add: f32_of_int_exact)
  then show ?thesis using assms(2) f(2) by (simp add: node_fits_def)
qed

section \<open>The siblings of the nodes on a path\<close>

fun sides :: "(btree \<Rightarrow> bool) \<Rightarrow> nat list \<Rightarrow> btree \<Rightarrow> bool" where
  "sides P [] T = True"
| "sides P (i # rest) T = ((\<forall>j < length (bsubs T). j \<noteq> i \<longrightarrow> P (bsubs T ! j)) \<and> sides P rest (bsubs T ! i))"

lemma sides_all: "all_nodes Q T \<Longrightarrow> valid_path path T \<Longrightarrow> sides (all_nodes Q) path T"
proof (induction path arbitrary: T)
  case (Cons i rest)
  then show ?case using all_nodes_iff [of Q T] by (auto simp: list_all_length)
qed simp

lemma sides_store: "valid_path path T \<Longrightarrow> sides P (path @ q) (store_at path its T) = sides P (path @ q) T"
proof (induction path arbitrary: T)
  case Nil
  then show ?case by (cases q) simp_all
next
  case (Cons i rest)
  then show ?case by (auto simp: nth_list_update)
qed

lemma remove_plan_sides:
  assumes "bal h T" and "sorted_items (inorder T)" and "remove_plan T k = Some (T', path)" and "all_nodes Q T"
  shows "sides (all_nodes Q) path T'"
  using assms(1-3)
proof (cases rule: remove_plan_cases)
  case (leaf j u p)
  then show ?thesis using sides_store [OF leaf(2), of "all_nodes Q" "[]"] sides_all [OF assms(4) leaf(2)] by simp
next
  case (inner j u p q v)
  let ?T1 = "store_at p ((bitems u)[j := last (bitems v)]) T"
  have vp: "valid_path (p @ j # q) T" "valid_path (p @ j # q) ?T1"
    using inner(2,3,8) by (simp_all add: valid_path_append path_sub_append path_sub_store)
  show ?thesis unfolding inner(13,14)
    using sides_store [OF vp(2), of "all_nodes Q" "[]"] sides_store [OF inner(2), of "all_nodes Q" "j # q"] sides_all [OF assms(4) vp(1)] by simp
qed

section \<open>What is given up\<close>

lemma rebalance_at_given:
  "rebalance_at d i T = (T', D) \<Longrightarrow> B \<in> set D \<Longrightarrow> B = bsubs T ! (if i = 0 then Suc 0 else i)"
  by (auto simp: rebalance_at_def take_right_at_def merge_at_def split: if_split_asm)

lemma inorder_sub: "bal (Suc h) T \<Longrightarrow> i < length (bsubs T) \<Longrightarrow> \<exists>xs ys. inorder T = xs @ inorder (bsubs T ! i) @ ys"
  using weave_at_sub [of "map inorder (bsubs T)" "bitems T" i] by (auto simp: inorder_eq [of T])

lemma rebalance_path_given:
  assumes "empty_low d" and "bal h T" and "thick T" and "valid_path path T" and "rebalance_path d path T = (T', D)"
    and "sides P path T" and "B \<in> set D"
  shows "(P B \<or> isUnderPopulated d (bcontent B)) \<and> (\<exists>g. bal g B) \<and> (\<exists>xs ys. inorder T = xs @ inorder B @ ys)"
  using assms(2-)
proof (induction path arbitrary: h T T' D)
  case (Cons i rest)
  let ?S = "bsubs T ! i"
  have i: "i < length (bsubs T)" "valid_path rest ?S" using Cons.prems(3) by simp_all
  obtain h' where h: "h = Suc h'" using Cons.prems(1) i(1) by (cases h) auto
  have bS: "bal h' ?S" using Cons.prems(1) h i(1) by (simp add: list_all_length)
  have tT: "bitems T \<noteq> []" "thick ?S" using Cons.prems(2) thick_iff [of T] i(1) by (auto simp: list_all_length)
  obtain S1 D1 where r1: "rebalance_path d rest ?S = (S1, D1)" by fastforce
  have s1: "inorder S1 = inorder ?S" "bal h' S1" using rebalance_path_tree [OF assms(1) bS tT(2) i(2) r1] by blast+
  let ?T1 = "set_sub i S1 T"
  have bT1: "bal (Suc h') ?T1" using bal_set_sub [OF _ s1(2)] Cons.prems(1) h by simp
  have in1: "inorder ?T1 = inorder T" by (rule inorder_set_sub_same [OF s1(1)])
  show ?case
  proof (cases "B \<in> set D1")
    case True
    then have "(P B \<or> isUnderPopulated d (bcontent B)) \<and> (\<exists>g. bal g B) \<and> (\<exists>xs ys. inorder ?S = xs @ inorder B @ ys)"
      using Cons.IH [OF bS tT(2) i(2) r1] Cons.prems(5) by simp
    moreover obtain xs ys where "inorder T = xs @ inorder ?S @ ys" using inorder_sub [of h' T i] Cons.prems(1) h i(1) by auto
    ultimately show ?thesis by (metis append.assoc)
  next
    case False
    then obtain T2 D2 where r2: "rebalance_at d i ?T1 = (T2, D2)" "B \<in> set D2" and u: "isUnderPopulated d (bcontent S1)"
      using Cons.prems(4,6) r1 by (auto simp: Let_def split: if_split_asm prod.splits)
    let ?j = "if i = 0 then Suc 0 else i"
    have B: "B = bsubs ?T1 ! ?j" by (rule rebalance_at_given [OF r2])
    have "1 < length (bsubs ?T1)" using bT1 tT(1) by (cases "bitems T") simp_all
    then have j: "?j < length (bsubs ?T1)" using i(1) by simp
    have "bal h' B" using bal_child [OF bT1 j] B by simp
    moreover have "P B \<or> isUnderPopulated d (bcontent B)" using B j u i(1) Cons.prems(5) by (cases "i = 0") simp_all
    ultimately show ?thesis using inorder_sub [OF bT1 j] in1 B by metis
  qed
qed simp

text \<open>In a tree within the size limits, every node given up is.\<close>

lemma given_up_fit:
  assumes fl: "fill d a b" and b: "bal h T" and so: "sorted_items (inorder T)" and th: "thick T" and tf: "tree_fits b 0 T"
    and rm: "removal d T k = Some (T', D, path)" and B: "B \<in> set D"
  shows "node_fits b 0 (bcontent B)" and "isLeaf (bcontent B) \<or> length (n_children (bcontent B)) = length (n_items (bcontent B)) + 1"
    and "length (bitems B) \<le> length (inorder T)"
proof -
  note el = fill_empty_low [OF fl]
  have an: "all_nodes (node_fits b 0) T" using tf by (simp add: tree_fits_0)
  obtain T1 where p: "remove_plan T k = Some (T1, path)" "rebalance_path d path T1 = (T', D)" "thick T1"
    by (rule removal_tree [OF el b so th rm])
  note sh = remove_plan_shape [OF b so p(1)]
  obtain g xs ys where r: "all_nodes (node_fits b 0) B \<or> isUnderPopulated d (bcontent B)" "bal g B" "inorder T1 = xs @ inorder B @ ys"
    using rebalance_path_given [OF el sh(1) p(3) sh(4) p(2) remove_plan_sides [OF b so p(1) an] B] by blast
  have ino: "inorder T1 = del_item k (inorder T)" by (rule remove_plan_inorder [OF b so p(1)])
  have sB: "set (bitems B) \<subseteq> set (inorder B)" using set_items_weave [of "bitems B"] by (simp add: inorder_eq [of B])
  have "all_nodes (\<lambda>c. small_items (n_items c)) T" using an by (induction T) (auto simp: node_fits_def list_all_iff)
  then have "small_items (inorder T)" by (rule small_inorder)
  moreover have "set (inorder B) \<subseteq> set (inorder T1)" by (auto simp: r(3))
  moreover have "set (inorder T1) \<subseteq> set (inorder T)" by (auto simp: ino del_item_def)
  ultimately have sm: "small_items (n_items (bcontent B))" using sB by (auto simp: small_items_def list_all_iff)
  show "node_fits b 0 (bcontent B)"
    using r(1) underpopulated_fits [OF fl sm] all_nodes_iff [of _ B] by blast
  show "isLeaf (bcontent B) \<or> length (n_children (bcontent B)) = length (n_items (bcontent B)) + 1"
    using bal_cases [OF r(2)] by (auto simp: isLeaf_def bcontent_def)
  have "length (bitems B) \<le> length (inorder B)"
    using items_le_inorder [OF r(2)] all_nodes_iff [of _ B] by simp
  moreover have "length (inorder T1) \<le> length (inorder T)" using ino by (simp add: del_item_def)
  ultimately show "length (bitems B) \<le> length (inorder T)" using r(3) by simp
qed

end
