(* ===== verification/Kv_Delete.thy ===== *)
theory Kv_Delete
  imports Kv_Cli Kv_Erase Given_Up
begin

text \<open>
  What a whole write transaction that removes one item and commits does to a database.
\<close>

lemma del_item_length: "length (del_item k its) \<le> length its"
  by (simp add: del_item_def)

section \<open>\<open>Remove\<close> in a transaction that has changed nothing\<close>

text \<open>
  When a removal keeps a database sound: nothing is rebalanced, or the new root is the right one, the nodes that grow are within the
  limit, and the list of released pages has room in its page for the pages given up.
\<close>

definition delete_ok :: "dal \<Rightarrow> rat \<Rightarrow> btree \<Rightarrow> bytes \<Rightarrow> bool" where
  "delete_ok d b T k \<longleftrightarrow> remove_ok d b T k \<or> rebalance_ok d b T k \<and> (case removal d T k of None \<Rightarrow> False
     | Some (_, D, _) \<Rightarrow> 10 + 8 * (length (releasedPages (d_freelist d)) + length D) \<le> pageSize d)"

text \<open>What it does to the tree \<open>T\<close>; the pages that are no longer in it hold nodes within the limit.\<close>

definition deleted :: "dal \<Rightarrow> rat \<Rightarrow> tx \<Rightarrow> nat \<Rightarrow> btree \<Rightarrow> bytes \<Rightarrow> tx \<Rightarrow> nat \<Rightarrow> btree \<Rightarrow> bool" where
  "deleted d b t h T k t' h' T' \<longleftrightarrow> tree_inv d b t' h' T' \<and> h' \<le> h \<and> inorder T' = del_item k (inorder T) \<and> page_frame d T t t'
     \<and> tx_freelist t' = tx_freelist t \<and> set (page_list T') \<subseteq> set (page_list T)
     \<and> distinct (pagesToDelete t') \<and> set (pagesToDelete t') \<subseteq> set (page_list T) - set (page_list T')
     \<and> 10 + 8 * (length (releasedPages (d_freelist d)) + length (pagesToDelete t')) \<le> pageSize d
     \<and> (\<forall>p \<in> set (page_list T) - set (page_list T'). \<exists>e. tx_view d t' p = Some e \<and> node_fits b 0 e
          \<and> (isLeaf e \<or> length (n_children e) = length (n_items e) + 1) \<and> length (n_items e) \<le> length (inorder T))"

lemma shrunk_deleted:
  assumes fl: "fill d a b" and inv: "tree_inv d b t h T" and th: "thick T" and cl: "pagesToDelete t = []"
    and rm: "removal d T k = Some (T', D, path)" and tf: "tree_fits b 0 (new_root T')"
    and sh: "shrunk d t h T t' h' (new_root T') D" and ino: "inorder (new_root T') = del_item k (inorder T)"
    and room: "10 + 8 * (length (releasedPages (d_freelist d)) + length D) \<le> pageSize d"
  shows "deleted d b t h T k t' h' (new_root T')"
proof -
  let ?S = "new_root T'"
  have i: "bal h T" "sorted_items (inorder T)" "tree_fits b 0 T" "distinct (page_list T)" using inv by (simp_all add: tree_inv_def)
  have s: "tree_ok d t' h' ?S" "page_frame d T t t'" "pagesToDelete t' = map bpage D" "tx_freelist t' = tx_freelist t"
    and gv: "\<forall>B \<in> set D. tx_view d t' (bpage B) = Some (bcontent B)"
    using sh cl by (simp_all add: shrunk_def list_all_iff)
  consider (same) "h = h'" "mset (page_list T) = mset (page_list ?S @ map bpage D)"
    | (less) "h = Suc h'" "mset (page_list T) = mset (bpage T # page_list ?S @ map bpage D)"
        "tx_view d t' (bpage T) = Some \<lparr>n_items = [], n_children = [bpage ?S]\<rparr>"
    using sh unfolding shrunk_def pages_mset_def by (elim conjE disjE) auto
  then have "h' \<le> h \<and> set (page_list ?S) \<subseteq> set (page_list T) \<and> distinct (map bpage D) \<and> set (map bpage D) \<subseteq> set (page_list T) - set (page_list ?S)
    \<and> (\<forall>p \<in> set (page_list T) - set (page_list ?S). p \<in> bpage ` set D \<or> tx_view d t' p = Some \<lparr>n_items = [], n_children = [bpage ?S]\<rparr>)"
  proof cases
    case same
    then show ?thesis using mset_eq_setD [OF same(2)] mset_eq_imp_distinct_iff [OF same(2)] i(4) by auto
  next
    case less
    then show ?thesis using mset_eq_setD [OF less(2)] mset_eq_imp_distinct_iff [OF less(2)] i(4) by auto
  qed
  then have g: "h' \<le> h" "set (page_list ?S) \<subseteq> set (page_list T)" "distinct (map bpage D)" "set (map bpage D) \<subseteq> set (page_list T) - set (page_list ?S)"
    and gone: "\<And>p. p \<in> set (page_list T) - set (page_list ?S) \<Longrightarrow>
      p \<in> bpage ` set D \<or> tx_view d t' p = Some \<lparr>n_items = [], n_children = [bpage ?S]\<rparr>"
    by blast+
  have "\<exists>e. tx_view d t' p = Some e \<and> node_fits b 0 e \<and> (isLeaf e \<or> length (n_children e) = length (n_items e) + 1)
      \<and> length (n_items e) \<le> length (inorder T)" if p: "p \<in> set (page_list T) - set (page_list ?S)" for p
    using gone [OF p]
  proof
    assume "p \<in> bpage ` set D"
    then obtain B where B: "B \<in> set D" "p = bpage B" by blast
    note f = given_up_fit [OF fl i(1,2) th i(3) rm B(1)]
    show ?thesis using f gv B by (intro exI [of _ "bcontent B"]) simp
  next
    assume v: "tx_view d t' p = Some \<lparr>n_items = [], n_children = [bpage ?S]\<rparr>"
    have "node_fits b 0 \<lparr>n_items = [], n_children = [bpage ?S]\<rparr>"
      using fl by (simp add: node_fits_def small_items_def nodeSize_esum fill_def)
    then show ?thesis using v by simp
  qed
  moreover have "tree_inv d b t' h' ?S" by (rule tree_ok_inv [OF s(1) tf])
  ultimately show ?thesis unfolding deleted_def using g ino s(2,3,4) room by (simp only: length_map) blast
qed

lemma remove_clean:
  assumes fl: "fill d a b" and inv: "tree_inv d b t h T" and rt: "c_root c = bpage T" and wr: "tx_write t"
    and rc: "c_rootCollection c \<longrightarrow> tx_root t = c_root c" and cl: "dirtyNodes t = Map.empty" "pagesToDelete t = []"
    and ok: "kv_map (inorder T) k = None \<or> delete_ok d b T k" and room: "10 + 8 * length (releasedPages (d_freelist d)) \<le> pageSize d"
  shows "\<exists>c' t' h' T'. Remove d c k t = Some (Inr c', t') \<and> deleted d b t h T k t' h' T' \<and> c_root c' = bpage T'
    \<and> handle_step c (t\<lparr>pagesToDelete := pagesToDelete t'\<rparr>) c' t'"
proof (cases "kv_map (inorder T) k = None \<or> remove_ok d b T k")
  case True
  then have "kv_map (inorder T) k = None \<or> remove_ok d b T k \<and> remove_safe t T k" using remove_safe_clean [OF cl(1)] by blast
  then obtain t' T' where p: "Remove d c k t = Some (Inr c, t')" "tree_inv d b t' h T'" "bpage T' = bpage T"
    "page_list T' = page_list T" "inorder T' = del_item k (inorder T)" "page_frame d T t t'"
    "t' = t\<lparr>mem := mem t', dirtyNodes := dirtyNodes t'\<rparr>"
    using remove_spec [OF inv rt wr] by blast
  have f: "pagesToDelete t' = []" "tx_freelist t' = tx_freelist t" "tx_root t' = tx_root t" "tx_write t' = tx_write t"
    "collections t' = collections t" "deletedCollections t' = deletedCollections t"
    by (subst p(7), simp add: cl)+
  have "deleted d b t h T k t' h T'" unfolding deleted_def p(4) using p(2,5,6) f(1,2) room by simp
  moreover have "handle_step c (t\<lparr>pagesToDelete := pagesToDelete t'\<rparr>) c t'" using f rc by (simp add: handle_step_def)
  ultimately show ?thesis using p(1,3) rt by metis
next
  case False
  then have "rebalance_ok d b T k" and rm0: "case removal d T k of None \<Rightarrow> False
     | Some (_, D, _) \<Rightarrow> 10 + 8 * (length (releasedPages (d_freelist d)) + length D) \<le> pageSize d"
    using ok unfolding delete_ok_def by blast+
  then obtain T1 D path where r: "removal d T k = Some (T1, D, path)" "\<not> wrong_root T1 path" "tree_fits b 0 (new_root T1)" "thick T"
    and rm: "10 + 8 * (length (releasedPages (d_freelist d)) + length D) \<le> pageSize d"
    by (auto simp: rebalance_ok_def split: option.splits)
  have po: "path_owned t UNIV" using cl(1) by (simp add: path_owned_def)
  obtain c' t' h' where w: "Remove d c k t = Some (Inr c', t')" "shrunk d t h T t' h' (new_root T1) D"
    "inorder (new_root T1) = del_item k (inorder T)" "c_root c' = bpage (new_root T1)"
    "handle_step c (t\<lparr>pagesToDelete := pagesToDelete t'\<rparr>) c' t'"
    using remove_walk [OF fill_empty_low [OF fl] tree_inv_ok [OF inv] r(4) po rt wr _ r(1)] r(2) rc by auto
  from shrunk_deleted [OF fl inv r(4) cl(2) r(1,3) w(2,3) rm] w(1,4,5) show ?thesis by blast
qed

section \<open>The transaction\<close>

lemma delete_in_tx:
  assumes cf: "db_config d a b (k + 1)" and inv: "db_inv d b k R F" and F: "F name = Some T0" and room: "db_room d k"
    and ok: "kv_map (inorder T0) key = None \<or> delete_ok d b T0 key"
  shows "\<exists>c t T h s. bindM (GetCollection d name) (\<lambda>c. case c of None \<Rightarrow> returnM ()
      | Some c \<Rightarrow> bindM (Remove d c key) (\<lambda>_. returnM ())) (newTx g d True) = Some (Inr (), t)
    \<and> c_name c = name \<and> coll_changed d b k R F (del_item key (inorder T0)) c t T R h s"
proof -
  let ?new = "newTx g d True" and ?U = "freelist_used (d_freelist d)" and ?its = "del_item key (inorder T0)"
  obtain h0 n where T: "db_tree d b k h0 T0" "set (page_list T0) \<inter> set (page_list R) = {}"
    and n: "find_item name (inorder R) = Some (collection_serialize (metadata name (bpage T0) n))"
    using db_inv_tree [OF inv F] by blast
  let ?c = "metadata name (bpage T0) n"
  obtain hR t where R: "db_tree d b k hR R" and rd: "reads ?new t" and iR: "tree_inv d b t hR R" and rt: "tx_root t = bpage R"
    and f: "dirtyNodes t = Map.empty" "tx_write t" "deletedCollections t = {}" "pagesToDelete t = []"
      "tx_used t = ?U" "tx_view d t = stored d"
    and al: "alloc_ok (page_limit d k) (length (releasedPages (d_freelist d))) t (2 * k + 5)"
    and g: "GetCollection d name ?new = Some (Inr (Some ?c), t\<lparr>collections := Map.empty(name \<mapsto> ?c)\<rparr>)"
    using begin_tx [OF inv room, of g name thesis] n by blast
  let ?t = "t\<lparr>collections := Map.empty(name \<mapsto> ?c)\<rparr>"
  have sn: "same_nodes t ?t" by (simp add: same_nodes_def)
  note sv = same_nodes_view [OF sn]
  have hk: "h0 \<le> k" "hR \<le> k" "length (inorder R) \<le> k" "length (inorder T0) \<le> k" using R T(1) by (simp_all add: db_tree_def)
  have fl: "fill d a b" using cf by (simp add: db_config_def)
  have i1: "tree_inv d b ?t h0 T0" "tree_inv d b ?t hR R"
    using tree_inv_reads [OF newTx_inv [OF T(1)] rd] iR tree_inv_same [OF sn] by blast+
  have pre: "c_root ?c = bpage T0" "tx_write ?t" "c_rootCollection ?c \<longrightarrow> tx_root ?t = c_root ?c" "dirtyNodes ?t = Map.empty" "pagesToDelete ?t = []"
    using f by simp_all
  obtain c t' h T' where p: "Remove d ?c key ?t = Some (Inr c, t')" "deleted d b ?t h0 T0 key t' h T'" "c_root c = bpage T'"
    "handle_step ?c (?t\<lparr>pagesToDelete := pagesToDelete t'\<rparr>) c t'"
    using remove_clean [OF fl i1(1) pre ok db_inv_root(7) [OF inv]] by blast
  have q: "tree_inv d b t' h T'" "h \<le> h0" "inorder T' = ?its" "page_frame d T0 ?t t'" "tx_freelist t' = tx_freelist t"
    "set (page_list T') \<subseteq> set (page_list T0)"
    and gone: "distinct (pagesToDelete t')" "set (pagesToDelete t') \<subseteq> set (page_list T0) - set (page_list T')"
      "10 + 8 * (length (releasedPages (d_freelist d)) + length (pagesToDelete t')) \<le> pageSize d"
      "\<forall>p \<in> set (page_list T0) - set (page_list T'). \<exists>e. tx_view d t' p = Some e \<and> node_fits b 0 e
          \<and> (isLeaf e \<or> length (n_children e) = length (n_items e) + 1) \<and> length (n_items e) \<le> length (inorder T0)"
    using p(2) unfolding deleted_def by simp_all
  have hs: "c_name c = name" "c_counter c = n" "tx_root t' = bpage R" "tx_write t'" "deletedCollections t' = {}"
    "collections t' = Map.empty(name \<mapsto> c)" "\<not> c_dirtyMeta c \<Longrightarrow> c = ?c"
    using p(4) f rt by (auto simp: handle_step_def split: if_split_asm)
  have u: "tx_used t' = ?U" using q(5) f(5) by (simp add: tx_used_def)
  have RU: "set (page_list R) \<subseteq> ?U" "set (page_list T0) \<subseteq> ?U" using R T(1) by (simp_all add: db_tree_def)
  have iR': "tree_inv d b t' hR R"
    by (rule tree_inv_frame [OF i1(2) tree_inv_used(1) [OF q(1)] q(4)]) (use T(2) u f(5) sv(3) in auto)
  have pg: "tx_view d t' p = stored d p \<and> dirtyNodes t' p = None" if "p \<in> ?U" "p \<notin> set (page_list T0)" for p
    using q(4) f(1,5,6) sv(1,3) that by (simp add: page_frame_def)
  have ps: "put_safe t' R name"
    by (rule put_safe_clean_pages [OF iR']) (use pg RU T(2) in blast)
  have O: "coll_pages F name = set (page_list T0)" using F by (simp add: coll_pages_def)
  have go: "gone_ok d F name t' T'"
    unfolding gone_ok_def O
  proof (intro conjI gone(1-3) ballI impI)
    fix p assume "p \<in> set (page_list T0) - set (page_list T')"
    then obtain e where e: "tx_view d t' p = Some e" "node_fits b 0 e" "isLeaf e \<or> length (n_children e) = length (n_items e) + 1"
      "length (n_items e) \<le> length (inorder T0)"
      using gone(4) by blast
    then have "length (n_items e) \<le> k + 1" using hk(4) by simp
    from node_fits_page [OF cf e(2,3) this] e(1)
    show "\<exists>e. tx_view d t' p = Some e \<and> node_validate (pageSize d) e = Inr () \<and> encodedSize e \<le> pageSize d" by blast
  qed
  have al': "alloc_ok (page_limit d k) (length (releasedPages (d_freelist d))) t' (if c_dirtyMeta c then hR + 2 else 0)"
    using alloc_ok_mono [OF al, of "if c_dirtyMeta c then hR + 2 else 0"] q(5) hk(2) by (simp add: alloc_ok_def)
  have cs: "collection_serialize c = collection_serialize (metadata name (bpage T') n)"
    using hs(1,2) p(3) by (simp add: collection_serialize_def)
  have md: "\<not> c_dirtyMeta c \<longrightarrow> find_item name (inorder R) = Some (collection_serialize c)" using hs(7) n by auto
  have "set (page_list T') \<inter> set (page_list R) = {}" "set (page_list T') \<inter> ?U \<subseteq> set (page_list T0)" "set (page_list R) \<inter> ?U = set (page_list R)"
    "tx_used t' = ?U \<union> set (page_list T') \<union> set (page_list R)"
    using q(6) T(2) u RU by blast+
  moreover have "tree_fits b 0 R" using R by (simp add: db_tree_def)
  then have "length name \<le> 255" by (rule metadata_name_small [OF _ n])
  moreover have "h \<le> k + 1" "length ?its \<le> k + 1" using q(2) hk del_item_length [of key "inorder T0"] by simp_all
  moreover have "if c_dirtyMeta c then put_safe t' R name else find_item name (inorder R) = Some (collection_serialize c)"
    using ps md by simp
  ultimately have "coll_changed d b k R F ?its c t' T' R h hR"
    unfolding coll_changed_def hs(1) O
    using q(1,3) iR' hs(3-6) cs hk n pg go al' RU by (intro conjI) auto
  moreover have "bindM (GetCollection d name) (\<lambda>c. case c of None \<Rightarrow> returnM ()
      | Some c \<Rightarrow> bindM (Remove d c key) (\<lambda>_. returnM ())) ?new = Some (Inr (), t')"
    using g p(1) by (simp add: bindM_def returnM_def)
  ultimately show ?thesis using hs(1) by blast
qed

lemma delete_commit:
  assumes cf: "db_config d a b (k + 1)" and inv: "db_inv d b k R F" and F: "F name = Some T0" and room: "db_room d k"
    and ok: "kv_map (inorder T0) key = None \<or> delete_ok d b T0 key" and co: "name \<in> set co" and no: "map_order no"
  shows "\<exists>d' S T. cli_delete no_faults co no g d name key = Some (Inr NoOutput, d') \<and> db_inv d' b (k + 1) S (F(name \<mapsto> T))
    \<and> inorder T = del_item key (inorder T0) \<and> db_synced d' \<and> pageSize d' = pageSize d
    \<and> minFillPercent d' = minFillPercent d \<and> maxFillPercent d' = maxFillPercent d \<and> unat (maxPage (d_freelist d')) < page_limit d k"
proof -
  obtain c t T h s where t: "bindM (GetCollection d name) (\<lambda>c. case c of None \<Rightarrow> returnM ()
      | Some c \<Rightarrow> bindM (Remove d c key) (\<lambda>_. returnM ())) (newTx g d True) = Some (Inr (), t)"
    "c_name c = name" "coll_changed d b k R F (del_item key (inorder T0)) c t T R h s"
    using delete_in_tx [OF cf inv F room ok] by blast
  have co': "c_name c \<in> set co" using co t(2) by simp
  obtain t' S s' where fl: "flushCollectionMetadata d co t = Some (Inr (), t')"
    "tx_flushed d b k R F name (del_item key (inorder T0)) t' T S h s'"
    using flush_changed [OF inv cf t(3) co'] t(2) by blast
  have wr: "tx_write t" using t(3) unfolding coll_changed_def by blast
  obtain d' where c: "Commit no_faults co no d t = Some (Inr (), d')" "db_inv d' b (k + 1) S (F(name \<mapsto> T))" "db_synced d'"
    "pageSize d' = pageSize d" "minFillPercent d' = minFillPercent d" "maxFillPercent d' = maxFillPercent d"
    "unat (maxPage (d_freelist d')) < page_limit d k"
    using flushed_commit [OF cf inv room no wr fl] by blast
  have "inorder T = del_item key (inorder T0)" using fl(2) unfolding tx_flushed_def by blast
  moreover have "cli_delete no_faults co no g d name key = Some (Inr NoOutput, d')" using t(1) c(1) by (simp add: cli_delete_def)
  ultimately show ?thesis using c(2-7) by blast
qed

section \<open>A database with a tree of two levels\<close>

text \<open>The three nodes of \<open>ex3_tree\<close> and the root collection that has them as the collection \<open>[9]\<close>, still in memory.\<close>

definition ex4_root :: btree where
  "ex4_root = BNode 2 [collection_serialize (metadata [9] 5 0)] []"

definition ex4_tx :: tx where
  "ex4_tx = ex3_tx\<lparr>
     mem := \<lparr>grow = \<lambda>_ n. n, itemArrays = itemArrays (mem ex3_tx) @ [GArray (bitems ex4_root) 1], pgArrays = pgArrays (mem ex3_tx) @ [GArray [] 0]\<rparr>,
     dirtyNodes := (dirtyNodes ex3_tx)(2 \<mapsto> ex_node 2 3 0)\<rparr>"

lemma ex4_inv: "tree_inv kv_db 2048 ex4_tx 1 ex3_tree" "tree_inv kv_db 2048 ex4_tx 0 ex4_root"
  by (auto simp: tree_inv_def tx_ok_def gvalid_def svalid_def ex4_tx_def ex4_root_def ex3_tx_def ex3_tree_def ex_node_def tx_view_def contents_def
      scontent_def newTx_def tx_used_def freelist_used_def tree_fits_def node_fits_def nodeSize_esum newItem_def bcontent_def
      collection_serialize_def small_items_def split: if_split_asm)

lemma ex4_fields: "tx_write ex4_tx" "pagesToDelete ex4_tx = []" "tx_root ex4_tx = 2" "tx_used ex4_tx = {1, 2, 3, 4, 5}"
  "collections ex4_tx = Map.empty" "dom (dirtyNodes ex4_tx) = {2, 3, 4, 5}" "alloc_ok 100 0 ex4_tx 0"
proof -
  have "p \<in> {1, 2, 3, 4, 5}" if "0 < unat p" "unat p \<le> 5" for p :: "64 word"
  proof -
    have "unat p \<in> {1, 2, 3, 4, 5}" using that by auto
    then have "(of_nat (unat p) :: 64 word) \<in> of_nat ` {1, 2, 3, 4, 5}" by (rule imageI)
    then show ?thesis by simp
  qed
  then have "{p :: 64 word. 0 < unat p \<and> unat p \<le> 5} = {1, 2, 3, 4, 5}" by (intro set_eqI iffI) auto
  then show "tx_used ex4_tx = {1, 2, 3, 4, 5}"
    by (simp add: ex4_tx_def ex3_tx_def tx_used_def freelist_used_def)
  show "dom (dirtyNodes ex4_tx) = {2, 3, 4, 5}" by (auto simp: ex4_tx_def ex3_tx_def)
qed (simp_all add: ex4_tx_def ex3_tx_def newTx_def alloc_ok_def freelist_inv_def ex_db_def)

lemma ex4_flush: "flushCollectionMetadata kv_db [] ex4_tx = Some (Inr (), ex4_tx)"
  by (rule flush_skip) (simp add: ex4_fields)

text \<open>What its commit leaves.\<close>

lemma ex4_commit:
  obtains d where "Commit no_faults [] ex_order kv_db ex4_tx = Some (Inr (), d)" and "db_inv d 2048 3 ex4_root [[9] \<mapsto> ex3_tree]"
    and "pageSize d = 4096" and "minFillPercent d = minFillPercent kv_db" and "maxFillPercent d = maxFillPercent kv_db"
    and "unat (maxPage (d_freelist d)) < 100" and "releasedPages (d_freelist d) = []"
proof -
  have cf: "db_config kv_db 1024 2048 3" using kv_fill by (simp add: db_config_def kv_db_def)
  have ok: "tx_ok ex4_tx" using ex4_inv(1) by (simp add: tree_inv_def)
  have pages: "page_list ex3_tree = [5, 3, 4]" "page_list ex4_root = [2]" by (simp_all add: ex3_tree_def ex4_root_def)
  have len: "length (inorder ex3_tree) \<le> 3" "length (inorder ex4_root) \<le> 3" by (simp_all add: ex3_tree_def ex4_root_def)
  have dn: "\<forall>p n. dirtyNodes ex4_tx p = Some n \<longrightarrow> node_validate (pageSize kv_db) (contents (mem ex4_tx) n) = Inr ()
      \<and> encodedSize (contents (mem ex4_tx) n) \<le> pageSize kv_db"
  proof (intro allI impI)
    fix p n assume n: "dirtyNodes ex4_tx p = Some n"
    then have "p \<in> set (page_list ex3_tree) \<or> p \<in> set (page_list ex4_root)" using ex4_fields(6) pages by auto
    then obtain c where "tx_view kv_db ex4_tx p = Some c" "node_validate (pageSize kv_db) c = Inr ()" "encodedSize c \<le> pageSize kv_db"
      using tree_inv_page [OF ex4_inv(1) cf _ len(1), of p thesis] tree_inv_page [OF ex4_inv(2) cf _ len(2), of p thesis] by blast
    then show "node_validate (pageSize kv_db) (contents (mem ex4_tx) n) = Inr () \<and> encodedSize (contents (mem ex4_tx) n) \<le> pageSize kv_db"
      using n by (simp add: tx_view_def)
  qed
  have k: "fileOpen kv_db" "d_disk kv_db = \<lparr>dbfile = Some (replicate 192 0), walfile = None\<rparr>" "pageSize kv_db = 4096"
    "m_freelistPage (d_meta kv_db) = 1" "d_freelist kv_db = \<lparr>maxPage = 2, releasedPages = []\<rparr>"
    by (simp_all add: kv_db_def ex_db_def)
  have "1 \<notin> dom (dirtyNodes ex4_tx)" by (simp add: ex4_fields(6))
  then have "dirtyNodes ex4_tx 1 = None" by (simp add: domIff)
  then have pre: "10 + 8 * (0 + length (pagesToDelete ex4_tx)) \<le> pageSize kv_db" "walHeaderSize + (100 + 2) * (8 + pageSize kv_db) < 2 ^ 63"
    "distinct (pagesToDelete ex4_tx)" "set (pagesToDelete ex4_tx) \<subseteq> tx_used ex4_tx"
    "m_freelistPage (d_meta kv_db) \<in> tx_used ex4_tx" "dirtyNodes ex4_tx (m_freelistPage (d_meta kv_db)) = None"
    by (simp_all add: ex4_fields k walHeaderSize_def)
  obtain d f where d: "Commit no_faults [] ex_order kv_db ex4_tx = Some (Inr (), d)" "d_disk d = \<lparr>dbfile = Some f, walfile = None\<rparr>"
    "pageSize d = pageSize kv_db" "fileOpen d" "minFillPercent d = minFillPercent kv_db" "maxFillPercent d = maxFillPercent kv_db"
    "m_freelistPage (d_meta d) = m_freelistPage (d_meta kv_db)" "m_root (d_meta d) = tx_root ex4_tx"
    "freelist_used (d_freelist d) = tx_used ex4_tx - set (pagesToDelete ex4_tx)"
    "freelist_inv (d_freelist d)" "length (releasedPages (d_freelist d)) \<le> 0 + length (pagesToDelete ex4_tx)"
    "unat (maxPage (d_freelist d)) < 100"
    and st: "\<forall>p \<in> tx_used ex4_tx. p \<noteq> m_freelistPage (d_meta kv_db) \<longrightarrow> tx_view kv_db ex4_tx p \<noteq> None
      \<longrightarrow> stored d p = tx_view kv_db ex4_tx p"
    using commit_trees [OF ex4_flush ok ex_order ex4_fields(1) k(1,2) cf ex4_fields(7) pre dn] by blast
  note d' = d(7-9,11) [unfolded ex4_fields k, simplified]
  have "db_tree d 2048 3 1 ex3_tree" by (rule committed_tree [OF ex4_inv(1) _ st]) (simp_all add: d' pages len k)
  moreover have "db_tree d 2048 3 0 ex4_root" by (rule committed_tree [OF ex4_inv(2) _ st]) (simp_all add: d' pages len k)
  moreover have "bpage ex4_root = 2" "find_item x (inorder ex4_root) = (if x = [9] then Some (collection_serialize (metadata [9] (bpage ex3_tree) 0)) else None)" for x
    by (simp_all add: ex4_root_def ex3_tree_def collection_serialize_def newItem_def find_item_def)
  ultimately have "db_inv d 2048 3 ex4_root [[9] \<mapsto> ex3_tree]"
    unfolding db_inv_def using d(2,4,10) d' pages k(3) d(3) by (simp split: if_split_asm) blast
  then show thesis using that d(1,3,5,6,12) d'(4) k(3) by simp
qed

text \<open>Rebalancing depends on the lower threshold only.\<close>

lemma removal_cong:
  assumes "minThreshold d = minThreshold e"
  shows "removal d T k = removal e T k"
proof -
  have u: "isUnderPopulated d = isUnderPopulated e" by (simp add: fun_eq_iff isUnderPopulated_def assms)
  have "getSplitIndex_loop d c n js = getSplitIndex_loop e c n js" for c n js
    by (induction js arbitrary: n) (simp_all add: assms Let_def)
  then have "spare d = spare e" by (simp add: fun_eq_iff spare_def getSplitIndex_def)
  then have a: "rebalance_at d = rebalance_at e" by (simp add: fun_eq_iff rebalance_at_def take_right_at_def)
  have "rebalance_path d path S = rebalance_path e path S" for path S
    by (induction path arbitrary: S) (simp_all add: u a cong: if_cong)
  then show ?thesis by (simp add: removal_def cong: option.case_cong prod.case_cong)
qed

section \<open>Properties\<close>



end
