(* ===== verification/Defects.thy ===== *)
theory Defects
  imports Kv_Cli
begin

text \<open>
  Behaviours of the code that lose stored items or block a commit, each evaluated on a small collection: the slices a split
  leaves in one array, the new root after a removal that merges the last two children, the child that a removal from an inner
  node descends to, the item that moves up into a node that has no room for it, and a merge into a node that has none. Pages have 128
  bytes here and nodes are split above 64 bytes, or 120 in the last two cases, so that few items make a tree.
\<close>

definition small_db :: dal where
  "small_db = \<lparr>pageSize = 128, minFillPercent = Fin (1 / 4), maxFillPercent = Fin (1 / 2), fileOpen = True,
     d_disk = \<lparr>dbfile = Some [], walfile = None\<rparr>, d_meta = \<lparr>m_root = 2, m_freelistPage = 1\<rparr>,
     d_freelist = \<lparr>maxPage = 2, releasedPages = []\<rparr>\<rparr>"

text \<open>A new collection in a write transaction, and an append that doubles the capacity, as Go's does for small slices.\<close>

definition small_start :: "collection \<times> tx" where
  "small_start = (newCollection [9] 0, newTx (\<lambda>_ n. 2 * n) small_db True)"

text \<open>Operations on the collection, one after the other: \<open>Put\<close> of a key with a value, or \<open>Remove\<close>.\<close>

primrec run_script :: "(bytes \<times> bytes option) list \<Rightarrow> collection \<times> tx \<Rightarrow> (collection \<times> tx) option" where
  "run_script [] s = Some s"
| "run_script (x # xs) s =
     (case (case snd x of Some v \<Rightarrow> Put small_db (fst s) (fst x) v (snd s) | None \<Rightarrow> Remove small_db (fst s) (fst x) (snd s)) of
        Some (Inr c, t) \<Rightarrow> run_script xs (c, t) | _ \<Rightarrow> None)"

text \<open>What \<open>Find\<close> returns afterwards for each of the keys.\<close>

definition found :: "(bytes \<times> bytes option) list \<Rightarrow> bytes list \<Rightarrow> bytes option list option" where
  "found ops ks = map_option (\<lambda>s. map (\<lambda>k. Option.bind (map_option fst (kv_get small_db s k)) id) ks) (run_script ops small_start)"

text \<open>A tree written node by node, on the pages from 3 on; the last node is the root. An item is a key of one byte and its size.\<close>

primrec write_nodes :: "((byte \<times> nat) list \<times> pgnum list) list \<Rightarrow> (tx, unit) m" where
  "write_nodes [] = returnM ()"
| "write_nodes (x # xs) = bindM (literal_items (map (\<lambda>(k, n). newItem [k] (replicate n 0)) (fst x))) (\<lambda>its.
     bindM (literal_pgs (snd x)) (\<lambda>cs. bindM (tx_newNode its cs) (\<lambda>n. bindM (tx_writeNode n) (\<lambda>_. write_nodes xs))))"

definition three_levels :: "(collection \<times> tx) option" where
  "three_levels = (case write_nodes (map (\<lambda>(ks, ps). (map (\<lambda>k. (k, 6)) ks, ps)) [([10, 20], []), ([40, 50], []), ([70, 80], []),
       ([100, 110], []), ([130, 140], []), ([30, 60], [3, 4, 5]), ([120], [6, 7]), ([90], [8, 9])]) (snd small_start) of
     Some (Inr _, t) \<Rightarrow> Some (newCollection [9] 10, t) | _ \<Rightarrow> None)"

definition found_in :: "(collection \<times> tx) option \<Rightarrow> bytes list \<Rightarrow> bool list option" where
  "found_in s ks = map_option (\<lambda>s. map (\<lambda>k. case kv_get small_db s k of Some (Some _, _) \<Rightarrow> True | _ \<Rightarrow> False) ks) s"

lemma roots_deleted_page:
  "found (map (\<lambda>k. ([k], Some [])) [10, 20, 30, 40, 50, 60] @ [([60], None)]) [[10], [20], [50]] = Some [None, None, None]"
  "map_option (\<lambda>s. c_root (fst s) \<in> set (pagesToDelete (snd s)))
     (run_script (map (\<lambda>k. ([k], Some [])) [10, 20, 30, 40, 50, 60] @ [([60], None)]) small_start) = Some True"
  by code_simp+

lemma wrong_predecessor:
  "found_in three_levels [[80]] = Some [True]"
  "found_in (Option.bind three_levels (run_script [([90], None)])) [[80]] = Some [False]"
  by code_simp+

text \<open>
  Nodes of up to 120 bytes, and a root whose first item has no value; the leaf before it ends in an item with 50 bytes. The
  second component is the page of the root, which \<open>Remove\<close> makes too large.
\<close>

definition wide_db :: dal where
  "wide_db = small_db\<lparr>maxFillPercent := Fin (15 / 16)\<rparr>"

definition wide_tree :: "(unit res \<times> tx) option" where
  "wide_tree = write_nodes [([(1, 40), (5, 50)], []), ([(15, 51)], []), ([(25, 0)], []), ([(10, 0), (20, 80)], [3, 4, 5])]
     (newTx (\<lambda>_ n. 2 * n) wide_db True)"

definition wide_removed :: "(collection res \<times> tx) option" where
  "wide_removed = (case wide_tree of Some (Inr _, t) \<Rightarrow> Remove wide_db (newCollection [9] 6) [10] t | _ \<Rightarrow> None)"

text \<open>
  The same limit and a lower threshold of half a page, with a first leaf that is full but has no item to spare, as its first is within
  the threshold. The second leaf is merged into it when it loses an item.
\<close>

definition tight_db :: dal where
  "tight_db = wide_db\<lparr>minFillPercent := Fin (1 / 2)\<rparr>"

definition tight_tree :: "(unit res \<times> tx) option" where
  "tight_tree = write_nodes [([(1, 40), (5, 50)], []), ([(15, 20), (16, 20)], []), ([(25, 0)], []), ([(10, 0), (20, 0)], [3, 4, 5])]
     (newTx (\<lambda>_ n. 2 * n) tight_db True)"

definition tight_removed :: "(collection res \<times> tx) option" where
  "tight_removed = (case tight_tree of Some (Inr _, t) \<Rightarrow> Remove tight_db (newCollection [9] 6) [16] t | _ \<Rightarrow> None)"

definition node_sizes :: "tx \<Rightarrow> nat option list" where
  "node_sizes t = map (\<lambda>p. map_option (\<lambda>n. nodeSize (contents (mem t) n)) (dirtyNodes t p)) [3, 4, 5, 6]"

text \<open>A commit fails, and changes nothing, when a changed node is too large for its page.\<close>

lemma commit_refuses:
  assumes "tx_write t" and "dirtyNodes t p = Some n" and "pageSize d < nodeSize (contents (mem t) n)" and "p \<in> set (no t)"
  shows "\<exists>e. Commit io [] no d t = Some (Inl e, d)"
proof -
  have "\<exists>e. nodePage d (pageNum n) (contents (mem t) n) = Inl e"
    using assms(3) by (auto simp: nodePage_def node_validate_def)
  then have "p \<in> set order \<Longrightarrow> \<exists>e. commitNodePages d t order = Inl e" for order
  proof (induction order)
    case (Cons q order)
    then show ?case using assms(2)
      by (cases "q = p"; cases "dirtyNodes t q"; cases "nodePage d (pageNum (the (dirtyNodes t q))) (contents (mem t) (the (dirtyNodes t q)))") auto
  qed simp
  then obtain e where "commitNodePages d t (no t) = Inl e" using assms(4) by blast
  then show ?thesis using assms(1) by (cases "tx_freelist t") (auto simp: Commit_def commitPages_def Let_def)
qed

lemma wide_sizes:
  "map_option (\<lambda>(r, t). (r = Inr (), node_sizes t)) wide_tree = Some (True, [Some 119, Some 71, Some 20, Some 109])"
  "map_option (\<lambda>(r, t). (r = Inr (newCollection [9] 6), tx_write t, node_sizes t)) wide_removed
     = Some (True, True, [Some 60, Some 71, Some 20, Some 159])"
  by code_simp+

lemma tight_sizes:
  "map_option (\<lambda>(r, t). (r = Inr (), node_sizes t)) tight_tree = Some (True, [Some 119, Some 69, Some 20, Some 29])"
  "map_option (\<lambda>(r, t). (r = Inr (newCollection [9] 6), tx_write t, node_sizes t)) tight_removed
     = Some (True, True, [Some 157, Some 40, Some 20, Some 20])"
  by code_simp+

lemma removal_blocked:
  assumes "map_option (\<lambda>(r, t). (r = Inr (), node_sizes t)) tr = Some (True, ns)"
    and "map_option (\<lambda>(r, t). (r = Inr c, tx_write t, node_sizes t)) (case tr of Some (Inr _, t) \<Rightarrow> Remove d c k t | _ \<Rightarrow> None)
      = Some (True, True, ns')"
    and "p \<in> {3, 4, 5, 6 :: pgnum}" and "Some s = ns' ! (unat p - 3)" and "pageSize d < s" and "map_order no"
  shows "\<exists>t t'. tr = Some (Inr (), t) \<and> node_sizes t = ns \<and> Remove d c k t = Some (Inr c, t') \<and> node_sizes t' = ns'
    \<and> (\<exists>e. Commit io [] no d t' = Some (Inl e, d))"
proof -
  obtain t where t: "tr = Some (Inr (), t)" "node_sizes t = ns" using assms(1) by auto
  obtain t' where t': "Remove d c k t = Some (Inr c, t')" "tx_write t'" "node_sizes t' = ns'" using assms(2) by (auto simp: t(1))
  have "map_option (\<lambda>n. nodeSize (contents (mem t') n)) (dirtyNodes t' p) = Some s"
    using assms(3,4) unfolding t'(3) [symmetric] by (auto simp: node_sizes_def)
  then obtain n where n: "dirtyNodes t' p = Some n" "nodeSize (contents (mem t') n) = s" by auto
  have "p \<in> set (no t')" using assms(6) n(1) by (auto simp: map_order_def)
  then have "\<exists>e. Commit io [] no d t' = Some (Inl e, d)" by (intro commit_refuses [OF t'(2) n(1)]) (simp_all add: n(2) assms(5))
  then show ?thesis using t t' by blast
qed

section \<open>Properties\<close>



text \<open>
  C29: a \<open>Remove\<close> that succeeds can make its transaction impossible to commit, in two ways. Every node of both trees is within its
  limit of 120 bytes, the pages have 128. First, removing the key \<open>10\<close> from the root puts the last item of the leaf before it in its place,
  which is 50 bytes longer; \<open>Remove\<close> does not split the root, which has 159 bytes then. Second, removing \<open>16\<close> leaves a leaf of 40 bytes
  that is merged into its sibling of 119, which has no item to spare, and the result has 157. Every \<open>Commit\<close> returns an error.
\<close>

theorem remove_blocks_commit:
  assumes "map_order no"
  shows "(\<exists>t t'. wide_tree = Some (Inr (), t) \<and> node_sizes t = [Some 119, Some 71, Some 20, Some 109]
      \<and> Remove wide_db (newCollection [9] 6) [10] t = Some (Inr (newCollection [9] 6), t')
      \<and> node_sizes t' = [Some 60, Some 71, Some 20, Some 159] \<and> (\<exists>e. Commit io [] no wide_db t' = Some (Inl e, wide_db)))
    \<and> (\<exists>t t'. tight_tree = Some (Inr (), t) \<and> node_sizes t = [Some 119, Some 69, Some 20, Some 29]
      \<and> Remove tight_db (newCollection [9] 6) [16] t = Some (Inr (newCollection [9] 6), t')
      \<and> node_sizes t' = [Some 157, Some 40, Some 20, Some 20] \<and> (\<exists>e. Commit io [] no tight_db t' = Some (Inl e, tight_db)))"
proof (rule conjI)
  have "pageSize wide_db < 159" "pageSize tight_db < 157" by (simp_all add: tight_db_def wide_db_def small_db_def)
  then show "\<exists>t t'. wide_tree = Some (Inr (), t) \<and> node_sizes t = [Some 119, Some 71, Some 20, Some 109]
      \<and> Remove wide_db (newCollection [9] 6) [10] t = Some (Inr (newCollection [9] 6), t')
      \<and> node_sizes t' = [Some 60, Some 71, Some 20, Some 159] \<and> (\<exists>e. Commit io [] no wide_db t' = Some (Inl e, wide_db))"
    and "\<exists>t t'. tight_tree = Some (Inr (), t) \<and> node_sizes t = [Some 119, Some 69, Some 20, Some 29]
      \<and> Remove tight_db (newCollection [9] 6) [16] t = Some (Inr (newCollection [9] 6), t')
      \<and> node_sizes t' = [Some 157, Some 40, Some 20, Some 20] \<and> (\<exists>e. Commit io [] no tight_db t' = Some (Inl e, tight_db))"
    using removal_blocked [OF wide_sizes(1) wide_sizes(2) [unfolded wide_removed_def] _ _ _ assms, of 6 159 io]
      removal_blocked [OF tight_sizes(1) tight_sizes(2) [unfolded tight_removed_def] _ _ _ assms, of 3 157 io] by simp_all
qed

lemma remove_blocks_commit_witness:
  "\<exists>t' e. map_option snd wide_removed = Some t' \<and> Commit no_faults [] ex_order wide_db t' = Some (Inl e, wide_db)"
proof -
  obtain t t' where t: "wide_tree = Some (Inr (), t)" "Remove wide_db (newCollection [9] 6) [10] t = Some (Inr (newCollection [9] 6), t')"
    "\<exists>e. Commit no_faults [] ex_order wide_db t' = Some (Inl e, wide_db)"
    using remove_blocks_commit [OF ex_order, of no_faults] by blast
  have "map_option snd wide_removed = Some t'" by (simp add: wide_removed_def t(1,2))
  then show ?thesis using t(3) by blast
qed

end
