(* ===== verification/Go_Sort.thy ===== *)
theory Go_Sort
  imports Main "HOL-Library.Multiset" "HOL-Library.List_Lexorder" "HOL-Library.Char_ord"
begin

text \<open>
  Sorting with a comparison, as the package \<open>sort\<close> of Go offers it. The library sorts by insertion up to twelve elements; it
  promises an ordered permutation for every length and nothing about elements that compare equal. \<open>sort_by\<close> is the insertion sort.
  The locale \<open>sort_order\<close> has the law of a comparison and proves the promise, and that no other ordered permutation exists
  unless two elements compare equal, so that the results do not depend on the algorithm.
\<close>

fun insert_by :: "('a \<Rightarrow> 'a \<Rightarrow> bool) \<Rightarrow> 'a \<Rightarrow> 'a list \<Rightarrow> 'a list" where
  "insert_by lt x [] = [x]"
| "insert_by lt x (y # ys) = (if lt y x then y # insert_by lt x ys else x # y # ys)"

definition sort_by :: "('a \<Rightarrow> 'a \<Rightarrow> bool) \<Rightarrow> 'a list \<Rightarrow> 'a list" where
  "sort_by lt xs = foldr (insert_by lt) xs []"

definition ordered_by :: "('a \<Rightarrow> 'a \<Rightarrow> bool) \<Rightarrow> 'a list \<Rightarrow> bool" where
  "ordered_by lt xs \<longleftrightarrow> sorted_wrt (\<lambda>x y. \<not> lt y x) xs"

lemma mset_insert_by [simp]: "mset (insert_by lt x xs) = add_mset x (mset xs)"
  by (induction xs) auto

lemma set_insert_by [simp]: "set (insert_by lt x xs) = insert x (set xs)"
  by (metis mset_insert_by set_mset_add_mset_insert set_mset_mset)

lemma mset_sort_by [simp]: "mset (sort_by lt xs) = mset xs"
  by (induction xs) (auto simp: sort_by_def)

lemma set_sort_by [simp]: "set (sort_by lt xs) = set xs"
  by (metis mset_sort_by set_mset_mset)

lemma length_sort_by [simp]: "length (sort_by lt xs) = length xs"
  by (metis mset_sort_by size_mset)

lemma sort_by_Nil [simp]: "sort_by lt [] = []"
  by (simp add: sort_by_def)

lemma distinct_sort_by [simp]: "distinct (sort_by lt xs) = distinct xs"
  by (metis mset_sort_by mset_eq_imp_distinct_iff)

lemma sort_by_eq_Nil [simp]: "sort_by lt xs = [] \<longleftrightarrow> xs = []"
  by (metis length_0_conv length_sort_by)

locale sort_order =
  fixes lt :: "'a \<Rightarrow> 'a \<Rightarrow> bool"
  assumes less_asym: "lt x y \<Longrightarrow> \<not> lt y x"
    and not_less_trans: "\<not> lt y x \<Longrightarrow> \<not> lt z y \<Longrightarrow> \<not> lt z x"
begin

lemma irrefl [simp]: "\<not> lt x x"
  using less_asym by blast

lemma ordered_insert: "ordered_by lt xs \<Longrightarrow> ordered_by lt (insert_by lt x xs)"
proof (induction xs)
  case (Cons y ys)
  then show ?case
    by (auto simp: ordered_by_def dest: less_asym) (metis not_less_trans)
qed (simp add: ordered_by_def)

lemma ordered: "ordered_by lt (sort_by lt xs)"
proof (induction xs)
  case (Cons x xs)
  then show ?case by (simp add: sort_by_def ordered_insert [unfolded sort_by_def])
qed (simp add: sort_by_def ordered_by_def)

lemma ordered_nth: "i \<le> j \<Longrightarrow> j < length xs \<Longrightarrow> \<not> lt (sort_by lt xs ! j) (sort_by lt xs ! i)"
  using ordered [of xs] by (cases "i = j") (auto simp: ordered_by_def sorted_wrt_iff_nth_less)

text \<open>Where no two elements compare equal the ordered permutation is the only one.\<close>

lemma ordered_unique:
  assumes "ordered_by lt xs" and "ordered_by lt ys" and "mset xs = mset ys"
    and "\<And>x y. x \<in> set xs \<Longrightarrow> y \<in> set xs \<Longrightarrow> \<not> lt x y \<Longrightarrow> \<not> lt y x \<Longrightarrow> x = y"
  shows "xs = ys"
  using assms
proof (induction xs arbitrary: ys)
  case (Cons x xs)
  then obtain y ys' where ys: "ys = y # ys'" by (cases ys) auto
  have s: "set (x # xs) = set ys" using Cons.prems(3) by (metis set_mset_mset)
  have "y = x \<or> y \<in> set xs" "x = y \<or> x \<in> set ys'" using s ys by auto
  then have "\<not> lt y x" and "\<not> lt x y"
    using Cons.prems(1,2) ys by (auto simp: ordered_by_def)
  then have xy: "x = y" using Cons.prems(4) [of x y] s ys by auto
  have "xs = ys'"
    by (rule Cons.IH) (use Cons.prems ys xy in \<open>auto simp: ordered_by_def\<close>)
  then show ?case using xy ys by simp
qed simp

lemma sort_unique:
  assumes "ordered_by lt ys" and "mset ys = mset xs"
    and "\<And>x y. x \<in> set xs \<Longrightarrow> y \<in> set xs \<Longrightarrow> \<not> lt x y \<Longrightarrow> \<not> lt y x \<Longrightarrow> x = y"
  shows "sort_by lt xs = ys"
  by (rule ordered_unique) (use assms ordered in auto)

lemma sort_perm:
  assumes "mset xs = mset ys"
    and "\<And>x y. x \<in> set xs \<Longrightarrow> y \<in> set xs \<Longrightarrow> \<not> lt x y \<Longrightarrow> \<not> lt y x \<Longrightarrow> x = y"
  shows "sort_by lt xs = sort_by lt ys"
  by (rule sort_unique) (use assms ordered in auto)

end

text \<open>A comparison of keys in a linear order is one.\<close>

lemma sort_order_key: "sort_order (\<lambda>x y. f x < f y)" for f :: "'a \<Rightarrow> 'b :: linorder"
  by unfold_locales auto

section \<open>sort.Strings\<close>

definition str_less :: "char list \<Rightarrow> char list \<Rightarrow> bool" where
  "str_less a b \<longleftrightarrow> a < b"

definition Strings :: "char list list \<Rightarrow> char list list" where
  "Strings = sort_by str_less"

interpretation strs: sort_order str_less
  using sort_order_key [of "\<lambda>x :: char list. x"] by (simp add: str_less_def [abs_def])

lemma Strings_sorted: "sorted (Strings xs)"
  using strs.ordered [of xs] by (simp add: Strings_def ordered_by_def str_less_def not_less sorted_wrt_iff_nth_less sorted_iff_nth_mono_less)

lemma Strings_set [simp]: "set (Strings xs) = set xs" "distinct (Strings xs) = distinct xs"
  by (simp_all add: Strings_def)

end
