(* ===== verification/Go_Float64.thy ===== *)
theory Go_Float64
  imports Go_Float Go_Sort
begin

text \<open>
  Go's \<open>float64\<close>, as \<^verbatim>\<open>tools/benchreport\<close> uses it: arithmetic, comparison and sorting. A finite value is a sign and a rational magnitude; results are rounded to 53
  significant bits, ties to even, with the subnormal spacing \<open>2 ^ -1074\<close> at the bottom and overflow at \<open>2 ^ 1024\<close>.
\<close>

datatype float64 = F64 bool rat | Inf64 bool | NaN64

section \<open>Arithmetic\<close>

definition f64_round_abs :: "rat \<Rightarrow> rat" where
  "f64_round_abs x =
     (let y = x * 2 ^ 1074; k = floorlog 2 (nat \<lfloor>y\<rfloor>) - 53 in
      of_int (round_even (y / 2 ^ k)) * 2 ^ k / 2 ^ 1074)"

definition f64_of :: "bool \<Rightarrow> rat \<Rightarrow> float64" where
  "f64_of s x = (let r = f64_round_abs x in if 2 ^ 1024 \<le> r then Inf64 s else F64 s r)"

fun f64_neg :: "float64 \<Rightarrow> float64" where
  "f64_neg (F64 s a) = F64 (\<not> s) a"
| "f64_neg (Inf64 s) = Inf64 (\<not> s)"
| "f64_neg NaN64 = NaN64"

definition signed :: "bool \<Rightarrow> rat \<Rightarrow> rat" where
  "signed s a = (if s then - a else a)"

text \<open>A sum that is zero is negative only when both terms are.\<close>

fun f64_add :: "float64 \<Rightarrow> float64 \<Rightarrow> float64" where
  "f64_add (F64 s a) (F64 t b) =
     (let v = signed s a + signed t b in if v = 0 then F64 (s \<and> t) 0 else f64_of (v < 0) \<bar>v\<bar>)"
| "f64_add (Inf64 s) (F64 t b) = Inf64 s"
| "f64_add (F64 s a) (Inf64 t) = Inf64 t"
| "f64_add (Inf64 s) (Inf64 t) = (if s = t then Inf64 s else NaN64)"
| "f64_add _ _ = NaN64"

definition f64_sub :: "float64 \<Rightarrow> float64 \<Rightarrow> float64" where
  "f64_sub x y = f64_add x (f64_neg y)"

fun f64_mul :: "float64 \<Rightarrow> float64 \<Rightarrow> float64" where
  "f64_mul (F64 s a) (F64 t b) = f64_of (s \<noteq> t) (a * b)"
| "f64_mul (Inf64 s) (F64 t b) = (if b = 0 then NaN64 else Inf64 (s \<noteq> t))"
| "f64_mul (F64 s a) (Inf64 t) = (if a = 0 then NaN64 else Inf64 (s \<noteq> t))"
| "f64_mul (Inf64 s) (Inf64 t) = Inf64 (s \<noteq> t)"
| "f64_mul _ _ = NaN64"

fun f64_div :: "float64 \<Rightarrow> float64 \<Rightarrow> float64" where
  "f64_div (F64 s a) (F64 t b) =
     (if b = 0 then if a = 0 then NaN64 else Inf64 (s \<noteq> t) else f64_of (s \<noteq> t) (a / b))"
| "f64_div (Inf64 s) (F64 t b) = Inf64 (s \<noteq> t)"
| "f64_div (F64 s a) (Inf64 t) = F64 (s \<noteq> t) 0"
| "f64_div _ _ = NaN64"

fun f64_is_zero :: "float64 \<Rightarrow> bool" where
  "f64_is_zero (F64 s a) = (a = 0)"
| "f64_is_zero _ = False"

text \<open>The order of \<open>sort.Float64s\<close>: NaN comes first, the two zeros are equal.\<close>

fun f64_rank :: "float64 \<Rightarrow> int" where
  "f64_rank NaN64 = 0"
| "f64_rank (Inf64 s) = (if s then 1 else 3)"
| "f64_rank (F64 _ _) = 2"

fun f64_val :: "float64 \<Rightarrow> rat" where
  "f64_val (F64 s a) = signed s a"
| "f64_val _ = 0"

definition f64_before :: "float64 \<Rightarrow> float64 \<Rightarrow> bool" where
  "f64_before x y \<longleftrightarrow> f64_rank x < f64_rank y \<or> f64_rank x = f64_rank y \<and> f64_val x < f64_val y"

definition Float64s :: "float64 list \<Rightarrow> float64 list" where
  "Float64s = sort_by f64_before"

section \<open>Rounding\<close>

text \<open>A representable magnitude: an integer of at most 53 bits times a power of two, in units of \<open>2 ^ -1074\<close>.\<close>

definition f64_repr :: "rat \<Rightarrow> bool" where
  "f64_repr x \<longleftrightarrow> (\<exists>n j. n < 2 ^ 53 \<and> x * 2 ^ 1074 = of_nat n * 2 ^ j)"

fun f64_wf :: "float64 \<Rightarrow> bool" where
  "f64_wf (F64 s a) \<longleftrightarrow> f64_repr a \<and> a < 2 ^ 1024"
| "f64_wf _ \<longleftrightarrow> True"

lemma f64_repr_nonneg: "f64_repr x \<Longrightarrow> 0 \<le> x"
proof -
  assume "f64_repr x"
  then obtain n j where "x * 2 ^ 1074 = of_nat n * 2 ^ j" by (auto simp: f64_repr_def)
  moreover have "(0 :: rat) \<le> of_nat n * 2 ^ j" by simp
  ultimately show "0 \<le> x" by (metis zero_le_mult_iff zero_less_numeral zero_less_power not_less)
qed

lemma f64_round_repr [simp]:
  assumes "f64_repr x" shows "f64_round_abs x = x"
proof -
  define y where "y = x * 2 ^ 1074"
  obtain n j where nj: "n < 2 ^ 53" "y = of_nat n * 2 ^ j" using assms by (auto simp: f64_repr_def y_def)
  define k where "k = floorlog 2 (nat \<lfloor>y\<rfloor>) - 53"
  have yn: "y = of_nat (n * 2 ^ j)" using nj by simp
  have "nat \<lfloor>y\<rfloor> = n * 2 ^ j" by (simp only: yn floor_of_nat nat_int)
  then have "floorlog 2 (nat \<lfloor>y\<rfloor>) \<le> 53 + j"
    using nj(1) by (cases "n = 0") (simp_all add: floorlog_mult_pow2 floorlog_leI)
  then have "k \<le> j" by (simp add: k_def)
  then have "(2 :: rat) ^ j = 2 ^ k * 2 ^ (j - k)" by (simp only: le_add_diff_inverse flip: power_add)
  then have "y / 2 ^ k = of_int (int (n * 2 ^ (j - k)))" using nj(2) by (simp add: divide_eq_eq)
  then have "of_int (round_even (y / 2 ^ k)) = y / 2 ^ k" by (metis round_even_of_int)
  then have "f64_round_abs x = y / 2 ^ 1074"
    unfolding f64_round_abs_def Let_def y_def [symmetric] k_def [symmetric] by simp
  then show ?thesis by (simp add: y_def)
qed

lemma round_even_bounds: "q - 1 / 2 \<le> of_int (round_even q)" "of_int (round_even q) \<le> q + 1 / 2"
  by (auto simp: round_even_def Let_def) linarith+

lemma round_even_mono:
  assumes "p \<le> q" shows "round_even p \<le> round_even q"
proof (cases "\<lfloor>p\<rfloor> = \<lfloor>q\<rfloor>")
  case True
  then show ?thesis using assms by (simp add: round_even_def Let_def)
next
  case False
  then have "\<lfloor>p\<rfloor> + 1 \<le> \<lfloor>q\<rfloor>" using assms by (simp add: floor_mono order_le_neq_trans zless_imp_add1_zle)
  moreover have "round_even p \<le> \<lfloor>p\<rfloor> + 1" "\<lfloor>q\<rfloor> \<le> round_even q" by (simp_all add: round_even_def Let_def)
  ultimately show ?thesis by linarith
qed

definition f64_exp :: "rat \<Rightarrow> nat" where
  "f64_exp y = floorlog 2 (nat \<lfloor>y\<rfloor>) - 53"

lemma f64_exp_bounds:
  assumes "0 \<le> y"
  shows "y < 2 ^ (f64_exp y + 53)" and "0 < f64_exp y \<Longrightarrow> 2 ^ (f64_exp y + 52) \<le> y"
proof -
  let ?n = "nat \<lfloor>y\<rfloor>"
  have n: "int ?n = \<lfloor>y\<rfloor>" using assms by simp
  have "?n < 2 ^ floorlog 2 ?n" using floorlog_bounds [of ?n 2] by (cases "?n = 0") auto
  also have "\<dots> \<le> 2 ^ (f64_exp y + 53)" by (rule power_increasing) (simp_all add: f64_exp_def)
  finally have "\<lfloor>y\<rfloor> < 2 ^ (f64_exp y + 53)" using n by (metis of_nat_less_numeral_power_cancel_iff)
  then show "y < 2 ^ (f64_exp y + 53)" by (simp add: floor_less_iff)
  assume k: "0 < f64_exp y"
  then have "f64_exp y + 52 = floorlog 2 ?n - 1" by (simp add: f64_exp_def)
  moreover have "?n \<noteq> 0" using k by (auto simp: f64_exp_def floorlog_def)
  ultimately have "2 ^ (f64_exp y + 52) \<le> ?n" using floorlog_bounds [of ?n 2] by simp
  then have "2 ^ (f64_exp y + 52) \<le> \<lfloor>y\<rfloor>" using n by (metis numeral_power_le_of_nat_cancel_iff)
  then show "2 ^ (f64_exp y + 52) \<le> y" by (simp add: le_floor_iff)
qed

lemma f64_round_mantissa:
  assumes "0 \<le> y"
  shows "0 \<le> round_even (y / 2 ^ f64_exp y)" and "round_even (y / 2 ^ f64_exp y) \<le> 2 ^ 53"
    and "0 < f64_exp y \<Longrightarrow> 2 ^ 52 \<le> round_even (y / 2 ^ f64_exp y)"
proof -
  let ?q = "y / 2 ^ f64_exp y"
  have "0 \<le> ?q" using assms by simp
  from round_even_mono [OF this] show "0 \<le> round_even ?q"
    using round_even_of_int [of 0] by simp
  have "?q \<le> of_int (2 ^ 53)"
    using f64_exp_bounds(1) [OF assms] by (simp add: divide_le_eq power_add mult.commute)
  from round_even_mono [OF this] show "round_even ?q \<le> 2 ^ 53" by (simp only: round_even_of_int)
  assume "0 < f64_exp y"
  then have "of_int (2 ^ 52) \<le> ?q"
    using f64_exp_bounds(2) [OF assms] by (simp add: le_divide_eq power_add mult.commute)
  from round_even_mono [OF this] show "2 ^ 52 \<le> round_even ?q" by (simp only: round_even_of_int)
qed

lemma f64_round_abs_exp: "f64_round_abs x = of_int (round_even (x * 2 ^ 1074 / 2 ^ f64_exp (x * 2 ^ 1074))) * 2 ^ f64_exp (x * 2 ^ 1074) / 2 ^ 1074"
  by (simp add: f64_round_abs_def f64_exp_def Let_def)

lemma f64_repr_round [simp]:
  assumes "0 \<le> x" shows "f64_repr (f64_round_abs x)"
proof -
  define y where "y = x * 2 ^ 1074"
  define m where "m = round_even (y / 2 ^ f64_exp y)"
  have y: "0 \<le> y" using assms by (simp add: y_def)
  have m: "0 \<le> m" "m \<le> 2 ^ 53" using f64_round_mantissa [OF y] by (simp_all add: m_def)
  have r: "f64_round_abs x * 2 ^ 1074 = of_int m * 2 ^ f64_exp y"
    by (simp add: f64_round_abs_exp y_def m_def)
  show ?thesis
  proof (cases "m = 2 ^ 53")
    case True
    then have "f64_round_abs x * 2 ^ 1074 = of_nat 1 * 2 ^ (53 + f64_exp y)" using r by (simp add: power_add)
    moreover have "(1 :: nat) < 2 ^ 53" by simp
    ultimately show ?thesis unfolding f64_repr_def by blast
  next
    case False
    then have "nat m < 2 ^ 53" using m by (simp add: nat_less_iff)
    moreover have "f64_round_abs x * 2 ^ 1074 = of_nat (nat m) * 2 ^ f64_exp y" using r m by simp
    ultimately show ?thesis unfolding f64_repr_def by blast
  qed
qed

lemma f64_round_mono:
  assumes "0 \<le> x" and "x \<le> z" shows "f64_round_abs x \<le> f64_round_abs z"
proof -
  define y where "y = x * 2 ^ 1074"
  define w where "w = z * 2 ^ 1074"
  have yw: "0 \<le> y" "y \<le> w" "0 \<le> w" using assms by (simp_all add: y_def w_def)
  let ?Y = "of_int (round_even (y / 2 ^ f64_exp y)) * 2 ^ f64_exp y :: rat"
  let ?W = "of_int (round_even (w / 2 ^ f64_exp w)) * 2 ^ f64_exp w :: rat"
  have "f64_exp y \<le> f64_exp w"
    unfolding f64_exp_def by (intro diff_le_mono floorlog_mono nat_mono floor_mono yw)
  then consider "f64_exp y = f64_exp w" | "f64_exp y < f64_exp w" by linarith
  then have "?Y \<le> ?W"
  proof cases
    case 1
    then show ?thesis using yw by (simp add: round_even_mono divide_right_mono)
  next
    case 2
    have "?Y \<le> of_int (2 ^ 53) * 2 ^ f64_exp y"
      using f64_round_mantissa(2) [OF yw(1)] by (intro mult_right_mono) (simp_all only: of_int_le_iff zero_le_power zero_le_numeral)
    also have "\<dots> = 2 ^ (53 + f64_exp y)" by (simp add: power_add)
    also have "\<dots> \<le> 2 ^ (52 + f64_exp w)" using 2 by (intro power_increasing) simp_all
    also have "\<dots> = of_int (2 ^ 52) * 2 ^ f64_exp w" by (simp add: power_add)
    also have "\<dots> \<le> ?W"
      using f64_round_mantissa(3) [OF yw(3)] 2 by (intro mult_right_mono) (simp_all only: of_int_le_iff zero_le_power zero_le_numeral)
    finally show ?thesis .
  qed
  then show ?thesis by (simp add: f64_round_abs_exp y_def w_def divide_right_mono)
qed

lemma f64_repr_nat: "n < 2 ^ 53 \<Longrightarrow> f64_repr (of_nat n)"
  unfolding f64_repr_def by (intro exI [of _ n] exI [of _ "1074 :: nat"]) simp

lemma f64_repr_double:
  assumes "f64_repr x" shows "f64_repr (2 * x)"
proof -
  obtain n j where nj: "n < 2 ^ 53" "x * 2 ^ 1074 = of_nat n * 2 ^ j" using assms by (auto simp: f64_repr_def)
  then have "2 * x * 2 ^ 1074 = of_nat n * 2 ^ Suc j" by simp
  then show ?thesis using nj(1) unfolding f64_repr_def by blast
qed

lemma f64_of_wf: "0 \<le> x \<Longrightarrow> f64_wf (f64_of s x)"
  by (simp add: f64_of_def Let_def)

text \<open>Code equations: small integers need no rounding.\<close>

lemma f64_round_nat: "n < 2 ^ 53 \<Longrightarrow> f64_round_abs (of_nat n) = of_nat n"
  by (simp add: f64_repr_nat)

lemma f64_of_nat: "n < 2 ^ 53 \<Longrightarrow> f64_of s (of_nat n) = F64 s (of_nat n)"
proof -
  assume n: "n < 2 ^ 53"
  then have "n < 2 ^ 1024" by (rule less_trans) simp
  then have "(of_nat n :: rat) < 2 ^ 1024" by (metis of_nat_less_numeral_power_cancel_iff)
  then show ?thesis using n by (simp add: f64_of_def f64_round_nat)
qed

lemma f64_of_code [code]:
  "f64_of s x = (let (a, b) = quotient_of x in if b = 1 \<and> 0 \<le> a \<and> a < 2 ^ 53 then F64 s x else
     let r = f64_round_abs x in if 2 ^ 1024 \<le> r then Inf64 s else F64 s r)"
proof -
  obtain a b where q: "quotient_of x = (a, b)" by fastforce
  show ?thesis
  proof (cases "b = 1 \<and> 0 \<le> a \<and> a < 2 ^ 53")
    case True
    then have x: "x = of_nat (nat a)" using quotient_of_div [OF q] by simp
    have "nat a < 2 ^ 53" using True by (simp add: nat_less_iff)
    from f64_of_nat [OF this, of s] show ?thesis using q x True by simp
  next
    case False
    then show ?thesis using q by (auto simp: f64_of_def Let_def)
  qed
qed

section \<open>Order and midpoints\<close>

interpretation f64s: sort_order f64_before
  by unfold_locales (auto simp: f64_before_def)

lemma Float64s_simps [simp]:
  "set (Float64s xs) = set xs" "length (Float64s xs) = length xs" "mset (Float64s xs) = mset xs"
  by (simp_all add: Float64s_def)

fun f64_finite :: "float64 \<Rightarrow> bool" where
  "f64_finite (F64 s a) = True"
| "f64_finite _ = False"

lemma f64_before_finite:
  "f64_finite x \<Longrightarrow> f64_finite y \<Longrightarrow> f64_before x y \<longleftrightarrow> f64_val x < f64_val y"
  by (cases x; cases y) (simp_all add: f64_before_def)

definition f64_signed_round :: "rat \<Rightarrow> rat" where
  "f64_signed_round v = signed (v < 0) (f64_round_abs \<bar>v\<bar>)"

lemma f64_round_abs_nonneg: "0 \<le> x \<Longrightarrow> 0 \<le> f64_round_abs x"
  by (rule f64_repr_nonneg) simp

lemma f64_signed_round_mono:
  assumes "v \<le> w" shows "f64_signed_round v \<le> f64_signed_round w"
proof -
  consider "0 \<le> v" | "v < 0" "0 \<le> w" | "v < 0" "w < 0" by linarith
  then show ?thesis
  proof cases
    case 1
    then show ?thesis using assms f64_round_mono [of v w] by (simp add: f64_signed_round_def signed_def)
  next
    case 2
    then have "0 \<le> f64_round_abs (- v)" "0 \<le> f64_round_abs w" by (simp_all add: f64_round_abs_nonneg)
    then show ?thesis using 2 by (simp add: f64_signed_round_def signed_def)
  next
    case 3
    then show ?thesis using assms f64_round_mono [of "- w" "- v"] by (simp add: f64_signed_round_def signed_def)
  qed
qed

lemma f64_signed_round_repr: "f64_repr \<bar>v\<bar> \<Longrightarrow> f64_signed_round v = v"
  by (simp add: f64_signed_round_def signed_def)

lemma f64_round_bound:
  assumes "0 \<le> x" and "x \<le> 2 ^ 1023" shows "f64_round_abs x \<le> 2 ^ 1023"
proof -
  have r: "f64_repr (2 ^ 1023)"
    unfolding f64_repr_def by (intro exI [of _ "1 :: nat"] exI [of _ "2097 :: nat"]) (simp flip: power_add)
  then show ?thesis using f64_round_mono [OF assms] by simp
qed

lemma f64_of_small:
  assumes "0 \<le> x" and "x \<le> 2 ^ 1023" shows "f64_of s x = F64 s (f64_round_abs x)"
proof -
  have "f64_round_abs x \<le> 2 ^ 1023" by (rule f64_round_bound [OF assms])
  also have "(2 :: rat) ^ 1023 < 2 ^ 1024" by simp
  finally show ?thesis by (simp add: f64_of_def)
qed

lemma f64_val_wf: "f64_wf x \<Longrightarrow> f64_repr \<bar>f64_val x\<bar>"
proof (cases x)
  case (F64 s a)
  assume "f64_wf x"
  with F64 have "f64_repr a" by simp
  then show ?thesis using F64 f64_repr_nonneg [of a] by (simp add: signed_def)
qed (simp_all add: f64_repr_def exI [of _ "0 :: nat"])

lemma f64_add_val:
  assumes "f64_finite x" and "f64_finite y" and "\<bar>f64_val x + f64_val y\<bar> \<le> 2 ^ 1023"
  shows "f64_finite (f64_add x y) \<and> f64_val (f64_add x y) = f64_signed_round (f64_val x + f64_val y)"
proof -
  obtain s a t b where xy: "x = F64 s a" "y = F64 t b" using assms(1,2) by (cases x; cases y) auto
  define v where "v = signed s a + signed t b"
  have add: "f64_add x y = (if v = 0 then F64 (s \<and> t) 0 else f64_of (v < 0) \<bar>v\<bar>)"
    by (simp add: xy v_def Let_def)
  have v: "f64_val x + f64_val y = v" by (simp add: xy v_def)
  have "f64_of (v < 0) \<bar>v\<bar> = F64 (v < 0) (f64_round_abs \<bar>v\<bar>)"
    using assms(3) unfolding v by (intro f64_of_small) simp_all
  moreover have "f64_round_abs 0 = 0" using f64_round_nat [of 0] by simp
  ultimately show ?thesis unfolding v add f64_signed_round_def by (cases "v = 0") (simp_all add: signed_def)
qed

lemma f64_div_two_val:
  assumes "f64_finite x" and "f64_wf x" and "\<bar>f64_val x\<bar> \<le> 2 ^ 1023"
  shows "f64_finite (f64_div x (F64 False 2)) \<and> f64_val (f64_div x (F64 False 2)) = f64_signed_round (f64_val x / 2)"
proof -
  obtain s a where x: "x = F64 s a" using assms(1) by (cases x) auto
  have a: "0 \<le> a" using assms(2) f64_repr_nonneg x by simp
  have "\<bar>f64_val x\<bar> = a" using a by (simp add: x signed_def)
  then have "a \<le> 2 ^ 1023" using assms(3) by simp
  moreover have "a / 2 \<le> a" using a by simp
  ultimately have "a / 2 \<le> 2 ^ 1023" by (rule order_trans [rotated])
  then have "f64_of s (a / 2) = F64 s (f64_round_abs (a / 2))" using a by (intro f64_of_small) simp_all
  moreover have "f64_round_abs 0 = 0" using f64_round_nat [of 0] by simp
  ultimately show ?thesis using a by (auto simp: x f64_signed_round_def signed_def)
qed

text \<open>Half the sum of two values lies between them, rounding included, when the sum is far from overflow.\<close>

lemma f64_midpoint:
  assumes "f64_finite x" "f64_finite y" "f64_wf x" "f64_wf y" and le: "f64_val x \<le> f64_val y"
    and small: "\<bar>f64_val x\<bar> \<le> 2 ^ 1022" "\<bar>f64_val y\<bar> \<le> 2 ^ 1022"
  shows "f64_finite (f64_div (f64_add x y) (F64 False 2))"
    and "f64_val x \<le> f64_val (f64_div (f64_add x y) (F64 False 2))"
    and "f64_val (f64_div (f64_add x y) (F64 False 2)) \<le> f64_val y"
proof -
  define S where "S = f64_add x y"
  define P :: rat where "P = 2 ^ 1022"
  let ?a = "f64_val x" and ?b = "f64_val y"
  have P: "2 ^ 1023 = 2 * P" by (simp add: P_def)
  have sm: "\<bar>?a\<bar> \<le> P" "\<bar>?b\<bar> \<le> P" using small unfolding P_def by this+
  have "\<bar>?a + ?b\<bar> \<le> 2 * P" using sm by linarith
  from f64_add_val [OF assms(1,2), unfolded P, OF this]
  have S: "f64_finite S" "f64_val S = f64_signed_round (?a + ?b)" by (simp_all add: S_def)
  have ra: "f64_repr \<bar>?a\<bar>" "f64_repr \<bar>?b\<bar>" using f64_val_wf assms(3,4) by simp_all
  then have two: "f64_signed_round (2 * ?a) = 2 * ?a" "f64_signed_round (2 * ?b) = 2 * ?b"
    using ra [THEN f64_repr_double] by (simp_all only: f64_signed_round_repr abs_mult abs_numeral)
  have lo: "2 * ?a \<le> f64_val S" using f64_signed_round_mono [of "2 * ?a" "?a + ?b"] le two S by simp
  have hi: "f64_val S \<le> 2 * ?b" using f64_signed_round_mono [of "?a + ?b" "2 * ?b"] le two S by simp
  have wf: "f64_wf S"
    using assms(1,2) by (cases x; cases y) (auto simp: S_def Let_def f64_repr_def exI [of _ "0 :: nat"] intro!: f64_of_wf)
  have "\<bar>f64_val S\<bar> \<le> 2 * P" using lo hi sm by linarith
  from f64_div_two_val [OF S(1) wf, unfolded P, OF this]
  have d: "f64_finite (f64_div S (F64 False 2)) \<and> f64_val (f64_div S (F64 False 2)) = f64_signed_round (f64_val S / 2)" .
  then show "f64_finite (f64_div (f64_add x y) (F64 False 2))" by (simp add: S_def)
  show "?a \<le> f64_val (f64_div (f64_add x y) (F64 False 2))"
    using d f64_signed_round_mono [of ?a "f64_val S / 2"] lo ra by (simp add: S_def f64_signed_round_repr)
  show "f64_val (f64_div (f64_add x y) (F64 False 2)) \<le> ?b"
    using d f64_signed_round_mono [of "f64_val S / 2" ?b] hi ra by (simp add: S_def f64_signed_round_repr)
qed

end
