(* ===== verification/Go_Strings.thy ===== *)
theory Go_Strings
  imports Main "HOL-Library.Char_ord" "HOL-Library.List_Lexorder"
begin

text \<open>
  Go strings as \<^verbatim>\<open>tools/benchreport\<close> uses them: sequences of bytes, here \<open>char\<close>s, and the functions of the packages
  \<open>strings\<close>, \<open>strconv\<close> and \<open>unicode/utf8\<close> that it calls. The Unicode tables for the code points above 127
  are data of the Go library and an argument (\<open>unicode\<close>); below 128 they are written out.
\<close>

section \<open>UTF-8\<close>

definition code :: "char \<Rightarrow> int" where
  "code c = of_char c"

text \<open>
  The first code point and its width. An invalid sequence is the code point \<open>U+FFFD\<close> of width 1. The
  second byte of a longer sequence has a narrower range after the first bytes \<open>E0\<close>, \<open>ED\<close>, \<open>F0\<close> and \<open>F4\<close>.
\<close>

definition second_ok :: "int \<Rightarrow> int \<Rightarrow> bool" where
  "second_ok a b \<longleftrightarrow> (if a = 0xE0 then 0xA0 else if a = 0xF0 then 0x90 else 0x80) \<le> b
     \<and> b \<le> (if a = 0xED then 0x9F else if a = 0xF4 then 0x8F else 0xBF)"

definition cont_ok :: "int \<Rightarrow> bool" where
  "cont_ok b \<longleftrightarrow> 0x80 \<le> b \<and> b \<le> 0xBF"

definition decode_rune :: "char list \<Rightarrow> int \<times> nat" where
  "decode_rune s = (case map code (take 4 s) of
     [] \<Rightarrow> (0xFFFD, 1)
   | a # t \<Rightarrow>
       if a < 0x80 then (a, 1)
       else if 0xC2 \<le> a \<and> a \<le> 0xDF then
         (case t of b # _ \<Rightarrow> if cont_ok b then ((a - 0xC0) * 64 + (b - 0x80), 2) else (0xFFFD, 1) | _ \<Rightarrow> (0xFFFD, 1))
       else if 0xE0 \<le> a \<and> a \<le> 0xEF then
         (case t of b # c # _ \<Rightarrow>
            if second_ok a b \<and> cont_ok c then ((a - 0xE0) * 4096 + (b - 0x80) * 64 + (c - 0x80), 3) else (0xFFFD, 1)
          | _ \<Rightarrow> (0xFFFD, 1))
       else if 0xF0 \<le> a \<and> a \<le> 0xF4 then
         (case t of b # c # d # _ \<Rightarrow>
            if second_ok a b \<and> cont_ok c \<and> cont_ok d
            then ((a - 0xF0) * 262144 + (b - 0x80) * 4096 + (c - 0x80) * 64 + (d - 0x80), 4) else (0xFFFD, 1)
          | _ \<Rightarrow> (0xFFFD, 1))
       else (0xFFFD, 1))"

lemma decode_width: "0 < snd (decode_rune s)"
  by (auto simp: decode_rune_def split: list.split)

text \<open>The code points of a string, each with the bytes it came from.\<close>

function runes :: "char list \<Rightarrow> (int \<times> char list) list" where
  "runes s = (if s = [] then [] else
     let (r, w) = decode_rune s in (r, take w s) # runes (drop w s))"
  by pat_completeness auto

termination
proof (relation "measure length")
  show "wf (measure length :: (char list \<times> char list) set)" by simp
next
  fix s :: "char list" and x r w
  assume "s \<noteq> []" "x = decode_rune s" "(r, w) = x"
  then have "0 < w" using decode_width [of s] by (metis snd_conv)
  then show "(drop w s, s) \<in> measure length" using \<open>s \<noteq> []\<close> by simp
qed

declare runes.simps [simp del]

definition encode_rune :: "int \<Rightarrow> char list" where
  "encode_rune r =
     (if r < 0 then [char_of (0xEF :: int), char_of (0xBF :: int), char_of (0xBD :: int)]
      else if r < 0x80 then [char_of r]
      else if r < 0x800 then [char_of (0xC0 + r div 64), char_of (0x80 + r mod 64)]
      else if 0x10FFFF < r \<or> 0xD800 \<le> r \<and> r \<le> 0xDFFF then [char_of (0xEF :: int), char_of (0xBF :: int), char_of (0xBD :: int)]
      else if r < 0x10000 then [char_of (0xE0 + r div 4096), char_of (0x80 + r div 64 mod 64), char_of (0x80 + r mod 64)]
      else [char_of (0xF0 + r div 262144), char_of (0x80 + r div 4096 mod 64), char_of (0x80 + r div 64 mod 64), char_of (0x80 + r mod 64)])"

section \<open>Unicode classes\<close>

record unicode =
  u_letter :: "int \<Rightarrow> bool"
  u_digit :: "int \<Rightarrow> bool"
  u_lower :: "int \<Rightarrow> int"

definition IsLetter :: "unicode \<Rightarrow> int \<Rightarrow> bool" where
  "IsLetter U r \<longleftrightarrow> (if r < 128 then 65 \<le> r \<and> r \<le> 90 \<or> 97 \<le> r \<and> r \<le> 122 else u_letter U r)"

definition IsDigit :: "unicode \<Rightarrow> int \<Rightarrow> bool" where
  "IsDigit U r \<longleftrightarrow> (if r < 128 then 48 \<le> r \<and> r \<le> 57 else u_digit U r)"

definition rune_lower :: "unicode \<Rightarrow> int \<Rightarrow> int" where
  "rune_lower U r = (if 65 \<le> r \<and> r \<le> 90 then r + 32 else if r < 128 then r else u_lower U r)"

text \<open>The property \<open>White_Space\<close>.\<close>

definition IsSpace :: "int \<Rightarrow> bool" where
  "IsSpace r \<longleftrightarrow> 9 \<le> r \<and> r \<le> 13 \<or> r \<in> set [0x20, 0x85, 0xA0, 0x1680, 0x2028, 0x2029, 0x202F, 0x205F, 0x3000]
     \<or> 0x2000 \<le> r \<and> r \<le> 0x200A"

section \<open>Package strings\<close>

definition ToLower :: "unicode \<Rightarrow> char list \<Rightarrow> char list" where
  "ToLower U s = concat (map (\<lambda>r. encode_rune (rune_lower U (fst r))) (runes s))"

fun Split_at :: "char \<Rightarrow> char list \<Rightarrow> char list list" where
  "Split_at sep [] = [[]]"
| "Split_at sep (c # s) =
     (if c = sep then [] # Split_at sep s
      else (case Split_at sep s of [] \<Rightarrow> [[c]] | f # fs \<Rightarrow> (c # f) # fs))"

definition Cut :: "char list \<Rightarrow> char \<Rightarrow> (char list \<times> char list) option" where
  "Cut s sep = (if sep \<in> set s then Some (takeWhile (\<lambda>c. c \<noteq> sep) s, drop 1 (dropWhile (\<lambda>c. c \<noteq> sep) s)) else None)"

definition trim :: "('a \<Rightarrow> bool) \<Rightarrow> 'a list \<Rightarrow> 'a list" where
  "trim P xs = rev (dropWhile P (rev (dropWhile P xs)))"

definition TrimSpace :: "char list \<Rightarrow> char list" where
  "TrimSpace s = concat (map snd (trim (\<lambda>r. IsSpace (fst r)) (runes s)))"

definition TrimRight :: "char list \<Rightarrow> char \<Rightarrow> char list" where
  "TrimRight s c = rev (dropWhile (\<lambda>x. x = c) (rev s))"

text \<open>The maximal parts without white space; the accumulator is the part being read.\<close>

fun fields_loop :: "(int \<times> char list) list \<Rightarrow> char list \<Rightarrow> char list list" where
  "fields_loop [] cur = (if cur = [] then [] else [cur])"
| "fields_loop (r # rs) cur =
     (if IsSpace (fst r) then (if cur = [] then fields_loop rs [] else cur # fields_loop rs [])
      else fields_loop rs (cur @ snd r))"

definition Fields :: "char list \<Rightarrow> char list list" where
  "Fields s = fields_loop (runes s) []"

definition HasPrefix :: "char list \<Rightarrow> char list \<Rightarrow> bool" where
  "HasPrefix s p \<longleftrightarrow> take (length p) s = p"

text \<open>The position of the last occurrence.\<close>

definition LastIndex :: "char list \<Rightarrow> char \<Rightarrow> nat option" where
  "LastIndex s c = (if c \<in> set s then Some (length (dropWhile (\<lambda>x. x \<noteq> c) (rev s)) - 1) else None)"

fun Join :: "char list list \<Rightarrow> char list \<Rightarrow> char list" where
  "Join [] sep = []"
| "Join [x] sep = x"
| "Join (x # y # xs) sep = x @ sep @ Join (y # xs) sep"

section \<open>Decimal numbers\<close>

definition is_dec :: "char \<Rightarrow> bool" where
  "is_dec c \<longleftrightarrow> 48 \<le> code c \<and> code c \<le> 57"

definition digits_value :: "char list \<Rightarrow> int" where
  "digits_value s = foldl (\<lambda>n c. 10 * n + (code c - 48)) 0 s"

function show_dec :: "int \<Rightarrow> char list" where
  "show_dec n = (if n < 10 then [char_of (48 + n)] else show_dec (n div 10) @ [char_of (48 + n mod 10)])"
  by pat_completeness auto

termination by (relation "measure nat") auto

declare show_dec.simps [simp del]

definition Itoa :: "int \<Rightarrow> char list" where
  "Itoa i = (if i < 0 then CHR ''-'' # show_dec (- i) else show_dec i)"

text \<open>\<open>Atoi\<close>: an optional sign and at least one digit; a value outside of the 64-bit range is an error.\<close>

definition Atoi :: "char list \<Rightarrow> int option" where
  "Atoi s =
     (let neg = (take 1 s = ''-''); body = (if take 1 s = ''-'' \<or> take 1 s = ''+'' then drop 1 s else s) in
      if body = [] \<or> \<not> list_all is_dec body then None
      else let v = (if neg then - digits_value body else digits_value body) in
        if - (2 ^ 63) \<le> v \<and> v < 2 ^ 63 then Some v else None)"

section \<open>Lemmas\<close>

lemma code_char_of [simp]: "0 \<le> n \<Longrightarrow> n < 256 \<Longrightarrow> code (char_of n) = n"
  by (simp add: code_def)

lemma code_bound: "0 \<le> code c" "code c < 256"
proof -
  have "code c = int (of_char c)" by (cases c) (simp add: code_def)
  moreover have "of_char c < (256 :: nat)" by simp
  ultimately show "0 \<le> code c" "code c < 256" by simp_all
qed

lemma code_inject [simp]: "code a = code b \<longleftrightarrow> a = b"
  by (simp add: code_def)

lemma is_dec_char [simp]: "0 \<le> d \<Longrightarrow> d < 10 \<Longrightarrow> is_dec (char_of (48 + d))" for d :: int
  by (simp add: is_dec_def)

lemma digits_value_snoc: "digits_value (s @ [c]) = 10 * digits_value s + (code c - 48)"
  by (simp add: digits_value_def)

lemma show_dec_digits: "0 \<le> n \<Longrightarrow> list_all is_dec (show_dec n) \<and> show_dec n \<noteq> []"
proof (induction n rule: show_dec.induct)
  case (1 n)
  then show ?case by (subst (1 2) show_dec.simps) simp
qed

lemma digits_value_show: "0 \<le> n \<Longrightarrow> digits_value (show_dec n) = n"
proof (induction n rule: show_dec.induct)
  case (1 n)
  show ?case
  proof (cases "n < 10")
    case True
    then show ?thesis using 1 by (subst show_dec.simps) (simp add: digits_value_def)
  next
    case False
    have "digits_value (show_dec n) = 10 * digits_value (show_dec (n div 10)) + n mod 10"
      using False by (subst show_dec.simps) (simp add: digits_value_snoc)
    then show ?thesis using 1 False by simp
  qed
qed

lemma is_dec_range: "is_dec c \<Longrightarrow> c \<noteq> CHR ''-'' \<and> c \<noteq> CHR ''+'' \<and> c \<noteq> CHR ''.''"
  by (auto simp: is_dec_def code_def)

lemma show_dec_cons:
  assumes "0 \<le> n" obtains c s where "show_dec n = c # s" and "is_dec c"
  using show_dec_digits [OF assms] by (cases "show_dec n") auto

lemma show_dec_no_sign:
  assumes "0 \<le> n" shows "take 1 (show_dec n) \<noteq> ''-''" and "take 1 (show_dec n) \<noteq> ''+''"
  using show_dec_cons [OF assms] is_dec_range by (metis list.inject take0 take_Suc_Cons One_nat_def)+

lemma Atoi_Itoa:
  assumes "- (2 ^ 63) \<le> i" and "i < 2 ^ 63"
  shows "Atoi (Itoa i) = Some i"
proof (cases "i < 0")
  case True
  then show ?thesis using assms show_dec_digits [of "- i"]
    by (simp add: Atoi_def Itoa_def digits_value_show Let_def)
next
  case False
  then show ?thesis using assms show_dec_digits [of i] show_dec_no_sign [of i]
    by (simp add: Atoi_def Itoa_def digits_value_show Let_def)
qed

text \<open>On ASCII text a code point is a byte.\<close>

definition ascii :: "char list \<Rightarrow> bool" where
  "ascii s \<longleftrightarrow> list_all (\<lambda>c. code c < 128) s"

lemma runes_Nil [simp]: "runes [] = []"
  by (simp add: runes.simps)

lemma runes_Cons_ascii: "code c < 128 \<Longrightarrow> runes (c # s) = (code c, [c]) # runes s"
  by (subst runes.simps) (simp add: decode_rune_def)

lemma runes_ascii: "ascii s \<Longrightarrow> runes s = map (\<lambda>c. (code c, [c])) s"
  by (induction s) (simp_all add: ascii_def runes_Cons_ascii)

lemma encode_ascii [simp]: "0 \<le> r \<Longrightarrow> r < 128 \<Longrightarrow> encode_rune r = [char_of r]"
  by (simp add: encode_rune_def)

lemma Split_at_not_Nil [simp]: "Split_at c s \<noteq> []"
  by (induction c s rule: Split_at.induct) (auto split: list.split)

lemma Split_at_line: "c \<notin> set l \<Longrightarrow> Split_at c (l @ c # s) = l # Split_at c s"
  by (induction l) auto

lemma Split_at_last: "c \<notin> set l \<Longrightarrow> Split_at c l = [l]"
  by (induction l) auto

text \<open>Words of printable ASCII characters between blanks and tabs.\<close>

definition is_word :: "char list \<Rightarrow> bool" where
  "is_word w \<longleftrightarrow> w \<noteq> [] \<and> list_all (\<lambda>c. 33 \<le> code c \<and> code c < 127) w"

definition is_gap :: "char list \<Rightarrow> bool" where
  "is_gap g \<longleftrightarrow> g \<noteq> [] \<and> list_all (\<lambda>c. c = CHR '' '' \<or> c = CHR 0x09) g"

lemma space_not_word: "33 \<le> r \<Longrightarrow> r < 127 \<Longrightarrow> \<not> IsSpace r"
  by (auto simp: IsSpace_def)

lemma fields_word:
  "list_all (\<lambda>c. 33 \<le> code c \<and> code c < 127) w \<Longrightarrow> fields_loop (runes (w @ s)) cur = fields_loop (runes s) (cur @ w)"
  by (induction w arbitrary: cur) (simp_all add: runes_Cons_ascii space_not_word)

lemma gap_char: "c = CHR '' '' \<or> c = CHR 0x09 \<Longrightarrow> code c < 128 \<and> IsSpace (code c)"
  by (auto simp: code_def IsSpace_def)

lemma fields_gap0:
  "list_all (\<lambda>c. c = CHR '' '' \<or> c = CHR 0x09) g \<Longrightarrow> fields_loop (runes (g @ s)) [] = fields_loop (runes s) []"
  by (induction g) (use gap_char in \<open>simp_all add: runes_Cons_ascii\<close>)

lemma Fields_word_gap:
  assumes "is_word w" and "is_gap g" shows "Fields (w @ g @ s) = w # Fields s"
proof -
  obtain c g' where g: "g = c # g'" "code c < 128" "IsSpace (code c)"
    "list_all (\<lambda>c. c = CHR '' '' \<or> c = CHR 0x09) g'"
    using assms(2) gap_char by (cases g) (auto simp: is_gap_def)
  then show ?thesis using assms(1) fields_gap0 [OF g(4)] by (simp add: Fields_def is_word_def fields_word runes_Cons_ascii)
qed

lemma Fields_last: "is_word w \<Longrightarrow> Fields w = [w]"
  using fields_word [of w "[]" "[]"] by (simp add: Fields_def is_word_def)

lemma is_word_dec: "list_all is_dec w \<Longrightarrow> w \<noteq> [] \<Longrightarrow> is_word w"
  by (auto simp: is_word_def is_dec_def list_all_iff)

lemma is_word_append: "is_word v \<Longrightarrow> is_word w \<Longrightarrow> is_word (v @ w)"
  by (simp add: is_word_def)

lemma LastIndex_append: "c \<notin> set t \<Longrightarrow> LastIndex (s @ c # t) c = Some (length s)"
proof -
  assume "c \<notin> set t"
  then have "dropWhile (\<lambda>x. x \<noteq> c) (rev t @ c # rev s) = c # rev s"
    by (subst dropWhile_append2) auto
  then show ?thesis by (simp add: LastIndex_def)
qed

end
