(* ===== verification/Go_Float_Text.thy ===== *)
theory Go_Float_Text
  imports Go_Float64 Go_Strings
begin

text \<open>
  \<open>strconv.ParseFloat\<close>, \<open>strconv.FormatFloat\<close> with two decimals and the verb \<open>%+.2f\<close> of \<open>fmt\<close>, with the lemmas that
  reading a decimal text gives its value.
\<close>

section \<open>ParseFloat\<close>

text \<open>
  \<open>readFloat\<close> after the sign. The scan of the digits gives the mantissa, the number of its digits after the point, whether
  there was a digit, and the rest; underscores are skipped and judged by \<open>underscoreOK\<close> at the end.
\<close>

definition is_upper :: "char \<Rightarrow> bool" where
  "is_upper c \<longleftrightarrow> 65 \<le> code c \<and> code c \<le> 90"

definition lower_ascii :: "char \<Rightarrow> char" where
  "lower_ascii c = (if is_upper c then char_of (code c + 32) else c)"

definition is_hex_letter :: "char \<Rightarrow> bool" where
  "is_hex_letter c \<longleftrightarrow> 97 \<le> code (lower_ascii c) \<and> code (lower_ascii c) \<le> 102"

fun scan_digits :: "bool \<Rightarrow> char list \<Rightarrow> bool \<Rightarrow> int \<Rightarrow> int \<Rightarrow> bool \<Rightarrow> int \<times> int \<times> bool \<times> char list" where
  "scan_digits hex [] dot m fd seen = (m, fd, seen, [])"
| "scan_digits hex (c # s) dot m fd seen =
     (if c = CHR ''_'' then scan_digits hex s dot m fd seen
      else if c = CHR ''.'' then (if dot then (m, fd, seen, c # s) else scan_digits hex s True m fd seen)
      else if is_dec c then
        scan_digits hex s dot (m * (if hex then 16 else 10) + (code c - 48)) (if dot then fd + 1 else fd) True
      else if hex \<and> is_hex_letter c then
        scan_digits hex s dot (m * 16 + (code (lower_ascii c) - 87)) (if dot then fd + 1 else fd) True
      else (m, fd, seen, c # s))"

text \<open>The digits of the exponent; it stops growing once it is over 9999.\<close>

fun scan_exponent :: "char list \<Rightarrow> int \<Rightarrow> int \<times> char list" where
  "scan_exponent [] e = (e, [])"
| "scan_exponent (c # s) e =
     (if c = CHR ''_'' then scan_exponent s e
      else if is_dec c then scan_exponent s (if e < 10000 then e * 10 + (code c - 48) else e)
      else (e, c # s))"

text \<open>The last character: a digit or base prefix, an underscore, or something else.\<close>

datatype seen_char = SDigit | SUnder | SOther

fun underscore_loop :: "bool \<Rightarrow> char list \<Rightarrow> seen_char \<Rightarrow> bool" where
  "underscore_loop hex [] saw \<longleftrightarrow> saw \<noteq> SUnder"
| "underscore_loop hex (c # s) saw \<longleftrightarrow>
     (if is_dec c \<or> hex \<and> is_hex_letter c then underscore_loop hex s SDigit
      else if c = CHR ''_'' then saw = SDigit \<and> underscore_loop hex s SUnder
      else saw \<noteq> SUnder \<and> underscore_loop hex s SOther)"

definition underscoreOK :: "char list \<Rightarrow> bool" where
  "underscoreOK s =
     (let p = map lower_ascii (take 2 s) in
      if p = ''0b'' \<or> p = ''0o'' \<or> p = ''0x'' then underscore_loop (p = ''0x'') (drop 2 s) SDigit
      else underscore_loop False s SOther)"

definition scale :: "rat \<Rightarrow> int \<Rightarrow> rat \<Rightarrow> rat" where
  "scale b e x = (if 0 \<le> e then x * b ^ nat e else x / b ^ nat (- e))"

definition number_value :: "bool \<Rightarrow> int \<Rightarrow> int \<Rightarrow> int \<Rightarrow> rat" where
  "number_value hex m fd e = (if hex then scale 2 (e - 4 * fd) (of_int m) else scale 10 (e - fd) (of_int m))"

text \<open>The exponent part. A hexadecimal number must have one. \<open>None\<close> is a syntax error.\<close>

definition read_exponent :: "bool \<Rightarrow> char list \<Rightarrow> int option" where
  "read_exponent hex s =
     (if map lower_ascii (take 1 s) = (if hex then ''p'' else ''e'') then
        let t = drop 1 s; neg = (take 1 t = ''-''); d = (if take 1 t = ''-'' \<or> take 1 t = ''+'' then drop 1 t else t) in
        (case d of [] \<Rightarrow> None
         | c # _ \<Rightarrow> if \<not> is_dec c then None
                    else (case scan_exponent d 0 of (e, rest) \<Rightarrow> if rest = [] then Some (if neg then - e else e) else None))
      else if s = [] \<and> \<not> hex then Some 0 else None)"

definition read_number :: "char list \<Rightarrow> rat option" where
  "read_number s =
     (let hex = (2 < length s \<and> map lower_ascii (take 2 s) = ''0x'') in
      case scan_digits hex (if hex then drop 2 s else s) False 0 0 False of
        (m, fd, seen, rest) \<Rightarrow>
          if \<not> seen then None
          else (case read_exponent hex rest of None \<Rightarrow> None
                | Some e \<Rightarrow> if CHR ''_'' \<in> set s \<and> \<not> underscoreOK s then None else Some (number_value hex m fd e)))"

text \<open>A value that overflows is a range error.\<close>

definition ParseFloat :: "char list \<Rightarrow> float64 option" where
  "ParseFloat s =
     (let neg = (take 1 s = ''-''); body = (if take 1 s = ''-'' \<or> take 1 s = ''+'' then drop 1 s else s);
          low = map lower_ascii body in
      if low = ''inf'' \<or> low = ''infinity'' then Some (Inf64 neg)
      else if map lower_ascii s = ''nan'' then Some NaN64
      else (case read_number body of None \<Rightarrow> None
            | Some x \<Rightarrow> (case f64_of neg x of F64 t r \<Rightarrow> Some (F64 t r) | _ \<Rightarrow> None)))"

section \<open>FormatFloat\<close>

text \<open>\<open>FormatFloat(v, 'f', 2, 64)\<close> and the verb \<open>%+.2f\<close>: the exact value is rounded to two decimals, ties to even.\<close>

definition show_cents :: "int \<Rightarrow> char list" where
  "show_cents m = show_dec (m div 100) @ CHR ''.'' # show_dec (m mod 100 div 10) @ show_dec (m mod 10)"

fun FormatFloat2 :: "float64 \<Rightarrow> char list" where
  "FormatFloat2 (F64 s a) = (if s then ''-'' else []) @ show_cents (round_even (a * 100))"
| "FormatFloat2 (Inf64 s) = (if s then ''-Inf'' else ''+Inf'')"
| "FormatFloat2 NaN64 = ''NaN''"

definition FormatPlus2 :: "float64 \<Rightarrow> char list" where
  "FormatPlus2 v =
     (let t = FormatFloat2 v in if take 1 t = ''-'' \<or> take 1 t = ''+'' then t else CHR ''+'' # t)"

section \<open>Reading decimal texts\<close>

lemma digits_value_Nil [simp]: "digits_value [] = 0"
  by (simp add: digits_value_def)

lemma digits_value_append: "digits_value (p @ q) = digits_value p * 10 ^ length q + digits_value q"
proof (induction q rule: rev_induct)
  case (snoc c q)
  then show ?case by (simp add: digits_value_snoc algebra_simps flip: append_assoc)
qed simp

lemma digits_value_Cons: "digits_value (c # s) = (code c - 48) * 10 ^ length s + digits_value s"
  using digits_value_append [of "[c]" s] by (simp add: digits_value_def)

lemma digits_value_nonneg: "list_all is_dec s \<Longrightarrow> 0 \<le> digits_value s"
  by (induction s) (simp_all add: digits_value_Cons is_dec_def)

lemma is_dec_not: "is_dec c \<Longrightarrow> c \<noteq> CHR ''_'' \<and> c \<noteq> CHR ''.'' \<and> c \<noteq> CHR ''-'' \<and> c \<noteq> CHR ''+''"
  by (auto simp: is_dec_def code_def)

lemma scan_decs:
  "list_all is_dec ds \<Longrightarrow>
   scan_digits False (ds @ rest) dot m fd seen =
     scan_digits False rest dot (m * 10 ^ length ds + digits_value ds)
       (if dot then fd + int (length ds) else fd) (seen \<or> ds \<noteq> [])"
proof (induction ds arbitrary: m fd seen)
  case (Cons c ds)
  then show ?case using is_dec_not [of c] by (simp add: digits_value_Cons algebra_simps)
qed simp

text \<open>A decimal text: digits, and a point with more digits if there are any.\<close>

definition decimal_text :: "char list \<Rightarrow> char list \<Rightarrow> char list" where
  "decimal_text p q = p @ (if q = [] then [] else CHR ''.'' # q)"

lemma decimal_text_chars:
  "list_all is_dec p \<Longrightarrow> list_all is_dec q \<Longrightarrow> list_all (\<lambda>c. is_dec c \<or> c = CHR ''.'') (decimal_text p q)"
  by (auto simp: decimal_text_def list_all_iff)

lemma dec_lower: "is_dec c \<or> c = CHR ''.'' \<Longrightarrow> lower_ascii c = c"
  by (auto simp: lower_ascii_def is_upper_def is_dec_def code_def)

lemma decimal_lower:
  "list_all (\<lambda>c. is_dec c \<or> c = CHR ''.'') s \<Longrightarrow> map lower_ascii s = s"
  by (induction s) (simp_all add: dec_lower)

lemma decimal_no_letter:
  assumes "list_all (\<lambda>c. is_dec c \<or> c = CHR ''.'') s" and "c \<in> set s"
  shows "c \<notin> set ''_xXinfaty-+''"
proof -
  have "is_dec c \<or> c = CHR ''.''" using assms by (simp add: list_all_iff)
  then show ?thesis by (auto simp: is_dec_def code_def)
qed

lemma read_decimal:
  assumes p: "list_all is_dec p" "p \<noteq> []" and q: "list_all is_dec q"
  shows "read_number (decimal_text p q) = Some (of_int (digits_value (p @ q)) / 10 ^ length q)"
proof -
  let ?t = "decimal_text p q"
  have t: "list_all (\<lambda>c. is_dec c \<or> c = CHR ''.'') ?t" by (rule decimal_text_chars [OF p(1) q])
  have "list_all (\<lambda>c. is_dec c \<or> c = CHR ''.'') (take 2 ?t)"
    using t by (auto simp: list_all_iff dest: in_set_takeD)
  from decimal_lower [OF this] decimal_no_letter [OF t] have "map lower_ascii (take 2 ?t) \<noteq> ''0x''"
    by (metis in_set_takeD list.set_intros)
  moreover have "CHR ''_'' \<notin> set ?t" using decimal_no_letter [OF t] by auto
  moreover have "scan_digits False ?t False 0 0 False = (digits_value (p @ q), int (length q), True, [])"
    using scan_decs [OF p(1), of "if q = [] then [] else CHR ''.'' # q"] scan_decs [OF q, of "[]"] p(2)
    by (simp add: decimal_text_def digits_value_append)
  ultimately show ?thesis
    by (simp add: read_number_def read_exponent_def number_value_def scale_def)
qed

lemma ParseFloat_decimal:
  assumes p: "list_all is_dec p" "p \<noteq> []" and q: "list_all is_dec q"
    and v: "f64_of s (of_int (digits_value (p @ q)) / 10 ^ length q) = F64 t r"
  shows "ParseFloat ((if s then ''-'' else []) @ decimal_text p q) = Some (F64 t r)"
proof -
  let ?t = "decimal_text p q"
  have t: "list_all (\<lambda>c. is_dec c \<or> c = CHR ''.'') ?t" by (rule decimal_text_chars [OF p(1) q])
  have ne: "?t \<noteq> []" using p(2) by (simp add: decimal_text_def)
  then obtain c u where cu: "?t = c # u" by (cases ?t) auto
  then have c: "c \<noteq> CHR ''-''" "c \<noteq> CHR ''+''" "c \<noteq> CHR ''i''" "c \<noteq> CHR ''n''"
    using decimal_no_letter [OF t, of c] by auto
  have l: "map lower_ascii ?t = c # u" using decimal_lower [OF t] cu by simp
  have n: "lower_ascii CHR ''-'' = CHR ''-''" by (simp add: lower_ascii_def is_upper_def code_def)
  show ?thesis
    using read_decimal [OF p q] c l n v unfolding cu by (cases s) (simp_all add: ParseFloat_def Let_def)
qed

end
