(* ===== verification/Bench_Parse.thy ===== *)
theory Bench_Parse
  imports Go_Float_Text
begin

text \<open>
  The first half of \<^verbatim>\<open>src/tools/benchreport/main.go\<close>: the records, reading the output of \<^verbatim>\<open>go test -bench\<close> (\<open>parseSystemInfo\<close>,
  \<open>parseBenchmarkSamples\<close>) and summarising the samples with their medians (\<open>summarize\<close>). A \<open>*float64\<close> is an option. Go
  iterates over the names of a map in any order; they are distinct and sorted afterwards, so the order does not matter
  (\<open>Strings_order\<close>).
\<close>

section \<open>Data\<close>

record benchmarkSample =
  Iterations :: int
  NSPerOp :: float64
  BytesPerOp :: "float64 option"
  AllocsPerOp :: "float64 option"

record benchmarkResult =
  Name :: "char list"
  Samples :: "benchmarkSample list"
  MedianNSPerOp :: float64
  MedianBytesPerOp :: "float64 option"
  MedianAllocsPerOp :: "float64 option"

record parsedSample =
  ps_name :: "char list"
  ps_sample :: benchmarkSample

record systemInfo =
  ID :: "char list"
  GOOS :: "char list"
  GOARCH :: "char list"
  CPU :: "char list"

abbreviation newline :: char where
  "newline \<equiv> CHR 0x0A"

section \<open>Identifiers of systems\<close>

text \<open>The loop of \<open>slug\<close>, with the builder and the flag \<open>lastDash\<close>.\<close>

fun slug_loop :: "unicode \<Rightarrow> int list \<Rightarrow> char list \<Rightarrow> bool \<Rightarrow> char list" where
  "slug_loop U [] b lastDash = b"
| "slug_loop U (r # rs) b lastDash =
     (if IsLetter U r \<or> IsDigit U r then slug_loop U rs (b @ encode_rune r) False
      else if \<not> lastDash \<and> b \<noteq> [] then slug_loop U rs (b @ ''-'') True
      else slug_loop U rs b lastDash)"

definition slug :: "unicode \<Rightarrow> char list \<Rightarrow> char list" where
  "slug U value = trim (\<lambda>c. c = CHR ''-'') (slug_loop U (map fst (runes (ToLower U value))) [] False)"

text \<open>One line of \<open>parseSystemInfo\<close>.\<close>

definition system_line :: "systemInfo \<Rightarrow> char list \<Rightarrow> systemInfo" where
  "system_line info line =
     (case Cut line CHR '':'' of
        None \<Rightarrow> info
      | Some (key, v) \<Rightarrow>
          let value = TrimSpace v in
          if key = ''goos'' then info\<lparr>GOOS := value\<rparr>
          else if key = ''goarch'' then info\<lparr>GOARCH := value\<rparr>
          else if key = ''cpu'' then if value \<noteq> [] then info\<lparr>CPU := value\<rparr> else info
          else info)"

text \<open>\<open>goos\<close> and \<open>goarch\<close> are the constants \<open>runtime.GOOS\<close> and \<open>runtime.GOARCH\<close> of the platform.\<close>

definition parseSystemInfo :: "unicode \<Rightarrow> char list \<Rightarrow> char list \<Rightarrow> char list \<Rightarrow> systemInfo" where
  "parseSystemInfo U goos goarch out =
     (let info = foldl system_line (\<lparr>ID = [], GOOS = goos, GOARCH = goarch, CPU = ''unknown''\<rparr>) (Split_at newline out) in
      info\<lparr>ID := Join [slug U (GOOS info), slug U (GOARCH info), slug U (CPU info)] ''-''\<rparr>)"

section \<open>Benchmark lines\<close>

definition allDigits :: "char list \<Rightarrow> bool" where
  "allDigits value \<longleftrightarrow> value \<noteq> [] \<and> list_all (\<lambda>r. \<not> (fst r < 48 \<or> fst r > 57)) (runes value)"

definition normalizeBenchmarkName :: "char list \<Rightarrow> char list" where
  "normalizeBenchmarkName name =
     (case LastIndex name CHR ''-'' of
        Some index \<Rightarrow> if 0 < index \<and> allDigits (drop (index + 1) name) then take index name else name
      | None \<Rightarrow> name)"

text \<open>The loop over the pairs of a value and its unit, with the sample and the flag \<open>foundNS\<close>.\<close>

fun sample_values :: "char list list \<Rightarrow> benchmarkSample \<times> bool \<Rightarrow> benchmarkSample \<times> bool" where
  "sample_values (f # u # fs) (sample, foundNS) =
     sample_values fs
       (case ParseFloat f of
          None \<Rightarrow> (sample, foundNS)
        | Some value \<Rightarrow>
            if u = ''ns/op'' then (sample\<lparr>NSPerOp := value\<rparr>, True)
            else if u = ''B/op'' then (sample\<lparr>BytesPerOp := Some value\<rparr>, foundNS)
            else if u = ''allocs/op'' then (sample\<lparr>AllocsPerOp := Some value\<rparr>, foundNS)
            else (sample, foundNS))"
| "sample_values _ acc = acc"

definition parseBenchmarkLine :: "char list \<Rightarrow> parsedSample option" where
  "parseBenchmarkLine line =
     (let fields = Fields line in
      if length fields < 4 \<or> \<not> HasPrefix (fields ! 0) ''Benchmark'' then None
      else case Atoi (fields ! 1) of
        None \<Rightarrow> None
      | Some iterations \<Rightarrow>
          (case sample_values (drop 2 fields)
                  (\<lparr>Iterations = iterations, NSPerOp = F64 False 0, BytesPerOp = None, AllocsPerOp = None\<rparr>, False) of
             (sample, foundNS) \<Rightarrow>
               if \<not> foundNS then None
               else Some (\<lparr>ps_name = normalizeBenchmarkName (fields ! 0), ps_sample = sample\<rparr>)))"

definition parseBenchmarkSamples :: "char list \<Rightarrow> parsedSample list" where
  "parseBenchmarkSamples out = List.map_filter parseBenchmarkLine (Split_at newline out)"

section \<open>Medians\<close>

definition pointerValue :: "float64 option \<Rightarrow> float64 \<times> bool" where
  "pointerValue value = (case value of None \<Rightarrow> (F64 False 0, False) | Some v \<Rightarrow> (v, True))"

definition selectedValues :: "benchmarkSample list \<Rightarrow> (benchmarkSample \<Rightarrow> float64 \<times> bool) \<Rightarrow> float64 list" where
  "selectedValues samples selectValue =
     Float64s (List.map_filter (\<lambda>s. case selectValue s of (value, ok) \<Rightarrow> if ok then Some value else None) samples)"

text \<open>The callers check that there is a value.\<close>

definition medianFloat :: "float64 list \<Rightarrow> float64" where
  "medianFloat values =
     (if length values mod 2 = 1 then values ! (length values div 2)
      else let middle = length values div 2 in
        f64_div (f64_add (values ! (middle - 1)) (values ! middle)) (F64 False 2))"

definition median :: "benchmarkSample list \<Rightarrow> (benchmarkSample \<Rightarrow> float64 \<times> bool) \<Rightarrow> float64" where
  "median samples selectValue =
     (let values = selectedValues samples selectValue in
      if length values = 0 then F64 False 0 else medianFloat values)"

definition medianPointer :: "benchmarkSample list \<Rightarrow> (benchmarkSample \<Rightarrow> float64 \<times> bool) \<Rightarrow> float64 option" where
  "medianPointer samples selectValue =
     (let values = selectedValues samples selectValue in
      if length values = 0 then None else Some (medianFloat values))"

section \<open>Summary\<close>

definition grouped :: "parsedSample list \<Rightarrow> char list \<Rightarrow> benchmarkSample list option" where
  "grouped samples =
     foldl (\<lambda>m s. m(ps_name s \<mapsto> (case m (ps_name s) of None \<Rightarrow> [] | Some g \<Rightarrow> g) @ [ps_sample s])) Map.empty samples"

definition result_of :: "parsedSample list \<Rightarrow> char list \<Rightarrow> benchmarkResult" where
  "result_of samples name =
     (let resultSamples = (case grouped samples name of None \<Rightarrow> [] | Some g \<Rightarrow> g) in
      \<lparr>Name = name, Samples = resultSamples,
       MedianNSPerOp = median resultSamples (\<lambda>s. (NSPerOp s, True)),
       MedianBytesPerOp = medianPointer resultSamples (\<lambda>s. pointerValue (BytesPerOp s)),
       MedianAllocsPerOp = medianPointer resultSamples (\<lambda>s. pointerValue (AllocsPerOp s))\<rparr>)"

definition summarize :: "parsedSample list \<Rightarrow> benchmarkResult list" where
  "summarize samples = map (result_of samples) (Strings (remdups (map ps_name samples)))"

section \<open>The summary groups the samples by name\<close>

lemma grouped_spec:
  "grouped samples n =
     (if n \<in> ps_name ` set samples then Some (map ps_sample (filter (\<lambda>s. ps_name s = n) samples)) else None)"
proof (induction samples rule: rev_induct)
  case (snoc s samples)
  have "grouped (samples @ [s]) =
      (grouped samples)(ps_name s \<mapsto> (case grouped samples (ps_name s) of None \<Rightarrow> [] | Some g \<Rightarrow> g) @ [ps_sample s])"
    by (simp add: grouped_def)
  moreover have "filter (\<lambda>x. ps_name x = ps_name s) samples = []" if "ps_name s \<notin> ps_name ` set samples"
    using that by (simp add: image_iff filter_empty_conv) metis
  ultimately show ?case using snoc by (auto simp: image_iff)
qed (simp add: grouped_def)

lemma Strings_order:
  assumes "distinct xs" and "mset xs = mset ys" shows "Strings xs = Strings ys"
  unfolding Strings_def by (rule strs.sort_perm [OF assms(2)]) (auto simp: str_less_def)

lemma Strings_strict: "distinct xs \<Longrightarrow> sorted_wrt (<) (Strings xs)"
  using Strings_sorted [of xs] by (simp add: strict_sorted_iff)

text \<open>
  C37: The summary has one result per benchmark name, in the order of the names, and each result holds the samples of that name in
  the order in which they were printed.
\<close>

theorem summarize_groups:
  "sorted_wrt (<) (map Name (summarize samples)) \<and>
   set (map Name (summarize samples)) = ps_name ` set samples \<and>
   map Samples (summarize samples) =
     map (\<lambda>n. map ps_sample (filter (\<lambda>s. ps_name s = n) samples)) (map Name (summarize samples))"
proof -
  have "map Name (summarize samples) = Strings (remdups (map ps_name samples))"
    by (simp add: summarize_def comp_def result_of_def Let_def)
  moreover have "Samples (result_of samples n) = map ps_sample (filter (\<lambda>s. ps_name s = n) samples)"
    if "n \<in> ps_name ` set samples" for n
    using that by (simp add: result_of_def grouped_spec Let_def)
  ultimately show ?thesis by (simp add: Strings_strict) (simp add: summarize_def)
qed

section \<open>Medians\<close>

text \<open>The counts of a sorted list around the value between two neighbours.\<close>

lemma sorted_below:
  fixes f :: "'a \<Rightarrow> rat"
  assumes "sorted (map f xs)" and "k \<le> length xs" and "k < length xs \<Longrightarrow> m \<le> f (xs ! k)"
  shows "length (filter (\<lambda>x. f x < m) xs) \<le> k"
proof -
  have "filter (\<lambda>x. f x < m) (drop k xs) = []"
  proof (rule filter_False, rule ballI)
    fix x assume "x \<in> set (drop k xs)"
    then obtain i where "i < length (drop k xs)" "x = drop k xs ! i" by (metis in_set_conv_nth)
    then have i: "k + i < length xs" "x = xs ! (k + i)" by simp_all
    then have "f (xs ! k) \<le> f x" using assms(1) sorted_nth_mono [of "map f xs" k "k + i"] by simp
    then show "\<not> f x < m" using assms(3) i by simp
  qed
  then have "filter (\<lambda>x. f x < m) xs = filter (\<lambda>x. f x < m) (take k xs)"
    by (metis append_Nil2 append_take_drop_id filter_append)
  then have "length (filter (\<lambda>x. f x < m) xs) \<le> length (take k xs)" by (metis length_filter_le)
  also have "\<dots> \<le> k" by simp
  finally show ?thesis .
qed

lemma sorted_above:
  fixes f :: "'a \<Rightarrow> rat"
  assumes "sorted (map f xs)" and "k \<le> length xs" and "0 < k \<Longrightarrow> f (xs ! (k - 1)) \<le> m"
  shows "length (filter (\<lambda>x. m < f x) xs) \<le> length xs - k"
proof -
  have "filter (\<lambda>x. m < f x) (take k xs) = []"
  proof (rule filter_False, rule ballI)
    fix x assume "x \<in> set (take k xs)"
    then obtain i where i: "i < k" "x = xs ! i" using assms(2) by (auto simp: in_set_conv_nth)
    then have "f x \<le> f (xs ! (k - 1))" using assms(1,2) sorted_nth_mono [of "map f xs" i "k - 1"] by simp
    then show "\<not> m < f x" using assms(3) i by simp
  qed
  then have "filter (\<lambda>x. m < f x) xs = filter (\<lambda>x. m < f x) (drop k xs)"
    by (metis append_Nil append_take_drop_id filter_append)
  then show ?thesis by (metis length_drop length_filter_le)
qed

text \<open>Values on which the midpoint is safe.\<close>

definition plain_float :: "float64 \<Rightarrow> bool" where
  "plain_float v \<longleftrightarrow> f64_finite v \<and> f64_wf v \<and> \<bar>f64_val v\<bar> \<le> 2 ^ 1022"

lemma Float64s_sorted:
  assumes "\<forall>v\<in>set vs. plain_float v" shows "sorted (map f64_val (Float64s vs))"
proof -
  have "sorted_wrt (\<lambda>x y. \<not> f64_before y x) (Float64s vs)"
    using f64s.ordered [of vs] by (simp add: Float64s_def ordered_by_def)
  then have "sorted_wrt (\<lambda>x y. f64_val x \<le> f64_val y) (Float64s vs)"
    by (rule sorted_wrt_mono_rel [rotated])
      (use assms in \<open>auto simp: plain_float_def f64_before_finite\<close>)
  then show ?thesis by (simp add: sorted_wrt_map)
qed

lemma medianFloat_splits:
  assumes "\<forall>v\<in>set vs. plain_float v" and "vs \<noteq> []"
  shows "2 * length (filter (\<lambda>v. f64_val v < f64_val (medianFloat (Float64s vs))) vs) \<le> length vs
    \<and> 2 * length (filter (\<lambda>v. f64_val (medianFloat (Float64s vs)) < f64_val v) vs) \<le> length vs"
proof -
  define xs where "xs = Float64s vs"
  define n where "n = length vs"
  define m where "m = f64_val (medianFloat xs)"
  have xs: "length xs = n" "\<forall>v\<in>set xs. plain_float v" "mset xs = mset vs" "0 < n"
    using assms by (simp_all add: xs_def n_def)
  have sorted: "sorted (map f64_val xs)" using Float64s_sorted [OF assms(1)] by (simp add: xs_def)
  have "length (filter (\<lambda>v. f64_val v < m) xs) \<le> n div 2 \<and> length (filter (\<lambda>v. m < f64_val v) xs) \<le> n div 2"
  proof (cases "n mod 2 = 1")
    case True
    then have m: "m = f64_val (xs ! (n div 2))" by (simp add: m_def medianFloat_def xs)
    have "n - (n div 2 + 1) = n div 2" using True by presburger
    moreover have "n div 2 + 1 \<le> n" using True by presburger
    ultimately show ?thesis
      using sorted_below [OF sorted, of "n div 2" m] sorted_above [OF sorted, of "n div 2 + 1" m] m xs by simp
  next
    case False
    define k where "k = n div 2"
    have k: "0 < k" "k < n" "n = 2 * k" using False xs(4) by (auto simp: k_def)
    let ?a = "xs ! (k - 1)" and ?b = "xs ! k"
    have "k - 1 < length xs" "k < length xs" using k xs(1) by simp_all
    then have p: "plain_float ?a" "plain_float ?b" and le: "f64_val ?a \<le> f64_val ?b"
      using xs(2) sorted_nth_mono [OF sorted, of "k - 1" k] by simp_all
    have m: "m = f64_val (f64_div (f64_add ?a ?b) (F64 False 2))"
      using False k by (simp add: m_def medianFloat_def xs(1) Let_def)
    have "f64_val ?a \<le> m" "m \<le> f64_val ?b"
      using p f64_midpoint(2,3) [OF _ _ _ _ le] unfolding m plain_float_def by blast+
    then show ?thesis using sorted_below [OF sorted, of k m] sorted_above [OF sorted, of k m] k xs(1) by simp
  qed
  moreover have "length (filter P xs) = length (filter P vs)" for P
    using xs(3) by (metis mset_filter size_mset)
  ultimately have "length (filter (\<lambda>v. f64_val v < m) vs) \<le> n div 2" "length (filter (\<lambda>v. m < f64_val v) vs) \<le> n div 2"
    by simp_all
  then show ?thesis unfolding m_def [symmetric] xs_def [symmetric] n_def [symmetric] by (intro conjI) linarith+
qed

text \<open>
  C36: The median that the report shows for the time of a benchmark splits its samples: at most half of them are below it and at
  most half are above, rounding of the midpoint included.
\<close>

theorem median_splits_samples:
  assumes "samples \<noteq> []" and "\<forall>s\<in>set samples. plain_float (NSPerOp s)"
  shows "2 * length (filter (\<lambda>s. f64_val (NSPerOp s) < f64_val (median samples (\<lambda>s. (NSPerOp s, True)))) samples) \<le> length samples
    \<and> 2 * length (filter (\<lambda>s. f64_val (median samples (\<lambda>s. (NSPerOp s, True))) < f64_val (NSPerOp s)) samples) \<le> length samples"
proof -
  have "selectedValues samples (\<lambda>s. (NSPerOp s, True)) = Float64s (map NSPerOp samples)"
    by (simp add: selectedValues_def map_filter_def comp_def)
  then have "median samples (\<lambda>s. (NSPerOp s, True)) = medianFloat (Float64s (map NSPerOp samples))"
    using assms(1) by (simp add: median_def Let_def Float64s_def)
  then show ?thesis using medianFloat_splits [of "map NSPerOp samples"] assms by (simp add: filter_map comp_def)
qed

end
