(* ===== verification/Go_Time.thy ===== *)
theory Go_Time
  imports Go_Strings "HOL-Library.Monad_Syntax"
begin

text \<open>
  \<open>time.Parse\<close> and \<open>Time.Format\<close> for the layouts that \<^verbatim>\<open>tools/benchreport\<close> uses. An instant is the number of
  nanoseconds since the zero time of Go, 1 January of year 1, UTC; \<open>Equal\<close>, \<open>Before\<close> and \<open>After\<close> compare instants.
\<close>

record civil =
  cyear :: int
  cmonth :: int
  cday :: int
  chour :: int
  cminute :: int
  csecond :: int

definition leap_year :: "int \<Rightarrow> bool" where
  "leap_year y \<longleftrightarrow> y mod 4 = 0 \<and> (y mod 100 \<noteq> 0 \<or> y mod 400 = 0)"

definition daysIn :: "int \<Rightarrow> int \<Rightarrow> int" where
  "daysIn m y = (if m = 2 then if leap_year y then 29 else 28 else if m \<in> set [4, 6, 9, 11] then 30 else 31)"

text \<open>Days from 1 January of year 1 to the day of the given date.\<close>

definition days_to :: "int \<Rightarrow> int \<Rightarrow> int \<Rightarrow> int" where
  "days_to y m d =
     (let p = y - 1 in
      365 * p + p div 4 - p div 100 + p div 400 + sum_list (map (\<lambda>k. daysIn k y) [1..m - 1]) + d - 1)"

definition instant :: "civil \<Rightarrow> int" where
  "instant c =
     (((days_to (cyear c) (cmonth c) (cday c) * 24 + chour c) * 60 + cminute c) * 60 + csecond c) * 1000000000"

definition valid_civil :: "civil \<Rightarrow> bool" where
  "valid_civil c \<longleftrightarrow> 0 \<le> cyear c \<and> cyear c \<le> 9999 \<and> 1 \<le> cmonth c \<and> cmonth c \<le> 12
     \<and> 1 \<le> cday c \<and> cday c \<le> daysIn (cmonth c) (cyear c) \<and> 0 \<le> chour c \<and> chour c < 24
     \<and> 0 \<le> cminute c \<and> cminute c < 60 \<and> 0 \<le> csecond c \<and> csecond c < 60"

section \<open>Parsing RFC 3339\<close>

text \<open>Two digits, or one where the layout does not fix the width.\<close>

fun getnum :: "bool \<Rightarrow> char list \<Rightarrow> (int \<times> char list) option" where
  "getnum fixed [] = None"
| "getnum fixed (a # s) =
     (if \<not> is_dec a then None
      else case s of
        b # t \<Rightarrow> if is_dec b then Some ((code a - 48) * 10 + (code b - 48), t)
                else if fixed then None else Some (code a - 48, s)
      | [] \<Rightarrow> if fixed then None else Some (code a - 48, s))"

definition getyear :: "char list \<Rightarrow> (int \<times> char list) option" where
  "getyear s = (if 4 \<le> length s \<and> list_all is_dec (take 4 s) then Some (digits_value (take 4 s), drop 4 s) else None)"

fun expect :: "char \<Rightarrow> char list \<Rightarrow> char list option" where
  "expect c [] = None"
| "expect c (d # s) = (if d = c then Some s else None)"

text \<open>A fraction after the seconds, which the layout does not mention: nine digits count, more are skipped.\<close>

definition getfraction :: "char list \<Rightarrow> int \<times> char list" where
  "getfraction s =
     (case s of
        c # d # t \<Rightarrow>
          if (c = CHR ''.'' \<or> c = CHR '','') \<and> is_dec d then
            let ds = takeWhile is_dec (d # t); n = take 9 ds in
              (digits_value n * 10 ^ (9 - length n), drop (length ds) (d # t))
          else (0, s)
      | _ \<Rightarrow> (0, s))"

text \<open>The zone, as an offset in seconds.\<close>

definition getzone :: "char list \<Rightarrow> (int \<times> char list) option" where
  "getzone s =
     (case s of
        [] \<Rightarrow> None
      | c # t \<Rightarrow>
          if c = CHR ''Z'' then Some (0, t)
          else if length s < 6 \<or> s ! 3 \<noteq> CHR '':'' then None
          else do {
            (hr, _) \<leftarrow> getnum True (take 2 t);
            (mm, _) \<leftarrow> getnum True (take 2 (drop 4 s));
            if 24 < hr \<or> 60 < mm then None
            else if c = CHR ''+'' then Some ((hr * 60 + mm) * 60, drop 6 s)
            else if c = CHR ''-'' then Some (- ((hr * 60 + mm) * 60), drop 6 s)
            else None })"

definition Parse_RFC3339 :: "char list \<Rightarrow> int option" where
  "Parse_RFC3339 s0 = do {
     (year, s) \<leftarrow> getyear s0;
     s \<leftarrow> expect CHR ''-'' s;
     (month, s) \<leftarrow> getnum True s;
     s \<leftarrow> expect CHR ''-'' s;
     (day, s) \<leftarrow> getnum True s;
     s \<leftarrow> expect CHR ''T'' s;
     (hour, s) \<leftarrow> getnum False s;
     s \<leftarrow> expect CHR '':'' s;
     (minute, s) \<leftarrow> getnum True s;
     s \<leftarrow> expect CHR '':'' s;
     (sec, s) \<leftarrow> getnum True s;
     (let (nsec, s) = getfraction s; c = (\<lparr>cyear = year, cmonth = month, cday = day, chour = hour, cminute = minute, csecond = sec\<rparr>) in do {
       (offset, s) \<leftarrow> getzone s;
       if s = [] \<and> valid_civil c then Some (instant c + nsec - offset * 1000000000) else None }) }"

section \<open>Format\<close>

definition pad2 :: "int \<Rightarrow> char list" where
  "pad2 n = show_dec (n div 10) @ show_dec (n mod 10)"

definition pad4 :: "int \<Rightarrow> char list" where
  "pad4 n = pad2 (n div 100) @ pad2 (n mod 100)"

text \<open>The layouts \<open>time.RFC3339\<close> and \<open>20060102T150405Z\<close>, in UTC, for years of four digits.\<close>

definition Format_RFC3339 :: "civil \<Rightarrow> char list" where
  "Format_RFC3339 c = pad4 (cyear c) @ ''-'' @ pad2 (cmonth c) @ ''-'' @ pad2 (cday c) @ ''T''
     @ pad2 (chour c) @ '':'' @ pad2 (cminute c) @ '':'' @ pad2 (csecond c) @ ''Z''"

definition Format_stamp :: "civil \<Rightarrow> char list" where
  "Format_stamp c = pad4 (cyear c) @ pad2 (cmonth c) @ pad2 (cday c) @ ''T''
     @ pad2 (chour c) @ pad2 (cminute c) @ pad2 (csecond c) @ ''Z''"

lemma show_dec_digit: "0 \<le> n \<Longrightarrow> n < 10 \<Longrightarrow> show_dec n = [char_of (48 + n)]"
  by (simp add: show_dec.simps)

lemma code_digit: "0 \<le> n \<Longrightarrow> n < 10 \<Longrightarrow> code (char_of (48 + n)) = 48 + n"
  by simp

lemma pad2_digits:
  assumes "0 \<le> n" and "n < 100"
  shows "pad2 n = [char_of (48 + n div 10), char_of (48 + n mod 10)]"
  using assms by (simp add: pad2_def show_dec_digit)

lemma getnum_pad2:
  assumes "0 \<le> n" and "n < 100"
  shows "getnum fixed (pad2 n @ s) = Some (n, s)"
  using assms by (simp add: pad2_digits)

lemma getyear_digits:
  assumes "0 \<le> a" "a < 10" "0 \<le> b" "b < 10" "0 \<le> c" "c < 10" "0 \<le> d" "d < 10"
  shows "getyear ([char_of (48 + a), char_of (48 + b), char_of (48 + c), char_of (48 + d)] @ s)
    = Some (((a * 10 + b) * 10 + c) * 10 + d, s)"
  using assms by (simp add: getyear_def digits_value_def)

lemma four_digits:
  "100 * q + r = n \<Longrightarrow> 10 * a + b = q \<Longrightarrow> 10 * c + d = r \<Longrightarrow> ((a * 10 + b) * 10 + c) * 10 + d = n" for n :: int
  by (simp add: algebra_simps)

lemma getyear_pad4:
  assumes "0 \<le> n" and "n \<le> 9999"
  shows "getyear (pad4 n @ s) = Some (n, s)"
proof -
  have h: "0 \<le> n div 100" "n div 100 < 100" "0 \<le> n mod 100" "n mod 100 < 100" using assms by simp_all
  have d: "0 \<le> m div 10" "m div 10 < 10" "0 \<le> m mod 10" "m mod 10 < 10" if "0 \<le> m" "m < 100" for m :: int
    using that by simp_all
  have p: "pad4 n = [char_of (48 + n div 100 div 10), char_of (48 + n div 100 mod 10),
      char_of (48 + n mod 100 div 10), char_of (48 + n mod 100 mod 10)]"
    unfolding pad4_def pad2_digits [OF h(1,2)] pad2_digits [OF h(3,4)] by simp
  have "((n div 100 div 10 * 10 + n div 100 mod 10) * 10 + n mod 100 div 10) * 10 + n mod 100 mod 10 = n"
    by (rule four_digits [OF mult_div_mod_eq mult_div_mod_eq mult_div_mod_eq])
  then show ?thesis unfolding p getyear_digits [OF d [OF h(1,2)] d [OF h(3,4)]] by simp
qed

text \<open>What is formatted is read back.\<close>

lemma Parse_Format:
  assumes "valid_civil c" shows "Parse_RFC3339 (Format_RFC3339 c) = Some (instant c)"
proof -
  have b: "daysIn (cmonth c) (cyear c) \<le> 31" by (simp add: daysIn_def)
  have r: "0 \<le> cyear c" "cyear c \<le> 9999" "0 \<le> cmonth c" "cmonth c < 100" "0 \<le> cday c" "cday c < 100"
    "0 \<le> chour c" "chour c < 100" "0 \<le> cminute c" "cminute c < 100" "0 \<le> csecond c" "csecond c < 100"
    using assms b by (auto simp: valid_civil_def)
  have "Parse_RFC3339 (Format_RFC3339 c) =
      (if valid_civil c then Some (instant c) else None)"
    unfolding Parse_RFC3339_def Format_RFC3339_def
    using r by (cases c) (simp add: getyear_pad4 getnum_pad2 getfraction_def getzone_def Let_def)
  then show ?thesis using assms by simp
qed

section \<open>The calendar\<close>

definition year_start :: "int \<Rightarrow> int" where
  "year_start y = (let p = y - 1 in 365 * p + p div 4 - p div 100 + p div 400)"

definition month_start :: "int \<Rightarrow> int \<Rightarrow> int" where
  "month_start y m = sum_list (map (\<lambda>k. daysIn k y) [1..m - 1])"

lemma days_to_starts: "days_to y m d = year_start y + month_start y m + d - 1"
  by (simp add: days_to_def year_start_def month_start_def Let_def)

lemma div_step: "0 < k \<Longrightarrow> (p + 1) div k = p div k + (if (p + 1) mod k = 0 then 1 else 0)" for p k :: int
proof -
  assume k: "0 < k"
  have r: "0 \<le> p mod k" "p mod k < k" using k by simp_all
  show ?thesis
  proof (cases "p mod k = k - 1")
    case True
    have e: "p + 1 = k * (p div k + 1) + 0" using mult_div_mod_eq [of k p] True by (simp add: algebra_simps)
    then show ?thesis using int_div_pos_eq [OF e] int_mod_pos_eq [OF e] k by simp
  next
    case False
    have e: "p + 1 = k * (p div k) + (p mod k + 1)" using mult_div_mod_eq [of k p] by simp
    then show ?thesis using int_div_pos_eq [OF e] int_mod_pos_eq [OF e] False r by simp
  qed
qed

lemma leap_sum:
  "a' = a + (if P then 1 else 0) \<Longrightarrow> b' = b + (if Q then 1 else 0) \<Longrightarrow> c' = c + (if R then 1 else 0) \<Longrightarrow> (Q \<Longrightarrow> P) \<Longrightarrow> (R \<Longrightarrow> Q) \<Longrightarrow>
   365 * (p + 1) + a' - b' + c' = 365 * p + a - b + c + (if P \<and> (\<not> Q \<or> R) then 366 else 365)" for p :: int
  by (cases P; cases Q; cases R) simp_all

lemma year_start_step: "year_start (y + 1) = year_start y + (if leap_year y then 366 else 365)"
proof -
  define p where "p = y - 1"
  have y: "y - 1 = p" "y + 1 - 1 = p + 1" "y = p + 1" by (simp_all add: p_def)
  have dvd: "y mod 100 = 0 \<Longrightarrow> y mod 4 = 0" "y mod 400 = 0 \<Longrightarrow> y mod 100 = 0"
    by (auto simp: mod_eq_0_iff_dvd elim: dvd_trans [rotated])
  show ?thesis
    unfolding year_start_def Let_def leap_year_def y(1,2)
  proof (rule leap_sum)
    show "(p + 1) div 4 = p div 4 + (if y mod 4 = 0 then 1 else 0)" unfolding y(3) by (rule div_step) simp
    show "(p + 1) div 100 = p div 100 + (if y mod 100 = 0 then 1 else 0)" unfolding y(3) by (rule div_step) simp
    show "(p + 1) div 400 = p div 400 + (if y mod 400 = 0 then 1 else 0)" unfolding y(3) by (rule div_step) simp
  qed (rule dvd, assumption)+
qed

lemma daysIn_pos: "0 < daysIn m y"
  by (simp add: daysIn_def)

lemma month_start_step: "1 \<le> m \<Longrightarrow> month_start y (m + 1) = month_start y m + daysIn m y"
  by (simp add: month_start_def upto_rec2)

lemma month_start_less: "m < n \<Longrightarrow> 1 \<le> m \<Longrightarrow> month_start y m + daysIn m y \<le> month_start y n"
proof (induction n rule: int_gr_induct [where k = m])
  case (step i)
  then show ?case using month_start_step [of i y] daysIn_pos [of i y] by simp
qed (simp_all add: month_start_step)

lemma month_start_bound: "1 \<le> m \<Longrightarrow> m \<le> 12 \<Longrightarrow> month_start y m + daysIn m y \<le> (if leap_year y then 366 else 365)"
proof -
  assume m: "1 \<le> m" "m \<le> 12"
  have "month_start y 13 = (if leap_year y then 366 else 365)"
    by (simp add: month_start_def upto.simps daysIn_def)
  moreover have "month_start y m + daysIn m y \<le> month_start y 13" using m by (intro month_start_less) simp_all
  ultimately show ?thesis by simp
qed

lemma month_start_nonneg: "0 \<le> month_start y m"
  unfolding month_start_def by (intro sum_list_nonneg) (use daysIn_pos in \<open>auto intro: less_imp_le\<close>)

lemma year_start_less: "y < z \<Longrightarrow> year_start y + (if leap_year y then 366 else 365) \<le> year_start z"
proof (induction z rule: int_gr_induct [where k = y])
  case (step i)
  then show ?case using year_start_step [of i] by (auto split: if_splits)
qed (simp_all add: year_start_step)

text \<open>The fields of a date in the order of their weight.\<close>

definition civil_key :: "civil \<Rightarrow> int list" where
  "civil_key c = [cyear c, cmonth c, cday c, chour c, cminute c, csecond c]"

lemma date_less:
  assumes "valid_civil c" "valid_civil d"
    and "[cyear c, cmonth c, cday c] < [cyear d, cmonth d, cday d]"
  shows "days_to (cyear c) (cmonth c) (cday c) < days_to (cyear d) (cmonth d) (cday d)"
proof -
  have c: "1 \<le> cmonth c" "cmonth c \<le> 12" "cday c \<le> daysIn (cmonth c) (cyear c)" "1 \<le> cday d"
    using assms(1,2) by (simp_all add: valid_civil_def)
  consider "cyear c < cyear d" | "cyear c = cyear d" "cmonth c < cmonth d"
    | "cyear c = cyear d" "cmonth c = cmonth d" "cday c < cday d" using assms(3) by auto
  then show ?thesis
  proof cases
    case 1
    have "month_start (cyear c) (cmonth c) + cday c \<le> (if leap_year (cyear c) then 366 else 365)"
      using month_start_bound [OF c(1,2), of "cyear c"] c(3) by simp
    then show ?thesis using year_start_less [OF 1] month_start_nonneg [of "cyear d" "cmonth d"] c(4)
      unfolding days_to_starts by linarith
  next
    case 2
    then show ?thesis using month_start_less [OF 2(2) c(1), of "cyear c"] c(3,4) by (simp add: days_to_starts)
  qed (simp add: days_to_starts)
qed

lemma instant_less:
  assumes "valid_civil c" "valid_civil d" and "civil_key c < civil_key d"
  shows "instant c < instant d"
proof -
  have r: "0 \<le> chour c" "chour c < 24" "0 \<le> cminute c" "cminute c < 60" "0 \<le> csecond c" "csecond c < 60"
    "0 \<le> chour d" "0 \<le> cminute d" "0 \<le> csecond d"
    using assms(1,2) by (simp_all add: valid_civil_def)
  define a where "a = days_to (cyear c) (cmonth c) (cday c)"
  define b where "b = days_to (cyear d) (cmonth d) (cday d)"
  consider "a < b" | "a = b" "[chour c, cminute c, csecond c] < [chour d, cminute d, csecond d]"
    using assms(3) date_less [OF assms(1,2)] by (auto simp: civil_key_def a_def b_def)
  then have "((a * 24 + chour c) * 60 + cminute c) * 60 + csecond c < ((b * 24 + chour d) * 60 + cminute d) * 60 + csecond d"
  proof cases
    case 1
    then have "a + 1 \<le> b" by simp
    then show ?thesis using r unfolding distrib_right by linarith
  next
    case 2
    then show ?thesis using r by auto
  qed
  then show ?thesis by (simp add: instant_def a_def b_def)
qed

text \<open>Of two dates the later one is the later instant.\<close>

lemma instant_less_iff:
  assumes "valid_civil c" and "valid_civil d"
  shows "instant c < instant d \<longleftrightarrow> civil_key c < civil_key d"
proof -
  have "civil_key c = civil_key d \<Longrightarrow> instant c = instant d" by (simp add: civil_key_def instant_def)
  then show ?thesis
    using instant_less [OF assms] instant_less [OF assms(2,1)] by (metis less_asym linorder_neqE less_irrefl)
qed

end
