(* ===== verification/Bench_Report.thy ===== *)
theory Bench_Report
  imports Bench_Parse Go_Time
begin

text \<open>
  The second half of \<^verbatim>\<open>src/tools/benchreport/main.go\<close>: the stored runs, their order, the run to compare with, the latest run of
  each system, and the text of the report. A function that writes to a \<open>strings.Builder\<close> returns the text it appends.
\<close>

section \<open>Stored runs\<close>

record storedRun =
  Version :: int
  Timestamp :: "char list"
  Command :: "char list list"
  GoVersion :: "char list"
  GitCommit :: "char list"
  GitDirty :: "bool option"
  System :: systemInfo
  RawOutput :: "char list"
  Results :: "benchmarkResult list"
  DataFile :: "char list"

text \<open>A time that does not parse is the zero time.\<close>

definition parseTime :: "char list \<Rightarrow> int" where
  "parseTime value = (case Parse_RFC3339 value of None \<Rightarrow> 0 | Some t \<Rightarrow> t)"

definition run_before :: "storedRun \<Rightarrow> storedRun \<Rightarrow> bool" where
  "run_before l r =
     (let left = parseTime (Timestamp l); right = parseTime (Timestamp r) in
      if left = right then DataFile l < DataFile r else left < right)"

definition sortRuns :: "storedRun list \<Rightarrow> storedRun list" where
  "sortRuns runs = sort_by run_before runs"

fun findRun :: "storedRun list \<Rightarrow> char list \<Rightarrow> storedRun option" where
  "findRun [] dataFile = None"
| "findRun (r # runs) dataFile = (if DataFile r = dataFile then Some r else findRun runs dataFile)"

definition sameHardware :: "systemInfo \<Rightarrow> systemInfo \<Rightarrow> bool" where
  "sameHardware left right \<longleftrightarrow> GOOS left = GOOS right \<and> GOARCH left = GOARCH right \<and> CPU left = CPU right"

text \<open>The loop of \<open>previousSameHardware\<close> over the runs.\<close>

fun previous_loop :: "storedRun \<Rightarrow> storedRun list \<Rightarrow> storedRun option \<Rightarrow> storedRun option" where
  "previous_loop current [] previous = previous"
| "previous_loop current (run # runs) previous =
     (if DataFile run = DataFile current \<or> \<not> sameHardware (System current) (System run) then previous_loop current runs previous
      else if \<not> parseTime (Timestamp run) < parseTime (Timestamp current) then previous_loop current runs previous
      else previous_loop current runs
        (case previous of
           None \<Rightarrow> Some run
         | Some p \<Rightarrow> if parseTime (Timestamp p) < parseTime (Timestamp run) then Some run else Some p))"

definition previousSameHardware :: "storedRun \<Rightarrow> storedRun list \<Rightarrow> storedRun option" where
  "previousSameHardware current runs = previous_loop current runs None"

text \<open>The map from identifiers of systems to runs, and the runs in it in the order of the identifiers.\<close>

definition latest_map :: "storedRun list \<Rightarrow> char list \<Rightarrow> storedRun option" where
  "latest_map runs =
     foldl (\<lambda>latest run.
       case latest (ID (System run)) of
         None \<Rightarrow> latest(ID (System run) \<mapsto> run)
       | Some existing \<Rightarrow>
           if parseTime (Timestamp existing) < parseTime (Timestamp run) then latest(ID (System run) \<mapsto> run) else latest)
     Map.empty runs"

definition id_before :: "storedRun \<Rightarrow> storedRun \<Rightarrow> bool" where
  "id_before l r \<longleftrightarrow> ID (System l) < ID (System r)"

definition latestRunsBySystem :: "storedRun list \<Rightarrow> storedRun list" where
  "latestRunsBySystem runs =
     sort_by id_before (List.map_filter (latest_map runs) (remdups (map (\<lambda>r. ID (System r)) runs)))"

section \<open>Numbers in the report\<close>

definition formatNumber :: "float64 \<Rightarrow> char list" where
  "formatNumber value = TrimRight (TrimRight (FormatFloat2 value) CHR ''0'') CHR ''.''"

definition formatOptional :: "float64 option \<Rightarrow> char list" where
  "formatOptional value = (case value of None \<Rightarrow> ''n/a'' | Some v \<Rightarrow> formatNumber v)"

definition formatDelta :: "float64 \<Rightarrow> float64 \<Rightarrow> char list" where
  "formatDelta previous current =
     (if f64_is_zero previous then ''n/a''
      else FormatPlus2 (f64_mul (f64_div (f64_sub current previous) previous) (F64 False 100)) @ ''%'')"

section \<open>The text of the report\<close>

abbreviation quoted :: "char list \<Rightarrow> char list" where
  "quoted s \<equiv> ''`'' @ s @ ''`''"

definition writeRunSummary :: "storedRun \<Rightarrow> char list" where
  "writeRunSummary run =
     ''- Timestamp: '' @ quoted (Timestamp run) @ [newline] @
     ''- System: '' @ quoted (GOOS (System run) @ ''/'' @ GOARCH (System run)) @ '', CPU '' @ quoted (CPU (System run)) @ [newline] @
     (if GoVersion run \<noteq> [] then ''- Go: '' @ quoted (GoVersion run) @ [newline] else []) @
     (if GitCommit run \<noteq> [] then ''- Git commit: '' @ quoted (GitCommit run) @ [newline] else []) @
     (case GitDirty run of
        None \<Rightarrow> []
      | Some dirty \<Rightarrow> ''- Git tree: '' @ quoted (if dirty then ''dirty'' else ''clean'') @ [newline]) @
     ''- Command: '' @ quoted (Join (Command run) '' '') @ [newline] @
     ''- Raw output: ['' @ RawOutput run @ ''](''  @ RawOutput run @ '')'' @ [newline] @
     ''- Parsed data: ['' @ DataFile run @ ''](''  @ DataFile run @ '')'' @ [newline, newline]"

definition resultMap :: "benchmarkResult list \<Rightarrow> char list \<Rightarrow> benchmarkResult option" where
  "resultMap results = foldl (\<lambda>mapped r. mapped(Name r \<mapsto> r)) Map.empty results"

text \<open>A row of a Markdown table with the given cells.\<close>

definition table_row :: "char list list \<Rightarrow> char list" where
  "table_row cells = ''| '' @ Join cells '' | '' @ '' |'' @ [newline]"

definition comparison_row :: "(char list \<Rightarrow> benchmarkResult option) \<Rightarrow> benchmarkResult \<Rightarrow> char list" where
  "comparison_row previousResults currentResult =
     (case previousResults (Name currentResult) of
        None \<Rightarrow> table_row [quoted (Name currentResult), ''n/a'', formatNumber (MedianNSPerOp currentResult), ''n/a'',
            formatOptional (MedianBytesPerOp currentResult), formatOptional (MedianAllocsPerOp currentResult)]
      | Some previousResult \<Rightarrow> table_row [quoted (Name currentResult), formatNumber (MedianNSPerOp previousResult),
            formatNumber (MedianNSPerOp currentResult),
            formatDelta (MedianNSPerOp previousResult) (MedianNSPerOp currentResult),
            formatOptional (MedianBytesPerOp currentResult), formatOptional (MedianAllocsPerOp currentResult)])"

definition writeComparisonTable :: "storedRun \<Rightarrow> storedRun \<Rightarrow> char list" where
  "writeComparisonTable previous current =
     ''| Benchmark | Previous ns/op | Current ns/op | ns/op change | Current B/op | Current allocs/op |'' @ [newline] @
     ''| --- | ---: | ---: | ---: | ---: | ---: |'' @ [newline] @
     concat (map (comparison_row (resultMap (Results previous))) (Results current)) @ [newline]"

definition writeResultsTable :: "benchmarkResult list \<Rightarrow> char list" where
  "writeResultsTable results =
     ''| Benchmark | Median ns/op | Median B/op | Median allocs/op |'' @ [newline] @
     ''| --- | ---: | ---: | ---: |'' @ [newline] @
     concat (map (\<lambda>r. table_row [quoted (Name r), formatNumber (MedianNSPerOp r),
       formatOptional (MedianBytesPerOp r), formatOptional (MedianAllocsPerOp r)]) results) @ [newline]"

definition report_text :: "storedRun \<Rightarrow> storedRun list \<Rightarrow> char list" where
  "report_text current runs =
     ''# Benchmark Report'' @ [newline, newline] @
     ''Generated by `make bench`.'' @ [newline, newline] @
     ''Comparisons are only made between runs with identical `goos`, `goarch`, and `cpu` values. Runs from different hardware are listed as separate systems and are not compared against each other.'' @ [newline, newline] @
     ''## Current Run'' @ [newline, newline] @
     writeRunSummary current @
     ''## Current vs Previous Same Hardware'' @ [newline, newline] @
     (case previousSameHardware current runs of
        None \<Rightarrow> ''No previous run with matching hardware was found. This run is the baseline for this system.'' @ [newline, newline]
      | Some previous \<Rightarrow> ''Previous run: ['' @ DataFile previous @ ''](''  @ DataFile previous @ '') from '' @
          quoted (Timestamp previous) @ ''.'' @ [newline, newline] @ writeComparisonTable previous current) @
     ''## Latest Results By System'' @ [newline, newline] @
     (if latestRunsBySystem runs = [] then ''No benchmark runs have been stored yet.'' @ [newline]
      else concat (map (\<lambda>run. ''### '' @ ID (System run) @ [newline, newline] @ writeRunSummary run @ writeResultsTable (Results run))
        (latestRunsBySystem runs)))"

section \<open>The order of the runs\<close>

interpretation rs: sort_order run_before
  by unfold_locales (auto simp: run_before_def Let_def split: if_splits)

interpretation ids: sort_order id_before
  using sort_order_key [of "\<lambda>r. ID (System r)"] by (simp add: id_before_def [abs_def])

lemma run_before_total:
  "\<not> run_before x y \<Longrightarrow> \<not> run_before y x \<Longrightarrow> DataFile x = DataFile y"
  by (auto simp: run_before_def Let_def split: if_splits)

text \<open>
  The runs that are loaded are put in the order of their times, runs of the same time in the order of their files; the result
  has the same runs and does not depend on the order in which the files were found.
\<close>

lemma sortRuns_order:
  assumes "mset runs = mset runs'" and "inj_on DataFile (set runs)"
  shows "sortRuns runs = sortRuns runs' \<and> mset (sortRuns runs) = mset runs \<and>
    sorted (map (\<lambda>r. parseTime (Timestamp r)) (sortRuns runs))"
proof (intro conjI)
  show "sortRuns runs = sortRuns runs'" unfolding sortRuns_def
    by (rule rs.sort_perm [OF assms(1)]) (use run_before_total assms(2) in \<open>blast dest: inj_onD\<close>)
  show "mset (sortRuns runs) = mset runs" by (simp add: sortRuns_def)
  have "sorted_wrt (\<lambda>x y. \<not> run_before y x) (sortRuns runs)"
    using rs.ordered [of runs] by (simp add: sortRuns_def ordered_by_def)
  then have "sorted_wrt (\<lambda>x y. parseTime (Timestamp x) \<le> parseTime (Timestamp y)) (sortRuns runs)"
    by (rule sorted_wrt_mono_rel [rotated]) (auto simp: run_before_def Let_def split: if_splits)
  then show "sorted (map (\<lambda>r. parseTime (Timestamp r)) (sortRuns runs))" by (simp add: sorted_wrt_map)
qed

section \<open>The run to compare with\<close>

text \<open>The runs that \<open>previousSameHardware\<close> considers.\<close>

definition earlier_same_hardware :: "storedRun \<Rightarrow> storedRun \<Rightarrow> bool" where
  "earlier_same_hardware current run \<longleftrightarrow>
     DataFile run \<noteq> DataFile current \<and> sameHardware (System current) (System run)
     \<and> parseTime (Timestamp run) < parseTime (Timestamp current)"

lemma previous_loop_spec:
  "case previous_loop current runs previous of
     None \<Rightarrow> previous = None \<and> (\<forall>r\<in>set runs. \<not> earlier_same_hardware current r)
   | Some p \<Rightarrow> (previous = Some p \<or> p \<in> set runs \<and> earlier_same_hardware current p)
       \<and> (\<forall>q. previous = Some q \<longrightarrow> parseTime (Timestamp q) \<le> parseTime (Timestamp p))
       \<and> (\<forall>r\<in>set runs. earlier_same_hardware current r \<longrightarrow> parseTime (Timestamp r) \<le> parseTime (Timestamp p))"
proof (induction current runs previous rule: previous_loop.induct)
  case (2 current run runs previous)
  consider "\<not> earlier_same_hardware current run" | "earlier_same_hardware current run" by blast
  then show ?case
  proof cases
    case 1
    then have "previous_loop current (run # runs) previous = previous_loop current runs previous"
      by (auto simp: earlier_same_hardware_def)
    moreover have "case previous_loop current runs previous of
         None \<Rightarrow> previous = None \<and> (\<forall>r\<in>set runs. \<not> earlier_same_hardware current r)
       | Some p \<Rightarrow> (previous = Some p \<or> p \<in> set runs \<and> earlier_same_hardware current p)
           \<and> (\<forall>q. previous = Some q \<longrightarrow> parseTime (Timestamp q) \<le> parseTime (Timestamp p))
           \<and> (\<forall>r\<in>set runs. earlier_same_hardware current r \<longrightarrow> parseTime (Timestamp r) \<le> parseTime (Timestamp p))"
      using 1 2(1,2) by (auto simp: earlier_same_hardware_def)
    ultimately show ?thesis using 1 by (auto split: option.splits)
  next
    case 2
    then show ?thesis using "2.IH"(3) by (auto simp: earlier_same_hardware_def split: option.splits if_splits)
  qed
qed (simp split: option.split)

text \<open>
  C33: The run that the report compares the current one with has identical \<open>goos\<close>, \<open>goarch\<close> and \<open>cpu\<close>, is another run, is earlier
  than the current one, and no other such run is later; no run is compared with only when there is none.
\<close>

theorem previous_is_latest_earlier_run:
  "case previousSameHardware current runs of
     None \<Rightarrow> filter (earlier_same_hardware current) runs = []
   | Some p \<Rightarrow> p \<in> set (filter (earlier_same_hardware current) runs) \<and>
       (\<forall>r\<in>set (filter (earlier_same_hardware current) runs). parseTime (Timestamp r) \<le> parseTime (Timestamp p))"
  using previous_loop_spec [where current = current and runs = runs and previous = None]
  by (auto simp: previousSameHardware_def filter_empty_conv split: option.splits)

section \<open>The latest run of each system\<close>

definition latest_ok :: "storedRun list \<Rightarrow> char list \<Rightarrow> storedRun option \<Rightarrow> bool" where
  "latest_ok runs i x = (case x of
     None \<Rightarrow> i \<notin> (\<lambda>r. ID (System r)) ` set runs
   | Some p \<Rightarrow> p \<in> set runs \<and> ID (System p) = i \<and>
       (\<forall>r\<in>set runs. ID (System r) = i \<longrightarrow> parseTime (Timestamp r) \<le> parseTime (Timestamp p)))"

lemma latest_map_snoc:
  "latest_map (runs @ [r]) i =
     (if ID (System r) = i then
        (case latest_map runs i of None \<Rightarrow> Some r
         | Some e \<Rightarrow> if parseTime (Timestamp e) < parseTime (Timestamp r) then Some r else Some e)
      else latest_map runs i)"
  unfolding latest_map_def by (auto split: option.split)

lemma latest_map_ok: "latest_ok runs i (latest_map runs i)"
proof (induction runs rule: rev_induct)
  case (snoc r runs)
  show ?case
  proof (cases "ID (System r) = i")
    case True
    then show ?thesis using snoc
      by (cases "latest_map runs i") (fastforce simp: latest_map_snoc latest_ok_def not_less image_iff)+
  next
    case False
    then show ?thesis using snoc by (cases "latest_map runs i") (auto simp: latest_map_snoc latest_ok_def)
  qed
qed (simp add: latest_map_def latest_ok_def)

lemma latest_map_Some:
  assumes "latest_map runs i = Some p"
  shows "p \<in> set runs" and "ID (System p) = i"
    and "r \<in> set runs \<Longrightarrow> ID (System r) = i \<Longrightarrow> parseTime (Timestamp r) \<le> parseTime (Timestamp p)"
  using latest_map_ok [of runs i] assms by (simp_all add: latest_ok_def)

lemma latest_map_of:
  assumes "r \<in> set runs" obtains p where "latest_map runs (ID (System r)) = Some p"
  using latest_map_ok [of runs "ID (System r)"] assms by (cases "latest_map runs (ID (System r))") (auto simp: latest_ok_def)

lemma map_filter_ids:
  assumes "\<And>i. i \<in> set xs \<Longrightarrow> \<exists>p. f i = Some p \<and> g p = i"
  shows "map g (List.map_filter f xs) = xs"
  using assms by (induction xs) (auto simp: map_filter_simps, fastforce)

lemma latestRuns_set: "set (latestRunsBySystem runs) = {p. \<exists>r\<in>set runs. latest_map runs (ID (System r)) = Some p}"
  by (force simp: latestRunsBySystem_def map_filter_def)

lemma latestRuns_ids:
  "sorted_wrt (<) (map (\<lambda>r. ID (System r)) (latestRunsBySystem runs))"
  "set (map (\<lambda>r. ID (System r)) (latestRunsBySystem runs)) = (\<lambda>r. ID (System r)) ` set runs"
proof -
  let ?id = "\<lambda>r. ID (System r)"
  let ?ids = "remdups (map ?id runs)"
  have ids: "map ?id (List.map_filter (latest_map runs) ?ids) = ?ids"
  proof (rule map_filter_ids)
    fix i assume "i \<in> set ?ids"
    then obtain r where r: "r \<in> set runs" "i = ?id r" by auto
    from latest_map_of [OF r(1)] obtain p where p: "latest_map runs (?id r) = Some p" .
    show "\<exists>p. latest_map runs i = Some p \<and> ?id p = i" using p latest_map_Some(2) [OF p] r(2) by auto
  qed
  have m: "mset (map ?id (latestRunsBySystem runs)) = mset ?ids"
    by (simp only: latestRunsBySystem_def mset_map mset_sort_by) (simp only: mset_map [symmetric] ids)
  then show "set (map ?id (latestRunsBySystem runs)) = ?id ` set runs" by (metis set_mset_mset set_remdups set_map)
  have d: "distinct (map ?id (latestRunsBySystem runs))"
    using m mset_eq_imp_distinct_iff distinct_remdups by blast
  have "sorted_wrt (\<lambda>x y. \<not> id_before y x) (latestRunsBySystem runs)"
    using ids.ordered by (simp add: latestRunsBySystem_def ordered_by_def)
  then have "sorted (map ?id (latestRunsBySystem runs))"
    by (simp add: sorted_wrt_map id_before_def not_less)
  then show "sorted_wrt (<) (map ?id (latestRunsBySystem runs))" using d by (simp add: strict_sorted_iff)
qed

text \<open>
  C34: The report lists one run for each identifier among the stored runs, in the order of the identifiers, and it is one that no other
  run with the same identifier is later than.
\<close>

theorem latest_runs_by_system:
  "sorted_wrt (<) (map (\<lambda>r. ID (System r)) (latestRunsBySystem runs)) \<and>
   set (map (\<lambda>r. ID (System r)) (latestRunsBySystem runs)) = (\<lambda>r. ID (System r)) ` set runs \<and>
   set (latestRunsBySystem runs) \<subseteq> set runs \<and>
   (\<forall>p\<in>set (latestRunsBySystem runs). \<forall>r\<in>set runs.
      ID (System r) = ID (System p) \<longrightarrow> parseTime (Timestamp r) \<le> parseTime (Timestamp p))"
proof (intro conjI)
  show "set (latestRunsBySystem runs) \<subseteq> set runs"
    unfolding latestRuns_set using latest_map_Some(1) by blast
  show "\<forall>p\<in>set (latestRunsBySystem runs). \<forall>r\<in>set runs.
      ID (System r) = ID (System p) \<longrightarrow> parseTime (Timestamp r) \<le> parseTime (Timestamp p)"
    unfolding latestRuns_set using latest_map_Some(2,3) by fastforce
qed (rule latestRuns_ids)+

end
