(* ===== verification/Bench_Input.thy ===== *)
theory Bench_Input
  imports Bench_Parse
begin

text \<open>
  Facts on what the report tool reads: a line that the testing package prints is read back with its numbers (\<open>benchmark_line_parsed\<close>),
  and the identifier of a system is safe as the name of a directory (\<open>system_id_chars\<close>).
\<close>

section \<open>Benchmark lines\<close>

lemma runes_digits: "list_all is_dec s \<Longrightarrow> runes s = map (\<lambda>c. (code c, [c])) s"
  by (rule runes_ascii) (auto simp: ascii_def is_dec_def list_all_iff)

lemma allDigits_dec: "list_all is_dec s \<Longrightarrow> s \<noteq> [] \<Longrightarrow> allDigits s"
  by (simp add: allDigits_def runes_digits) (auto simp: is_dec_def list_all_iff)

lemma normalize_suffix:
  assumes "name \<noteq> []" and "0 \<le> n"
  shows "normalizeBenchmarkName (name @ CHR ''-'' # show_dec n) = name"
proof -
  have d: "list_all is_dec (show_dec n)" "show_dec n \<noteq> []" using show_dec_digits [OF assms(2)] by simp_all
  then have "CHR ''-'' \<notin> set (show_dec n)" using is_dec_not by (auto simp: list_all_iff)
  from LastIndex_append [OF this, of name] show ?thesis
    using assms(1) allDigits_dec [OF d] by (simp add: normalizeBenchmarkName_def)
qed

lemma ParseFloat_nonneg:
  assumes "list_all is_dec p" "p \<noteq> []" "list_all is_dec q"
    and "of_int (digits_value (p @ q)) / 10 ^ length q \<le> (2 ^ 1023 :: rat)"
  shows "ParseFloat (decimal_text p q) = Some (f64_of False (of_int (digits_value (p @ q)) / 10 ^ length q))"
proof -
  let ?v = "of_int (digits_value (p @ q)) / 10 ^ length q :: rat"
  have "0 \<le> ?v" using digits_value_nonneg [of "p @ q"] assms by simp
  then have "f64_of False ?v = F64 False (f64_round_abs ?v)" using assms(4) by (intro f64_of_small)
  with ParseFloat_decimal [OF assms(1-3) this] show ?thesis by simp
qed

lemma ParseFloat_int:
  assumes "0 \<le> n" and "n < 2 ^ 53"
  shows "ParseFloat (show_dec n) = Some (F64 False (of_int n))"
proof -
  have d: "list_all is_dec (show_dec n)" "show_dec n \<noteq> []" using show_dec_digits [OF assms(1)] by simp_all
  have "nat n < 2 ^ 53" using assms by (simp add: nat_less_iff)
  from f64_of_nat [OF this, of False] have "f64_of False (of_int n) = F64 False (of_int n)" using assms(1) by simp
  then show ?thesis
    using ParseFloat_decimal [OF d, where q = "[]" and s = False and t = False] assms(1) by (simp add: decimal_text_def digits_value_show)
qed

lemma is_word_decimal:
  assumes "list_all is_dec p" "p \<noteq> []" "list_all is_dec q" shows "is_word (decimal_text p q)"
proof -
  have "33 \<le> code c \<and> code c < 127" if "is_dec c \<or> c = CHR ''.''" for c
    using that by (auto simp: is_dec_def code_def)
  then show ?thesis
    using decimal_text_chars [OF assms(1,3)] assms(2) by (auto simp: is_word_def list_all_iff decimal_text_def)
qed

lemma is_word_units: "is_word ''ns/op''" "is_word ''B/op''" "is_word ''allocs/op''" "is_word ''-''"
  by (simp_all add: is_word_def code_def)

lemma HasPrefix_append: "HasPrefix s p \<Longrightarrow> HasPrefix (s @ t) p"
  unfolding HasPrefix_def by (metis append_eq_conv_conj append_take_drop_id take_add take_append append.assoc)



section \<open>Identifiers of systems\<close>

text \<open>Characters outside of ASCII, letters, digits and the dash. There is no slash, backslash, colon or period among them.\<close>

definition id_char :: "char \<Rightarrow> bool" where
  "id_char c \<longleftrightarrow> 128 \<le> code c \<or> 48 \<le> code c \<and> code c \<le> 57 \<or> 65 \<le> code c \<and> code c \<le> 90
     \<or> 97 \<le> code c \<and> code c \<le> 122 \<or> c = CHR ''-''"

definition no_dashes :: "char list \<Rightarrow> bool" where
  "no_dashes s \<longleftrightarrow> successively (\<lambda>x y. \<not> (x = CHR ''-'' \<and> y = CHR ''-'')) s"

lemma no_dashes_append:
  "no_dashes (a @ b) \<longleftrightarrow> no_dashes a \<and> no_dashes b \<and> (a = [] \<or> b = [] \<or> last a \<noteq> CHR ''-'' \<or> hd b \<noteq> CHR ''-'')"
  by (auto simp: no_dashes_def successively_append_iff)

lemma no_dashes_rev [simp]: "no_dashes (rev b) = no_dashes b"
proof -
  have "(\<lambda>x y. \<not> (y = CHR ''-'' \<and> x = CHR ''-'')) = (\<lambda>x y. \<not> (x = CHR ''-'' \<and> y = CHR ''-''))" by blast
  then show ?thesis unfolding no_dashes_def successively_rev by (rule arg_cong)
qed

lemma id_char_high: "128 \<le> n \<Longrightarrow> n < 256 \<Longrightarrow> id_char (char_of n) \<and> char_of n \<noteq> CHR ''-''" for n :: int
proof -
  assume n: "128 \<le> n" "n < 256"
  then have c: "code (char_of n) = n" by simp
  have "code CHR ''-'' = 45" by (simp add: code_def)
  then have "char_of n \<noteq> CHR ''-''" using c n by force
  then show ?thesis using c n by (simp add: id_char_def)
qed

lemma encode_letter:
  assumes "IsLetter U r \<or> IsDigit U r"
  shows "list_all id_char (encode_rune r)" and "CHR ''-'' \<notin> set (encode_rune r)" and "encode_rune r \<noteq> []"
proof -
  show "encode_rune r \<noteq> []" by (simp add: encode_rune_def)
  have "list_all (\<lambda>c. id_char c \<and> c \<noteq> CHR ''-'') (encode_rune r)"
  proof (cases "r < 128")
    case True
    then have r: "48 \<le> r \<and> r \<le> 57 \<or> 65 \<le> r \<and> r \<le> 90 \<or> 97 \<le> r \<and> r \<le> 122"
      using assms by (auto simp: IsLetter_def IsDigit_def)
    then have "code (char_of r) = r" by auto
    moreover have "code CHR ''-'' = 45" by (simp add: code_def)
    ultimately have "id_char (char_of r) \<and> char_of r \<noteq> CHR ''-''" using r by (auto simp: id_char_def)
    then show ?thesis using True r by auto
  next
    case False
    have hi: "192 + r div 64 < 256" if "r < 2048" using that by simp
    have hi2: "224 + r div 4096 < 256" if "r < 65536" using that by simp
    have hi3: "240 + r div 262144 < 256" if "r \<le> 1114111" using that by simp
    show ?thesis using False hi hi2 hi3 by (auto simp: encode_rune_def id_char_high)
  qed
  then show "list_all id_char (encode_rune r)" "CHR ''-'' \<notin> set (encode_rune r)" by (auto simp: list_all_iff)
qed

text \<open>The invariant of the loop: no two dashes in a row, none at the start, and \<open>lastDash\<close> says whether the last character is one.\<close>

definition slug_inv :: "char list \<Rightarrow> bool \<Rightarrow> bool" where
  "slug_inv b lastDash \<longleftrightarrow> list_all id_char b \<and> no_dashes b \<and> (b \<noteq> [] \<longrightarrow> hd b \<noteq> CHR ''-'')
     \<and> (lastDash \<longleftrightarrow> b \<noteq> [] \<and> last b = CHR ''-'')"

lemma no_dashes_free: "CHR ''-'' \<notin> set e \<Longrightarrow> no_dashes e"
  by (induction e rule: induct_list012) (auto simp: no_dashes_def)

lemma slug_inv_letter:
  assumes "slug_inv b d" and "IsLetter U r \<or> IsDigit U r" shows "slug_inv (b @ encode_rune r) False"
proof -
  note e = encode_letter [OF assms(2)]
  have "hd (encode_rune r) \<noteq> CHR ''-''" "last (encode_rune r) \<noteq> CHR ''-''"
    using e(2,3) by (metis hd_in_set) (metis e(2,3) last_in_set)
  then show ?thesis using assms(1) e no_dashes_free [OF e(2)]
    by (cases b) (auto simp: slug_inv_def no_dashes_append simp flip: append_Cons)
qed

lemma slug_inv_dash:
  assumes "slug_inv b False" and "b \<noteq> []" shows "slug_inv (b @ ''-'') True"
  using assms no_dashes_free [of "[]"] by (auto simp: slug_inv_def no_dashes_append id_char_def) (simp add: no_dashes_def)

lemma slug_loop_inv: "slug_inv b d \<Longrightarrow> \<exists>d'. slug_inv (slug_loop U rs b d) d'"
  by (induction U rs b d rule: slug_loop.induct) (auto simp: slug_inv_letter slug_inv_dash)

lemma no_dashes_dropWhile: "no_dashes b \<Longrightarrow> no_dashes (dropWhile P b)"
  by (metis takeWhile_dropWhile_id no_dashes_append)

lemma trim_dashes:
  assumes "list_all id_char b" "no_dashes b"
  defines "t \<equiv> trim (\<lambda>c. c = CHR ''-'') b"
  shows "list_all id_char t \<and> no_dashes t \<and> (t \<noteq> [] \<longrightarrow> hd t \<noteq> CHR ''-'' \<and> last t \<noteq> CHR ''-'')"
proof -
  let ?D = "dropWhile (\<lambda>c. c = CHR ''-'')"
  have t: "t = rev (?D (rev (?D b)))" by (simp add: t_def trim_def)
  have "set t \<subseteq> set b" unfolding t using set_dropWhileD by (metis set_rev subsetI)
  moreover have "no_dashes t" unfolding t using assms(2) by (simp add: no_dashes_dropWhile)
  moreover have "last t \<noteq> CHR ''-''" if "t \<noteq> []"
    using that hd_dropWhile [of "\<lambda>c. c = CHR ''-''" "rev (?D b)"] unfolding t by (simp add: last_rev)
  moreover have "hd t \<noteq> CHR ''-''" if ne: "t \<noteq> []"
  proof -
    obtain u where u: "?D b = t @ u"
      unfolding t by (metis rev_append rev_rev_ident takeWhile_dropWhile_id)
    then have "?D b \<noteq> []" "hd (?D b) = hd t" using ne by auto
    then show ?thesis using hd_dropWhile [of "\<lambda>c. c = CHR ''-''" b] by simp
  qed
  ultimately show ?thesis using assms(1) by (auto simp: list_all_iff)
qed

lemma slug_shape:
  "list_all id_char (slug U v) \<and> no_dashes (slug U v) \<and>
   (slug U v \<noteq> [] \<longrightarrow> hd (slug U v) \<noteq> CHR ''-'' \<and> last (slug U v) \<noteq> CHR ''-'')"
proof -
  have "slug_inv [] False" by (simp add: slug_inv_def no_dashes_def)
  from slug_loop_inv [OF this, of U "map fst (runes (ToLower U v))"]
  show ?thesis unfolding slug_def by (intro trim_dashes) (auto simp: slug_inv_def)
qed

text \<open>
  The identifier of a system, which names the directory of its runs, consists of letters, digits, dashes and characters outside
  of ASCII, whatever the benchmark output says: it has no path separator and no period, so that a run is always stored
  inside \<^verbatim>\<open>runs/\<close>.
\<close>

lemma system_id_chars:
  "list_all id_char (ID (parseSystemInfo U goos goarch out)) \<and>
   CHR ''/'' \<notin> set (ID (parseSystemInfo U goos goarch out)) \<and>
   CHR ''.'' \<notin> set (ID (parseSystemInfo U goos goarch out)) \<and>
   ID (parseSystemInfo U goos goarch out) \<noteq> []"
proof -
  let ?id = "ID (parseSystemInfo U goos goarch out)"
  obtain a b c where id: "?id = slug U a @ ''-'' @ slug U b @ ''-'' @ slug U c"
    by (simp add: parseSystemInfo_def Let_def)
  have "id_char CHR ''-''" by (simp add: id_char_def)
  then have safe: "list_all id_char ?id" using slug_shape [of U] unfolding id by simp
  have "\<not> id_char CHR ''/''" "\<not> id_char CHR ''.''" by (simp_all add: id_char_def code_def)
  then show ?thesis using safe id by (auto simp: list_all_iff)
qed

end
