(* ===== verification/Bench_Run.thy ===== *)
theory Bench_Run
  imports Bench_Report Bench_Input "HOL-Library.AList"
begin

text \<open>
  A whole run of the report tool (\<open>run\<close>, \<open>writeRun\<close>, \<open>loadRuns\<close> and \<open>writeReport\<close> of \<^verbatim>\<open>src/tools/benchreport/main.go\<close>). The machine is an
  argument (\<open>machine\<close>): what the commands print, the clock, the system calls that fail, and the functions of
  \<open>encoding/json\<close>. The files are an association list from paths to contents; paths are relative to the output directory. A
  write that fails may leave the file as it was or cut it short.
\<close>

datatype write_result = Written | Not_opened | Cut_at nat

record machine =
  m_unicode :: unicode
  m_goos :: "char list"
  m_goarch :: "char list"
  m_combined :: "char list list \<Rightarrow> char list \<times> bool"
  m_output :: "char list list \<Rightarrow> char list option"
  m_clock :: civil
  m_mkdir_fails :: "char list \<Rightarrow> bool"
  m_write :: "char list \<Rightarrow> write_result"
  m_read_fails :: "char list \<Rightarrow> bool"
  m_marshal :: "storedRun \<Rightarrow> char list option"
  m_unmarshal :: "char list \<Rightarrow> storedRun option"

datatype bench_error = CountTooSmall | CommandFailed | NoSamples | FileError | MarshalError | UnmarshalError "char list"

type_synonym files = "(char list \<times> char list) list"

record config =
  benchPattern :: "char list"
  runPattern :: "char list"
  bench_count :: int
  outDir :: "char list"

text \<open>The defaults of \<open>parseFlags\<close>.\<close>

definition default_config :: config where
  "default_config = \<lparr>benchPattern = ''.'', runPattern = ''^$'', bench_count = 3, outDir = ''benchmarks''\<rparr>"

definition dataVersion :: int where
  "dataVersion = 1"

section \<open>Commands\<close>

definition bench_args :: "config \<Rightarrow> char list list" where
  "bench_args cfg =
     [''test'', ''-run='' @ runPattern cfg, ''-bench='' @ benchPattern cfg, ''-benchmem'', ''-count='' @ Itoa (bench_count cfg), ''./...'']"

definition commandOutput :: "machine \<Rightarrow> char list list \<Rightarrow> char list" where
  "commandOutput M command = (case m_output M command of None \<Rightarrow> [] | Some out \<Rightarrow> TrimSpace out)"

definition gitDirty :: "machine \<Rightarrow> bool option" where
  "gitDirty M =
     (case m_output M [''git'', ''status'', ''--short''] of None \<Rightarrow> None | Some out \<Rightarrow> Some (TrimSpace out \<noteq> []))"

section \<open>Files\<close>

text \<open>\<open>os.WriteFile\<close>; the flag says whether it succeeded.\<close>

definition WriteFile :: "machine \<Rightarrow> char list \<Rightarrow> char list \<Rightarrow> files \<Rightarrow> bool \<times> files" where
  "WriteFile M path data fs =
     (case m_write M path of
        Written \<Rightarrow> (True, AList.update path data fs)
      | Not_opened \<Rightarrow> (False, fs)
      | Cut_at k \<Rightarrow> (False, AList.update path (take k data) fs))"

definition raw_path :: "char list \<Rightarrow> char list \<Rightarrow> char list" where
  "raw_path i stamp = Join [''runs'', i, stamp @ ''.txt''] ''/''"

definition data_path :: "char list \<Rightarrow> char list \<Rightarrow> char list" where
  "data_path i stamp = Join [''runs'', i, stamp @ ''.json''] ''/''"

definition writeRun :: "machine \<Rightarrow> char list \<Rightarrow> char list \<Rightarrow> storedRun \<Rightarrow> files \<Rightarrow> (bench_error + storedRun) \<times> files" where
  "writeRun M stamp rawOutput run fs =
     (if m_mkdir_fails M (Join [''runs'', ID (System run)] ''/'') then (Inl FileError, fs)
      else let rawRel = raw_path (ID (System run)) stamp; dataRel = data_path (ID (System run)) stamp;
               run = run\<lparr>RawOutput := rawRel, DataFile := dataRel\<rparr>;
               (ok, fs) = WriteFile M rawRel rawOutput fs in
        if \<not> ok then (Inl FileError, fs)
        else case m_marshal M run of
          None \<Rightarrow> (Inl MarshalError, fs)
        | Some data \<Rightarrow>
            let (ok, fs) = WriteFile M dataRel (data @ [newline]) fs in
            if \<not> ok then (Inl FileError, fs) else (Inr run, fs))"

text \<open>The pattern \<open>runs/*/*.json\<close>; the paths come in the order of their directories and names.\<close>

definition ends_json :: "char list \<Rightarrow> bool" where
  "ends_json name \<longleftrightarrow> take 5 (rev name) = rev ''.json''"

definition is_run_path :: "char list \<Rightarrow> bool" where
  "is_run_path path \<longleftrightarrow>
     (case Split_at CHR ''/'' path of [a, d, name] \<Rightarrow> a = ''runs'' \<and> ends_json name | _ \<Rightarrow> False)"

definition path_before :: "char list \<Rightarrow> char list \<Rightarrow> bool" where
  "path_before p q \<longleftrightarrow> Split_at CHR ''/'' p < Split_at CHR ''/'' q"

definition Glob_runs :: "files \<Rightarrow> char list list" where
  "Glob_runs fs = sort_by path_before (remdups (filter is_run_path (map fst fs)))"

fun load_loop :: "machine \<Rightarrow> files \<Rightarrow> char list list \<Rightarrow> bench_error + storedRun list" where
  "load_loop M fs [] = Inr []"
| "load_loop M fs (p # ps) =
     (if m_read_fails M p then Inl FileError
      else case map_of fs p of
        None \<Rightarrow> Inl FileError
      | Some data \<Rightarrow>
          (case m_unmarshal M data of
             None \<Rightarrow> Inl (UnmarshalError p)
           | Some run \<Rightarrow>
               (case load_loop M fs ps of Inl e \<Rightarrow> Inl e | Inr runs \<Rightarrow> Inr (run\<lparr>DataFile := p\<rparr> # runs))))"

definition loadRuns :: "machine \<Rightarrow> files \<Rightarrow> bench_error + storedRun list" where
  "loadRuns M fs = (case load_loop M fs (Glob_runs fs) of Inl e \<Rightarrow> Inl e | Inr runs \<Rightarrow> Inr (sortRuns runs))"

definition writeReport :: "machine \<Rightarrow> storedRun \<Rightarrow> storedRun list \<Rightarrow> files \<Rightarrow> bool \<times> files" where
  "writeReport M current runs fs =
     (if m_mkdir_fails M [] then (False, fs) else WriteFile M ''report.md'' (report_text current runs) fs)"

section \<open>The run\<close>

text \<open>The record that \<open>run\<close> builds from the output of the benchmarks.\<close>

definition new_run :: "machine \<Rightarrow> config \<Rightarrow> char list \<Rightarrow> storedRun" where
  "new_run M cfg out =
     \<lparr>Version = dataVersion, Timestamp = Format_RFC3339 (m_clock M), Command = ''go'' # bench_args cfg,
      GoVersion = commandOutput M [''go'', ''version''], GitCommit = commandOutput M [''git'', ''rev-parse'', ''HEAD''],
      GitDirty = gitDirty M, System = parseSystemInfo (m_unicode M) (m_goos M) (m_goarch M) out, RawOutput = [],
      Results = summarize (parseBenchmarkSamples out), DataFile = []\<rparr>"

definition bench_run :: "machine \<Rightarrow> config \<Rightarrow> files \<Rightarrow> (bench_error + storedRun) \<times> files" where
  "bench_run M cfg fs =
     (if bench_count cfg < 1 then (Inl CountTooSmall, fs)
      else case m_combined M (''go'' # bench_args cfg) of
        (out, failed) \<Rightarrow>
          if failed then (Inl CommandFailed, fs)
          else if parseBenchmarkSamples out = [] then (Inl NoSamples, fs)
          else (case writeRun M (Format_stamp (m_clock M)) out (new_run M cfg out) fs of
              (Inl e, fs) \<Rightarrow> (Inl e, fs)
            | (Inr run, fs) \<Rightarrow>
                (case loadRuns M fs of
                   Inl e \<Rightarrow> (Inl e, fs)
                 | Inr runs \<Rightarrow>
                     let current = (case findRun runs (DataFile run) of None \<Rightarrow> run | Some r \<Rightarrow> r);
                         (ok, fs) = writeReport M current runs fs in
                     if ok then (Inr current, fs) else (Inl FileError, fs))))"

section \<open>What a run may change\<close>

lemma WriteFile_other: "p \<noteq> path \<Longrightarrow> map_of (snd (WriteFile M path data fs)) p = map_of fs p"
  by (simp add: WriteFile_def update_conv' split: write_result.split)

lemma WriteFile_ok: "fst (WriteFile M path data fs) \<Longrightarrow> snd (WriteFile M path data fs) = AList.update path data fs"
  by (simp add: WriteFile_def split: write_result.split_asm)

lemma writeRun_other:
  assumes "p \<noteq> raw_path (ID (System run)) stamp" and "p \<noteq> data_path (ID (System run)) stamp"
  shows "map_of (snd (writeRun M stamp out run fs)) p = map_of fs p"
proof -
  obtain ok fs1 where w: "WriteFile M (raw_path (ID (System run)) stamp) out fs = (ok, fs1)" by fastforce
  then have "map_of fs1 p = map_of fs p" using WriteFile_other [OF assms(1)] by (metis snd_conv)
  moreover have "map_of (snd (WriteFile M (data_path (ID (System run)) stamp) d fs1)) p = map_of fs1 p" for d
    by (rule WriteFile_other [OF assms(2)])
  ultimately show ?thesis
    by (auto simp: writeRun_def w Let_def split: option.split prod.split) (metis snd_conv)+
qed

lemma writeReport_other: "p \<noteq> ''report.md'' \<Longrightarrow> map_of (snd (writeReport M current runs fs)) p = map_of fs p"
  by (simp add: writeReport_def WriteFile_other)

text \<open>
  C32: Whatever fails and whatever the commands print, a run of the tool changes no file of the output directory other than its own two
  files, which lie in the directory of the system under \<^verbatim>\<open>runs/\<close> and are named after the second of the clock, and the report.
\<close>

theorem run_keeps_other_files:
  assumes "out = fst (m_combined M (''go'' # bench_args cfg))"
    and "p \<noteq> raw_path (ID (System (new_run M cfg out))) (Format_stamp (m_clock M))"
    and "p \<noteq> data_path (ID (System (new_run M cfg out))) (Format_stamp (m_clock M))"
    and "p \<noteq> ''report.md''"
  shows "map_of (snd (bench_run M cfg fs)) p = map_of fs p"
proof -
  obtain failed where c: "m_combined M (''go'' # bench_args cfg) = (out, failed)"
    using assms(1) by (metis prod.collapse)
  obtain r fs1 where w: "writeRun M (Format_stamp (m_clock M)) out (new_run M cfg out) fs = (r, fs1)" by fastforce
  have 1: "map_of fs1 p = map_of fs p" using writeRun_other [OF assms(2,3)] w by (metis snd_conv)
  have 2: "map_of (snd (writeReport M current runs fs1)) p = map_of fs1 p" for current runs
    by (rule writeReport_other [OF assms(4)])
  show ?thesis using 1 2 unfolding bench_run_def c prod.case w
    by (auto simp: Let_def split: sum.split prod.split) (metis snd_conv)+
qed

section \<open>A run that succeeds\<close>

text \<open>The stored runs of the files, each with the path it was read from.\<close>

definition decoded :: "machine \<Rightarrow> files \<Rightarrow> char list \<Rightarrow> storedRun" where
  "decoded M fs p = (the (m_unmarshal M (the (map_of fs p))))\<lparr>DataFile := p\<rparr>"

definition readable :: "machine \<Rightarrow> files \<Rightarrow> char list \<Rightarrow> bool" where
  "readable M fs p \<longleftrightarrow> (case map_of fs p of None \<Rightarrow> False | Some c \<Rightarrow> m_unmarshal M c \<noteq> None)"

lemma load_loop_ok:
  "m_read_fails M = (\<lambda>p. False) \<Longrightarrow> list_all (readable M fs) ps \<Longrightarrow> load_loop M fs ps = Inr (map (decoded M fs) ps)"
  by (induction ps) (auto simp: readable_def decoded_def split: option.splits)

lemma Glob_runs_set: "set (Glob_runs fs) = {p. is_run_path p \<and> map_of fs p \<noteq> None}"
  by (auto simp: Glob_runs_def map_of_eq_None_iff image_iff)

lemma findRun_decoded:
  assumes "d \<in> set ps" and "set runs = decoded M fs ` set ps"
  shows "findRun runs d = Some (decoded M fs d)"
proof -
  have 1: "r = decoded M fs (DataFile r)" if "r \<in> set runs" for r
    using that assms(2) by (auto simp: decoded_def)
  have 2: "\<exists>r\<in>set runs. DataFile r = d" using assms by (auto simp: decoded_def)
  from 1 2 show ?thesis by (induction runs) (auto, metis+)
qed

lemma digits_no_slash: "list_all is_dec s \<Longrightarrow> CHR ''/'' \<notin> set s"
  by (auto simp: list_all_iff is_dec_def code_def)

lemma pad2_no_slash: "0 \<le> n \<Longrightarrow> n < 100 \<Longrightarrow> CHR ''/'' \<notin> set (pad2 n)"
  unfolding pad2_def using show_dec_digits [of "n div 10"] show_dec_digits [of "n mod 10"] digits_no_slash by simp

lemma stamp_no_slash:
  assumes "valid_civil c" shows "CHR ''/'' \<notin> set (Format_stamp c)"
proof -
  have "daysIn (cmonth c) (cyear c) \<le> 31" by (simp add: daysIn_def)
  then have r: "0 \<le> cyear c div 100" "cyear c div 100 < 100" "0 \<le> cyear c mod 100" "cyear c mod 100 < 100"
    "0 \<le> cmonth c" "cmonth c < 100" "0 \<le> cday c" "cday c < 100"
    "0 \<le> chour c" "chour c < 100" "0 \<le> cminute c" "cminute c < 100" "0 \<le> csecond c" "csecond c < 100"
    using assms by (auto simp: valid_civil_def)
  show ?thesis using pad2_no_slash [OF r(1,2)] pad2_no_slash [OF r(3,4)] pad2_no_slash [OF r(5,6)]
      pad2_no_slash [OF r(7,8)] pad2_no_slash [OF r(9,10)] pad2_no_slash [OF r(11,12)] pad2_no_slash [OF r(13,14)]
    by (simp add: Format_stamp_def pad4_def)
qed

lemma run_paths:
  assumes "CHR ''/'' \<notin> set i" and "CHR ''/'' \<notin> set t"
  shows "is_run_path (data_path i t)" and "\<not> is_run_path (raw_path i t)"
    and "data_path i t \<noteq> ''report.md''" and "raw_path i t \<noteq> ''report.md''"
proof -
  have s: "Split_at CHR ''/'' (''runs'' @ ''/'' @ i @ ''/'' @ n) = [''runs'', i, n]" if "CHR ''/'' \<notin> set n" for n
    using that Split_at_line [of "CHR ''/''" "''runs''" "i @ ''/'' @ n"] Split_at_line [OF assms(1), of n] Split_at_last
    by simp
  have "CHR ''/'' \<notin> set (t @ ''.json'')" "CHR ''/'' \<notin> set (t @ ''.txt'')" using assms(2) by auto
  from this [THEN s] show "is_run_path (data_path i t)" "\<not> is_run_path (raw_path i t)"
    by (auto simp: is_run_path_def data_path_def raw_path_def ends_json_def)
qed (simp_all add: data_path_def raw_path_def)


text \<open>
  A run is stored with the time of the clock at which it was made, to the second, and of two runs the one made at the later date and
  time is the later one for the report.
\<close>

lemma runs_keep_the_clock:
  assumes "valid_civil (m_clock M)" and "valid_civil (m_clock M')"
  shows "parseTime (Timestamp (new_run M cfg out)) = instant (m_clock M) \<and>
    (parseTime (Timestamp (new_run M cfg out)) < parseTime (Timestamp (new_run M' cfg' out')) \<longleftrightarrow>
     civil_key (m_clock M) < civil_key (m_clock M'))"
  using Parse_Format assms instant_less_iff by (simp add: parseTime_def new_run_def)

end
