(* ===== verification/Bench_Numbers.thy ===== *)
theory Bench_Numbers
  imports Bench_Report
begin

text \<open>
  What the numbers of the report mean: \<open>formatNumber\<close> prints the value rounded to two decimals, and the sign of \<open>formatDelta\<close> says
  whether the benchmark has become slower.
\<close>

section \<open>Trimming\<close>

lemma TrimRight_snoc_eq: "TrimRight (s @ [c]) c = TrimRight s c"
  by (simp add: TrimRight_def)

lemma TrimRight_snoc_neq: "d \<noteq> c \<Longrightarrow> TrimRight (s @ [d]) c = s @ [d]"
  by (simp add: TrimRight_def)

lemma TrimRight_split:
  obtains k where "s = TrimRight s c @ replicate k c"
proof (induction s arbitrary: thesis rule: rev_induct)
  case (snoc d s)
  show ?case
  proof (cases "d = c")
    case True
    obtain k where "s = TrimRight s c @ replicate k c" using snoc.IH by blast
    then have "s @ [d] = TrimRight (s @ [d]) c @ replicate (Suc k) c"
      using True by (simp add: TrimRight_snoc_eq flip: replicate_append_same)
    then show ?thesis by (rule snoc.prems)
  next
    case False
    then have "s @ [d] = TrimRight (s @ [d]) c @ replicate 0 c" by (simp add: TrimRight_snoc_neq)
    then show ?thesis by (rule snoc.prems)
  qed
qed (simp add: TrimRight_def)

lemma TrimRight_after:
  assumes "d \<noteq> c" shows "TrimRight (p @ d # q) c = p @ d # TrimRight q c"
proof (induction q rule: rev_induct)
  case Nil
  then show ?case using TrimRight_snoc_neq [OF assms, of p] by (simp add: TrimRight_def)
next
  case (snoc e q)
  then show ?case
    using TrimRight_snoc_eq [of "p @ d # q" c] TrimRight_snoc_neq [of e c "p @ d # q"]
      TrimRight_snoc_eq [of q c] TrimRight_snoc_neq [of e c q] by (cases "e = c") simp_all
qed

lemma TrimRight_other: "s = [] \<or> last s \<noteq> c \<Longrightarrow> TrimRight s c = s"
  by (cases s rule: rev_cases) (simp_all add: TrimRight_snoc_neq TrimRight_def)

section \<open>Hundredths\<close>

lemma digits_value_zeros: "digits_value (p @ replicate k CHR ''0'') = digits_value p * 10 ^ k"
proof (induction k)
  case (Suc k)
  have "p @ replicate (Suc k) CHR ''0'' = (p @ replicate k CHR ''0'') @ [CHR ''0'']"
    by (simp add: replicate_append_same)
  moreover have "code CHR ''0'' = 48" by (simp add: code_def)
  ultimately show ?case using Suc by (simp add: digits_value_snoc del: append_assoc)
qed simp

lemma digits_last: "list_all is_dec p \<Longrightarrow> p \<noteq> [] \<Longrightarrow> last p \<noteq> CHR ''.''"
  using is_dec_not by (auto simp: list_all_iff)

text \<open>The text of a number of hundredths after the two trims: a decimal text with the same value.\<close>

lemma trim_cents:
  assumes m: "0 \<le> m"
  obtains p q where "TrimRight (TrimRight (u @ show_cents m) CHR ''0'') CHR ''.'' = u @ decimal_text p q"
    and "list_all is_dec p" "p \<noteq> []" "list_all is_dec q"
    and "of_int (digits_value (p @ q)) / 10 ^ length q = (of_int m / 100 :: rat)"
proof -
  define p where "p = show_dec (m div 100)"
  define q0 where "q0 = show_dec (m mod 100 div 10) @ show_dec (m mod 10)"
  define q where "q = TrimRight q0 CHR ''0''"
  have p: "list_all is_dec p" "p \<noteq> []" using show_dec_digits [of "m div 100"] m by (simp_all add: p_def)
  have d: "0 \<le> m mod 100 div 10" "m mod 100 div 10 < 10" "0 \<le> m mod 10" "m mod 10 < 10" using m by simp_all
  have q0: "list_all is_dec q0" "length q0 = 2"
    using show_dec_digits [OF d(1)] show_dec_digits [OF d(3)] show_dec_digit [OF d(1,2)] show_dec_digit [OF d(3,4)]
    by (simp_all add: q0_def)
  obtain k where k: "q0 = q @ replicate k CHR ''0''" using TrimRight_split [of q0 "CHR ''0''"] by (auto simp: q_def)
  have q: "list_all is_dec q" using q0(1) k by simp
  have "TrimRight (u @ show_cents m) CHR ''0'' = (u @ p) @ CHR ''.'' # q"
    using TrimRight_after [of "CHR ''.''" "CHR ''0''" "u @ p" q0] by (simp add: show_cents_def p_def q0_def q_def)
  moreover have "TrimRight ((u @ p) @ CHR ''.'' # q) CHR ''.'' = u @ decimal_text p q"
  proof (cases "q = []")
    case True
    have "last (u @ p) \<noteq> CHR ''.''" using digits_last [OF p] p(2) by simp
    then show ?thesis using True TrimRight_snoc_eq [of "u @ p" "CHR ''.''"] TrimRight_other [of "u @ p" "CHR ''.''"]
      by (simp add: decimal_text_def)
  next
    case False
    then show ?thesis using TrimRight_other [of "(u @ p) @ CHR ''.'' # q" "CHR ''.''"] digits_last [OF q False]
      by (simp add: decimal_text_def)
  qed
  ultimately have trimmed: "TrimRight (TrimRight (u @ show_cents m) CHR ''0'') CHR ''.'' = u @ decimal_text p q" by simp
  have "digits_value (p @ q0) = m"
  proof -
    have "digits_value p = m div 100" using m by (simp add: p_def digits_value_show)
    moreover have "digits_value q0 = m mod 100 div 10 * 10 + m mod 10"
    proof -
      have "length (show_dec (m mod 10)) = 1" using show_dec_digit [OF d(3,4)] by simp
      then show ?thesis using d by (simp add: q0_def digits_value_append digits_value_show)
    qed
    moreover have "m mod 100 div 10 * 10 + m mod 10 = m mod 100"
      using mult_div_mod_eq [of 10 "m mod 100"] by (simp add: mod_mod_cancel)
    ultimately show ?thesis using q0(2) mult_div_mod_eq [of 100 m] by (simp add: digits_value_append)
  qed
  then have "digits_value (p @ q) * 10 ^ k = m" using digits_value_zeros [of "p @ q" k] k by simp
  moreover have "length q + k = 2" using q0(2) k by simp
  then have "(10 :: rat) ^ length q * 10 ^ k = 100" by (simp flip: power_add)
  ultimately have "of_int (digits_value (p @ q)) / 10 ^ length q = (of_int m / 100 :: rat)"
    by (metis (no_types, opaque_lifting) mult_divide_mult_cancel_right of_int_mult of_int_numeral of_int_power power_not_zero zero_neq_numeral)
  then show thesis using that trimmed p q by blast
qed

lemma f64_of_sign: "f64_of s x = Inf64 s \<or> (\<exists>r. f64_of s x = F64 s r)"
  by (simp add: f64_of_def Let_def)

text \<open>
  C38: A number of the report, read back, is the value rounded to two decimals: the text has the value \<open>c / 100\<close> for the integer \<open>c\<close>
  nearest to a hundred times the value.
\<close>

theorem number_reads_back:
  assumes "0 \<le> a" and "a \<le> 2 ^ 1000"
  shows "ParseFloat (formatNumber (F64 s a)) = Some (f64_of s (of_int (round_even (a * 100)) / 100)) \<and>
    \<bar>of_int (round_even (a * 100)) / 100 - a\<bar> \<le> 1 / 200"
proof
  define m where "m = round_even (a * 100)"
  have b: "of_int m \<le> a * 100 + 1 / 2" "a * 100 - 1 / 2 \<le> of_int m"
    using round_even_bounds [of "a * 100"] by (simp_all add: m_def)
  then show "\<bar>of_int (round_even (a * 100)) / 100 - a\<bar> \<le> 1 / 200"
    unfolding m_def [symmetric] by (intro abs_leI) linarith+
  have m: "0 \<le> m" using round_even_mono [of 0 "a * 100"] round_even_of_int [of 0] assms(1) by (simp add: m_def)
  have "of_int m / 100 \<le> a + 1" using b by (simp add: field_simps)
  also have "\<dots> \<le> 2 ^ 1000 + 2 ^ 1000" using assms(2) by (intro add_mono) simp_all
  also have "\<dots> \<le> 2 ^ 1023" by simp
  finally have le: "of_int m / 100 \<le> (2 ^ 1023 :: rat)" .
  have v: "f64_of s (of_int m / 100) = F64 s (f64_round_abs (of_int m / 100))"
    using m le by (intro f64_of_small) simp_all
  obtain p q where t: "TrimRight (TrimRight ((if s then ''-'' else []) @ show_cents m) CHR ''0'') CHR ''.''
      = (if s then ''-'' else []) @ decimal_text p q"
    and pq: "list_all is_dec p" "p \<noteq> []" "list_all is_dec q"
      "of_int (digits_value (p @ q)) / 10 ^ length q = (of_int m / 100 :: rat)"
    using trim_cents [OF m] by blast
  have "formatNumber (F64 s a) = (if s then ''-'' else []) @ decimal_text p q"
    using t by (simp add: formatNumber_def m_def)
  then show "ParseFloat (formatNumber (F64 s a)) = Some (f64_of s (of_int (round_even (a * 100)) / 100))"
    using ParseFloat_decimal [OF pq(1-3), of s s] pq(4) v by (simp add: m_def)
qed

theorem number_reads_back_witness:
  "ParseFloat (formatNumber (F64 True (1234567 / 1024))) =
     Some (f64_of True (of_int (round_even (1234567 / 1024 * 100)) / 100)) \<and>
   \<bar>of_int (round_even (1234567 / 1024 * 100)) / 100 - 1234567 / 1024\<bar> \<le> (1 / 200 :: rat)"
  by (rule number_reads_back) simp_all

section \<open>The sign of the change\<close>

definition has_sign :: "float64 \<Rightarrow> bool \<Rightarrow> bool" where
  "has_sign v s \<longleftrightarrow> v = Inf64 s \<or> (\<exists>r\<ge>0. v = F64 s r)"

lemma has_sign_of: "0 \<le> x \<Longrightarrow> has_sign (f64_of s x) s"
  by (simp add: has_sign_def f64_of_def f64_round_abs_nonneg Let_def)

lemma has_sign_div: "has_sign v s \<Longrightarrow> 0 < a \<Longrightarrow> has_sign (f64_div v (F64 False a)) s"
  by (auto simp: has_sign_def [of v] zero_le_divide_iff intro!: has_sign_of) (simp add: has_sign_def)

lemma has_sign_mul: "has_sign v s \<Longrightarrow> 0 < a \<Longrightarrow> has_sign (f64_mul v (F64 False a)) s"
  by (auto simp: has_sign_def [of v] zero_le_mult_iff intro!: has_sign_of) (simp add: has_sign_def)

lemma FormatPlus2_sign: "has_sign v s \<Longrightarrow> hd (FormatPlus2 v) = (if s then CHR ''-'' else CHR ''+'') \<and> FormatPlus2 v \<noteq> []"
proof -
  assume "has_sign v s"
  then consider "v = Inf64 s" | r where "0 \<le> r" "v = F64 s r" by (auto simp: has_sign_def)
  then show ?thesis
  proof cases
    case 1
    then show ?thesis by (cases s) (simp_all add: FormatPlus2_def)
  next
    case 2
    then have "0 \<le> round_even (r * 100)" using round_even_mono [of 0 "r * 100"] round_even_of_int [of 0] by simp
    then have "0 \<le> round_even (r * 100) div 100" by simp
    from show_dec_cons [OF this] obtain c t where c: "show_dec (round_even (r * 100) div 100) = c # t" "is_dec c" .
    then show ?thesis using 2 is_dec_not [OF c(2)] by (cases s) (simp_all add: FormatPlus2_def show_cents_def Let_def)
  qed
qed

text \<open>
  The change that the report shows between two times has a minus sign exactly when the current time is smaller than the previous
  one, and a plus sign otherwise, however the quotient is rounded and even when it overflows.
\<close>

lemma delta_sign:
  assumes "0 < a" and "0 \<le> b"
  shows "hd (formatDelta (F64 False a) (F64 False b)) = (if b < a then CHR ''-'' else CHR ''+'')"
proof -
  have "has_sign (f64_sub (F64 False b) (F64 False a)) (b < a)"
    using assms by (auto simp: f64_sub_def signed_def Let_def intro: has_sign_of) (simp add: has_sign_def)
  then have "has_sign (f64_mul (f64_div (f64_sub (F64 False b) (F64 False a)) (F64 False a)) (F64 False 100)) (b < a)"
    using assms(1) by (intro has_sign_mul has_sign_div) simp_all
  from FormatPlus2_sign [OF this] show ?thesis using assms(1) by (simp add: formatDelta_def)
qed

lemma delta_sign_witness:
  "hd (formatDelta (F64 False 1932) (F64 False 1674)) = (if (1674 :: rat) < 1932 then CHR ''-'' else CHR ''+'')"
  by (rule delta_sign) simp_all

end
