(* ===== verification/Bench_Examples.thy ===== *)
theory Bench_Examples
  imports Bench_Run Bench_Numbers
begin

text \<open>
  The report tool on concrete inputs: the data of \<^verbatim>\<open>src/tools/benchreport/main_test.go\<close>, a machine on which every call succeeds, and two
  systems that share an identifier.
\<close>

definition no_tables :: unicode where
  "no_tables = \<lparr>u_letter = (\<lambda>_. False), u_digit = (\<lambda>_. False), u_lower = (\<lambda>r. r)\<rparr>"

section \<open>TestParseBenchmarkSamplesAndSummarize\<close>

definition test_output :: "char list" where
  "test_output = Join [''goos: darwin'', ''goarch: arm64'', ''pkg: mykv'', ''cpu: Apple M4 Pro'',
     ''BenchmarkCollectionPut-12       10  100.0 ns/op  20 B/op  2 allocs/op'',
     ''BenchmarkCollectionPut-12       10  120.0 ns/op  24 B/op  4 allocs/op'',
     ''BenchmarkCollectionPut-12       10  110.0 ns/op  22 B/op  3 allocs/op'', ''''] [newline]"

definition test_samples :: "benchmarkSample list" where
  "test_samples =
     [\<lparr>Iterations = 10, NSPerOp = F64 False 100, BytesPerOp = Some (F64 False 20), AllocsPerOp = Some (F64 False 2)\<rparr>,
      \<lparr>Iterations = 10, NSPerOp = F64 False 120, BytesPerOp = Some (F64 False 24), AllocsPerOp = Some (F64 False 4)\<rparr>,
      \<lparr>Iterations = 10, NSPerOp = F64 False 110, BytesPerOp = Some (F64 False 22), AllocsPerOp = Some (F64 False 3)\<rparr>]"

lemma test_parsed:
  "parseBenchmarkSamples test_output = map (\<lambda>s. \<lparr>ps_name = ''BenchmarkCollectionPut'', ps_sample = s\<rparr>) test_samples"
  by code_simp

lemma test_summary:
  "summarize (parseBenchmarkSamples test_output) =
     [\<lparr>Name = ''BenchmarkCollectionPut'', Samples = test_samples, MedianNSPerOp = F64 False 110,
       MedianBytesPerOp = Some (F64 False 22), MedianAllocsPerOp = Some (F64 False 3)\<rparr>]"
  unfolding test_parsed by code_simp

lemma test_system:
  "parseSystemInfo no_tables [] [] test_output =
     \<lparr>ID = ''darwin-arm64-apple-m4-pro'', GOOS = ''darwin'', GOARCH = ''arm64'', CPU = ''Apple M4 Pro''\<rparr>"
  by code_simp

theorem median_splits_samples_witness:
  "2 * length (filter (\<lambda>s. f64_val (NSPerOp s) < f64_val (median test_samples (\<lambda>s. (NSPerOp s, True)))) test_samples) \<le> 3 \<and>
   2 * length (filter (\<lambda>s. f64_val (median test_samples (\<lambda>s. (NSPerOp s, True))) < f64_val (NSPerOp s)) test_samples) \<le> 3"
proof -
  have "plain_float (F64 False (of_nat n))" if "n < 1000" for n
  proof -
    have "(of_nat n :: rat) \<le> 1000" using that by simp
    then have "f64_repr (of_nat n)" "(of_nat n :: rat) < 2 ^ 1024" "(of_nat n :: rat) \<le> 2 ^ 1022"
      using that f64_repr_nat [of n] by (simp_all add: order_le_less_trans order_trans)
    then show ?thesis by (simp add: plain_float_def signed_def)
  qed
  from this [of 100] this [of 120] this [of 110]
  have "\<forall>s\<in>set test_samples. plain_float (NSPerOp s)" by (simp add: test_samples_def)
  then show ?thesis using median_splits_samples [of test_samples] by (simp add: test_samples_def)
qed

section \<open>TestPreviousSameHardwareIgnoresDifferentCPU\<close>

definition empty_run :: storedRun where
  "empty_run = \<lparr>Version = 0, Timestamp = [], Command = [], GoVersion = [], GitCommit = [], GitDirty = None,
     System = \<lparr>ID = [], GOOS = ''darwin'', GOARCH = ''arm64'', CPU = ''Apple M4 Pro''\<rparr>, RawOutput = [], Results = [], DataFile = []\<rparr>"

definition current_run :: storedRun where
  "current_run = empty_run\<lparr>Timestamp := ''2026-06-26T12:00:00Z'', DataFile := ''runs/darwin-arm64-apple-m4-pro/current.json''\<rparr>"

definition matching_run :: storedRun where
  "matching_run = empty_run\<lparr>Timestamp := ''2026-06-26T11:00:00Z'', DataFile := ''runs/darwin-arm64-apple-m4-pro/previous.json''\<rparr>"

definition other_run :: storedRun where
  "other_run = empty_run\<lparr>Timestamp := ''2026-06-26T11:30:00Z'', DataFile := ''runs/darwin-arm64-apple-m3/previous.json'',
     System := (System empty_run)\<lparr>CPU := ''Apple M3''\<rparr>\<rparr>"

lemma test_previous: "previousSameHardware current_run [matching_run, other_run, current_run] = Some matching_run"
  by code_simp

theorem previous_is_latest_earlier_run_witness:
  "earlier_same_hardware current_run matching_run \<and>
   list_all (\<lambda>r. parseTime (Timestamp r) \<le> parseTime (Timestamp matching_run))
     (filter (earlier_same_hardware current_run) [matching_run, other_run, current_run])"
proof -
  let ?rs = "filter (earlier_same_hardware current_run) [matching_run, other_run, current_run]"
  have w: "matching_run \<in> set ?rs \<and> (\<forall>r\<in>set ?rs. parseTime (Timestamp r) \<le> parseTime (Timestamp matching_run))"
    using previous_is_latest_earlier_run [of current_run "[matching_run, other_run, current_run]"]
    unfolding test_previous option.case .
  then have "earlier_same_hardware current_run matching_run" unfolding set_filter by blast
  moreover have "list_all (\<lambda>r. parseTime (Timestamp r) \<le> parseTime (Timestamp matching_run)) ?rs"
    unfolding list_all_iff using w by blast
  ultimately show ?thesis by blast
qed

theorem latest_runs_by_system_witness:
  "latestRunsBySystem [matching_run, current_run] = [current_run] \<and>
   set (map (\<lambda>r. ID (System r)) (latestRunsBySystem [matching_run, current_run])) =
     (\<lambda>r. ID (System r)) ` set [matching_run, current_run]"
  using latest_runs_by_system [of "[matching_run, current_run]"] by (intro conjI) (code_simp, blast)

section \<open>Two systems with one identifier\<close>

definition pro_run :: storedRun where
  "pro_run = empty_run\<lparr>Timestamp := ''2026-06-26T11:00:00Z'', DataFile := ''runs/darwin-arm64-apple-m4-pro/a.json'',
     System := parseSystemInfo no_tables [] [] (Join [''goos: darwin'', ''goarch: arm64'', ''cpu: Apple M4 Pro''] [newline])\<rparr>"

definition dash_run :: storedRun where
  "dash_run = empty_run\<lparr>Timestamp := ''2026-06-26T12:00:00Z'', DataFile := ''runs/darwin-arm64-apple-m4-pro/b.json'',
     System := parseSystemInfo no_tables [] [] (Join [''goos: darwin'', ''goarch: arm64'', ''cpu: Apple M4-Pro (+)''] [newline])\<rparr>"


section \<open>A machine on which every call succeeds\<close>

definition test_clock :: civil where
  "test_clock = \<lparr>cyear = 2026, cmonth = 6, cday = 26, chour = 10, cminute = 41, csecond = 48\<rparr>"

text \<open>JSON is a text that names the run; the machine knows no other.\<close>

definition test_machine :: machine where
  "test_machine = \<lparr>m_unicode = no_tables, m_goos = ''linux'', m_goarch = ''amd64'', m_combined = (\<lambda>_. (test_output, False)),
     m_output = (\<lambda>_. None), m_clock = test_clock, m_mkdir_fails = (\<lambda>_. False), m_write = (\<lambda>_. Written), m_read_fails = (\<lambda>_. False),
     m_marshal = (\<lambda>r. Some (Timestamp r)), m_unmarshal = (\<lambda>s. None)\<rparr>"

definition stored_test_run :: storedRun where
  "stored_test_run = (new_run test_machine default_config test_output)\<lparr>
     RawOutput := raw_path ''darwin-arm64-apple-m4-pro'' (Format_stamp test_clock),
     DataFile := data_path ''darwin-arm64-apple-m4-pro'' (Format_stamp test_clock)\<rparr>"

definition full_machine :: machine where
  "full_machine = test_machine\<lparr>m_unmarshal := (\<lambda>s. Some (stored_test_run\<lparr>DataFile := []\<rparr>))\<rparr>"

lemma new_run_full: "new_run full_machine cfg out = new_run test_machine cfg out"
  by (simp add: full_machine_def new_run_def commandOutput_def gitDirty_def)

lemma test_run_id: "ID (System (new_run test_machine default_config test_output)) = ''darwin-arm64-apple-m4-pro''"
  by code_simp


theorem run_keeps_other_files_witness:
  "map_of (snd (bench_run full_machine default_config [(''runs/a/old.json'', ''x'')])) ''runs/a/old.json'' = Some ''x''"
proof -
  have "''runs/a/old.json'' \<noteq> raw_path ''darwin-arm64-apple-m4-pro'' (Format_stamp test_clock)"
    "''runs/a/old.json'' \<noteq> data_path ''darwin-arm64-apple-m4-pro'' (Format_stamp test_clock)"
    by (simp_all add: raw_path_def data_path_def)
  moreover have "m_clock full_machine = test_clock" "fst (m_combined full_machine (''go'' # bench_args default_config)) = test_output"
    by (simp_all add: full_machine_def test_machine_def)
  ultimately show ?thesis
    using run_keeps_other_files [of test_output full_machine default_config "''runs/a/old.json''" "[(''runs/a/old.json'', ''x'')]"]
    by (simp add: new_run_full test_run_id)
qed

end
