(* ===== verification/Test_Helpers.thy ===== *)
theory Test_Helpers
  imports Tx_View DB
begin

text \<open>
  \<^verbatim>\<open>src/testutils.go\<close>: the database, the items and the tree that the tests build, and the comparison of two trees. A failed
  assertion of \<open>assert\<close> lets the test go on, one of \<open>require\<close> ends it; both make the result \<open>False\<close>. The names of temporary files
  are random and not modelled.
\<close>

definition testPageSize :: int where
  "testPageSize = 4096"

definition testMinPercentage :: rat where
  "testMinPercentage = 2 / 10"

definition testMaxPercentage :: rat where
  "testMaxPercentage = 55 / 100"

definition testValSize :: nat where
  "testValSize = 255"

definition testCollectionName :: bytes where
  "testCollectionName = [116, 101, 115, 116, 49]"

definition test_options :: Options where
  "test_options = \<lparr>o_pageSize = testPageSize, MinFillPercent = f32_of_rat testMinPercentage, MaxFillPercent = f32_of_rat testMaxPercentage\<rparr>"

definition createTestDB :: "faults \<Rightarrow> int \<Rightarrow> disk \<Rightarrow> dal res \<times> disk" where
  "createTestDB io osPageSize dk = Open io osPageSize (Some test_options) dk"

section \<open>Items\<close>

definition memset :: "bytes \<Rightarrow> nat \<Rightarrow> bytes" where
  "memset buf count = concat (replicate count buf)"

definition createItem :: "bytes \<Rightarrow> bytes" where
  "createItem key = memset key testValSize"

definition createItems :: "bytes list \<Rightarrow> item list" where
  "createItems ks = map (\<lambda>key. let keyBuf = memset key testValSize in newItem keyBuf keyBuf) ks"

section \<open>The tree of the tests\<close>

text \<open>\<open>tx.writeNode(tx.newNode(createItems(...), children))\<close>\<close>

definition mock_node :: "bytes list \<Rightarrow> pgnum list \<Rightarrow> (tx, gonode) m" where
  "mock_node ks children =
     bindM (literal_items []) (\<lambda>s.
     bindM (append_each_item s (createItems ks)) (\<lambda>its.
     bindM (literal_pgs children) (\<lambda>cs.
     bindM (tx_newNode its cs) tx_writeNode)))"

definition mock_nodes :: "(tx, gonode) m" where
  "mock_nodes =
     bindM (mock_node [[48], [49]] []) (\<lambda>child0.
     bindM (mock_node [[51], [52]] []) (\<lambda>child1.
     bindM (mock_node [[54], [55], [56], [57]] []) (\<lambda>child2.
     mock_node [[50], [53]] [pageNum child0, pageNum child1, pageNum child2])))"

text \<open>The rest of \<open>createTestMockTree\<close>: the collection and the commit, on the database that \<open>createTestDB\<close> has opened.\<close>

definition createTestMockTree ::
  "faults \<Rightarrow> bytes list \<Rightarrow> (tx \<Rightarrow> pgnum list) \<Rightarrow> (nat \<Rightarrow> nat \<Rightarrow> nat) \<Rightarrow> dal \<Rightarrow> (collection res \<times> dal) option" where
  "createTestMockTree io co no g d =
     (case bindM mock_nodes (\<lambda>root. createCollection d (newCollection testCollectionName (pageNum root))) (newTx g d True) of
        None \<Rightarrow> None
      | Some (Inl e, _) \<Rightarrow> Some (Inl e, d)
      | Some (Inr expectedCollection, t) \<Rightarrow>
        (case Commit io co no d t of
           None \<Rightarrow> None
         | Some (Inl e, d) \<Rightarrow> Some (Inl e, d)
         | Some (Inr _, d) \<Rightarrow> Some (Inr expectedCollection, d)))"

section \<open>Comparing trees\<close>

definition areCollectionsEqual :: "collection \<Rightarrow> collection \<Rightarrow> bool" where
  "areCollectionsEqual c1 c2 \<longleftrightarrow> c_name c1 = c_name c2 \<and> c_root c1 = c_root c2 \<and> c_counter c1 = c_counter c2"

text \<open>The indexes are those of the first node; the caller has checked that the lengths agree.\<close>

definition areNodesEqual :: "content \<Rightarrow> content \<Rightarrow> bool" where
  "areNodesEqual n1 n2 \<longleftrightarrow>
     list_all (\<lambda>i. item_key (n_items n1 ! i) = item_key (n_items n2 ! i) \<and> item_value (n_items n1 ! i) = item_value (n_items n2 ! i))
       [0..<length (n_items n1)]"

text \<open>
  The recursion of \<open>areTreesEqualHelper\<close> with its pending calls: the pairs of pages whose nodes are still to be read and compared, the
  next one first. \<open>ok\<close> says whether all assertions so far held. The two trees belong to transactions on two databases.
\<close>

partial_function (option) areTreesEqualHelper ::
  "dal \<Rightarrow> dal \<Rightarrow> (pgnum \<times> pgnum) list \<Rightarrow> bool \<Rightarrow> tx \<Rightarrow> tx \<Rightarrow> (bool \<times> tx \<times> tx) option"
where
  "areTreesEqualHelper d1 d2 pending ok t1 t2 =
     (case pending of
        [] \<Rightarrow> Some (ok, t1, t2)
      | (p1, p2) # pending \<Rightarrow>
        (case tx_getNode d1 p1 t1 of
           None \<Rightarrow> None
         | Some (Inl _, t1) \<Rightarrow> Some (False, t1, t2)
         | Some (Inr n1, t1) \<Rightarrow>
           (case tx_getNode d2 p2 t2 of
              None \<Rightarrow> None
            | Some (Inl _, t2) \<Rightarrow> Some (False, t1, t2)
            | Some (Inr n2, t2) \<Rightarrow>
              let c1 = contents (mem t1) n1; c2 = contents (mem t2) n2 in
              if length (n_items c1) \<noteq> length (n_items c2) \<or> length (n_children c1) \<noteq> length (n_children c2)
              then Some (False, t1, t2)
              else areTreesEqualHelper d1 d2 (zip (n_children c1) (n_children c2) @ pending)
                     (ok \<and> areNodesEqual c1 c2) t1 t2)))"

definition areTreesEqual :: "dal \<Rightarrow> dal \<Rightarrow> collection \<Rightarrow> collection \<Rightarrow> tx \<Rightarrow> tx \<Rightarrow> (bool \<times> tx \<times> tx) option" where
  "areTreesEqual d1 d2 c1 c2 t1 t2 = areTreesEqualHelper d1 d2 [(c_root c1, c_root c2)] True t1 t2"

section \<open>The comparison decides equality\<close>

text \<open>Two trees with the same items in the same nodes, on whatever pages.\<close>

fun same_tree :: "btree \<Rightarrow> btree \<Rightarrow> bool" where
  "same_tree (BNode p1 its1 subs1) (BNode p2 its2 subs2) \<longleftrightarrow> its1 = its2 \<and> list_all2 same_tree subs1 subs2"

lemma same_tree_iff: "same_tree T1 T2 \<longleftrightarrow> bitems T1 = bitems T2 \<and> list_all2 same_tree (bsubs T1) (bsubs T2)"
  by (cases T1; cases T2) simp

lemma areNodesEqual_iff:
  "length (n_items n1) = length (n_items n2) \<Longrightarrow> areNodesEqual n1 n2 \<longleftrightarrow> n_items n1 = n_items n2"
proof -
  assume l: "length (n_items n1) = length (n_items n2)"
  have e: "item_key a = item_key b \<and> item_value a = item_value b \<longleftrightarrow> a = b" for a b :: item
    by (cases a; cases b) simp
  have "n_items n1 = n_items n2 \<longleftrightarrow> (\<forall>i<length (n_items n1). n_items n1 ! i = n_items n2 ! i)"
    unfolding list_eq_iff_nth_eq using l by blast
  then show ?thesis by (simp add: areNodesEqual_def e list_all_iff Ball_def)
qed

fun tree_nodes :: "btree \<Rightarrow> nat" where
  "tree_nodes (BNode p its subs) = Suc (sum_list (map tree_nodes subs))"

lemma tree_nodes_eq: "tree_nodes T = Suc (sum_list (map tree_nodes (bsubs T)))"
  by (cases T) simp

lemma tree_subs_at: "tree_at v T \<Longrightarrow> list_all (tree_at v) (bsubs T)"
  by (cases T) simp

lemma helper_spec:
  assumes "tx_ok t1" "tx_ok t2" "list_all (tree_at (tx_view d1 t1)) Ts1" "list_all (tree_at (tx_view d2 t2)) Ts2"
    and "length Ts1 = length Ts2"
  shows "\<exists>t1' t2'. areTreesEqualHelper d1 d2 (zip (map bpage Ts1) (map bpage Ts2)) ok t1 t2
      = Some (ok \<and> list_all2 same_tree Ts1 Ts2, t1', t2') \<and> reads t1 t1' \<and> reads t2 t2'"
  using assms
proof (induction "sum_list (map tree_nodes Ts1)" arbitrary: Ts1 Ts2 ok t1 t2 rule: less_induct)
  case less
  show ?case
  proof (cases Ts1)
    case Nil
    then show ?thesis using less.prems(5) by (subst areTreesEqualHelper.simps) (auto intro: reads_refl)
  next
    case (Cons T1 R1)
    then obtain T2 R2 where Ts2: "Ts2 = T2 # R2" using less.prems(5) by (cases Ts2) auto
    have v: "tx_view d1 t1 (bpage T1) = Some (bcontent T1)" "tx_view d2 t2 (bpage T2) = Some (bcontent T2)"
      using less.prems(3,4) Cons Ts2 tree_at_root by auto
    obtain n1 u1 where 1: "tx_getNode d1 (bpage T1) t1 = Some (Inr n1, u1)" "reads t1 u1" "contents (mem u1) n1 = bcontent T1"
      using tx_getNode_view [OF less.prems(1) v(1)] by metis
    obtain n2 u2 where 2: "tx_getNode d2 (bpage T2) t2 = Some (Inr n2, u2)" "reads t2 u2" "contents (mem u2) n2 = bcontent T2"
      using tx_getNode_view [OF less.prems(2) v(2)] by metis
    show ?thesis
    proof (cases "length (bitems T1) = length (bitems T2) \<and> length (bsubs T1) = length (bsubs T2)")
      case False
      then have "\<not> same_tree T1 T2" by (auto simp: same_tree_iff dest: list_all2_lengthD)
      then show ?thesis using False 1 2 Cons Ts2 by (subst areTreesEqualHelper.simps) (auto simp: Let_def)
    next
      case True
      let ?S1 = "bsubs T1 @ R1" and ?S2 = "bsubs T2 @ R2" and ?ok = "ok \<and> bitems T1 = bitems T2"
      have eq: "areNodesEqual (bcontent T1) (bcontent T2) \<longleftrightarrow> bitems T1 = bitems T2"
        using True by (simp add: areNodesEqual_iff)
      have step: "areTreesEqualHelper d1 d2 (zip (map bpage Ts1) (map bpage Ts2)) ok t1 t2 =
          areTreesEqualHelper d1 d2 (zip (map bpage ?S1) (map bpage ?S2)) ?ok u1 u2"
        using True 1 2 Cons Ts2 eq by (subst areTreesEqualHelper.simps) (simp add: Let_def)
      have "\<exists>t1' t2'. areTreesEqualHelper d1 d2 (zip (map bpage ?S1) (map bpage ?S2)) ?ok u1 u2
          = Some (?ok \<and> list_all2 same_tree ?S1 ?S2, t1', t2') \<and> reads u1 t1' \<and> reads u2 t2'"
      proof (rule less.hyps)
        show "sum_list (map tree_nodes ?S1) < sum_list (map tree_nodes Ts1)" using Cons tree_nodes_eq [of T1] by simp
        show "tx_ok u1" "tx_ok u2" using reads_ok 1(2) 2(2) less.prems(1,2) by blast+
        show "list_all (tree_at (tx_view d1 u1)) ?S1"
          using reads_view [OF 1(2) less.prems(1)] less.prems(3) Cons tree_subs_at by simp
        show "list_all (tree_at (tx_view d2 u2)) ?S2"
          using reads_view [OF 2(2) less.prems(2)] less.prems(4) Ts2 tree_subs_at by simp
        show "length ?S1 = length ?S2" using True less.prems(5) Cons Ts2 by simp
      qed
      moreover have "list_all2 same_tree Ts1 Ts2 \<longleftrightarrow> bitems T1 = bitems T2 \<and> list_all2 same_tree ?S1 ?S2"
        using True Cons Ts2 by (auto simp: same_tree_iff [of T1] list_all2_append)
      ultimately show ?thesis unfolding step using reads_trans [OF 1(2)] reads_trans [OF 2(2)] by fastforce
    qed
  qed
qed

text \<open>
  C39: The comparison of the tests returns, and passes exactly when the two collections have the same items in the same nodes; it changes
  neither transaction.
\<close>

theorem areTreesEqual_decides:
  assumes "tx_ok t1" and "tx_ok t2"
    and "tree_at (tx_view d1 t1) T1" "c_root c1 = bpage T1"
    and "tree_at (tx_view d2 t2) T2" "c_root c2 = bpage T2"
  shows "\<exists>t1' t2'. areTreesEqual d1 d2 c1 c2 t1 t2 = Some (same_tree T1 T2, t1', t2') \<and> reads t1 t1' \<and> reads t2 t2'"
  using helper_spec [of t1 t2 d1 "[T1]" d2 "[T2]" True] assms by (simp add: areTreesEqual_def)

theorem areTreesEqual_decides_witness:
  "\<exists>t1' t2'. areTreesEqual ex_db ex_db (newCollection [9] 3) (newCollection [9] 3) ex_tx ex_tx = Some (True, t1', t2')"
proof -
  let ?T = "BNode 3 [newItem [1] [7]] []"
  have ok: "tx_ok ex_tx"
    by (auto simp: tx_ok_def gvalid_def svalid_def tx_used_def freelist_used_def ex_leaf_def) (simp_all add: ex_tx_def newTx_def)
  have "tree_at (tx_view ex_db ex_tx) ?T" by (simp add: tx_view_def NewNodeForSerialization_def)
  from areTreesEqual_decides [OF ok ok this _ this, of "newCollection [9] 3" "newCollection [9] 3"] show ?thesis
    by (auto simp: newCollection_def)
qed

section \<open>Sizes\<close>

lemma round_even_up:
  assumes "of_int m - 1 / 2 < q" and "q < of_int m" shows "round_even q = m"
proof -
  have "\<lfloor>q\<rfloor> = m - 1" by (rule floor_unique) (use assms in simp_all)
  then show ?thesis using assms by (simp add: round_even_def)
qed

lemma test_fill_percents:
  "f32_of_rat testMinPercentage = Fin (13421773 / 67108864)" "f32_of_rat testMaxPercentage = Fin (9227469 / 16777216)"
proof -
  have "f32_round_abs (2 / 10) = of_int (round_even (2 / 10 * 2 ^ 149 / 2 ^ 123)) * 2 ^ 123 / 2 ^ 149"
    by (rule f32_round_abs_bits) simp_all
  moreover have "round_even (2 / 10 * 2 ^ 149 / 2 ^ 123) = 13421773"
    by (rule round_even_up) simp_all
  ultimately have "f32_round_abs (2 / 10) = 13421773 / 67108864" by simp
  then show "f32_of_rat testMinPercentage = Fin (13421773 / 67108864)" by (simp add: f32_of_rat_def testMinPercentage_def Let_def)
  have "f32_round_abs (55 / 100) = of_int (round_even (55 / 100 * 2 ^ 149 / 2 ^ 125)) * 2 ^ 125 / 2 ^ 149"
    by (rule f32_round_abs_bits) simp_all
  moreover have "round_even (55 / 100 * 2 ^ 149 / 2 ^ 125) = 9227469" by (rule round_even_up) simp_all
  ultimately have "f32_round_abs (55 / 100) = 9227469 / 16777216" by simp
  then show "f32_of_rat testMaxPercentage = Fin (9227469 / 16777216)" by (simp add: f32_of_rat_def testMaxPercentage_def Let_def)
qed

lemma test_thresholds:
  assumes "pageSize d = 4096" "minFillPercent d = f32_of_rat testMinPercentage" "maxFillPercent d = f32_of_rat testMaxPercentage"
  shows "minThreshold d = Fin (13421773 / 16384)" and "maxThreshold d = Fin (9227469 / 4096)"
proof -
  have p: "f32_of_int (int 4096) = Fin 4096" using f32_of_int_exact [of 4096] by simp
  have "f32_of_rat (13421773 / 16384) = Fin (13421773 / 16384)" "f32_of_rat (9227469 / 4096) = Fin (9227469 / 4096)"
    using f32_round_abs_dyadic [of 13421773 14] f32_round_abs_dyadic [of 9227469 12] by (simp_all add: f32_of_rat_def Let_def)
  then show "minThreshold d = Fin (13421773 / 16384)" "maxThreshold d = Fin (9227469 / 4096)"
    using assms p by (simp_all add: minThreshold_def maxThreshold_def test_fill_percents)
qed

lemma length_memset: "length (memset buf count) = count * length buf"
  by (simp add: memset_def length_concat sum_list_replicate)

lemma mock_leaf_size:
  assumes "list_all (\<lambda>k. length k = 1) ks"
  shows "nodeSize (NewNodeForSerialization (createItems ks) []) = 11 + 518 * length ks"
proof -
  have "elementSize (NewNodeForSerialization (createItems ks) []) i = 518" if "i < length ks" for i
    using assms that
    by (simp add: elementSize_def NewNodeForSerialization_def createItems_def newItem_def Let_def length_memset testValSize_def list_all_length)
  then have "(\<Sum>i\<leftarrow>[0..<length ks]. elementSize (NewNodeForSerialization (createItems ks) []) i) = (\<Sum>i\<leftarrow>[0..<length ks]. 518)"
    by (intro arg_cong [where f = sum_list] map_cong) simp_all
  then show ?thesis by (simp add: nodeSize_def NewNodeForSerialization_def createItems_def sum_list_triv)
qed

text \<open>
  The sizes of the tests are what their comment says: with the options of \<open>createTestDB\<close>, a leaf of items made by \<open>createItems\<close> is
  under-populated exactly when it has fewer than two and over-populated exactly when it has more than four.
\<close>

lemma test_leaf_has_two_to_four_items:
  assumes "pageSize d = 4096" "minFillPercent d = f32_of_rat testMinPercentage" "maxFillPercent d = f32_of_rat testMaxPercentage"
    and "list_all (\<lambda>k. length k = 1) ks" and "length ks \<le> 30000"
  shows "(isUnderPopulated d (NewNodeForSerialization (createItems ks) []) \<longleftrightarrow> length ks < 2) \<and>
    (isOverPopulated d (NewNodeForSerialization (createItems ks) []) \<longleftrightarrow> 4 < length ks)"
proof -
  let ?n = "11 + 518 * length ks"
  have "?n < 2 ^ 24" using assms(5) by simp
  then have s: "f32_of_int (int ?n) = Fin (of_nat ?n)" by (rule f32_of_int_exact)
  have under: "(of_nat ?n :: rat) < 13421773 / 16384 \<longleftrightarrow> length ks < 2"
  proof -
    have "(of_nat ?n :: rat) < 13421773 / 16384 \<longleftrightarrow> ?n * 16384 < 13421773"
      by (simp add: less_divide_eq) (metis (mono_tags) of_nat_less_numeral_iff of_nat_numeral of_nat_mult of_nat_add)
    then show ?thesis by linarith
  qed
  have over: "9227469 / 4096 < (of_nat ?n :: rat) \<longleftrightarrow> 4 < length ks"
  proof -
    have "9227469 / 4096 < (of_nat ?n :: rat) \<longleftrightarrow> 9227469 < ?n * 4096"
      by (simp add: divide_less_eq) (metis (mono_tags) of_nat_less_iff of_nat_numeral of_nat_mult of_nat_add)
    then show ?thesis by linarith
  qed
  show ?thesis
    unfolding isUnderPopulated_def isOverPopulated_def mock_leaf_size [OF assms(4)] s test_thresholds [OF assms(1-3)]
    using under over by simp
qed

definition test_dal :: dal where
  "test_dal = \<lparr>pageSize = 4096, minFillPercent = f32_of_rat testMinPercentage, maxFillPercent = f32_of_rat testMaxPercentage,
     fileOpen = True, d_disk = \<lparr>dbfile = Some [], walfile = None\<rparr>, d_meta = \<lparr>m_root = 2, m_freelistPage = 1\<rparr>,
     d_freelist = \<lparr>maxPage = 2, releasedPages = []\<rparr>\<rparr>"

lemma test_leaf_has_two_to_four_items_witness:
  "\<not> isUnderPopulated test_dal (NewNodeForSerialization (createItems [[54], [55], [56], [57]]) []) \<and>
   \<not> isOverPopulated test_dal (NewNodeForSerialization (createItems [[54], [55], [56], [57]]) [])"
  using test_leaf_has_two_to_four_items [of test_dal "[[54], [55], [56], [57]]"] by (simp add: test_dal_def)

section \<open>The mock tree\<close>

text \<open>One node: new arrays, a new page, and nothing else changes.\<close>

lemma mock_node_spec:
  assumes "tx_ok t" and "tx_freelist t = Some fr" and "freelist_inv fr" and "freelist_room fr (Suc k)"
  obtains n t' fr' where "mock_node ks children t = Some (Inr n, t')" and "tx_ok t'" and "tx_freelist t' = Some fr'"
    and "freelist_inv fr'" and "freelist_room fr' k" and "freelist_used fr' = insert (pageNum n) (freelist_used fr)"
    and "pageNum n \<notin> freelist_used fr"
    and "tx_view d t' = (tx_view d t)(pageNum n \<mapsto> \<lparr>n_items = createItems ks, n_children = children\<rparr>)"
proof -
  obtain q fr' where q: "getNextPage fr = (q, fr')" by fastforce
  note g = getNextPage_spec [OF assms(3,4) q]
  let ?h0 = "itemArrays (mem t)"
  obtain h1 s1 where l: "sliteral ?h0 [] = (h1, s1)" by fastforce
  note v1 = svalid_alloc [OF l [unfolded sliteral_def]]
  let ?t1 = "t\<lparr>mem := (mem t)\<lparr>itemArrays := h1\<rparr>\<rparr>"
  have e1: "mem_ext ?h0 h1" using l mem_ext_alloc by (simp add: sliteral_def)
  obtain h2 s2 where a: "append_each_item s1 (createItems ks) ?t1 = Some (Inr s2, ?t1\<lparr>mem := (mem ?t1)\<lparr>itemArrays := h2\<rparr>\<rparr>)"
    "mem_ext ?h0 h2" "svalid h2 s2" "scontent h2 s2 = createItems ks"
    using append_each_item_spec [of ?t1 s1 ?h0 "createItems ks"] v1 e1 by auto
  obtain g1 r1 where m: "sliteral (pgArrays (mem t)) children = (g1, r1)" by fastforce
  note w = svalid_alloc [OF m [unfolded sliteral_def]]
  let ?n = "\<lparr>pageNum = q, items = s2, childNodes = r1\<rparr>"
  let ?m = "(mem t)\<lparr>itemArrays := h2, pgArrays := g1\<rparr>"
  let ?t = "t\<lparr>mem := ?m, tx_freelist := Some fr', dirtyNodes := (dirtyNodes t)(q \<mapsto> ?n)\<rparr>"
  have ext: "gmem_ext (mem t) ?m"
    using a(2) mem_ext_alloc [of "pgArrays (mem t)" children "length children" g1 r1] m by (simp add: gmem_ext_def sliteral_def)
  have n: "gvalid ?m ?n" "contents ?m ?n = \<lparr>n_items = createItems ks, n_children = children\<rparr>"
    using a w by (simp_all add: gvalid_def contents_def)
  have old: "pageNum x = p \<and> gvalid ?m x \<and> contents ?m x = contents (mem t) x" if "dirtyNodes t p = Some x" for p x
    using assms(1) that gmem_ext_node [OF ext] by (simp add: tx_ok_def)
  have "tx_used t = freelist_used fr" "tx_used ?t = insert q (freelist_used fr)" using assms(2) g by (simp_all add: tx_used_def)
  then have ok: "tx_ok ?t" unfolding tx_ok_def using old n(1) assms(1) by (auto simp: tx_ok_def)
  have view: "tx_view d ?t = (tx_view d t)(q \<mapsto> \<lparr>n_items = createItems ks, n_children = children\<rparr>)"
  proof
    show "tx_view d ?t p = ((tx_view d t)(q \<mapsto> \<lparr>n_items = createItems ks, n_children = children\<rparr>)) p" for p
      using old n(2) by (auto simp: tx_view_def split: option.split)
  qed
  have "mock_node ks children t = Some (Inr ?n, ?t)"
    using l a(1) m q assms(2)
    by (simp add: mock_node_def bindM_def literal_items_def literal_pgs_def tx_newNode_def tx_writeNode_def)
  then show thesis using that [of ?n ?t fr'] ok g view by simp
qed

text \<open>
  The tree that the tests build by hand is a tree of the program: in any write transaction with four free pages it takes four new
  pages, is balanced with three leaves, and holds the ten items from \<open>0\<close> to \<open>9\<close> in their order, so that the lemmas on the search apply to it.
\<close>

lemma mock_tree_is_a_tree:
  assumes "tx_ok t" and "tx_freelist t = Some fr" and "freelist_inv fr" and "freelist_room fr 4"
  shows "\<exists>root t' T. mock_nodes t = Some (Inr root, t') \<and> tx_ok t' \<and> pageNum root = bpage T \<and> tree_at (tx_view d t') T \<and>
    bal 1 T \<and> length (bsubs T) = 3 \<and> set (page_list T) \<inter> freelist_used fr = {} \<and>
    inorder T = createItems [[48], [49], [50], [51], [52], [53], [54], [55], [56], [57]]"
proof -
  have "freelist_room fr (Suc 3)" using assms(4) by simp
  from mock_node_spec [OF assms(1-3) this, of "[[48], [49]]" "[]" d]
  obtain c0 t0 f0 where 0: "mock_node [[48], [49]] [] t = Some (Inr c0, t0)" "tx_ok t0" "tx_freelist t0 = Some f0" "freelist_inv f0"
    "freelist_room f0 (Suc 2)" "freelist_used f0 = insert (pageNum c0) (freelist_used fr)" "pageNum c0 \<notin> freelist_used fr"
    "tx_view d t0 = (tx_view d t)(pageNum c0 \<mapsto> \<lparr>n_items = createItems [[48], [49]], n_children = []\<rparr>)"
    by (metis eval_nat_numeral(3))
  from mock_node_spec [OF 0(2-5), of "[[51], [52]]" "[]" d]
  obtain c1 t1 f1 where 1: "mock_node [[51], [52]] [] t0 = Some (Inr c1, t1)" "tx_ok t1" "tx_freelist t1 = Some f1" "freelist_inv f1"
    "freelist_room f1 (Suc 1)" "freelist_used f1 = insert (pageNum c1) (freelist_used f0)" "pageNum c1 \<notin> freelist_used f0"
    "tx_view d t1 = (tx_view d t0)(pageNum c1 \<mapsto> \<lparr>n_items = createItems [[51], [52]], n_children = []\<rparr>)"
    by (metis Suc_1)
  from mock_node_spec [OF 1(2-5), of "[[54], [55], [56], [57]]" "[]" d]
  obtain c2 t2 f2 where 2: "mock_node [[54], [55], [56], [57]] [] t1 = Some (Inr c2, t2)" "tx_ok t2" "tx_freelist t2 = Some f2" "freelist_inv f2"
    "freelist_room f2 (Suc 0)" "freelist_used f2 = insert (pageNum c2) (freelist_used f1)" "pageNum c2 \<notin> freelist_used f1"
    "tx_view d t2 = (tx_view d t1)(pageNum c2 \<mapsto> \<lparr>n_items = createItems [[54], [55], [56], [57]], n_children = []\<rparr>)"
    by (metis One_nat_def)
  from mock_node_spec [OF 2(2-5), of "[[50], [53]]" "[pageNum c0, pageNum c1, pageNum c2]" d]
  obtain c3 t3 f3 where 3: "mock_node [[50], [53]] [pageNum c0, pageNum c1, pageNum c2] t2 = Some (Inr c3, t3)" "tx_ok t3"
    "pageNum c3 \<notin> freelist_used f2"
    "tx_view d t3 = (tx_view d t2)(pageNum c3 \<mapsto>
       \<lparr>n_items = createItems [[50], [53]], n_children = [pageNum c0, pageNum c1, pageNum c2]\<rparr>)"
    by metis
  let ?T = "BNode (pageNum c3) (createItems [[50], [53]])
     [BNode (pageNum c0) (createItems [[48], [49]]) [], BNode (pageNum c1) (createItems [[51], [52]]) [],
      BNode (pageNum c2) (createItems [[54], [55], [56], [57]]) []]"
  have "mock_nodes t = Some (Inr c3, t3)" using 0(1) 1(1) 2(1) 3(1) by (simp add: mock_nodes_def bindM_def)
  moreover have ne: "pageNum c1 \<noteq> pageNum c0" "pageNum c2 \<noteq> pageNum c0" "pageNum c2 \<noteq> pageNum c1"
    "pageNum c3 \<noteq> pageNum c0" "pageNum c3 \<noteq> pageNum c1" "pageNum c3 \<noteq> pageNum c2"
    using 0(6) 1(6,7) 2(6,7) 3(3) by auto
  have "tree_at (tx_view d t3) ?T" unfolding 3(4) 2(8) 1(8) 0(8) using ne ne [symmetric] by simp
  moreover have "set (page_list ?T) \<inter> freelist_used fr = {}" using 0(6,7) 1(6,7) 2(6,7) 3(3) by auto
  moreover have "inorder ?T = createItems [[48], [49], [50], [51], [52], [53], [54], [55], [56], [57]]" "bal 1 ?T"
    by (simp_all add: createItems_def)
  ultimately show ?thesis using 3(2) by (intro exI [of _ c3] exI [of _ t3] exI [of _ ?T]) simp
qed

end
