(* ===== verification/Spec2Isabelle.thy ===== *)
theory Spec2Isabelle
  imports Kv_Delete Defects Bench_Examples Test_Helpers
begin

text \<open>
  A model of mykv, an embedded key-value store in Go, and the theorems about it.

  \<^bold>\<open>The program.\<close> A database is one file of fixed-size pages. Page 0 is the header (\<^verbatim>\<open>src/meta.go\<close>), one page holds
  the free list (\<^verbatim>\<open>src/freelist.go\<close>), the others hold the nodes of B-trees (\<^verbatim>\<open>src/node.go\<close>). Every collection is
  a B-tree (\<^verbatim>\<open>src/collection.go\<close>); the root collection maps the names of the others to their metadata. A transaction
  (\<^verbatim>\<open>src/tx.go\<close>) keeps the nodes it changed in memory and takes new page numbers from a copy of the free list; a commit
  writes all changed pages, the free list and the header through a redo log (\<^verbatim>\<open>src/wal.go\<close>) into the file, with the page
  input and output of \<^verbatim>\<open>src/dal.go\<close>. \<^verbatim>\<open>src/db.go\<close> opens databases and has the two locks, one for writers and one
  that keeps commits and readers apart; \<^verbatim>\<open>src/cmd/mykv/main.go\<close> is a command-line tool with \<open>put\<close>, \<open>get\<close> and \<open>delete\<close>.
  Apart from the store, \<^verbatim>\<open>src/tools/benchreport\<close> runs the benchmarks, stores their results and writes a report that compares
  them with earlier runs, and \<^verbatim>\<open>src/testutils.go\<close> has what the tests share.

  \<^bold>\<open>The language.\<close> \<open>Mykv_Prelude\<close> has the machine types, the errors of \<^verbatim>\<open>src/const.go\<close> together with the panics of the run
  time, results as sums, and the composition of steps that may fail (\<open>bindM\<close>: a step over a state returns \<open>None\<close> when it does not
  return, else an error or a value with the new state). \<open>Go_Slice\<close> models slices over shared backing arrays with Go's
  in-place \<open>append\<close>; the growth policy of the run time is an argument. \<open>Go_Float\<close> models \<open>float32\<close> with rounding, \<open>Go_File\<close>
  the files, where every system call can fail and a write can be cut short (\<open>faults\<close>). Iteration over a Go map has no
  order; the loops over maps take the order as an argument (\<open>co\<close>, \<open>no\<close>) and the theorems hold for all of them.

  \<^bold>\<open>The model,\<close> in the order of the code, each with the names of the source:
  \<^item> \<open>Freelist\<close> and \<open>Meta\<close>: the allocator and the header with their page formats.
  \<^item> \<open>Node\<close>: sizes, validation, the search inside a node, the slotted page format. \<open>Node_Ops\<close>: the search down the tree,
    insertion, split, rotations, merge and removal, statement by statement over slices.
  \<^item> \<open>Dal\<close> and \<open>Wal\<close>: pages at 64-bit offsets that wrap, the thresholds, the redo log and its recovery, opening and
    creating a database (\<open>newDal\<close>).
  \<^item> \<open>Tx_Base\<close>, \<open>Collection\<close>, \<open>Tx\<close>: the transaction object, \<open>Put\<close>, \<open>Find\<close>, \<open>Remove\<close>, collections, \<open>Commit\<close>. A node object or a
    collection handle is a value that the operations return updated; the source stores each of them back (\<open>writeNode\<close>,
    \<open>trackCollection\<close>) before anything else can look at it.
  \<^item> \<open>DB\<close>: options, opening, the locks as a step relation over any number of concurrent transactions, the tool.
  \<^item> \<open>Test_Helpers\<close>: the options, items and hand-built tree of the tests and their comparison of trees.
  \<^item> \<open>Bench_Parse\<close>, \<open>Bench_Report\<close>, \<open>Bench_Run\<close>: the report tool. They rest on what it uses of Go's library: \<open>Go_Strings\<close> (UTF-8 and the
    packages \<open>strings\<close> and \<open>strconv\<close> on strings of bytes), \<open>Go_Sort\<close> (sorting with a comparison), \<open>Go_Float64\<close> and \<open>Go_Float_Text\<close>
    (arithmetic with rounding, parsing and printing), \<open>Go_Time\<close> (RFC 3339 and the calendar). The machine is an argument: what the
    commands print, the clock, the calls that fail, the Unicode tables above ASCII, and \<open>encoding/json\<close>.

  \<^bold>\<open>The theorems.\<close>
  \<^item> Storage: round trips of every page format, the allocator, reading back written pages (\<open>Freelist\<close>, \<open>Meta\<close>, \<open>Node\<close>, \<open>Wal\<close>).
    Crash safety: \<open>Wal\<close> describes what the two files may hold when a commit stops at any point, with torn writes, and
    proves that recovery, itself interrupted any number of times, ends in the state before or after the commit.
  \<^item> B-trees: \<open>Btree\<close> has the abstract trees of pages and their items in order, \<open>Btree_Edit\<close> and \<open>Split_Point\<close> insertion and splitting
    on them. \<open>Tx_View\<close> says what a transaction sees of the pages and relates the search to the tree; \<open>Node_Split\<close>, \<open>Tree_Split\<close> and
    \<open>Btree_Put\<close> do the same for \<open>Put\<close>, with the ownership of slice memory that its in-place appends need. \<open>Kv_Store\<close> states
    the interface \<open>kv_store\<close>, a map with lookup and update, and interprets it on \<open>Find\<close> and \<open>Put\<close>.
  \<^item> Deletion: \<open>Tree_Delete\<close> and \<open>Btree_Remove\<close> take an item out of a tree and of its pages. \<open>Tree_Rebalance\<close> has rotations and merges of
    trees and the walk up, \<open>rebalance_path\<close>, as a function on trees with what it keeps; \<open>Node_Rebalance\<close> shows what \<open>rotateRight\<close>,
    \<open>rotateLeft\<close> and \<open>merge\<close> do to slices in memory, \<open>Tx_Rebalance\<close> that \<open>rebalanceRemove\<close> is one step of the walk, \<open>Remove_Rebalance\<close> that \<open>Remove\<close> is
    all of it. \<open>Given_Up\<close> bounds the nodes that merges give up, which a commit still writes. \<open>Kv_Erase\<close> extends the interface with deletion
    (\<open>kv_erase_store\<close>) and interprets it.
  \<^item> Whole transactions: \<open>Db_Store\<close> has the invariant of a database as a map from collection names to trees and the lemmas on
    flush and commit, \<open>New_Collection\<close> the creation of a collection, \<open>Kv_Database\<close> the transaction that puts one item and the one that
    looks one up, \<open>Kv_Delete\<close> the one that removes one. \<open>Kv_Cli\<close> reopens databases and interprets \<open>kv_store\<close> a second time, on database files and runs of the tool.
  \<^item> Concurrency: \<open>DB\<close> proves the isolation invariant of the lock protocol.
  \<^item> The report tool: \<open>Bench_Input\<close> proves that printed lines are read back, \<open>Bench_Parse\<close> that the summary groups the samples and that
    medians split them, \<open>Bench_Report\<close> which runs are compared and listed, \<open>Bench_Numbers\<close> what the printed numbers mean, \<open>Bench_Run\<close>
    that a run stores itself, reports on all runs and touches nothing else. The locale \<open>sort_order\<close> of \<open>Go_Sort\<close> is interpreted on the
    four comparisons of the tool. \<open>Bench_Examples\<close> evaluates the data of \<^verbatim>\<open>main_test.go\<close> and two processors that share an identifier.
  \<^item> \<open>Defects\<close> evaluates three behaviours that lose items and two that block a commit. They are why the lemmas on \<open>Put\<close> ask for
    \<open>put_safe\<close>, which holds at the first \<open>Put\<close> of a transaction into a collection. A \<open>Remove\<close> is described wherever the item is in a leaf
    or the descent to its predecessor, which takes the index of the last child of the node it starts from at every level, meets the last
    child at each: by \<open>remove_rebalances\<close> when no two changed nodes share memory (\<open>path_owned t UNIV\<close>, which holds in a new transaction
    and which \<open>Remove\<close> keeps), and with \<open>remove_safe\<close>, on the nodes it writes only, when nothing gets under-populated (\<open>remove_ok\<close>). It keeps the
    collection sound (\<open>rebalance_ok\<close>) unless the root vanishes after a removal below its second child (\<open>wrong_root\<close>) or a node grows too large.

  \<^bold>\<open>Bounds.\<close> \<open>findKeyHelper\<close> and the descent of \<open>removeItemFromInternal\<close> are partial functions, since pages that form a cycle make them
  run forever; \<open>find_returns\<close> and the theorems on \<open>Put\<close> prove that they return on trees. No fuel is used. \<open>fill\<close> asks of the
  thresholds that a node too large by one item can be split into halves that fit; \<open>db_config\<close> adds that no internal
  node overflows its page, which \<open>elementSize\<close> does not rule out: the upper threshold is at most two thirds of a page, or the trees
  have few items. The default options with pages of 4096 bytes are of the second kind, hence the limit of fifty in
  \<open>commands_keep_every_value\<close>. \<open>db_room\<close> keeps page numbers and file offsets far from their 63-bit limits.

  \<^bold>\<open>Not modelled.\<close> Parsing of flags and printing in the two tools; memory exhaustion; a caller that changes a key or value slice after
  passing it in (keys and values are byte lists). Of the report tool: the encoding of \<open>encoding/json\<close>, of which only the round trip of the
  stored run is used, and directories (a path is a name; creating a directory succeeds or fails). Of the tests: the names of
  temporary and expected files, and the tests themselves.
\<close>

end
